(* ===== verification/Prelude.thy ===== *)
theory Prelude
  imports Main "HOL-Library.Word"
begin

text \<open>
  Shared vocabulary of the development: the machine-integer types of the C sources, the
  lemma collections the component theories feed, and the generic facts on lists, options
  and words that several components use.
\<close>

section \<open>Machine types\<close>

text \<open>The fixed-width C integer types; \<open>size_t\<close> is that of the 64-bit targets.\<close>

type_synonym byte = "8 word"
type_synonym u16 = "16 word"
type_synonym u32 = "32 word"
type_synonym u64 = "64 word"
type_synonym size_t = "64 word"

section \<open>Lemma collections\<close>

named_theorems len_simps \<open>how operations change lengths and fill levels\<close>
named_theorems frame_simps \<open>fields an operation leaves alone\<close>

section \<open>Words and natural numbers\<close>

lemma unat_of_nat_small [simp]:
  "n < 2 ^ LENGTH('a) \<Longrightarrow> unat (of_nat n :: 'a::len word) = n"
  by (simp add: unat_of_nat take_bit_nat_eq_self)

lemma of_nat_word_less_iff:
  assumes "m < 2 ^ LENGTH('a)" and "n < 2 ^ LENGTH('a)"
  shows "(of_nat m :: 'a::len word) < of_nat n \<longleftrightarrow> m < n"
  using assms by (simp add: word_less_nat_alt)

lemma of_nat_word_le_iff:
  assumes "m < 2 ^ LENGTH('a)" and "n < 2 ^ LENGTH('a)"
  shows "(of_nat m :: 'a::len word) \<le> of_nat n \<longleftrightarrow> m \<le> n"
  using assms by (simp add: word_le_nat_alt)

lemma of_nat_word_eq_0_iff:
  assumes "n < 2 ^ LENGTH('a)"
  shows "(of_nat n :: 'a::len word) = 0 \<longleftrightarrow> n = 0"
  using assms by (simp add: unat_eq_0 [symmetric] del: unat_eq_0)

lemma unat_ucast_up:
  fixes x :: "'a::len word"
  assumes "LENGTH('a) \<le> LENGTH('b)"
  shows "unat (ucast x :: 'b::len word) = unat x"
proof -
  have "unat x < 2 ^ LENGTH('a)" by (rule unsigned_less)
  also have "(2 :: nat) ^ LENGTH('a) \<le> 2 ^ LENGTH('b)" using assms by (intro power_increasing) auto
  finally show ?thesis by (simp add: unsigned_ucast_eq take_bit_nat_eq_self)
qed

section \<open>Bits of the constants the code masks with\<close>

unbundle bit_operations_syntax

lemma bit_consts:
  "bit (0xF :: 'a::len word) n \<longleftrightarrow> n < 4 \<and> n < LENGTH('a)"
  "bit (0x7F :: 'a word) n \<longleftrightarrow> n < 7 \<and> n < LENGTH('a)"
  "bit (0xFF :: 'a word) n \<longleftrightarrow> n < 8 \<and> n < LENGTH('a)"
  "bit (0x3F :: 'a word) n \<longleftrightarrow> n < 6 \<and> n < LENGTH('a)"
  "bit (0x1F :: 'a word) n \<longleftrightarrow> n < 5 \<and> n < LENGTH('a)"
  "bit (0x10 :: 'a word) n \<longleftrightarrow> n = 4 \<and> n < LENGTH('a)"
  "bit (0x20 :: 'a word) n \<longleftrightarrow> n = 5 \<and> n < LENGTH('a)"
  "bit (0x80 :: 'a word) n \<longleftrightarrow> n = 7 \<and> n < LENGTH('a)"
proof -
  have c: "(0xF :: 'a::len word) = Bit_Operations.mask 4" "(0x7F :: 'a word) = Bit_Operations.mask 7"
    "(0xFF :: 'a word) = Bit_Operations.mask 8" "(0x3F :: 'a word) = Bit_Operations.mask 6"
    "(0x1F :: 'a word) = Bit_Operations.mask 5"
    "(0x10 :: 'a word) = push_bit 4 1" "(0x20 :: 'a word) = push_bit 5 1" "(0x80 :: 'a word) = push_bit 7 1"
    by (simp_all add: mask_eq_exp_minus_1 push_bit_eq_mult)
  show "bit (0xF :: 'a::len word) n \<longleftrightarrow> n < 4 \<and> n < LENGTH('a)"
    "bit (0x7F :: 'a word) n \<longleftrightarrow> n < 7 \<and> n < LENGTH('a)"
    "bit (0xFF :: 'a word) n \<longleftrightarrow> n < 8 \<and> n < LENGTH('a)"
    "bit (0x3F :: 'a word) n \<longleftrightarrow> n < 6 \<and> n < LENGTH('a)"
    "bit (0x1F :: 'a word) n \<longleftrightarrow> n < 5 \<and> n < LENGTH('a)"
    "bit (0x10 :: 'a word) n \<longleftrightarrow> n = 4 \<and> n < LENGTH('a)"
    "bit (0x20 :: 'a word) n \<longleftrightarrow> n = 5 \<and> n < LENGTH('a)"
    "bit (0x80 :: 'a word) n \<longleftrightarrow> n = 7 \<and> n < LENGTH('a)"
    unfolding c by (auto simp only: bit_mask_iff bit_push_bit_iff bit_1_iff possible_bit_word)
qed

lemma and_neq_0_iff: "x AND y \<noteq> 0 \<longleftrightarrow> (\<exists>n. bit x n \<and> bit y n)" for x y :: "'a::len word"
  by (auto simp: bit_eq_iff bit_and_iff dest: bit_imp_le_length)

lemma bit_tests:
  "x AND 0x10 \<noteq> 0 \<longleftrightarrow> bit x 4" "x AND 0x20 \<noteq> 0 \<longleftrightarrow> bit x 5" "x AND 0x80 \<noteq> 0 \<longleftrightarrow> bit x 7"
  for x :: "'a::len word"
  unfolding and_neq_0_iff bit_consts by (auto dest: bit_imp_le_length)

section \<open>Copying\<close>

text \<open>\<open>memcpy\<close>: reading \<open>n\<close> bytes at \<open>i\<close>, and storing bytes at a position of a buffer. \<open>None\<close> is
  an access outside the array.\<close>

definition bytes_at :: "byte list \<Rightarrow> nat \<Rightarrow> nat \<Rightarrow> byte list option" where
  "bytes_at mem i n = (if i + n \<le> length mem then Some (take n (drop i mem)) else None)"

definition store :: "byte list \<Rightarrow> nat \<Rightarrow> byte list \<Rightarrow> byte list option" where
  "store mem i bs =
     (if i + length bs \<le> length mem then Some (take i mem @ bs @ drop (i + length bs) mem) else None)"

section \<open>Lists\<close>

lemma take_append_drop_append:
  "take n xs @ drop n xs @ ys = xs @ ys"
  by (metis append.assoc append_take_drop_id)

text \<open>
  \<open>run_seen m h bs\<close>: reading \<open>bs\<close> with a counter that starts at \<open>h\<close>, goes up on
  \<open>True\<close> and falls back to 0 on \<open>False\<close>, the counter at some point exceeds \<open>m\<close>.
\<close>

fun run_seen :: "nat \<Rightarrow> nat \<Rightarrow> bool list \<Rightarrow> bool" where
  "run_seen m h [] = False"
| "run_seen m h (b # bs) = (let h' = (if b then Suc h else 0) in m < h' \<or> run_seen m h' bs)"

definition has_run :: "nat \<Rightarrow> bool list \<Rightarrow> bool" where
  "has_run m bs \<longleftrightarrow> (\<exists>i. i + m < length bs \<and> (\<forall>k \<le> m. bs ! (i + k)))"

lemma has_run_skip:
  assumes "h \<le> m"
  shows "has_run m (replicate h True @ False # bs) \<longleftrightarrow> has_run m bs"
proof
  let ?xs = "replicate h True @ False # bs"
  assume "has_run m ?xs"
  then obtain i where i: "i + m < length ?xs" "\<forall>k \<le> m. ?xs ! (i + k)"
    unfolding has_run_def by blast
  have "h < i"
  proof (rule ccontr)
    assume "\<not> h < i"
    moreover have "h - i \<le> m" using assms by simp
    with i(2) have "?xs ! (i + (h - i))" by blast
    ultimately have "?xs ! h" by simp
    with \<open>\<not> h < i\<close> show False by (simp add: nth_append)
  qed
  then have "bs ! (i - Suc h + k)" if "k \<le> m" for k
    using i(2) [rule_format, OF that] by (simp add: nth_append nth_Cons' split: if_splits)
  with i(1) \<open>h < i\<close> show "has_run m bs"
    unfolding has_run_def by (intro exI [of _ "i - Suc h"]) auto
next
  assume "has_run m bs"
  then obtain i where "i + m < length bs" "\<forall>k \<le> m. bs ! (i + k)"
    unfolding has_run_def by blast
  then show "has_run m (replicate h True @ False # bs)"
    unfolding has_run_def by (intro exI [of _ "i + Suc h"]) (auto simp: nth_append)
qed

lemma run_seen_has_run:
  "h \<le> m \<Longrightarrow> run_seen m h bs \<longleftrightarrow> has_run m (replicate h True @ bs)"
proof (induction bs arbitrary: h)
  case Nil
  then show ?case by (simp add: has_run_def)
next
  case (Cons b bs)
  show ?case
  proof (cases b)
    case False
    then show ?thesis using Cons.IH [of 0] has_run_skip [OF Cons.prems, of bs] by simp
  next
    case True
    have eq: "replicate h True @ b # bs = replicate (Suc h) True @ bs"
      using True by (simp add: replicate_app_Cons_same)
    show ?thesis
    proof (cases "h = m")
      case True
      have "has_run m (replicate (Suc h) True @ bs)"
        unfolding has_run_def using True by (intro exI [of _ 0]) (auto simp: nth_append less_Suc_eq_le nth_Cons')
      with True \<open>b\<close> show ?thesis unfolding eq by simp
    next
      case False
      with Cons.prems Cons.IH [of "Suc h"] \<open>b\<close> show ?thesis unfolding eq by simp
    qed
  qed
qed

end
