(* ===== verification/Fs_Types.thy ===== *)
theory Fs_Types
  imports Prelude
begin

text \<open>
  The part of the FreeSWITCH vocabulary that \<open>switch_ivr_play_say.c\<close> and
  \<open>audio_queue.h\<close> use: status codes and C strings. FreeSWITCH itself is not part of
  the repository. Only the names the sources mention are constructors here; every other
  status code a callee may answer is \<open>SWITCH_STATUS_OTHER\<close>.
\<close>

datatype switch_status_t =
    SWITCH_STATUS_SUCCESS
  | SWITCH_STATUS_FALSE
  | SWITCH_STATUS_TIMEOUT
  | SWITCH_STATUS_RESTART
  | SWITCH_STATUS_BREAK
  | SWITCH_STATUS_NOTFOUND
  | SWITCH_STATUS_GENERR
  | SWITCH_STATUS_TOO_SMALL
  | SWITCH_STATUS_MEMERR
  | SWITCH_STATUS_MORE_DATA
  | SWITCH_STATUS_OTHER nat

text \<open>
  A \<open>const char *\<close> argument is a \<open>string option\<close>: \<open>None\<close> is the null
  pointer. \<open>zstr\<close> is the null-or-empty test, \<open>strcasecmp_eq\<close> stands for
  \<open>!strcasecmp(a, b)\<close> in the C locale.
\<close>

type_synonym cstring = "string option"

definition zstr :: "cstring \<Rightarrow> bool" where
  "zstr s = (case s of None \<Rightarrow> True | Some t \<Rightarrow> t = [])"

definition to_lower :: "char \<Rightarrow> char" where
  "to_lower c = (if 65 \<le> (of_char c :: nat) \<and> (of_char c :: nat) \<le> 90
                 then char_of ((of_char c :: nat) + 32) else c)"

definition strcasecmp_eq :: "string \<Rightarrow> string \<Rightarrow> bool" where
  "strcasecmp_eq a b = (map to_lower a = map to_lower b)"

text \<open>
  \<open>atoi\<close> of the C library in the C locale: leading white space, a sign, digits. (For a value
  that does not fit an \<open>int\<close> C leaves the result undefined.)
\<close>

definition is_space :: "char \<Rightarrow> bool" where
  "is_space c = (let n = (of_char c :: nat) in n = 32 \<or> 9 \<le> n \<and> n \<le> 13)"

definition is_digit :: "char \<Rightarrow> bool" where
  "is_digit c = (let n = (of_char c :: nat) in 48 \<le> n \<and> n \<le> 57)"

definition digits_value :: "string \<Rightarrow> int" where
  "digits_value s = foldl (\<lambda>v c. 10 * v + (of_char c - 48)) 0 (takeWhile is_digit s)"

definition atoi :: "string \<Rightarrow> int" where
  "atoi s = (case dropWhile is_space s of
               [] \<Rightarrow> 0
             | c # t \<Rightarrow> if c = CHR ''-'' then - digits_value t
                       else if c = CHR ''+'' then digits_value t
                       else digits_value (c # t))"

lemma zstr_simps [simp]:
  "zstr None" "zstr (Some t) = (t = [])"
  by (simp_all add: zstr_def)

lemma strcasecmp_eq_refl [simp]: "strcasecmp_eq s s"
  by (simp add: strcasecmp_eq_def)

end
