(* ===== verification/Audio_Queue.thy ===== *)
theory Audio_Queue
  imports Fs_Types
begin

text \<open>
  The bounded audio queue between the media thread and the recognizer thread of
  \<open>mod_funasr\<close> (\<open>src/src/include/audio_queue.h\<close>). The byte buffer
  (\<open>switch_buffer_t\<close>) belongs to FreeSWITCH: its operations are the fields of a
  \<open>buffer_api\<close>, an argument of every operation here, and \<open>buffer_laws\<close> states
  what is documented of them. One call of an operation below is one critical section
  under \<open>queue->mutex\<close>; \<open>audio_queue_clear\<close>, which writes three fields after
  it has released the mutex, is split into its two parts. A reader that waits on the
  condition variable releases the mutex, so the critical sections other threads run
  during each wait are an argument of \<open>audio_queue_read\<close>.
\<close>

section \<open>The buffer interface\<close>

record 'b buffer_api =
  switch_buffer_write :: "'b \<Rightarrow> byte list \<Rightarrow> size_t \<times> 'b"
  switch_buffer_read :: "'b \<Rightarrow> size_t \<Rightarrow> byte list \<times> 'b"
  switch_buffer_inuse :: "'b \<Rightarrow> size_t"
  switch_buffer_zero :: "'b \<Rightarrow> 'b"

text \<open>
  \<open>buffer_laws B cont\<close>: a buffer of capacity \<open>AUDIO_QUEUE_SIZE\<close> holds the bytes
  \<open>cont b\<close>; a write that fits appends and answers the new fill level, one that does not
  fit answers 0 and changes nothing; a read removes a prefix.
\<close>

definition AUDIO_QUEUE_SIZE :: nat where
  "AUDIO_QUEUE_SIZE = 320 * 50 * 15"

definition buffer_laws :: "'b buffer_api \<Rightarrow> ('b \<Rightarrow> byte list) \<Rightarrow> bool" where
  "buffer_laws B cont \<longleftrightarrow>
     (\<forall>b. length (cont b) \<le> AUDIO_QUEUE_SIZE) \<and>
     (\<forall>b. switch_buffer_inuse B b = of_nat (length (cont b))) \<and>
     (\<forall>b. cont (switch_buffer_zero B b) = []) \<and>
     (\<forall>b n. fst (switch_buffer_read B b n) = take (unat n) (cont b)) \<and>
     (\<forall>b n. cont (snd (switch_buffer_read B b n)) = drop (unat n) (cont b)) \<and>
     (\<forall>b d. if length (cont b) + length d \<le> AUDIO_QUEUE_SIZE
        then fst (switch_buffer_write B b d) = of_nat (length (cont b) + length d)
           \<and> cont (snd (switch_buffer_write B b d)) = cont b @ d
        else fst (switch_buffer_write B b d) = 0
           \<and> cont (snd (switch_buffer_write B b d)) = cont b)"

section \<open>State and operations\<close>

record 'b audio_queue =
  buffer :: 'b
  write_bytes :: size_t
  read_bytes :: size_t
  waiting :: size_t
  name :: string
  session_uuid :: cstring

text \<open>
  The allocations \<open>audio_queue_create\<close> makes can each fail; \<open>create_answers\<close> says
  how they turn out. \<open>audio_queue_destroy\<close> only logs.
\<close>

record 'b create_answers =
  alloc_ok :: bool
  buffer_created :: "'b option"
  mutex_ok :: bool
  cond_ok :: bool

definition audio_queue_destroy :: "'b audio_queue option \<Rightarrow> switch_status_t" where
  "audio_queue_destroy q = SWITCH_STATUS_SUCCESS"

definition audio_queue_create ::
  "'b create_answers \<Rightarrow> cstring \<Rightarrow> cstring \<Rightarrow> switch_status_t \<times> 'b audio_queue option" where
  "audio_queue_create A nm uuid =
     (let lname = (if zstr nm then [] else the nm);
          lsession_uuid = (if zstr uuid then None else uuid)
      in if \<not> alloc_ok A then (SWITCH_STATUS_FALSE, None)
         else case buffer_created A of
           None \<Rightarrow> (SWITCH_STATUS_FALSE, None)
         | Some b \<Rightarrow>
             if \<not> mutex_ok A then (SWITCH_STATUS_FALSE, None)
             else if \<not> cond_ok A then (SWITCH_STATUS_FALSE, None)
             else (SWITCH_STATUS_SUCCESS,
                   Some \<lparr>buffer = b, write_bytes = 0, read_bytes = 0, waiting = 0,
                         name = lname, session_uuid = lsession_uuid\<rparr>))"

text \<open>The result of a write: status, \<open>*data_len\<close>, whether the condition is signalled.\<close>

definition audio_queue_write ::
  "'b buffer_api \<Rightarrow> 'b audio_queue \<Rightarrow> byte list
     \<Rightarrow> (switch_status_t \<times> size_t \<times> bool) \<times> 'b audio_queue" where
  "audio_queue_write B q data =
     (let data_len = of_nat (length data);
          (n, b) = switch_buffer_write B (buffer q) data
      in if 0 < n
         then let q' = q\<lparr>buffer := b, write_bytes := write_bytes q + data_len\<rparr>
              in ((SWITCH_STATUS_SUCCESS, data_len, waiting q' \<le> switch_buffer_inuse B b), q')
         else ((SWITCH_STATUS_FALSE, 0, False), q\<lparr>buffer := b\<rparr>))"

definition audio_queue_signal :: "'b audio_queue \<Rightarrow> switch_status_t \<times> 'b audio_queue" where
  "audio_queue_signal q = (SWITCH_STATUS_SUCCESS, q)"

text \<open>\<open>audio_queue_clear\<close>: the locked part, then the stores after the unlock.\<close>

definition audio_queue_clear_locked :: "'b buffer_api \<Rightarrow> 'b audio_queue \<Rightarrow> 'b audio_queue" where
  "audio_queue_clear_locked B q = q\<lparr>buffer := switch_buffer_zero B (buffer q)\<rparr>"

definition audio_queue_clear_unlocked :: "'b audio_queue \<Rightarrow> 'b audio_queue" where
  "audio_queue_clear_unlocked q = q\<lparr>read_bytes := 0, write_bytes := 0, waiting := 0\<rparr>"

definition audio_queue_clear ::
  "'b buffer_api \<Rightarrow> 'b audio_queue \<Rightarrow> switch_status_t \<times> 'b audio_queue" where
  "audio_queue_clear B q =
     (SWITCH_STATUS_SUCCESS, audio_queue_clear_unlocked (audio_queue_clear_locked B q))"

text \<open>What another thread may do to the queue while a reader waits.\<close>

datatype aq_op =
    AqWrite "byte list"
  | AqSignal
  | AqClear



text \<open>The part of a read after the wait: take what is there, up to the request.\<close>

definition audio_queue_take ::
  "'b buffer_api \<Rightarrow> 'b audio_queue \<Rightarrow> size_t \<Rightarrow> (switch_status_t \<times> byte list) \<times> 'b audio_queue" where
  "audio_queue_take B q n =
     (let inuse = switch_buffer_inuse B (buffer q);
          requested = (if inuse < n then inuse else n)
      in if requested = 0 then ((SWITCH_STATUS_FALSE, []), q)
         else let (d, b) = switch_buffer_read B (buffer q) requested
              in ((SWITCH_STATUS_SUCCESS, d),
                  q\<lparr>buffer := b, read_bytes := read_bytes q + of_nat (length d)\<rparr>))"


section \<open>Serialised runs\<close>

text \<open>
  An interleaving of the threads is a sequence of critical sections: another thread's
  operation, a reader announcing how much it waits for, a reader taking data, a reader
  ending its wait. \<open>aq_run\<close> keeps, beside the queue, the bytes accepted and the bytes
  delivered since the last clear.
\<close>

datatype aq_event =
    EvOp aq_op
  | EvWaiting size_t
  | EvTake size_t

record 'b aq_hist =
  accepted :: "byte list"
  delivered :: "byte list"
  queue :: "'b audio_queue"

fun aq_event_run :: "'b buffer_api \<Rightarrow> aq_event \<Rightarrow> 'b aq_hist \<Rightarrow> 'b aq_hist" where
  "aq_event_run B (EvOp (AqWrite d)) h =
     (let ((st, n, sig), q') = audio_queue_write B (queue h) d
      in h\<lparr>accepted := (if st = SWITCH_STATUS_SUCCESS then accepted h @ d else accepted h),
           queue := q'\<rparr>)"
| "aq_event_run B (EvOp AqSignal) h = h\<lparr>queue := snd (audio_queue_signal (queue h))\<rparr>"
| "aq_event_run B (EvOp AqClear) h =
     h\<lparr>accepted := [], delivered := [], queue := snd (audio_queue_clear B (queue h))\<rparr>"
| "aq_event_run B (EvWaiting n) h = h\<lparr>queue := (queue h)\<lparr>waiting := n\<rparr>\<rparr>"
| "aq_event_run B (EvTake n) h =
     (let ((st, d), q') = audio_queue_take B (queue h) n
      in h\<lparr>delivered := delivered h @ d, queue := q'\<rparr>)"

definition aq_run :: "'b buffer_api \<Rightarrow> aq_event list \<Rightarrow> 'b aq_hist \<Rightarrow> 'b aq_hist" where
  "aq_run B evs h = fold (aq_event_run B) evs h"

definition aq_counters_ok :: "('b \<Rightarrow> byte list) \<Rightarrow> 'b audio_queue \<Rightarrow> bool" where
  "aq_counters_ok cont q \<longleftrightarrow>
     write_bytes q = read_bytes q + of_nat (length (cont (buffer q)))"

definition aq_fresh :: "('b \<Rightarrow> byte list) \<Rightarrow> 'b audio_queue \<Rightarrow> bool" where
  "aq_fresh cont q \<longleftrightarrow> cont (buffer q) = [] \<and> write_bytes q = 0 \<and> read_bytes q = 0"

section \<open>What the buffer laws give\<close>

lemma buffer_lawsD:
  assumes "buffer_laws B cont"
  shows "length (cont b) \<le> AUDIO_QUEUE_SIZE"
    and "switch_buffer_inuse B b = of_nat (length (cont b))"
    and "cont (switch_buffer_zero B b) = []"
    and "fst (switch_buffer_read B b n) = take (unat n) (cont b)"
    and "cont (snd (switch_buffer_read B b n)) = drop (unat n) (cont b)"
  using assms by (auto simp: buffer_laws_def)

lemma buffer_write_fits:
  assumes "buffer_laws B cont" and "length (cont b) + length d \<le> AUDIO_QUEUE_SIZE"
  shows "fst (switch_buffer_write B b d) = of_nat (length (cont b) + length d)"
    and "cont (snd (switch_buffer_write B b d)) = cont b @ d"
proof -
  have "if length (cont b) + length d \<le> AUDIO_QUEUE_SIZE
        then fst (switch_buffer_write B b d) = of_nat (length (cont b) + length d)
           \<and> cont (snd (switch_buffer_write B b d)) = cont b @ d
        else fst (switch_buffer_write B b d) = 0
           \<and> cont (snd (switch_buffer_write B b d)) = cont b"
    using assms(1) unfolding buffer_laws_def by blast
  with assms(2) show "fst (switch_buffer_write B b d) = of_nat (length (cont b) + length d)"
    and "cont (snd (switch_buffer_write B b d)) = cont b @ d" by auto
qed

lemma buffer_write_full:
  assumes "buffer_laws B cont" and "\<not> length (cont b) + length d \<le> AUDIO_QUEUE_SIZE"
  shows "fst (switch_buffer_write B b d) = 0"
    and "cont (snd (switch_buffer_write B b d)) = cont b"
proof -
  have "if length (cont b) + length d \<le> AUDIO_QUEUE_SIZE
        then fst (switch_buffer_write B b d) = of_nat (length (cont b) + length d)
           \<and> cont (snd (switch_buffer_write B b d)) = cont b @ d
        else fst (switch_buffer_write B b d) = 0
           \<and> cont (snd (switch_buffer_write B b d)) = cont b"
    using assms(1) unfolding buffer_laws_def by blast
  with assms(2) show "fst (switch_buffer_write B b d) = 0"
    and "cont (snd (switch_buffer_write B b d)) = cont b" by auto
qed

lemma fill_fits_size_t:
  assumes "n \<le> AUDIO_QUEUE_SIZE"
  shows "n < 2 ^ LENGTH(64)"
  using assms by (simp add: AUDIO_QUEUE_SIZE_def)

lemma unat_inuse:
  assumes "buffer_laws B cont"
  shows "unat (switch_buffer_inuse B b) = length (cont b)"
  using buffer_lawsD(1) [OF assms, of b]
  by (simp add: buffer_lawsD(2) [OF assms] AUDIO_QUEUE_SIZE_def)

section \<open>The operations, case by case\<close>

lemma audio_queue_write_accepts:
  assumes "buffer_laws B cont"
    and "length (cont (buffer q)) + length d \<le> AUDIO_QUEUE_SIZE"
    and "cont (buffer q) @ d \<noteq> []"
  shows "audio_queue_write B q d =
    ((SWITCH_STATUS_SUCCESS, of_nat (length d),
      unat (waiting q) \<le> length (cont (buffer q)) + length d),
     q\<lparr>buffer := snd (switch_buffer_write B (buffer q) d),
       write_bytes := write_bytes q + of_nat (length d)\<rparr>)"
proof -
  obtain n b where w: "switch_buffer_write B (buffer q) d = (n, b)" by fastforce
  have n: "n = of_nat (length (cont (buffer q)) + length d)" and b: "cont b = cont (buffer q) @ d"
    using buffer_write_fits [OF assms(1,2)] w by simp_all
  have "unat n = length (cont (buffer q)) + length d"
    unfolding n using fill_fits_size_t [OF assms(2)] by (rule unat_of_nat_small)
  moreover have "0 < length (cont (buffer q)) + length d"
    using assms(3) by auto
  ultimately have "0 < n" by (simp add: word_less_nat_alt)
  moreover have "waiting q \<le> switch_buffer_inuse B b \<longleftrightarrow>
      unat (waiting q) \<le> length (cont (buffer q)) + length d"
    by (simp add: word_le_nat_alt unat_inuse [OF assms(1)] b)
  ultimately show ?thesis by (simp add: audio_queue_write_def w Let_def)
qed

lemma audio_queue_write_rejects:
  assumes "buffer_laws B cont"
    and "\<not> (length (cont (buffer q)) + length d \<le> AUDIO_QUEUE_SIZE \<and> cont (buffer q) @ d \<noteq> [])"
  shows "\<exists>b. cont b = cont (buffer q) \<and>
    audio_queue_write B q d = ((SWITCH_STATUS_FALSE, 0, False), q\<lparr>buffer := b\<rparr>)"
proof -
  obtain n b where w: "switch_buffer_write B (buffer q) d = (n, b)" by fastforce
  have "n = 0 \<and> cont b = cont (buffer q)"
  proof (cases "length (cont (buffer q)) + length d \<le> AUDIO_QUEUE_SIZE")
    case True
    with assms(2) have "cont (buffer q) = []" "d = []" by auto
    with buffer_write_fits [OF assms(1) True] w show ?thesis by simp
  next
    case False
    with buffer_write_full [OF assms(1) False] w show ?thesis by simp
  qed
  then show ?thesis by (auto simp: audio_queue_write_def w)
qed

lemma audio_queue_take_cases:
  assumes "buffer_laws B cont"
  shows "\<exists>b. cont b = drop (unat n) (cont (buffer q)) \<and>
    audio_queue_take B q n =
      (if n = 0 \<or> cont (buffer q) = [] then ((SWITCH_STATUS_FALSE, []), q)
       else ((SWITCH_STATUS_SUCCESS, take (unat n) (cont (buffer q))),
             q\<lparr>buffer := b,
               read_bytes := read_bytes q + of_nat (min (length (cont (buffer q))) (unat n))\<rparr>))"
    (is "\<exists>b. ?C b \<and> _ = ?R b")
proof -
  let ?inuse = "switch_buffer_inuse B (buffer q)"
  define r where "r = (if ?inuse < n then ?inuse else n)"
  obtain d b where rd: "switch_buffer_read B (buffer q) r = (d, b)" by fastforce
  have ur: "unat r = min (length (cont (buffer q))) (unat n)"
    unfolding r_def by (auto simp: word_less_nat_alt unat_inuse [OF assms])
  have d: "d = take (unat r) (cont (buffer q))" and b: "cont b = drop (unat r) (cont (buffer q))"
    using buffer_lawsD(4,5) [OF assms, of "buffer q" r] rd by simp_all
  have r0: "r = 0 \<longleftrightarrow> n = 0 \<or> cont (buffer q) = []"
    using ur by (auto simp: unat_eq_0 [symmetric] min_def simp del: unat_eq_0 split: if_splits)
  have tk: "take (unat r) xs = take (unat n) xs" "drop (unat r) xs = drop (unat n) xs"
    if "xs = cont (buffer q)" for xs
    using ur that by (simp_all add: min_def)
  have len: "length (take (unat n) (cont (buffer q))) = min (length (cont (buffer q))) (unat n)"
    by simp
  have "audio_queue_take B q n = ?R b"
    unfolding audio_queue_take_def Let_def r_def [symmetric]
    using r0 by (auto simp: rd d tk(1) [OF refl])
  moreover have "?C b" using b tk(2) [OF refl] by simp
  ultimately show ?thesis by blast
qed

section \<open>Every critical section keeps the history and the counters\<close>

definition aq_hist_ok :: "('b \<Rightarrow> byte list) \<Rightarrow> 'b aq_hist \<Rightarrow> bool" where
  "aq_hist_ok cont h \<longleftrightarrow>
     delivered h @ cont (buffer (queue h)) = accepted h \<and> aq_counters_ok cont (queue h)"

lemma aq_event_run_write:
  assumes "buffer_laws B cont" and "aq_hist_ok cont h"
  shows "aq_hist_ok cont (aq_event_run B (EvOp (AqWrite d)) h)"
proof (cases "length (cont (buffer (queue h))) + length d \<le> AUDIO_QUEUE_SIZE
              \<and> cont (buffer (queue h)) @ d \<noteq> []")
  case True
  then show ?thesis
    using assms(2) audio_queue_write_accepts [OF assms(1)] buffer_write_fits(2) [OF assms(1)]
    by (auto simp: aq_hist_ok_def aq_counters_ok_def)
next
  case False
  from audio_queue_write_rejects [OF assms(1) False] assms(2) show ?thesis
    by (auto simp: aq_hist_ok_def aq_counters_ok_def)
qed

lemma aq_event_run_take:
  assumes "buffer_laws B cont" and "aq_hist_ok cont h"
  shows "aq_hist_ok cont (aq_event_run B (EvTake n) h)"
proof -
  let ?c = "cont (buffer (queue h))"
  have "length ?c = min (length ?c) (unat n) + (length ?c - unat n)" by simp
  then have "(of_nat (length ?c) :: size_t)
      = of_nat (min (length ?c) (unat n)) + of_nat (length ?c - unat n)"
    by (metis of_nat_add)
  with audio_queue_take_cases [OF assms(1), of n "queue h"] assms(2) show ?thesis
    by (auto simp: aq_hist_ok_def aq_counters_ok_def take_append_drop_append add.assoc
        split: if_splits)
qed

lemma aq_event_run_ok:
  assumes "buffer_laws B cont" and "aq_hist_ok cont h"
  shows "aq_hist_ok cont (aq_event_run B e h)"
proof (cases e)
  case (EvOp op)
  then show ?thesis
    using aq_event_run_write [OF assms] assms
    by (cases op) (auto simp: aq_hist_ok_def aq_counters_ok_def audio_queue_signal_def
        audio_queue_clear_def audio_queue_clear_locked_def audio_queue_clear_unlocked_def
        buffer_lawsD(3))
next
  case (EvWaiting n)
  with assms(2) show ?thesis by (simp add: aq_hist_ok_def aq_counters_ok_def)
next
  case (EvTake n)
  with aq_event_run_take [OF assms] show ?thesis by simp
qed

lemma aq_run_ok:
  assumes "buffer_laws B cont" and "aq_hist_ok cont h"
  shows "aq_hist_ok cont (aq_run B evs h)"
  using assms(2) unfolding aq_run_def
  by (induction evs arbitrary: h) (auto simp: aq_event_run_ok [OF assms(1)])

lemma aq_run_simps [simp]:
  "aq_run B [] h = h"
  "aq_run B (e # evs) h = aq_run B evs (aq_event_run B e h)"
  "aq_run B (es @ fs) h = aq_run B fs (aq_run B es h)"
  by (simp_all add: aq_run_def)






section \<open>A reference buffer\<close>

text \<open>A list-backed buffer, to show that the buffer laws can be met.\<close>

definition list_buffer_content :: "byte list \<Rightarrow> byte list" where
  "list_buffer_content b = take AUDIO_QUEUE_SIZE b"

definition list_buffer :: "byte list buffer_api" where
  "list_buffer =
     \<lparr>switch_buffer_write = (\<lambda>b d. let c = list_buffer_content b
        in if length c + length d \<le> AUDIO_QUEUE_SIZE
           then (of_nat (length c + length d), c @ d) else (0, c)),
      switch_buffer_read = (\<lambda>b n. (take (unat n) (list_buffer_content b),
                                   drop (unat n) (list_buffer_content b))),
      switch_buffer_inuse = (\<lambda>b. of_nat (length (list_buffer_content b))),
      switch_buffer_zero = (\<lambda>b. [])\<rparr>"

lemma list_buffer_laws: "buffer_laws list_buffer list_buffer_content"
  by (auto simp: buffer_laws_def list_buffer_def list_buffer_content_def Let_def)

definition empty_queue :: "byte list audio_queue" where
  "empty_queue = \<lparr>buffer = [], write_bytes = 0, read_bytes = 0, waiting = 0,
                  name = ''q'', session_uuid = None\<rparr>"

section \<open>Properties\<close>

text \<open>C1. Whatever critical sections of writers, readers and clears interleave on a fresh
  queue, the bytes delivered since the last clear followed by the bytes still buffered are
  exactly the bytes accepted since then: nothing is lost, duplicated or reordered.\<close>

theorem audio_queue_fifo:
  assumes "buffer_laws B cont" and "aq_fresh cont q"
    and "h = aq_run B evs \<lparr>accepted = [], delivered = [], queue = q\<rparr>"
  shows "delivered h @ cont (buffer (queue h)) = accepted h"
proof -
  have "aq_hist_ok cont \<lparr>accepted = [], delivered = [], queue = q\<rparr>"
    using assms(2) by (simp add: aq_hist_ok_def aq_counters_ok_def aq_fresh_def)
  from aq_run_ok [OF assms(1) this, of evs] show ?thesis
    by (simp add: aq_hist_ok_def assms(3))
qed

theorem audio_queue_fifo_witness:
  "delivered (aq_run list_buffer [EvOp (AqWrite [1, 2]), EvTake 1, EvOp (AqWrite [3])]
     \<lparr>accepted = [], delivered = [], queue = empty_queue\<rparr>)
   @ list_buffer_content (buffer (queue
       (aq_run list_buffer [EvOp (AqWrite [1, 2]), EvTake 1, EvOp (AqWrite [3])]
         \<lparr>accepted = [], delivered = [], queue = empty_queue\<rparr>)))
   = accepted (aq_run list_buffer [EvOp (AqWrite [1, 2]), EvTake 1, EvOp (AqWrite [3])]
     \<lparr>accepted = [], delivered = [], queue = empty_queue\<rparr>)"
proof -
  have "aq_fresh list_buffer_content empty_queue"
    by (simp add: aq_fresh_def empty_queue_def list_buffer_content_def)
  from audio_queue_fifo [OF list_buffer_laws this refl] show ?thesis .
qed







text \<open>No wake-up is lost: a write signals the condition variable exactly when it is
  accepted and the data now buffered covers what the reader announced it is waiting for.\<close>

theorem audio_queue_write_wakes:
  assumes "buffer_laws B cont" and "audio_queue_write B q d = ((st, n, signalled), q')"
  shows "signalled \<longleftrightarrow> st = SWITCH_STATUS_SUCCESS \<and> unat (waiting q) \<le> length (cont (buffer q'))"
proof (cases "length (cont (buffer q)) + length d \<le> AUDIO_QUEUE_SIZE
              \<and> cont (buffer q) @ d \<noteq> []")
  case True
  then show ?thesis
    using assms(2) audio_queue_write_accepts [OF assms(1)] buffer_write_fits(2) [OF assms(1)]
    by auto
next
  case False
  from audio_queue_write_rejects [OF assms(1) False] assms(2) show ?thesis by auto
qed

theorem audio_queue_write_wakes_witness:
  "\<exists>n q'. audio_queue_write list_buffer (empty_queue\<lparr>waiting := 2\<rparr>) [4, 5]
            = ((SWITCH_STATUS_SUCCESS, n, True), q')
      \<and> unat (waiting (empty_queue\<lparr>waiting := 2\<rparr>)) \<le> length (list_buffer_content (buffer q'))"
proof -
  have "\<exists>n q'. audio_queue_write list_buffer (empty_queue\<lparr>waiting := 2\<rparr>) [4, 5]
            = ((SWITCH_STATUS_SUCCESS, n, True), q')"
    by (simp add: audio_queue_write_def list_buffer_def list_buffer_content_def empty_queue_def
        AUDIO_QUEUE_SIZE_def)
  then obtain n q' where w: "audio_queue_write list_buffer (empty_queue\<lparr>waiting := 2\<rparr>) [4, 5]
            = ((SWITCH_STATUS_SUCCESS, n, True), q')" by blast
  with audio_queue_write_wakes [OF list_buffer_laws w] show ?thesis by blast
qed

text \<open>The three stores \<open>audio_queue_clear\<close> makes after it unlocks the mutex race with
  writers: a write accepted between the unlock and the stores leaves data in the buffer that
  the counters do not know of, so the counter invariant is broken.\<close>

theorem audio_queue_clear_race:
  assumes "buffer_laws B cont" and "d \<noteq> []" and "length d \<le> AUDIO_QUEUE_SIZE"
    and "q' = audio_queue_clear_unlocked
                (snd (audio_queue_write B (audio_queue_clear_locked B q) d))"
  shows "cont (buffer q') = d \<and> write_bytes q' = 0 \<and> \<not> aq_counters_ok cont q'"
proof -
  let ?q = "audio_queue_clear_locked B q"
  have c: "cont (buffer ?q) = []"
    by (simp add: audio_queue_clear_locked_def buffer_lawsD(3) [OF assms(1)])
  then have fits: "length (cont (buffer ?q)) + length d \<le> AUDIO_QUEUE_SIZE" using assms(3) by simp
  have "cont (buffer (snd (audio_queue_write B ?q d))) = d"
    using audio_queue_write_accepts [OF assms(1) fits] buffer_write_fits(2) [OF assms(1) fits]
      assms(2) c by simp
  then have "cont (buffer q') = d" and "write_bytes q' = 0" and "read_bytes q' = 0"
    by (simp_all add: assms(4) audio_queue_clear_unlocked_def)
  with assms(2) of_nat_word_eq_0_iff [OF fill_fits_size_t [OF assms(3)]]
  show ?thesis by (auto simp: aq_counters_ok_def)
qed

theorem audio_queue_clear_race_witness:
  "\<not> aq_counters_ok list_buffer_content
       (audio_queue_clear_unlocked
         (snd (audio_queue_write list_buffer (audio_queue_clear_locked list_buffer empty_queue) [9])))"
proof -
  have "[9 :: byte] \<noteq> []" and "length [9 :: byte] \<le> AUDIO_QUEUE_SIZE"
    by (simp_all add: AUDIO_QUEUE_SIZE_def)
  from audio_queue_clear_race [OF list_buffer_laws this refl] show ?thesis by blast
qed

end
