(* ===== verification/Ivr_Detect.thy ===== *)
theory Ivr_Detect
  imports Fs_Types
begin

text \<open>
  The three frame-energy detectors of \<open>src/src/switch_ivr_play_say.c\<close>:
  \<open>switch_ivr_wait_for_silence\<close>, \<open>switch_ivr_detect_audio\<close> and
  \<open>switch_ivr_detect_silence\<close>. FreeSWITCH answers the calls they make: what it answers
  before the loop is a \<open>detect_setup\<close>, what it answers during one pass of the loop is a
  \<open>tick\<close>, and a run is driven by an arbitrary list of ticks. What the functions do to
  the session is the list of \<open>ivr_action\<close>s they return, in order. Frame energies are
  sums of at most \<open>2^32\<close> magnitudes of at most \<open>2^15\<close>, hence integers that a
  \<open>double\<close> holds exactly, and the truncated quotient of such a sum by a 32-bit count is
  the integer quotient.
\<close>

section \<open>Answers and actions\<close>

record frame =
  data :: "u16 list"
  seq :: u32
  samples :: u32

record tick =
  channel_ready :: bool
  read_status :: switch_status_t
  read_frame :: frame
  file_read :: "switch_status_t \<times> size_t"
  write_status :: switch_status_t

record detect_setup =
  actual_samples_per_second :: u32
  number_of_channels :: byte
  file_open_status :: switch_status_t
  fh_channels :: u32
  codec_init_status :: switch_status_t
  samples_per_packet :: u32

datatype ivr_action =
    FileOpened string
  | FileClosed
  | CodecInit
  | CodecDestroy
  | SetReadCodec
  | SessionReset bool bool
  | SetVariable string string
  | SetVariableInt string int
  | WriteFrame u32 u32

datatype fault = Division_By_Zero | Out_Of_Bounds | Bad_Conversion

text \<open>How a run ends: the function returns, a fault, or it is still in the loop.\<close>

datatype loop_end = Ended switch_status_t | Faulted fault | Looping

text \<open>The outcome of one pass of the loop body.\<close>

datatype 's pass = Continue 's | Break switch_status_t | Fault fault

section \<open>The shared loop skeleton\<close>

text \<open>
  \<open>while (switch_channel_ready(channel)) \<dots>\<close>: the channel is polled, then the body
  runs. \<open>stat\<close> reads the \<open>status\<close> variable of the state, which is what the
  function returns when the channel is no longer ready.
\<close>

fun while_ready ::
  "('s \<Rightarrow> switch_status_t) \<Rightarrow> ('s \<Rightarrow> tick \<Rightarrow> 's pass \<times> ivr_action list) \<Rightarrow> 's \<Rightarrow> tick list
     \<Rightarrow> loop_end \<times> ivr_action list" where
  "while_ready stat body s [] = (Looping, [])"
| "while_ready stat body s (t # ts) =
     (if \<not> channel_ready t then (Ended (stat s), [])
      else case body s t of
        (Continue s', l) \<Rightarrow> (let (e, l') = while_ready stat body s' ts in (e, l @ l'))
      | (Break st, l) \<Rightarrow> (Ended st, l)
      | (Fault f, l) \<Rightarrow> (Faulted f, l))"

text \<open>
  What the three bodies have in common: the loudness threshold, the hit limit, the codec
  facts, and which read statuses FreeSWITCH's \<open>SWITCH_READ_ACCEPTABLE\<close> lets through.
\<close>

record detect_cfg =
  acceptable :: "switch_status_t \<Rightarrow> bool"
  thresh :: u32
  hit_limit :: u32
  listen_limit :: u32
  divisor :: u32
  channels :: u32
  spp :: u32
  playing :: bool
  play_channels :: u32

text \<open>The energy loop: sample \<open>j\<close> is read, then \<open>j\<close> advances by \<open>1 + channels\<close>.\<close>

fun energy_sum :: "u16 list \<Rightarrow> u32 \<Rightarrow> nat \<Rightarrow> u32 \<Rightarrow> nat \<Rightarrow> nat option" where
  "energy_sum d ch 0 j e = Some e"
| "energy_sum d ch (Suc n) j e =
     (if unat j < length d
      then energy_sum d ch n (j + 1 + ch) (e + nat \<bar>sint (d ! unat j)\<bar>)
      else None)"

definition frame_energy :: "u32 \<Rightarrow> frame \<Rightarrow> fault + nat" where
  "frame_energy ch f =
     (case energy_sum (data f) ch (unat (samples f)) 0 0 of
        None \<Rightarrow> Inl Out_Of_Bounds | Some e \<Rightarrow> Inr e)"

text \<open>\<open>score = (uint32_t) (energy / (read_frame->samples / divisor))\<close>\<close>

definition frame_score :: "detect_cfg \<Rightarrow> frame \<Rightarrow> nat \<Rightarrow> fault + u32" where
  "frame_score C f energy =
     (if divisor C = 0 then Inl Division_By_Zero
      else let n = unat (samples f div divisor C)
           in if n = 0 then Inl Bad_Conversion
              else if energy div n < 2 ^ 32 then Inr (of_nat (energy div n))
              else Inl Bad_Conversion)"

text \<open>Feeding one packet of the file being played back.\<close>

datatype playback = No_Playback | Read_Failed | Wrote u32 u32 switch_status_t

definition play_packet :: "detect_cfg \<Rightarrow> tick \<Rightarrow> playback" where
  "play_packet C t =
     (if \<not> playing C then No_Playback
      else let (st, olen) = file_read t
           in if st \<noteq> SWITCH_STATUS_SUCCESS then Read_Failed
              else Wrote (ucast olen) (ucast (olen * 2 * ucast (play_channels C))) (write_status t))"

section \<open>detect\_audio\<close>

record detect_state =
  status :: switch_status_t
  sample_count :: u32
  hits :: u32

text \<open>Lines after the playback: energy, score, hit counting.\<close>

definition detect_audio_score ::
  "detect_cfg \<Rightarrow> detect_state \<Rightarrow> frame \<Rightarrow> detect_state pass \<times> ivr_action list" where
  "detect_audio_score C s f =
     (case frame_energy (channels C) f of
        Inl e \<Rightarrow> (Fault e, [])
      | Inr energy \<Rightarrow>
         (case frame_score C f energy of
            Inl e \<Rightarrow> (Fault e, [])
          | Inr score \<Rightarrow>
             (let h = (if score \<ge> thresh C then hits s + 1 else 0)
              in if h > hit_limit C
                 then (Break (status s), [SetVariable ''detect_audio_timeout'' ''false''])
                 else (Continue (s\<lparr>hits := h\<rparr>), []))))"

definition detect_audio_body ::
  "detect_cfg \<Rightarrow> detect_state \<Rightarrow> tick \<Rightarrow> detect_state pass \<times> ivr_action list" where
  "detect_audio_body C s0 t =
     (let s = s0\<lparr>status := read_status t\<rparr>
      in if \<not> acceptable C (status s) then (Break (status s), [])
         else let s1 = (if sample_count s \<noteq> 0 then s\<lparr>sample_count := sample_count s - spp C\<rparr> else s)
         in if sample_count s \<noteq> 0 \<and> sint (sample_count s1) \<le> 0
            then (Break (status s1), [SetVariable ''detect_audio_timeout'' ''true'',
                                      SetVariableInt ''detect_audio_hits'' (sint (hits s1))])
            else case play_packet C t of
                No_Playback \<Rightarrow> detect_audio_score C s1 (read_frame t)
              | Read_Failed \<Rightarrow> (Break (status s1), [])
              | Wrote n len st \<Rightarrow>
                  if st \<noteq> SWITCH_STATUS_SUCCESS then (Break st, [WriteFrame n len])
                  else let (p, l) = detect_audio_score C (s1\<lparr>status := st\<rparr>) (read_frame t)
                       in (p, WriteFrame n len # l))"

section \<open>detect\_silence\<close>

definition detect_silence_score ::
  "detect_cfg \<Rightarrow> detect_state \<Rightarrow> frame \<Rightarrow> detect_state pass \<times> ivr_action list" where
  "detect_silence_score C s f =
     (case frame_energy (channels C) f of
        Inl e \<Rightarrow> (Fault e, [])
      | Inr energy \<Rightarrow>
         (case frame_score C f energy of
            Inl e \<Rightarrow> (Fault e, [])
          | Inr score \<Rightarrow>
             (let h = (if score \<le> thresh C then hits s + 1 else 0)
              in if h > hit_limit C
                 then (Break (status s), [SetVariable ''detect_silence_timeout'' ''false''])
                 else (Continue (s\<lparr>hits := h\<rparr>), []))))"

definition detect_silence_body ::
  "detect_cfg \<Rightarrow> detect_state \<Rightarrow> tick \<Rightarrow> detect_state pass \<times> ivr_action list" where
  "detect_silence_body C s0 t =
     (let s = s0\<lparr>status := read_status t\<rparr>
      in if \<not> acceptable C (status s) then (Break (status s), [])
         else let s1 = (if sample_count s \<noteq> 0 then s\<lparr>sample_count := sample_count s - spp C\<rparr> else s)
         in if sample_count s \<noteq> 0 \<and> sint (sample_count s1) \<le> 0
            then (Break (status s1), [SetVariable ''detect_silence_timeout'' ''true'',
                                      SetVariableInt ''detect_silence_hits'' (sint (hits s1))])
            else case play_packet C t of
                No_Playback \<Rightarrow> detect_silence_score C s1 (read_frame t)
              | Read_Failed \<Rightarrow> (Break (status s1), [])
              | Wrote n len st \<Rightarrow>
                  if st \<noteq> SWITCH_STATUS_SUCCESS then (Break st, [WriteFrame n len])
                  else let (p, l) = detect_silence_score C (s1\<lparr>status := st\<rparr>) (read_frame t)
                       in (p, WriteFrame n len # l))"

section \<open>wait\_for\_silence\<close>

record silence_state =
  w_status :: switch_status_t
  w_sample_count :: u32
  silence_hits :: u32
  listening :: u32
  countdown :: int

text \<open>The tail of the body: energy (only of frames with a sequence number), score, hits.\<close>

definition wait_for_silence_score ::
  "detect_cfg \<Rightarrow> silence_state \<Rightarrow> frame \<Rightarrow> silence_state pass \<times> ivr_action list" where
  "wait_for_silence_score C s f =
     (case (if seq f \<noteq> 0 then frame_energy (channels C) f else Inr 0) of
        Inl e \<Rightarrow> (Fault e, [])
      | Inr energy \<Rightarrow>
         (case frame_score C f energy of
            Inl e \<Rightarrow> (Fault e, [])
          | Inr score \<Rightarrow>
             (let s1 = (if score \<ge> thresh C then s\<lparr>listening := listening s + 1\<rparr> else s)
              in if (listen_limit C = 0 \<or> listening s1 > listen_limit C) \<and> score < thresh C
                 then let s2 = s1\<lparr>silence_hits := silence_hits s1 - 1\<rparr>
                      in (Continue (if silence_hits s2 = 0 then s2\<lparr>countdown := 25\<rparr> else s2), [])
                 else (Continue (s1\<lparr>silence_hits := hit_limit C\<rparr>), []))))"

text \<open>The countdown after enough silence, and otherwise the tail.\<close>

definition wait_for_silence_count ::
  "detect_cfg \<Rightarrow> silence_state \<Rightarrow> frame \<Rightarrow> silence_state pass \<times> ivr_action list" where
  "wait_for_silence_count C s f =
     (if countdown s \<noteq> 0
      then let s1 = s\<lparr>countdown := countdown s - 1\<rparr>
           in if countdown s1 = 0
              then (Break (w_status s1),
                    [SetVariable ''wait_for_silence_timeout'' ''false'',
                     SetVariableInt ''wait_for_silence_listenhits'' (sint (listening s1)),
                     SetVariableInt ''wait_for_silence_silence_hits'' (sint (silence_hits s1))])
              else (Continue s1, [])
      else wait_for_silence_score C s f)"

definition wait_for_silence_body ::
  "detect_cfg \<Rightarrow> silence_state \<Rightarrow> tick \<Rightarrow> silence_state pass \<times> ivr_action list" where
  "wait_for_silence_body C s0 t =
     (let s = s0\<lparr>w_status := read_status t\<rparr>
      in if \<not> acceptable C (w_status s) then (Break (w_status s), [])
         else let s1 = (if w_sample_count s \<noteq> 0
                        then s\<lparr>w_sample_count := w_sample_count s - spp C\<rparr> else s)
         in if w_sample_count s \<noteq> 0 \<and> sint (w_sample_count s1) \<le> 0
            then (Break (w_status s1),
                  [SetVariable ''wait_for_silence_timeout'' ''true'',
                   SetVariableInt ''wait_for_silence_listenhits'' (sint (listening s1)),
                   SetVariableInt ''wait_for_silence_silence_hits'' (sint (silence_hits s1))])
            else case play_packet C t of
                No_Playback \<Rightarrow> wait_for_silence_count C s1 (read_frame t)
              | Read_Failed \<Rightarrow> (Break (w_status s1), [])
              | Wrote n len st \<Rightarrow>
                  if st \<noteq> SWITCH_STATUS_SUCCESS then (Break st, [WriteFrame n len])
                  else let (p, l) = wait_for_silence_count C (s1\<lparr>w_status := st\<rparr>) (read_frame t)
                       in (p, WriteFrame n len # l))"

section \<open>The three functions\<close>

text \<open>\<open>sample_count = (read_impl.actual_samples_per_second / 1000) * timeout_ms\<close>\<close>

definition timeout_samples :: "detect_setup \<Rightarrow> u32 \<Rightarrow> u32" where
  "timeout_samples A timeout_ms =
     (if timeout_ms \<noteq> 0 then actual_samples_per_second A div 1000 * timeout_ms else 0)"

definition mk_detect_cfg ::
  "(switch_status_t \<Rightarrow> bool) \<Rightarrow> detect_setup \<Rightarrow> u32 \<Rightarrow> u32 \<Rightarrow> u32 \<Rightarrow> cstring \<Rightarrow> detect_cfg" where
  "mk_detect_cfg acc A th lim listen file =
     \<lparr>acceptable = acc, thresh = th, hit_limit = lim, listen_limit = listen,
      divisor = actual_samples_per_second A div 8000,
      channels = ucast (number_of_channels A),
      spp = samples_per_packet A, playing = (file \<noteq> None), play_channels = fh_channels A\<rparr>"

text \<open>
  The prologue (open the file to play, initialise the L16 codec, install it for reading) and
  the epilogue (reset the session, destroy the codec, close the file) around the loop.
\<close>

definition with_detect_resources ::
  "detect_setup \<Rightarrow> cstring \<Rightarrow> loop_end \<times> ivr_action list \<Rightarrow> loop_end \<times> ivr_action list" where
  "with_detect_resources A file body =
     (if file \<noteq> None \<and> file_open_status A \<noteq> SWITCH_STATUS_SUCCESS
      then (Ended SWITCH_STATUS_NOTFOUND, [SessionReset True False])
      else let opened = (case file of None \<Rightarrow> [] | Some n \<Rightarrow> [FileOpened n]);
               closed = (case file of None \<Rightarrow> [] | Some n \<Rightarrow> [FileClosed])
           in if codec_init_status A \<noteq> SWITCH_STATUS_SUCCESS
              then (Ended SWITCH_STATUS_FALSE, opened @ closed)
              else let (e, l) = body
                   in (e, opened @ [CodecInit, SetReadCodec] @ l @
                          (case e of Ended _ \<Rightarrow> [SessionReset False True, CodecDestroy] @ closed
                           | _ \<Rightarrow> [])))"

definition switch_ivr_detect_audio ::
  "(switch_status_t \<Rightarrow> bool) \<Rightarrow> detect_setup \<Rightarrow> u32 \<Rightarrow> u32 \<Rightarrow> u32 \<Rightarrow> cstring \<Rightarrow> tick list
     \<Rightarrow> loop_end \<times> ivr_action list" where
  "switch_ivr_detect_audio acc A th audio_hits timeout_ms file ts =
     with_detect_resources A file
       (while_ready status (detect_audio_body (mk_detect_cfg acc A th audio_hits 0 file))
          \<lparr>status = SWITCH_STATUS_FALSE, sample_count = timeout_samples A timeout_ms, hits = 0\<rparr> ts)"

definition switch_ivr_detect_silence ::
  "(switch_status_t \<Rightarrow> bool) \<Rightarrow> detect_setup \<Rightarrow> u32 \<Rightarrow> u32 \<Rightarrow> u32 \<Rightarrow> cstring \<Rightarrow> tick list
     \<Rightarrow> loop_end \<times> ivr_action list" where
  "switch_ivr_detect_silence acc A th s_hits timeout_ms file ts =
     with_detect_resources A file
       (while_ready status (detect_silence_body (mk_detect_cfg acc A th s_hits 0 file))
          \<lparr>status = SWITCH_STATUS_FALSE, sample_count = timeout_samples A timeout_ms, hits = 0\<rparr> ts)"

definition switch_ivr_wait_for_silence ::
  "(switch_status_t \<Rightarrow> bool) \<Rightarrow> detect_setup \<Rightarrow> u32 \<Rightarrow> u32 \<Rightarrow> u32 \<Rightarrow> u32 \<Rightarrow> cstring \<Rightarrow> tick list
     \<Rightarrow> loop_end \<times> ivr_action list" where
  "switch_ivr_wait_for_silence acc A th s_hits listen_hits timeout_ms file ts =
     with_detect_resources A file
       (while_ready w_status (wait_for_silence_body (mk_detect_cfg acc A th s_hits listen_hits file))
          \<lparr>w_status = SWITCH_STATUS_FALSE, w_sample_count = timeout_samples A timeout_ms,
           silence_hits = s_hits, listening = 0, countdown = 0\<rparr> ts)"

section \<open>Loops with a sample budget\<close>

text \<open>
  The contract the three bodies share: while a timeout is set, a pass that continues has
  spent one packet of the sample budget and left it positive. It follows that the loop ends
  before the budget's worth of packets has been read, whatever the channel delivers.
\<close>

lemma sint_diff_pos:
  fixes a b :: u32
  assumes "0 < sint a" and "0 < sint b"
  shows "sint (a - b) = sint a - sint b"
proof -
  have "sint a < 2 ^ 31" "sint b < 2 ^ 31"
    using sint_lt [of a] sint_lt [of b] by simp_all
  with assms show ?thesis
    by (simp add: sint_word_diff) (rule signed_take_bit_int_eq_self; simp)
qed

locale timed_loop =
  fixes stat :: "'s \<Rightarrow> switch_status_t"
    and body :: "'s \<Rightarrow> tick \<Rightarrow> 's pass \<times> ivr_action list"
    and budget :: "'s \<Rightarrow> u32"
    and packet :: u32
  assumes continue_spends:
    "body s t = (Continue s', l) \<Longrightarrow> budget s \<noteq> 0 \<Longrightarrow>
       budget s' = budget s - packet \<and> 0 < sint (budget s')"
begin

lemma ends_within_budget:
  assumes "0 < sint packet"
  shows "0 < sint (budget s) \<Longrightarrow> sint (budget s) \<le> int (length ts) * sint packet \<Longrightarrow>
     fst (while_ready stat body s ts) \<noteq> Looping"
proof (induction ts arbitrary: s)
  case Nil
  then show ?case by simp
next
  case (Cons t ts)
  obtain p l where b: "body s t = (p, l)" by fastforce
  show ?case
  proof (cases p)
    case (Continue s')
    have nz: "budget s \<noteq> 0" using Cons.prems(1) by auto
    note spent = continue_spends [OF b [unfolded Continue] nz]
    have "sint (budget s') = sint (budget s) - sint packet"
      using spent sint_diff_pos [OF Cons.prems(1) assms] by simp
    moreover have "sint (budget s) \<le> int (length ts) * sint packet + sint packet"
      using Cons.prems(2) by (simp add: algebra_simps)
    ultimately have "sint (budget s') \<le> int (length ts) * sint packet" by simp
    then have "fst (while_ready stat body s' ts) \<noteq> Looping"
      using Cons.IH [of s'] spent by blast
    then show ?thesis by (auto simp: b Continue split: prod.splits)
  qed (auto simp: b)
qed

end

lemma detect_audio_score_budget:
  "detect_audio_score C s f = (Continue s', l) \<Longrightarrow> sample_count s' = sample_count s"
  by (auto simp: detect_audio_score_def Let_def split: sum.splits if_splits)

lemma detect_silence_score_budget:
  "detect_silence_score C s f = (Continue s', l) \<Longrightarrow> sample_count s' = sample_count s"
  by (auto simp: detect_silence_score_def Let_def split: sum.splits if_splits)

lemma wait_for_silence_count_budget:
  "wait_for_silence_count C s f = (Continue s', l) \<Longrightarrow> w_sample_count s' = w_sample_count s"
  by (auto simp: wait_for_silence_count_def wait_for_silence_score_def Let_def
      split: sum.splits if_splits)

interpretation audio_loop: timed_loop status "detect_audio_body C" sample_count "spp C" for C
  by unfold_locales
    (auto simp: detect_audio_body_def Let_def
      split: if_splits playback.splits prod.splits dest!: detect_audio_score_budget)

interpretation silence_loop: timed_loop status "detect_silence_body C" sample_count "spp C" for C
  by unfold_locales
    (auto simp: detect_silence_body_def Let_def
      split: if_splits playback.splits prod.splits dest!: detect_silence_score_budget)

interpretation wait_loop:
  timed_loop w_status "wait_for_silence_body C" w_sample_count "spp C" for C
  by unfold_locales
    (auto simp: wait_for_silence_body_def Let_def
      split: if_splits playback.splits prod.splits dest!: wait_for_silence_count_budget)

section \<open>Counting consecutive hits\<close>

definition score_of :: "detect_cfg \<Rightarrow> frame \<Rightarrow> fault + u32" where
  "score_of C f = (case frame_energy (channels C) f of
      Inl e \<Rightarrow> Inl e | Inr energy \<Rightarrow> frame_score C f energy)"

definition loud :: "detect_cfg \<Rightarrow> tick \<Rightarrow> bool" where
  "loud C t = (case score_of C (read_frame t) of Inl e \<Rightarrow> False | Inr sc \<Rightarrow> sc \<ge> thresh C)"

definition quiet :: "detect_cfg \<Rightarrow> tick \<Rightarrow> bool" where
  "quiet C t = (case score_of C (read_frame t) of Inl e \<Rightarrow> False | Inr sc \<Rightarrow> sc \<le> thresh C)"

text \<open>A tick on which the call is up, the read succeeds and the frame can be scored.\<close>

definition plain_tick :: "detect_cfg \<Rightarrow> tick \<Rightarrow> bool" where
  "plain_tick C t \<longleftrightarrow> channel_ready t \<and> acceptable C (read_status t) \<and> \<not> isl (score_of C (read_frame t))"

locale hit_loop =
  fixes body :: "detect_cfg \<Rightarrow> detect_state \<Rightarrow> tick \<Rightarrow> detect_state pass \<times> ivr_action list"
    and hit :: "detect_cfg \<Rightarrow> tick \<Rightarrow> bool"
    and found :: string
  assumes scored:
    "plain_tick C t \<Longrightarrow> \<not> playing C \<Longrightarrow> sample_count s = 0 \<Longrightarrow> body C s t =
       (let h = (if hit C t then hits s + 1 else 0)
        in if h > hit_limit C then (Break (read_status t), [SetVariable found ''false''])
           else (Continue (s\<lparr>status := read_status t, hits := h\<rparr>), []))"
begin

lemma detects_run:
  assumes "unat (hit_limit C) < 2 ^ 32 - 1" and "\<not> playing C"
  shows "\<forall>t \<in> set ts. plain_tick C t \<Longrightarrow> sample_count s = 0 \<Longrightarrow> hits s \<le> hit_limit C \<Longrightarrow>
     snd (while_ready status (body C) s ts) =
       (if run_seen (unat (hit_limit C)) (unat (hits s)) (map (hit C) ts)
        then [SetVariable found ''false''] else []) \<and>
     (fst (while_ready status (body C) s ts) = Looping \<longleftrightarrow>
        \<not> run_seen (unat (hit_limit C)) (unat (hits s)) (map (hit C) ts))"
proof (induction ts arbitrary: s)
  case Nil
  then show ?case by simp
next
  case (Cons t ts)
  define h where "h = (if hit C t then hits s + 1 else 0)"
  have le: "unat (hits s) \<le> unat (hit_limit C)"
    using Cons.prems(3) by (simp add: word_le_nat_alt)
  then have "unat (hits s + 1) = Suc (unat (hits s))"
    using assms(1) by (simp add: unat_word_ariths)
  then have uh: "unat h = (if hit C t then Suc (unat (hits s)) else 0)"
    by (simp add: h_def)
  have t: "plain_tick C t" and ready: "channel_ready t"
    using Cons.prems(1) by (auto simp: plain_tick_def)
  note b = scored [OF t assms(2) Cons.prems(2), folded h_def, unfolded Let_def]
  show ?case
  proof (cases "h > hit_limit C")
    case True
    then show ?thesis using ready uh by (simp add: b word_less_nat_alt)
  next
    case False
    let ?s = "s\<lparr>status := read_status t, hits := h\<rparr>"
    have "hits ?s \<le> hit_limit C" using False by simp
    from Cons.IH [OF _ _ this] Cons.prems False ready uh show ?thesis
      by (auto simp: b word_less_nat_alt Let_def h_def split: prod.splits)
  qed
qed

lemma detects_iff_run:
  assumes "unat (hit_limit C) < 2 ^ 32 - 1" and "\<not> playing C"
    and "\<forall>t \<in> set ts. plain_tick C t" and "sample_count s = 0" and "hits s = 0"
  shows "SetVariable found ''false'' \<in> set (snd (while_ready status (body C) s ts)) \<longleftrightarrow>
           has_run (unat (hit_limit C)) (map (hit C) ts)"
    and "fst (while_ready status (body C) s ts) = Looping \<longleftrightarrow>
           \<not> has_run (unat (hit_limit C)) (map (hit C) ts)"
  using detects_run [OF assms(1,2,3), of s] assms(4,5)
    run_seen_has_run [of 0 "unat (hit_limit C)" "map (hit C) ts"]
  by auto

end

interpretation audio_hits: hit_loop detect_audio_body loud "''detect_audio_timeout''"
  by unfold_locales
    (auto simp: plain_tick_def detect_audio_body_def detect_audio_score_def play_packet_def loud_def
      score_of_def Let_def split: sum.splits)

interpretation quiet_hits: hit_loop detect_silence_body quiet "''detect_silence_timeout''"
  by unfold_locales
    (auto simp: plain_tick_def detect_silence_body_def detect_silence_score_def play_packet_def
      quiet_def score_of_def Let_def split: sum.splits)

section \<open>Energy\<close>

lemma energy_sum_Some:
  "unat j + n * (unat ch + 1) < 2 ^ 32 \<Longrightarrow>
   \<forall>k < n. unat j + k * (unat ch + 1) < length d \<Longrightarrow>
   energy_sum d ch n j e =
     Some (e + (\<Sum>k < n. nat \<bar>sint (d ! (unat j + k * (unat ch + 1)))\<bar>))"
proof (induction n arbitrary: j e)
  case 0
  then show ?case by simp
next
  case (Suc n)
  define j' where "j' = j + 1 + ch"
  have u: "unat j' = unat j + (unat ch + 1)"
    using Suc.prems(1) by (simp add: unat_word_ariths j'_def)
  have "unat j' + k * (unat ch + 1) < length d" if "k < n" for k
    using Suc.prems(2) [rule_format, of "Suc k"] that by (simp add: u)
  moreover have "unat j < length d" using Suc.prems(2) by (auto dest!: spec [of _ 0])
  ultimately have "energy_sum d ch n j' (e + nat \<bar>sint (d ! unat j)\<bar>) =
      Some (e + nat \<bar>sint (d ! unat j)\<bar> +
        (\<Sum>k < n. nat \<bar>sint (d ! (unat j + Suc k * (unat ch + 1)))\<bar>))"
    using Suc.IH [of j' "e + nat \<bar>sint (d ! unat j)\<bar>"] Suc.prems(1)
    by (simp add: u add.assoc add.left_commute)
  with \<open>unat j < length d\<close> show ?case
    by (simp add: j'_def sum.lessThan_Suc_shift add.assoc del: sum.lessThan_Suc mult_Suc)
qed

lemma energy_sum_overrun:
  "unat j + n * (unat ch + 1) < 2 ^ 32 \<Longrightarrow> k < n \<Longrightarrow> length d \<le> unat j + k * (unat ch + 1) \<Longrightarrow>
   energy_sum d ch n j e = None"
proof (induction n arbitrary: j e k)
  case 0
  then show ?case by simp
next
  case (Suc n)
  have u: "unat (j + 1 + ch) = unat j + (unat ch + 1)"
    using Suc.prems(1) by (simp add: unat_word_ariths)
  show ?case
  proof (cases k)
    case 0
    with Suc.prems(3) show ?thesis by simp
  next
    case (Suc k')
    have "energy_sum d ch n (j + 1 + ch) (e + nat \<bar>sint (d ! unat j)\<bar>) = None"
      using Suc.IH [of "j + 1 + ch" k'] Suc.prems Suc by (simp add: u)
    then show ?thesis by simp
  qed
qed

section \<open>Resources\<close>

definition balanced :: "ivr_action list \<Rightarrow> bool" where
  "balanced l \<longleftrightarrow> count_list l CodecInit = count_list l CodecDestroy \<and>
     length (filter (\<lambda>a. \<exists>n. a = FileOpened n) l) = count_list l FileClosed"

definition neutral :: "ivr_action list \<Rightarrow> bool" where
  "neutral l \<longleftrightarrow> (\<forall>a \<in> set l. a \<noteq> CodecInit \<and> a \<noteq> CodecDestroy \<and> a \<noteq> FileClosed \<and> (\<forall>n. a \<noteq> FileOpened n))"

lemma neutral_append [simp]: "neutral [] \<and> (neutral (l @ l') \<longleftrightarrow> neutral l \<and> neutral l')"
  by (auto simp: neutral_def)

lemma neutral_counts:
  assumes "neutral l"
  shows "count_list l CodecInit = 0" "count_list l CodecDestroy = 0" "count_list l FileClosed = 0"
    "filter (\<lambda>a. \<exists>n. a = FileOpened n) l = []"
  using assms by (auto simp: neutral_def count_list_0_iff filter_empty_conv)

lemma while_ready_neutral:
  assumes "\<And>s t. neutral (snd (body s t))"
  shows "neutral (snd (while_ready stat body s ts))"
proof (induction ts arbitrary: s)
  case Nil
  then show ?case by (simp add: neutral_def)
next
  case (Cons t ts)
  obtain p l where b: "body s t = (p, l)" by fastforce
  have "neutral l" using assms [of s t] b by simp
  moreover have "neutral (snd (while_ready stat body s' ts))" for s' by (rule Cons.IH)
  then have "neutral l'" if "while_ready stat body s' ts = (e, l')" for s' e l'
    using that by (metis snd_conv)
  ultimately show ?case by (cases p) (auto simp: b split: prod.splits)
qed

lemma detect_audio_body_neutral: "neutral (snd (detect_audio_body C s t))"
  by (auto simp: detect_audio_body_def detect_audio_score_def Let_def neutral_def
      split: playback.splits sum.splits prod.splits if_splits)

lemma detect_silence_body_neutral: "neutral (snd (detect_silence_body C s t))"
  by (auto simp: detect_silence_body_def detect_silence_score_def Let_def neutral_def
      split: playback.splits sum.splits prod.splits if_splits)

lemma wait_for_silence_body_neutral: "neutral (snd (wait_for_silence_body C s t))"
  by (auto simp: wait_for_silence_body_def wait_for_silence_count_def wait_for_silence_score_def
      Let_def neutral_def split: playback.splits sum.splits prod.splits if_splits)

lemma with_detect_resources_balanced:
  assumes "neutral (snd body)" and "with_detect_resources A file body = (Ended st, l)"
  shows "balanced l"
  using assms neutral_counts [OF assms(1)]
  by (auto simp: with_detect_resources_def balanced_def Let_def
      split: if_splits prod.splits option.splits loop_end.splits)

section \<open>Properties\<close>

lemma with_detect_resources_ends:
  assumes "fst body \<noteq> Looping"
  shows "fst (with_detect_resources A file body) \<noteq> Looping"
  using assms by (auto simp: with_detect_resources_def Let_def split: prod.splits)

text \<open>C25. With a timeout set, none of the three detectors can hang: once the channel has been
  polled for the timeout's worth of packets the function has returned, whatever frames, file
  data and statuses FreeSWITCH delivers.\<close>

theorem detectors_return_within_timeout:
  assumes "0 < sint (samples_per_packet A)" and "0 < sint (timeout_samples A timeout_ms)"
    and "sint (timeout_samples A timeout_ms) \<le> int (length ts) * sint (samples_per_packet A)"
  shows "fst (switch_ivr_detect_audio acc A th n timeout_ms file ts) \<noteq> Looping \<and>
    fst (switch_ivr_detect_silence acc A th n timeout_ms file ts) \<noteq> Looping \<and>
    fst (switch_ivr_wait_for_silence acc A th n m timeout_ms file ts) \<noteq> Looping"
proof -
  have pkt: "0 < sint (spp (mk_detect_cfg acc A th n k file))" for k
    using assms(1) by (simp add: mk_detect_cfg_def)
  have len: "sint (timeout_samples A timeout_ms)
      \<le> int (length ts) * sint (spp (mk_detect_cfg acc A th n k file))" for k
    using assms(3) by (simp add: mk_detect_cfg_def)
  show ?thesis
    unfolding switch_ivr_detect_audio_def switch_ivr_detect_silence_def
      switch_ivr_wait_for_silence_def
    by (intro conjI with_detect_resources_ends audio_loop.ends_within_budget
        silence_loop.ends_within_budget wait_loop.ends_within_budget pkt)
      (simp_all add: assms(2) len)
qed

definition example_setup :: detect_setup where
  "example_setup = \<lparr>actual_samples_per_second = 8000, number_of_channels = 1,
     file_open_status = SWITCH_STATUS_SUCCESS, fh_channels = 1,
     codec_init_status = SWITCH_STATUS_SUCCESS, samples_per_packet = 160\<rparr>"

definition example_tick :: "u16 \<Rightarrow> tick" where
  "example_tick v = \<lparr>channel_ready = True, read_status = SWITCH_STATUS_SUCCESS,
     read_frame = \<lparr>data = [v, v, v, v], seq = 1, samples = 2\<rparr>,
     file_read = (SWITCH_STATUS_SUCCESS, 160), write_status = SWITCH_STATUS_SUCCESS\<rparr>"

theorem detectors_return_within_timeout_witness:
  "fst (switch_ivr_detect_audio (\<lambda>st. st = SWITCH_STATUS_SUCCESS) example_setup 100 1000 40 None
          (replicate 2 (example_tick 0))) \<noteq> Looping"
proof -
  have ts: "timeout_samples example_setup 40 = 320"
    by (simp add: timeout_samples_def example_setup_def)
  have "0 < sint (samples_per_packet example_setup)"
    and "0 < sint (timeout_samples example_setup 40)"
    and "sint (timeout_samples example_setup 40)
          \<le> int (length (replicate 2 (example_tick 0))) * sint (samples_per_packet example_setup)"
    unfolding ts by (simp_all add: example_setup_def)
  from detectors_return_within_timeout [OF this] show ?thesis by blast
qed

text \<open>C7. \<open>switch_ivr_detect_audio\<close> without timeout and playback reports audio exactly when
  the frames read contain more than \<open>audio_hits\<close> consecutive frames whose score reaches
  the threshold, and keeps listening otherwise.\<close>

theorem detect_audio_iff_run:
  assumes "C = mk_detect_cfg acc A th audio_hits 0 None"
    and "codec_init_status A = SWITCH_STATUS_SUCCESS"
    and "unat audio_hits < 2 ^ 32 - 1" and "\<forall>t \<in> set ts. plain_tick C t"
  shows "(SetVariable ''detect_audio_timeout'' ''false'' \<in>
            set (snd (switch_ivr_detect_audio acc A th audio_hits 0 None ts)) \<longleftrightarrow>
          has_run (unat audio_hits) (map (loud C) ts)) \<and>
         (fst (switch_ivr_detect_audio acc A th audio_hits 0 None ts) = Looping \<longleftrightarrow>
          \<not> has_run (unat audio_hits) (map (loud C) ts))"
proof -
  have C: "hit_limit C = audio_hits" "\<not> playing C" by (simp_all add: assms(1) mk_detect_cfg_def)
  let ?s = "\<lparr>status = SWITCH_STATUS_FALSE, sample_count = timeout_samples A 0, hits = 0\<rparr>"
  have "sample_count ?s = 0" "hits ?s = 0" by (simp_all add: timeout_samples_def)
  from audio_hits.detects_iff_run [of C ts ?s, OF _ C(2) assms(4) this] assms(3) C(1)
  show ?thesis
    unfolding switch_ivr_detect_audio_def assms(1) [symmetric]
    by (auto simp: with_detect_resources_def assms(2) split: prod.splits loop_end.splits)
qed

theorem detect_audio_iff_run_witness:
  "SetVariable ''detect_audio_timeout'' ''false'' \<in>
     set (snd (switch_ivr_detect_audio (\<lambda>st. st = SWITCH_STATUS_SUCCESS) example_setup 100 1 0 None
                 [example_tick 0, example_tick 500, example_tick 500]))"
proof -
  let ?acc = "\<lambda>st. st = SWITCH_STATUS_SUCCESS"
  let ?C = "mk_detect_cfg ?acc example_setup 100 1 0 None"
  let ?ts = "[example_tick 0, example_tick 500, example_tick 500]"
  have two: "energy_sum d ch 2 j e =
      (if unat j < length d \<and> unat (j + 1 + ch) < length d
       then Some (e + nat \<bar>sint (d ! unat j)\<bar> + nat \<bar>sint (d ! unat (j + 1 + ch))\<bar>) else None)"
    for d ch j e by (simp add: numeral_2_eq_2)
  have sc: "score_of ?C (read_frame (example_tick 0)) = Inr 0"
    "score_of ?C (read_frame (example_tick 500)) = Inr 500"
    by (simp_all add: score_of_def frame_energy_def example_tick_def two frame_score_def
        mk_detect_cfg_def example_setup_def)
  have plain: "\<forall>t \<in> set ?ts. plain_tick ?C t"
    using sc by (auto simp: plain_tick_def example_tick_def mk_detect_cfg_def)
  have "map (loud ?C) ?ts = [False, True, True]"
    using sc by (simp add: loud_def) (simp add: mk_detect_cfg_def)
  then have "has_run (unat (1 :: u32)) (map (loud ?C) ?ts)"
    unfolding has_run_def by (intro exI [of _ 1]) (auto simp: le_Suc_eq)
  moreover have "codec_init_status example_setup = SWITCH_STATUS_SUCCESS"
    by (simp add: example_setup_def)
  moreover have "unat (1 :: u32) < 2 ^ 32 - 1" by simp
  ultimately show ?thesis using detect_audio_iff_run [OF refl _ _ plain] by blast
qed

text \<open>Whenever a detector returns, it has destroyed every codec it initialised and closed
  every file it opened, on every path (open failure, codec failure, read or write errors,
  timeout, detection, hangup).\<close>

theorem detectors_release_resources:
  assumes "r = switch_ivr_detect_audio acc A th n timeout_ms file ts
    \<or> r = switch_ivr_detect_silence acc A th n timeout_ms file ts
    \<or> r = switch_ivr_wait_for_silence acc A th n m timeout_ms file ts"
    and "r = (Ended st, l)"
  shows "balanced l"
  using assms unfolding switch_ivr_detect_audio_def switch_ivr_detect_silence_def
    switch_ivr_wait_for_silence_def
  by (elim disjE)
    (simp_all add: with_detect_resources_balanced
      [OF while_ready_neutral [of "detect_audio_body C" for C, OF detect_audio_body_neutral]]
      with_detect_resources_balanced
      [OF while_ready_neutral [of "detect_silence_body C" for C, OF detect_silence_body_neutral]]
      with_detect_resources_balanced
      [OF while_ready_neutral [of "wait_for_silence_body C" for C, OF wait_for_silence_body_neutral]])

theorem detectors_release_resources_witness:
  "balanced (snd (switch_ivr_detect_audio (\<lambda>st. True) example_setup 100 1 0 (Some ''f'')
     [(example_tick 0)\<lparr>channel_ready := False\<rparr>]))"
proof -
  let ?r = "switch_ivr_detect_audio (\<lambda>st. True) example_setup 100 1 0 (Some ''f'')
     [(example_tick 0)\<lparr>channel_ready := False\<rparr>]"
  have "?r = (Ended SWITCH_STATUS_FALSE, snd ?r)"
    by (simp add: switch_ivr_detect_audio_def with_detect_resources_def example_setup_def)
  from detectors_release_resources [OF disjI1 [OF refl] this] show ?thesis .
qed

text \<open>The energy loop strides by \<open>channels + 1\<close> samples, not by \<open>channels\<close>: on a
  frame whose buffer holds exactly its \<open>samples * channels\<close> samples it runs past the end as
  soon as there are more samples than channels; it stays inside only when the buffer is
  longer than the frame, and then it sums every \<open>(channels + 1)\<close>-th sample of the buffer.\<close>

theorem energy_reads_past_frame:
  assumes "unat ch < unat (samples f)" and "unat (samples f) * (unat ch + 1) < 2 ^ 32"
  shows "(length (data f) = unat (samples f) * unat ch \<longrightarrow> frame_energy ch f = Inl Out_Of_Bounds) \<and>
    ((unat (samples f) - 1) * (unat ch + 1) < length (data f) \<longrightarrow>
       frame_energy ch f =
         Inr (\<Sum>k < unat (samples f). nat \<bar>sint (data f ! (k * (unat ch + 1)))\<bar>))"
proof (intro conjI impI)
  let ?n = "unat (samples f)"
  have n: "?n - 1 < ?n" using assms(1) by simp
  assume "length (data f) = ?n * unat ch"
  moreover have "(?n - 1) * (unat ch + 1) = ?n * unat ch + (?n - 1 - unat ch)"
    using assms(1) by (cases ?n) (auto simp: algebra_simps)
  ultimately have "length (data f) \<le> unat (0 :: u32) + (?n - 1) * (unat ch + 1)" by simp
  from energy_sum_overrun [OF _ n this] assms(2) show "frame_energy ch f = Inl Out_Of_Bounds"
    by (simp add: frame_energy_def)
next
  let ?n = "unat (samples f)"
  assume len: "(?n - 1) * (unat ch + 1) < length (data f)"
  have "\<forall>k < ?n. unat (0 :: u32) + k * (unat ch + 1) < length (data f)"
  proof (intro allI impI)
    fix k assume "k < ?n"
    then have "k * (unat ch + 1) \<le> (?n - 1) * (unat ch + 1)" by (intro mult_le_mono1) simp
    with len show "unat (0 :: u32) + k * (unat ch + 1) < length (data f)" by simp
  qed
  from energy_sum_Some [OF _ this] assms(2)
  show "frame_energy ch f = Inr (\<Sum>k < ?n. nat \<bar>sint (data f ! (k * (unat ch + 1)))\<bar>)"
    by (simp add: frame_energy_def)
qed

theorem energy_reads_past_frame_witness:
  "frame_energy 1 \<lparr>data = [1, 2], seq = 1, samples = 2\<rparr> = Inl Out_Of_Bounds"
proof -
  have "unat (1 :: u32) < unat (samples \<lparr>data = [1, 2], seq = 1, samples = 2\<rparr>)"
    and "unat (samples \<lparr>data = [1 :: u16, 2], seq = 1, samples = 2\<rparr>) * (unat (1 :: u32) + 1) < 2 ^ 32"
    by simp_all
  from energy_reads_past_frame [OF this] show ?thesis by simp
qed

end
