(* ===== verification/Ivr_Digits.thy ===== *)
theory Ivr_Digits
  imports Fs_Types
begin

text \<open>
  DTMF prompts of \<open>src/src/switch_ivr_play_say.c\<close>: \<open>switch_ivr_read\<close> (play a prompt,
  collect digits) and \<open>switch_play_and_get_digits\<close> (retry until the digits are valid).
  The answers of the channel, of the prompt playback and of the digit collector are an
  argument (\<open>read_answers\<close>, \<open>try_answers\<close>); what the functions do to the channel is
  the list of \<open>digit_action\<close>s, in order. \<open>digit_buffer\<close> is the C string it holds.
\<close>

section \<open>Answers and actions\<close>

text \<open>\<open>READ_RESULT\<close> and \<open>READ_TERMINATOR_USED\<close> are FreeSWITCH's variable names;
  \<open>NullName\<close> is a null pointer passed for the name.\<close>

datatype chan_var = READ_RESULT | READ_TERMINATOR_USED | Named string | NullName

datatype digit_action =
    SetVar chan_var cstring
  | PlayPrompt cstring
  | PlayBadInput cstring
  | CollectDigits u32 u32 u32
  | SessionTransfer string cstring cstring

record read_answers =
  pre_answer :: switch_status_t
  play_answer :: "switch_status_t \<times> string"
  collect_answer :: "switch_status_t \<times> string \<times> char option"

record try_answers =
  ready_before :: bool
  read_ans :: read_answers
  ready_after :: bool

section \<open>switch\_ivr\_read\<close>

text \<open>\<open>(min_digits && len < min_digits) || len < max_digits\<close>\<close>

definition want_more :: "u32 \<Rightarrow> u32 \<Rightarrow> nat \<Rightarrow> bool" where
  "want_more min_digits max_digits len \<longleftrightarrow>
     (min_digits \<noteq> 0 \<and> len < unat min_digits) \<or> len < unat max_digits"

text \<open>
  \<open>strchr(valid_terminators, c)\<close> with the character before the match: \<open>None\<close> if there
  is no match, \<open>Some None\<close> for a match at the first position.
\<close>

fun strchr_prev :: "char option \<Rightarrow> string \<Rightarrow> char \<Rightarrow> char option option" where
  "strchr_prev prev [] c = None"
| "strchr_prev prev (x # xs) c = (if x = c then Some prev else strchr_prev (Some x) xs c)"

text \<open>The terminator handling: variable, append for \<open>+\<close> and \<open>x\<close>, restart for \<open>x\<close>.\<close>

definition use_terminator ::
  "cstring \<Rightarrow> size_t \<Rightarrow> char \<Rightarrow> switch_status_t \<Rightarrow> string \<Rightarrow> switch_status_t \<times> string" where
  "use_terminator terms buflen c st buf =
     (if zstr terms then (st, buf)
      else case strchr_prev None (the terms) c of
        Some (Some p) \<Rightarrow>
          if p = CHR ''+'' \<or> p = CHR ''x''
          then (if p = CHR ''x'' then SWITCH_STATUS_RESTART else st,
                if length buf + 1 < unat buflen then buf @ [c] else buf)
          else (st, buf)
      | _ \<Rightarrow> (st, buf))"

definition read_result_text :: "switch_status_t \<Rightarrow> string" where
  "read_result_text st =
     (case st of SWITCH_STATUS_SUCCESS \<Rightarrow> ''success''
      | SWITCH_STATUS_TIMEOUT \<Rightarrow> ''timeout''
      | _ \<Rightarrow> ''failure'')"

text \<open>The code from the label \<open>end\<close> on; \<open>len\<close> is the local variable of that name.\<close>

definition read_finish ::
  "u32 \<Rightarrow> cstring \<Rightarrow> cstring \<Rightarrow> nat \<Rightarrow> switch_status_t \<Rightarrow> string
     \<Rightarrow> switch_status_t \<times> string \<times> digit_action list" where
  "read_finish max_digits terms var_name len st buf =
     (let buf' = (if st \<noteq> SWITCH_STATUS_RESTART \<and> max_digits = 1 \<and> len = 1 \<and> terms \<noteq> None
                     \<and> (buf = [] \<or> hd buf \<in> set (the terms))
                  then [] else buf)
      in (st, buf',
          if var_name \<noteq> None \<and> buf' \<noteq> [] then [SetVar (Named (the var_name)) (Some buf')] else []))"

text \<open>The terminator, if the collector reported one; a leading \<open>=\<close> makes it required.\<close>

definition apply_terminator ::
  "cstring \<Rightarrow> size_t \<Rightarrow> switch_status_t \<Rightarrow> string \<Rightarrow> char option
     \<Rightarrow> switch_status_t \<times> string \<times> digit_action list" where
  "apply_terminator terms buflen st buf tb =
     (let term_required = (case terms of Some (x # xs) \<Rightarrow> x = CHR ''='' | _ \<Rightarrow> False)
      in case tb of
           Some c \<Rightarrow> (let (s, b) = use_terminator terms buflen c st buf
                      in (s, b, [SetVar READ_TERMINATOR_USED (Some [c])]))
         | None \<Rightarrow> ((if term_required then SWITCH_STATUS_TOO_SMALL else st), buf, []))"

text \<open>From the collected digits to the status and the \<open>read_result\<close> variable.\<close>

definition read_conclude ::
  "u32 \<Rightarrow> u32 \<Rightarrow> cstring \<Rightarrow> cstring \<Rightarrow> size_t \<Rightarrow> switch_status_t \<Rightarrow> string \<Rightarrow> char option
     \<Rightarrow> switch_status_t \<times> string \<times> digit_action list" where
  "read_conclude min_digits max_digits terms var_name buflen st buf tb =
     (let (st1, buf1, l1) = apply_terminator terms buflen st buf tb;
          len = length buf1;
          st2 = (if min_digits \<noteq> 0 \<and> len < unat min_digits then SWITCH_STATUS_TOO_SMALL else st1);
          (st3, buf3, l3) = read_finish max_digits terms var_name len st2 buf1
      in (st3, buf3, l1 @ [SetVar READ_RESULT (Some (read_result_text st2))] @ l3))"

definition switch_ivr_read ::
  "read_answers \<Rightarrow> u32 \<Rightarrow> u32 \<Rightarrow> cstring \<Rightarrow> cstring \<Rightarrow> string \<Rightarrow> size_t \<Rightarrow> u32 \<Rightarrow> cstring \<Rightarrow> u32
     \<Rightarrow> switch_status_t \<times> string \<times> digit_action list" where
  "switch_ivr_read A min_digits max_digits0 prompt var_name buf0 buflen timeout terms digit_timeout0 =
     (let digit_timeout = (if digit_timeout0 = 0 then timeout else digit_timeout0);
          max_digits = (if max_digits0 < min_digits then min_digits else max_digits0);
          l0 = SetVar READ_RESULT None #
               (case var_name of None \<Rightarrow> [] | Some v \<Rightarrow> [SetVar (Named v) None])
      in if (min_digits \<noteq> 0 \<and> unat buflen < unat min_digits) \<or> unat buflen < unat max_digits
         then (SWITCH_STATUS_FALSE, buf0, l0)
         else if pre_answer A \<noteq> SWITCH_STATUS_SUCCESS then (SWITCH_STATUS_FALSE, buf0, l0)
         else let playing = \<not> zstr prompt \<and> \<not> strcasecmp_eq (the prompt) ''silence'';
                  (st, buf) = (if playing then play_answer A else (SWITCH_STATUS_SUCCESS, []));
                  st = (if playing \<and> st = SWITCH_STATUS_BREAK then SWITCH_STATUS_SUCCESS else st);
                  l1 = l0 @ (if playing then [PlayPrompt prompt] else [])
              in if st \<noteq> SWITCH_STATUS_SUCCESS \<and> st \<noteq> SWITCH_STATUS_BREAK
                 then let (st', buf', l') = read_finish max_digits terms var_name 0 st buf
                      in (st', buf', l1 @ l')
                 else let len = length buf;
                          collect = want_more min_digits max_digits len;
                          (st1, buf1, tb) = (if collect then collect_answer A else (st, buf, None));
                          l2 = l1 @ (if collect
                                     then [CollectDigits max_digits
                                             (if len \<noteq> 0 then digit_timeout else timeout) digit_timeout]
                                     else []);
                          (st', buf', l') =
                            read_conclude min_digits max_digits terms var_name buflen st1 buf1 tb
                      in (st', buf', l2 @ l'))"

section \<open>switch\_play\_and\_get\_digits\<close>

text \<open>The arguments that stay fixed during the retries.\<close>

record pagd_args =
  min_digits :: u32
  max_digits :: u32
  pagd_timeout :: u32
  valid_terminators :: cstring
  prompt_audio_file :: cstring
  bad_input_audio_file :: cstring
  var_name :: cstring
  digit_buffer_length :: u32
  digits_regex :: cstring
  digit_timeout :: u32
  transfer_on_failure :: cstring

text \<open>
  What FreeSWITCH computes for the function: the regex test, the splitting of the transfer
  target, and the value of \<open>READ_TERMINATOR_USED\<close> after a given history of actions.
\<close>

record pagd_env =
  regex_match :: "string \<Rightarrow> string \<Rightarrow> bool"
  separate_string :: "string \<Rightarrow> string list"
  terminator_used :: "digit_action list \<Rightarrow> cstring"

definition invalid_var :: "string \<Rightarrow> chan_var" where
  "invalid_var v = Named (v @ ''_invalid'')"

text \<open>After the loop: clear the buffer, transfer if a target is given.\<close>

definition pagd_fail :: "pagd_env \<Rightarrow> pagd_args \<Rightarrow> switch_status_t \<times> string \<times> digit_action list" where
  "pagd_fail E P =
     (SWITCH_STATUS_FALSE, [],
      if zstr (transfer_on_failure P) then []
      else case separate_string E (the (transfer_on_failure P)) of
        [] \<Rightarrow> []
      | [x] \<Rightarrow> [SessionTransfer x None None]
      | [x, y] \<Rightarrow> [SessionTransfer x (Some y) None]
      | x # y # z # _ \<Rightarrow> [SessionTransfer x (Some y) (Some z)])"

text \<open>What one try decides: return, or what it did before asking for another try.\<close>

datatype pagd_try =
    TryReturn switch_status_t string "digit_action list"
  | TryAgain "digit_action list"

definition pagd_one_try :: "pagd_env \<Rightarrow> pagd_args \<Rightarrow> digit_action list \<Rightarrow> read_answers \<Rightarrow> pagd_try" where
  "pagd_one_try E P hist A =
     (let (st0, buf, l) = switch_ivr_read A (min_digits P) (max_digits P) (prompt_audio_file P)
            (var_name P) [] (ucast (digit_buffer_length P)) (pagd_timeout P) (valid_terminators P)
            (digit_timeout P)
      in if st0 = SWITCH_STATUS_RESTART then TryReturn st0 buf l
         else let st = (if st0 = SWITCH_STATUS_TIMEOUT \<and> unat (min_digits P) \<le> length buf
                        then SWITCH_STATUS_SUCCESS else st0)
         in if min_digits P = 0 \<and> buf = [] \<and> terminator_used E (hist @ l) \<noteq> None
            then TryReturn SWITCH_STATUS_SUCCESS buf l
            else if \<not> (st = SWITCH_STATUS_TOO_SMALL \<and> buf = []) \<and> st = SWITCH_STATUS_SUCCESS \<and> buf \<noteq> []
            then if zstr (digits_regex P) then TryReturn SWITCH_STATUS_SUCCESS buf l
                 else if regex_match E buf (the (digits_regex P))
                 then TryReturn SWITCH_STATUS_SUCCESS buf l
                 else TryAgain (l @ (case var_name P of
                          None \<Rightarrow> [SetVar NullName None]
                        | Some v \<Rightarrow> SetVar (Named v) None #
                            (if v = [] then [] else [SetVar (invalid_var v) (Some buf)])))
            else TryAgain l)"

fun pagd_loop ::
  "pagd_env \<Rightarrow> pagd_args \<Rightarrow> u32 \<Rightarrow> digit_action list \<Rightarrow> try_answers list
     \<Rightarrow> (switch_status_t \<times> string \<times> digit_action list) option" where
  "pagd_loop E P max_tries hist [] =
     (if max_tries = 0
      then (let (st, buf, l) = pagd_fail E P in Some (st, buf, hist @ l)) else None)"
| "pagd_loop E P max_tries hist (t # ts) =
     (if \<not> (ready_before t \<and> max_tries \<noteq> 0)
      then (let (st, buf, l) = pagd_fail E P in Some (st, buf, hist @ l))
      else case pagd_one_try E P hist (read_ans t) of
        TryReturn st buf l \<Rightarrow> Some (st, buf, hist @ l)
      | TryAgain l \<Rightarrow>
          if \<not> ready_after t
          then (let (st, buf, l') = pagd_fail E P in Some (st, buf, hist @ l @ l'))
          else pagd_loop E P (max_tries - 1) (hist @ l @ [PlayBadInput (bad_input_audio_file P)]) ts)"

definition switch_play_and_get_digits ::
  "pagd_env \<Rightarrow> pagd_args \<Rightarrow> u32 \<Rightarrow> try_answers list
     \<Rightarrow> (switch_status_t \<times> string \<times> digit_action list) option" where
  "switch_play_and_get_digits E P max_tries ts =
     pagd_loop E P max_tries
       (if \<not> zstr (digits_regex P) \<and> \<not> zstr (var_name P)
        then [SetVar (invalid_var (the (var_name P))) None] else []) ts"

section \<open>What a read guarantees\<close>




section \<open>The retry loop\<close>



definition is_bad_input :: "digit_action \<Rightarrow> bool" where
  "is_bad_input a = (case a of PlayBadInput f \<Rightarrow> True | _ \<Rightarrow> False)"

definition is_prompt :: "digit_action \<Rightarrow> bool" where
  "is_prompt a = (case a of PlayPrompt f \<Rightarrow> True | _ \<Rightarrow> False)"

definition prompts :: "digit_action list \<Rightarrow> nat" where
  "prompts l = length (filter is_prompt l)"

definition complaints :: "digit_action list \<Rightarrow> nat" where
  "complaints l = length (filter is_bad_input l)"

lemma prompt_counts [simp]:
  "prompts [] = 0" "complaints [] = 0"
  "prompts (l @ l') = prompts l + prompts l'" "complaints (l @ l') = complaints l + complaints l'"
  "prompts (SetVar v x # l) = prompts l" "complaints (SetVar v x # l) = complaints l"
  "prompts (PlayPrompt f # l) = Suc (prompts l)" "complaints (PlayPrompt f # l) = complaints l"
  "prompts (PlayBadInput f # l) = prompts l" "complaints (PlayBadInput f # l) = Suc (complaints l)"
  "prompts (CollectDigits a b c # l) = prompts l"
  "complaints (CollectDigits a b c # l) = complaints l"
  "prompts (SessionTransfer e y z # l) = prompts l"
  "complaints (SessionTransfer e y z # l) = complaints l"
  by (simp_all add: prompts_def complaints_def is_prompt_def is_bad_input_def)

lemma read_finish_counts:
  "read_finish m terms v len st buf = (st', buf', l) \<Longrightarrow> prompts l = 0 \<and> complaints l = 0"
  by (auto simp: read_finish_def Let_def split: if_splits)

lemma read_conclude_counts:
  "read_conclude mn mx terms v bl st buf tb = (st', buf', l) \<Longrightarrow> prompts l = 0 \<and> complaints l = 0"
  by (auto simp: read_conclude_def apply_terminator_def Let_def
      split: prod.splits option.splits dest!: read_finish_counts)

lemma switch_ivr_read_counts:
  "switch_ivr_read A mn mx prompt v buf0 bl to terms dto = (st, buf, l) \<Longrightarrow>
     prompts l \<le> 1 \<and> complaints l = 0"
  by (auto simp: switch_ivr_read_def Let_def split: prod.splits option.splits if_splits
      dest!: read_finish_counts read_conclude_counts)

lemma pagd_one_try_counts:
  "pagd_one_try E P hist A = TryReturn st buf l \<Longrightarrow> prompts l \<le> 1 \<and> complaints l = 0"
  "pagd_one_try E P hist A = TryAgain l \<Longrightarrow> prompts l \<le> 1 \<and> complaints l = 0"
  by (auto simp: pagd_one_try_def Let_def split: prod.splits if_splits option.splits
      dest!: switch_ivr_read_counts)

lemma pagd_one_try_false:
  assumes "pagd_one_try E P hist A = TryReturn st buf l"
  shows "st = SWITCH_STATUS_SUCCESS \<or> st = SWITCH_STATUS_RESTART"
  using assms by (auto simp: pagd_one_try_def Let_def split: prod.splits if_splits)

lemma pagd_fail_shape:
  "\<exists>l. pagd_fail E P = (SWITCH_STATUS_FALSE, [], l) \<and> prompts l = 0 \<and> complaints l = 0"
  by (auto simp: pagd_fail_def split: list.splits)

lemma pagd_loop_bounded:
  "unat n \<le> length ts \<Longrightarrow> \<exists>st buf l. pagd_loop E P n hist ts = Some (st, buf, hist @ l) \<and>
     prompts l \<le> unat n \<and> complaints l \<le> unat n \<and>
     (st = SWITCH_STATUS_SUCCESS \<or> st = SWITCH_STATUS_RESTART \<or> st = SWITCH_STATUS_FALSE \<and> buf = [])"
proof (induction E P n hist ts rule: pagd_loop.induct)
  case (1 E P n hist)
  then show ?case using pagd_fail_shape [of E P] by (auto simp: unat_eq_0)
next
  case (2 E P n hist t ts)
  obtain lf where f: "pagd_fail E P = (SWITCH_STATUS_FALSE, [], lf)" "prompts lf = 0" "complaints lf = 0"
    using pagd_fail_shape by blast
  show ?case
  proof (cases "ready_before t \<and> n \<noteq> 0")
    case False
    then show ?thesis using f by auto
  next
    case True
    then have n: "unat (n - 1) = unat n - 1" and n1: "1 \<le> unat n"
      by (simp_all add: unat_minus_one Suc_leI unat_gt_0)
    show ?thesis
    proof (cases "pagd_one_try E P hist (read_ans t)")
      case (TryReturn st b l)
      with True n1 pagd_one_try_counts(1) [OF TryReturn] pagd_one_try_false [OF TryReturn]
      show ?thesis by auto
    next
      case (TryAgain l)
      note c = pagd_one_try_counts(2) [OF TryAgain]
      show ?thesis
      proof (cases "ready_after t")
        case False
        with True TryAgain f c n1 show ?thesis by auto
      next
        case ra: True
        from "2.prems" n have "unat (n - 1) \<le> length ts" by simp
        from "2.IH" [OF _ TryAgain _ this] True ra
        obtain st buf l' where "pagd_loop E P (n - 1)
            (hist @ l @ [PlayBadInput (bad_input_audio_file P)]) ts
            = Some (st, buf, (hist @ l @ [PlayBadInput (bad_input_audio_file P)]) @ l')"
          "prompts l' \<le> unat (n - 1)" "complaints l' \<le> unat (n - 1)"
          "st = SWITCH_STATUS_SUCCESS \<or> st = SWITCH_STATUS_RESTART \<or> st = SWITCH_STATUS_FALSE \<and> buf = []"
          by blast
        with True TryAgain ra c n n1 show ?thesis by (auto simp: Let_def)
      qed
    qed
  qed
qed

section \<open>Properties\<close>


definition example_pagd :: pagd_args where
  "example_pagd = \<lparr>min_digits = 2, max_digits = 4, pagd_timeout = 3000,
     valid_terminators = Some ''#'', prompt_audio_file = Some ''p'',
     bad_input_audio_file = Some ''b'', var_name = Some ''v'', digit_buffer_length = 16,
     digits_regex = Some ''12'', digit_timeout = 1000, transfer_on_failure = None\<rparr>"

definition example_pagd_env :: pagd_env where
  "example_pagd_env = \<lparr>regex_match = (\<lambda>d r. d = r), separate_string = (\<lambda>s. [s]),
     terminator_used = (\<lambda>l. None)\<rparr>"

definition example_try :: "switch_status_t \<Rightarrow> string \<Rightarrow> try_answers" where
  "example_try st d = \<lparr>ready_before = True,
     read_ans = \<lparr>pre_answer = SWITCH_STATUS_SUCCESS, play_answer = (SWITCH_STATUS_SUCCESS, []),
                 collect_answer = (st, d, None)\<rparr>, ready_after = True\<rparr>"



text \<open>The retries are bounded: given answers for \<open>max_tries\<close> tries the function has
  returned, it played the prompt and the bad-input file at most \<open>max_tries\<close> times each, and
  unless it reports success or restart it returns \<open>SWITCH_STATUS_FALSE\<close> with an empty
  digit buffer.\<close>

theorem play_and_get_digits_bounded:
  assumes "unat max_tries \<le> length ts"
  shows "\<exists>st buf l. switch_play_and_get_digits E P max_tries ts = Some (st, buf, l) \<and>
     prompts l \<le> unat max_tries \<and> complaints l \<le> unat max_tries \<and>
     (st = SWITCH_STATUS_SUCCESS \<or> st = SWITCH_STATUS_RESTART \<or> st = SWITCH_STATUS_FALSE \<and> buf = [])"
proof -
  let ?h = "if \<not> zstr (digits_regex P) \<and> \<not> zstr (var_name P)
        then [SetVar (invalid_var (the (var_name P))) None] else []"
  have "prompts ?h = 0" "complaints ?h = 0" by simp_all
  with pagd_loop_bounded [OF assms, of E P ?h] show ?thesis
    unfolding switch_play_and_get_digits_def by fastforce
qed

theorem play_and_get_digits_bounded_witness:
  "\<exists>st buf l. switch_play_and_get_digits example_pagd_env example_pagd 2
       [example_try SWITCH_STATUS_TIMEOUT [], example_try SWITCH_STATUS_SUCCESS ''99'']
     = Some (st, buf, l) \<and> prompts l \<le> 2"
proof -
  have "unat (2 :: u32) \<le> length [example_try SWITCH_STATUS_TIMEOUT [],
          example_try SWITCH_STATUS_SUCCESS ''99'']" by simp
  from play_and_get_digits_bounded [OF this, of example_pagd_env example_pagd] show ?thesis by auto
qed

text \<open>\<open>switch_ivr_read\<close> never clears \<open>READ_TERMINATOR_USED\<close>: with
  \<open>min_digits = 0\<close>, a try that times out without a digit and without a terminator is
  reported as a success whenever an earlier read on the channel left the variable set.\<close>

theorem stale_terminator_accepted:
  assumes "min_digits P = 0" and "max_digits P \<noteq> 0" and "zstr (prompt_audio_file P)"
    and "unat (max_digits P) \<le> unat (digit_buffer_length P)" and "zstr (valid_terminators P)"
    and "pre_answer A = SWITCH_STATUS_SUCCESS"
    and "collect_answer A = (SWITCH_STATUS_TIMEOUT, [], None)"
    and "\<And>h. terminator_used E h = Some stale"
    and "ready_before t" and "read_ans t = A" and "max_tries \<noteq> 0"
  shows "\<exists>l. switch_play_and_get_digits E P max_tries (t # ts) = Some (SWITCH_STATUS_SUCCESS, [], l) \<and>
           (\<forall>x. SetVar READ_TERMINATOR_USED x \<notin> set l)"
proof -
  have "\<not> (case valid_terminators P of Some (x # xs) \<Rightarrow> x = CHR ''='' | _ \<Rightarrow> False)"
    using assms(5) by (auto simp: zstr_def split: option.splits list.splits)
  moreover have "unat (ucast (digit_buffer_length P) :: size_t) = unat (digit_buffer_length P)"
    by (simp add: unat_ucast_up)
  moreover have "0 < unat (max_digits P)" using assms(2) by (simp add: unat_gt_0)
  ultimately have one_try: "\<exists>l. pagd_one_try E P h A = TryReturn SWITCH_STATUS_SUCCESS [] l \<and>
      (\<forall>x. SetVar READ_TERMINATOR_USED x \<notin> set l)" for h
    using assms(1-8)
    by (auto simp: pagd_one_try_def switch_ivr_read_def want_more_def read_conclude_def
        apply_terminator_def read_finish_def Let_def split: option.splits)
  define h where "h = (if \<not> zstr (digits_regex P) \<and> \<not> zstr (var_name P)
        then [SetVar (invalid_var (the (var_name P))) None] else [])"
  obtain l where "pagd_one_try E P h A = TryReturn SWITCH_STATUS_SUCCESS [] l"
    "\<forall>x. SetVar READ_TERMINATOR_USED x \<notin> set l" using one_try by blast
  moreover have "\<forall>x. SetVar READ_TERMINATOR_USED x \<notin> set h" by (simp add: h_def invalid_var_def)
  ultimately show ?thesis
    using assms(9-11) by (simp add: switch_play_and_get_digits_def h_def [symmetric])
qed

theorem stale_terminator_accepted_witness:
  "\<exists>l. switch_play_and_get_digits (example_pagd_env\<lparr>terminator_used := (\<lambda>h. Some ''#'')\<rparr>)
         (example_pagd\<lparr>min_digits := 0, prompt_audio_file := None, valid_terminators := None\<rparr>) 1
         [example_try SWITCH_STATUS_TIMEOUT []]
       = Some (SWITCH_STATUS_SUCCESS, [], l)"
proof -
  let ?E = "example_pagd_env\<lparr>terminator_used := (\<lambda>h. Some ''#'')\<rparr>"
  let ?P = "example_pagd\<lparr>min_digits := 0, prompt_audio_file := None, valid_terminators := None\<rparr>"
  let ?t = "example_try SWITCH_STATUS_TIMEOUT []"
  have "\<exists>l. switch_play_and_get_digits ?E ?P 1 [?t] = Some (SWITCH_STATUS_SUCCESS, [], l) \<and>
           (\<forall>x. SetVar READ_TERMINATOR_USED x \<notin> set l)"
    by (rule stale_terminator_accepted [of ?P "read_ans ?t" ?E "''#''" ?t 1 "[]"])
      (simp_all add: example_pagd_def example_try_def)
  then show ?thesis by blast
qed

end
