(* ===== verification/Ivr_Collect.thy ===== *)
theory Ivr_Collect
  imports Fs_Types
begin

text \<open>
  \<open>switch_ivr_play_and_collect_input\<close> of \<open>src/src/switch_ivr_play_say.c\<close> and its
  input callback: play a prompt and wait for DTMF digits, a terminator or a speech result.
  The answers of FreeSWITCH are arguments: which inputs it hands to the callback while it
  plays or sleeps, the statuses of these calls, the clock. The JSON parser is a parameter.
\<close>

section \<open>State and callback\<close>

datatype switch_collect_input_flags_t =
    COLLECT_INPUT_PROMPT
  | COLLECT_INPUT_SPEECH
  | COLLECT_INPUT_SPEECH_DONE
  | COLLECT_INPUT_DIGITS
  | COLLECT_INPUT_DIGITS_DONE

text \<open>\<open>digits\<close> is \<open>None\<close> while no buffer is allocated; \<open>terminator\<close> 0 is \<open>None\<close>.\<close>

record 'j switch_collect_input_state_t =
  flags :: "switch_collect_input_flags_t set"
  recognition_result :: "'j option"
  digits :: cstring
  min_digits :: int
  max_digits :: int
  terminators :: cstring
  terminator :: "char option"
  last_digit_time :: int
  is_speech :: bool

record 'j json_api =
  cJSON_Parse :: "string \<Rightarrow> 'j option"
  json_text :: "'j \<Rightarrow> cstring"

text \<open>
  An input handed to the callback: an event (is it a detected-speech event, its
  \<open>Speech-Type\<close> header, its body), a DTMF digit with the clock at that moment, or another
  kind of input.
\<close>

datatype collect_input =
    EventInput bool cstring cstring
  | DtmfInput char int
  | OtherInput

datatype 'j collect_action =
    DeliverAsrEvent
  | ParsedResult 'j
  | DeletedResult 'j
  | DetectSpeech string string
  | StartInputTimers
  | PauseDetectSpeech
  | Sleep u32

abbreviation set_flag :: "switch_collect_input_flags_t \<Rightarrow> 'j switch_collect_input_state_t
    \<Rightarrow> 'j switch_collect_input_state_t" where
  "set_flag f s \<equiv> s\<lparr>flags := insert f (flags s)\<rparr>"

abbreviation test_flag :: "switch_collect_input_flags_t \<Rightarrow> 'j switch_collect_input_state_t \<Rightarrow> bool" where
  "test_flag f s \<equiv> f \<in> flags s"

text \<open>A detected-speech result: parse the body; a non-empty text also ends digit collection.\<close>

definition collect_speech_result ::
  "'j json_api \<Rightarrow> 'j switch_collect_input_state_t \<Rightarrow> cstring
     \<Rightarrow> 'j switch_collect_input_state_t \<times> 'j collect_action list" where
  "collect_speech_result J s body =
     (let s1 = set_flag COLLECT_INPUT_SPEECH_DONE s
      in if zstr body then (s1, [])
         else case cJSON_Parse J (the body) of
           None \<Rightarrow> (s1\<lparr>recognition_result := None\<rparr>, [])
         | Some j \<Rightarrow>
             (let s2 = s1\<lparr>recognition_result := Some j\<rparr>
              in (if zstr (json_text J j) then s2 else set_flag COLLECT_INPUT_DIGITS_DONE s2,
                  [ParsedResult j])))"

text \<open>The DTMF branch.\<close>

definition collect_dtmf ::
  "'j switch_collect_input_state_t \<Rightarrow> char \<Rightarrow> int \<Rightarrow> 'j switch_collect_input_state_t" where
  "collect_dtmf s0 c now =
     (let s = s0\<lparr>last_digit_time := now, is_speech := False\<rparr>
      in if \<not> zstr (terminators s) \<and> c \<in> set (the (terminators s))
         then let s1 = set_flag COLLECT_INPUT_DIGITS_DONE (s\<lparr>terminator := Some c\<rparr>)
              in if test_flag COLLECT_INPUT_DIGITS s1 \<and> \<not> zstr (digits s1)
                 then set_flag COLLECT_INPUT_SPEECH_DONE s1 else s1
         else if \<not> test_flag COLLECT_INPUT_DIGITS_DONE s
         then let n = int (length (the (digits s)));
                  s1 = (if n < max_digits s then s\<lparr>digits := Some (the (digits s) @ [c])\<rparr> else s)
              in if n + 1 \<ge> max_digits s
                 then set_flag COLLECT_INPUT_SPEECH_DONE (set_flag COLLECT_INPUT_DIGITS_DONE s1)
                 else s1
         else s)"

text \<open>\<open>has_callback\<close>: the caller's own arguments carry an input callback.\<close>

definition deliver_asr_event :: "bool \<Rightarrow> 'j collect_action list" where
  "deliver_asr_event has_callback = (if has_callback then [DeliverAsrEvent] else [])"

text \<open>
  The speech branch of the callback answers a status when it returns from there, and
  otherwise falls through to the DTMF test.
\<close>

definition collect_speech_event ::
  "'j json_api \<Rightarrow> bool \<Rightarrow> 'j switch_collect_input_state_t \<Rightarrow> bool \<Rightarrow> cstring \<Rightarrow> cstring
     \<Rightarrow> switch_status_t option \<times> 'j switch_collect_input_state_t \<times> 'j collect_action list" where
  "collect_speech_event J has_cb s detected speech_type body =
     (if \<not> detected then (Some SWITCH_STATUS_SUCCESS, s, [])
      else if zstr speech_type then (Some SWITCH_STATUS_SUCCESS, s, [])
      else let st = the speech_type; l = deliver_asr_event has_cb
      in if strcasecmp_eq st ''detected-speech''
         then (let (s', l') = collect_speech_result J s body
               in (Some SWITCH_STATUS_BREAK, s', l @ l'))
         else if strcasecmp_eq st ''detected-partial-speech'' then (None, s, l)
         else if strcasecmp_eq ''closed'' st
         then (Some SWITCH_STATUS_BREAK, set_flag COLLECT_INPUT_SPEECH_DONE s, l)
         else if strcasecmp_eq st ''begin-speaking''
         then (let s' = s\<lparr>is_speech := True\<rparr>
               in (if test_flag COLLECT_INPUT_PROMPT s' then Some SWITCH_STATUS_BREAK else None, s', l))
         else (None, s, l))"

fun switch_collect_input_callback ::
  "'j json_api \<Rightarrow> bool \<Rightarrow> 'j switch_collect_input_state_t \<Rightarrow> collect_input
     \<Rightarrow> switch_status_t \<times> 'j switch_collect_input_state_t \<times> 'j collect_action list" where
  "switch_collect_input_callback J cb s (EventInput detected speech_type body) =
     (if test_flag COLLECT_INPUT_SPEECH s
      then (let (r, s', l) = collect_speech_event J cb s detected speech_type body
            in ((case r of Some st \<Rightarrow> st | None \<Rightarrow> SWITCH_STATUS_SUCCESS), s', l))
      else (SWITCH_STATUS_SUCCESS, s, []))"
| "switch_collect_input_callback J cb s (DtmfInput c now) =
     (if test_flag COLLECT_INPUT_DIGITS s
      then (SWITCH_STATUS_BREAK, collect_dtmf s c now, [])
      else (SWITCH_STATUS_SUCCESS, s, []))"
| "switch_collect_input_callback J cb s OtherInput = (SWITCH_STATUS_SUCCESS, s, [])"

text \<open>The callback run on the inputs FreeSWITCH delivers during one call.\<close>

fun collect_inputs ::
  "'j json_api \<Rightarrow> bool \<Rightarrow> 'j switch_collect_input_state_t \<Rightarrow> collect_input list
     \<Rightarrow> 'j switch_collect_input_state_t \<times> 'j collect_action list" where
  "collect_inputs J cb s [] = (s, [])"
| "collect_inputs J cb s (i # is) =
     (let (st, s1, l) = switch_collect_input_callback J cb s i;
          (s2, l') = collect_inputs J cb s1 is
      in (s2, l @ l'))"

section \<open>Setting up\<close>

definition normal_terminators :: "cstring \<Rightarrow> cstring" where
  "normal_terminators t =
     (if zstr t then None
      else if strcasecmp_eq (the t) ''any'' then Some ''1234567890*#''
      else if strcasecmp_eq (the t) ''none'' then None
      else t)"

definition collect_init :: "int \<Rightarrow> int \<Rightarrow> cstring \<Rightarrow> 'j switch_collect_input_state_t" where
  "collect_init mn0 mx0 t =
     (let mn = (if mn0 < 0 then 0 else mn0);
          s0 = \<lparr>flags = {}, recognition_result = None, digits = None, min_digits = 0, max_digits = 0,
                terminators = None, terminator = None, last_digit_time = 0, is_speech = False\<rparr>;
          mx1 = (if mx0 < mn then mn else mx0);
          mx = (if mn > 0 then (if mx1 > 100 then 100 else mx1) else mx0);
          s1 = (if mn > 0 then set_flag COLLECT_INPUT_DIGITS (s0\<lparr>digits := Some []\<rparr>)
                else set_flag COLLECT_INPUT_DIGITS_DONE s0)
      in s1\<lparr>min_digits := mn, max_digits := mx, terminators := normal_terminators t\<rparr>)"

section \<open>Waiting for the result\<close>

text \<open>The answers FreeSWITCH gives during one pass of the wait loop.\<close>

record wait_tick =
  wt_ready :: bool
  sleep_inputs :: "collect_input list"
  sleep_status :: switch_status_t
  ping_status :: switch_status_t
  now :: int

definition all_done :: "'j switch_collect_input_state_t \<Rightarrow> bool" where
  "all_done s \<longleftrightarrow> test_flag COLLECT_INPUT_DIGITS_DONE s \<and> test_flag COLLECT_INPUT_SPEECH_DONE s"

text \<open>\<open>(switch_micro_time_now() - state.last_digit_time) / 1000\<close>, truncated to 32 bits.\<close>

definition elapsed_ms :: "int \<Rightarrow> int \<Rightarrow> u32" where
  "elapsed_ms t since =
     (let d = t - since in word_of_int (if 0 \<le> d then d div 1000 else - (- d div 1000)))"

text \<open>The outcome of one pass: leave the loop, or go on with a new sleep time.\<close>

datatype 'j wait_pass =
    Wait_Done switch_status_t "'j switch_collect_input_state_t"
  | Wait_More switch_status_t u32 "'j switch_collect_input_state_t"

text \<open>The pass after \<open>switch_ivr_sleep\<close> returned with status \<open>st\<close> in state \<open>s\<close>.\<close>

definition collect_after_sleep ::
  "bool \<Rightarrow> u32 \<Rightarrow> u32 \<Rightarrow> wait_tick \<Rightarrow> 'j switch_collect_input_state_t \<Rightarrow> 'j wait_pass" where
  "collect_after_sleep has_dm digit_timeout sleep_time w s =
     (if has_dm \<and> ping_status w \<noteq> SWITCH_STATUS_SUCCESS
      then Wait_Done SWITCH_STATUS_SUCCESS
             (set_flag COLLECT_INPUT_SPEECH_DONE (set_flag COLLECT_INPUT_DIGITS_DONE s))
      else if terminator s \<noteq> None
      then Wait_More SWITCH_STATUS_SUCCESS digit_timeout (set_flag COLLECT_INPUT_SPEECH_DONE s)
      else let (st, sl, s') =
             (if \<not> is_speech s
              then let e = elapsed_ms (now w) (last_digit_time s)
                   in if e \<ge> digit_timeout
                      then (SWITCH_STATUS_SUCCESS, digit_timeout,
                            if \<not> test_flag COLLECT_INPUT_DIGITS_DONE s
                            then set_flag COLLECT_INPUT_DIGITS_DONE s else s)
                      else (sleep_status w, digit_timeout - e, s)
              else (sleep_status w, sleep_time, s))
           in if st \<noteq> SWITCH_STATUS_BREAK \<and> st \<noteq> SWITCH_STATUS_SUCCESS
              then Wait_Done SWITCH_STATUS_FALSE s' else Wait_More st sl s')"

fun collect_wait ::
  "'j json_api \<Rightarrow> bool \<Rightarrow> bool \<Rightarrow> u32 \<Rightarrow> switch_status_t \<Rightarrow> u32 \<Rightarrow> 'j switch_collect_input_state_t
     \<Rightarrow> wait_tick list
     \<Rightarrow> (switch_status_t \<times> 'j switch_collect_input_state_t) option \<times> 'j collect_action list" where
  "collect_wait J cb dm digit_timeout st sleep_time s [] =
     (if all_done s then (Some (st, s), []) else (None, []))"
| "collect_wait J cb dm digit_timeout st sleep_time s (w # ws) =
     (if all_done s \<or> \<not> wt_ready w then (Some (st, s), [])
      else let (s1, l) = collect_inputs J cb s (sleep_inputs w)
           in case collect_after_sleep dm digit_timeout sleep_time w s1 of
                Wait_Done st' s' \<Rightarrow> (Some (st', s'), Sleep sleep_time # l)
              | Wait_More st' sl s' \<Rightarrow>
                  (let (r, l') = collect_wait J cb dm digit_timeout st' sl s' ws
                   in (r, Sleep sleep_time # l @ l')))"

section \<open>switch\_ivr\_play\_and\_collect\_input\<close>

record collect_answers =
  detect_speech_status :: switch_status_t
  prompt_inputs :: "collect_input list"
  prompt_status :: switch_status_t
  prompt_ping :: switch_status_t
  wait_start :: int

record 'j collect_out =
  out_status :: switch_status_t
  out_digits :: cstring
  out_result :: "'j option"
  out_terminator :: "char option"

text \<open>From the label \<open>done\<close> on; \<open>want_result\<close>: the caller passed \<open>recognition_result\<close>.\<close>

definition collect_done ::
  "bool \<Rightarrow> switch_status_t \<Rightarrow> 'j switch_collect_input_state_t \<Rightarrow> 'j collect_out \<times> 'j collect_action list" where
  "collect_done want_result st s =
     (let pause = (if test_flag COLLECT_INPUT_SPEECH s then [PauseDetectSpeech] else []);
          got_digits = (\<not> zstr (digits s) \<and> int (length (the (digits s))) \<ge> min_digits s);
          delete = (case recognition_result s of None \<Rightarrow> [] | Some j \<Rightarrow> [DeletedResult j])
      in (\<lparr>out_status = (if st = SWITCH_STATUS_BREAK then SWITCH_STATUS_SUCCESS else st),
           out_digits = (if got_digits then digits s else None),
           out_result = (if \<not> got_digits \<and> want_result then recognition_result s else None),
           out_terminator = terminator s\<rparr>,
          pause @ (if got_digits \<or> \<not> want_result then delete else [])))"

text \<open>The part after the prompt: dmachine check, error exit, wait loop.\<close>

definition collect_after_prompt ::
  "'j json_api \<Rightarrow> bool \<Rightarrow> bool \<Rightarrow> collect_answers \<Rightarrow> u32 \<Rightarrow> 'j switch_collect_input_state_t
     \<Rightarrow> wait_tick list
     \<Rightarrow> (switch_status_t \<times> 'j switch_collect_input_state_t) option \<times> 'j collect_action list" where
  "collect_after_prompt J cb dm A digit_timeout s0 ws =
     (let gone = (dm \<and> prompt_ping A \<noteq> SWITCH_STATUS_SUCCESS);
          s = (if gone then set_flag COLLECT_INPUT_SPEECH_DONE (set_flag COLLECT_INPUT_DIGITS_DONE s0)
               else s0);
          st = (if gone then SWITCH_STATUS_SUCCESS else prompt_status A)
      in if st \<noteq> SWITCH_STATUS_BREAK \<and> st \<noteq> SWITCH_STATUS_SUCCESS
         then (Some (SWITCH_STATUS_FALSE, s), [])
         else if all_done s then (Some (st, s), [])
         else let (r, l) = collect_wait J cb dm digit_timeout st digit_timeout
                             (s\<lparr>last_digit_time := wait_start A\<rparr>) ws
              in (r, (if test_flag COLLECT_INPUT_SPEECH s then [StartInputTimers] else []) @ l))"

definition switch_ivr_play_and_collect_input ::
  "'j json_api \<Rightarrow> bool \<Rightarrow> bool \<Rightarrow> bool \<Rightarrow> collect_answers \<Rightarrow> cstring \<Rightarrow> cstring \<Rightarrow> int \<Rightarrow> int \<Rightarrow> cstring
     \<Rightarrow> u32 \<Rightarrow> wait_tick list \<Rightarrow> 'j collect_out option \<times> 'j collect_action list" where
  "switch_ivr_play_and_collect_input J cb dm want_result A mod_name grammar mn mx terms digit_timeout0 ws =
     (let digit_timeout = (if digit_timeout0 = 0 then 5000 else digit_timeout0);
          s0 = collect_init mn mx terms;
          speech = (grammar \<noteq> None \<and> mod_name \<noteq> None);
          l0 = (if speech then [DetectSpeech (the mod_name) (the grammar)] else [])
      in if speech \<and> detect_speech_status A \<noteq> SWITCH_STATUS_SUCCESS
         then (let (out, l) = collect_done want_result
                     (if detect_speech_status A = SWITCH_STATUS_FALSE then SWITCH_STATUS_GENERR
                      else detect_speech_status A) s0
               in (Some out, l0 @ l))
         else let s1 = (if speech then set_flag COLLECT_INPUT_SPEECH s0
                        else set_flag COLLECT_INPUT_SPEECH_DONE s0);
                  (s2, l1) = collect_inputs J cb (set_flag COLLECT_INPUT_PROMPT s1) (prompt_inputs A);
                  s3 = s2\<lparr>flags := flags s2 - {COLLECT_INPUT_PROMPT}\<rparr>;
                  (r, l2) = collect_after_prompt J cb dm A digit_timeout s3 ws
              in case r of
                   None \<Rightarrow> (None, l0 @ l1 @ l2)
                 | Some (st, s) \<Rightarrow>
                     (let (out, l3) = collect_done want_result st s in (Some out, l0 @ l1 @ l2 @ l3)))"

section \<open>The digit buffer\<close>

text \<open>
  What every callback keeps: a buffer exists while digits are looked for, it never holds
  more than \<open>max_digits\<close> characters, and no terminator is stored in it.
\<close>

definition digits_ok :: "'j switch_collect_input_state_t \<Rightarrow> bool" where
  "digits_ok s \<longleftrightarrow>
     (test_flag COLLECT_INPUT_DIGITS s \<longrightarrow> digits s \<noteq> None) \<and>
     (\<forall>d. digits s = Some d \<longrightarrow> int (length d) \<le> max_digits s \<and>
        (\<forall>c \<in> set d. \<forall>t. terminators s = Some t \<longrightarrow> c \<notin> set t))"

text \<open>What no callback changes: the configuration, and whether there is a digit buffer.\<close>

definition same_config :: "'j switch_collect_input_state_t \<Rightarrow> 'j switch_collect_input_state_t \<Rightarrow> bool" where
  "same_config s s' \<longleftrightarrow> min_digits s' = min_digits s \<and> max_digits s' = max_digits s \<and>
     terminators s' = terminators s \<and> (digits s = None \<longrightarrow> digits s' = None)"

lemma same_config_refl [simp]: "same_config s s"
  by (simp add: same_config_def)

lemma same_config_trans: "same_config s s' \<Longrightarrow> same_config s' s'' \<Longrightarrow> same_config s s''"
  by (simp add: same_config_def)

lemma collect_dtmf_ok:
  assumes "digits_ok s" and "test_flag COLLECT_INPUT_DIGITS s"
  shows "digits_ok (collect_dtmf s c t) \<and> same_config s (collect_dtmf s c t)"
  using assms
  by (auto simp: collect_dtmf_def digits_ok_def same_config_def Let_def zstr_def split: option.splits)

lemma collect_speech_event_ok:
  assumes "digits_ok s" and "collect_speech_event J cb s det ty body = (r, s', l)"
  shows "digits_ok s' \<and> same_config s s'"
  using assms
  by (auto simp: collect_speech_event_def collect_speech_result_def digits_ok_def same_config_def
      Let_def split: if_splits option.splits)

lemma callback_ok:
  assumes "digits_ok s" and "switch_collect_input_callback J cb s i = (st, s', l)"
  shows "digits_ok s' \<and> same_config s s'"
  using assms
  by (cases i)
    (auto split: if_splits prod.splits dest: collect_speech_event_ok simp: collect_dtmf_ok)

lemma collect_inputs_ok:
  "digits_ok s \<Longrightarrow> collect_inputs J cb s is = (s', l) \<Longrightarrow> digits_ok s' \<and> same_config s s'"
proof (induction "is" arbitrary: s l)
  case Nil
  then show ?case by simp
next
  case (Cons i "is")
  obtain st s1 l1 where c: "switch_collect_input_callback J cb s i = (st, s1, l1)"
    by (metis surj_pair)
  obtain l2 where "collect_inputs J cb s1 is = (s', l2)"
    using Cons.prems(2) c by (auto split: prod.splits)
  with Cons.IH [of s1 l2] callback_ok [OF Cons.prems(1) c] show ?case
    by (blast intro: same_config_trans)
qed

lemma digits_ok_flags:
  assumes "digits_ok s" and "COLLECT_INPUT_DIGITS \<in> F \<Longrightarrow> test_flag COLLECT_INPUT_DIGITS s"
  shows "digits_ok (s\<lparr>flags := F\<rparr>) \<and> same_config s (s\<lparr>flags := F\<rparr>)"
  using assms by (simp add: digits_ok_def same_config_def)

lemma collect_after_sleep_state:
  assumes "collect_after_sleep dm dt sl w s = Wait_Done st s' \<or>
           collect_after_sleep dm dt sl w s = Wait_More st sl' s'"
  shows "\<exists>F. s' = s\<lparr>flags := F\<rparr> \<and> F \<subseteq> flags s \<union> {COLLECT_INPUT_DIGITS_DONE, COLLECT_INPUT_SPEECH_DONE}
           \<and> flags s \<subseteq> F"
proof -
  have id: "s = s\<lparr>flags := flags s\<rparr>" by simp
  show ?thesis
    using assms unfolding collect_after_sleep_def Let_def
    by (auto split: if_splits intro: exI [of _ "flags s"])
qed

lemma collect_after_sleep_ok:
  assumes "digits_ok s" and "collect_after_sleep dm dt sl w s = Wait_Done st s' \<or>
           collect_after_sleep dm dt sl w s = Wait_More st sl' s'"
  shows "digits_ok s' \<and> same_config s s'"
  using collect_after_sleep_state [OF assms(2)] digits_ok_flags [OF assms(1)] by blast

lemma collect_wait_ok:
  "digits_ok s \<Longrightarrow> collect_wait J cb dm dt st sl s ws = (Some (st', s'), l) \<Longrightarrow>
     digits_ok s' \<and> same_config s s'"
proof (induction J cb dm dt st sl s ws arbitrary: l rule: collect_wait.induct)
  case (1 J cb dm dt st sl s)
  then show ?case by (auto split: if_splits)
next
  case (2 J cb dm dt st sl s w ws)
  obtain s1 l1 where c: "collect_inputs J cb s (sleep_inputs w) = (s1, l1)" by fastforce
  note ok1 = collect_inputs_ok [OF "2.prems"(1) c]
  show ?case
  proof (cases "all_done s \<or> \<not> wt_ready w")
    case True
    with "2.prems" show ?thesis by auto
  next
    case False
    show ?thesis
    proof (cases "collect_after_sleep dm dt sl w s1")
      case (Wait_Done st1 s2)
      with False c "2.prems"(2) ok1 collect_after_sleep_ok [of s1 dm dt sl w st1 s2]
      show ?thesis by (auto intro: same_config_trans)
    next
      case (Wait_More st1 sl1 s2)
      have ok2: "digits_ok s2 \<and> same_config s1 s2"
        using collect_after_sleep_ok [of s1 dm dt sl w st1 s2 sl1] ok1 Wait_More by blast
      obtain l2 where "collect_wait J cb dm dt st1 sl1 s2 ws = (Some (st', s'), l2)"
        using False c "2.prems"(2) Wait_More by (auto split: prod.splits)
      with "2.IH" [OF False c [symmetric] refl Wait_More] ok1 ok2
      show ?thesis by (blast intro: same_config_trans)
    qed
  qed
qed

lemma collect_init_ok:
  "digits_ok (collect_init mn mx t)" "terminators (collect_init mn mx t) = normal_terminators t"
  "min_digits (collect_init mn mx t) = max 0 mn"
  "0 < mn \<Longrightarrow> max_digits (collect_init mn mx t) = min 100 (max mn mx)"
  "digits (collect_init mn mx t) = (if 0 < mn then Some [] else None)"
  by (auto simp: collect_init_def digits_ok_def Let_def)

lemma collect_after_prompt_ok:
  assumes "digits_ok s" and "collect_after_prompt J cb dm A dt s ws = (Some (st, s'), l)"
  shows "digits_ok s' \<and> same_config s s'"
proof -
  define gone where "gone = (dm \<and> prompt_ping A \<noteq> SWITCH_STATUS_SUCCESS)"
  define s1 where "s1 = (if gone then set_flag COLLECT_INPUT_SPEECH_DONE (set_flag COLLECT_INPUT_DIGITS_DONE s)
               else s)"
  have ok1: "digits_ok s1 \<and> same_config s s1"
    using assms(1) by (simp add: s1_def digits_ok_def same_config_def)
  let ?s = "s1\<lparr>last_digit_time := wait_start A\<rparr>"
  have ok2: "digits_ok ?s \<and> same_config s ?s"
    using ok1 by (auto simp: digits_ok_def same_config_def)
  consider "s' = s1" | r l' where "collect_wait J cb dm dt r dt ?s ws = (Some (st, s'), l')"
    using assms(2) unfolding collect_after_prompt_def Let_def gone_def [symmetric] s1_def [symmetric]
    by (auto split: if_splits prod.splits)
  then show ?thesis
  proof cases
    case 1
    with ok1 show ?thesis by simp
  next
    case 2
    with collect_wait_ok [of ?s] ok2 show ?thesis by (blast intro: same_config_trans)
  qed
qed

section \<open>Sleeps\<close>

lemma collect_speech_event_sleeps:
  "collect_speech_event J cb s det ty body = (r, s', l) \<Longrightarrow> Sleep n \<notin> set l"
  by (auto simp: collect_speech_event_def collect_speech_result_def deliver_asr_event_def Let_def
      split: if_splits option.splits)

lemma callback_sleeps:
  "switch_collect_input_callback J cb s i = (st, s', l) \<Longrightarrow> Sleep n \<notin> set l"
  by (cases i) (auto split: if_splits prod.splits dest: collect_speech_event_sleeps)

lemma collect_inputs_sleeps: "collect_inputs J cb s is = (s', l) \<Longrightarrow> Sleep n \<notin> set l"
proof (induction "is" arbitrary: s l)
  case Nil
  then show ?case by simp
next
  case (Cons i "is")
  then show ?case by (fastforce split: prod.splits dest: callback_sleeps)
qed

lemma collect_after_sleep_time:
  assumes "collect_after_sleep dm dt sl w s = Wait_More st sl' s'" and "0 < sl" "sl \<le> dt"
  shows "0 < sl' \<and> sl' \<le> dt"
proof -
  have "0 < dt" using assms(2,3) by simp
  moreover have "0 < dt - e \<and> dt - e \<le> dt" if "\<not> dt \<le> e" for e
    using that by (simp add: word_less_nat_alt word_le_nat_alt unat_sub_if')
  ultimately show ?thesis
    using assms unfolding collect_after_sleep_def Let_def by (auto split: if_splits)
qed

lemma collect_wait_sleeps:
  "0 < sl \<Longrightarrow> sl \<le> dt \<Longrightarrow> collect_wait J cb dm dt st sl s ws = (r, l) \<Longrightarrow>
     Sleep n \<in> set l \<Longrightarrow> 0 < n \<and> n \<le> dt"
proof (induction J cb dm dt st sl s ws arbitrary: r l rule: collect_wait.induct)
  case (1 J cb dm dt st sl s)
  then show ?case by (auto split: if_splits)
next
  case (2 J cb dm dt st sl s w ws)
  obtain s1 l1 where c: "collect_inputs J cb s (sleep_inputs w) = (s1, l1)" by fastforce
  note ns = collect_inputs_sleeps [OF c, of n]
  show ?case
  proof (cases "all_done s \<or> \<not> wt_ready w")
    case True
    with "2.prems" show ?thesis by auto
  next
    case False
    show ?thesis
    proof (cases "collect_after_sleep dm dt sl w s1")
      case (Wait_Done st1 s2)
      with False c "2.prems" ns show ?thesis by auto
    next
      case (Wait_More st1 sl1 s2)
      note b = collect_after_sleep_time [OF Wait_More "2.prems"(1,2)]
      obtain r2 l2 where w: "collect_wait J cb dm dt st1 sl1 s2 ws = (r2, l2)" by fastforce
      from "2.prems"(3,4) False c Wait_More w have "n = sl \<or> Sleep n \<in> set l2"
        using ns by auto
      with "2.IH" [OF False c [symmetric] refl Wait_More _ _ w] b "2.prems"(1,2) show ?thesis by blast
    qed
  qed
qed

section \<open>Ownership of speech results\<close>

definition deleted :: "'j collect_action list \<Rightarrow> nat" where
  "deleted l = length (filter (\<lambda>a. \<exists>j. a = DeletedResult j) l)"

definition parsed :: "'j collect_action list \<Rightarrow> nat" where
  "parsed l = length (filter (\<lambda>a. \<exists>j. a = ParsedResult j) l)"

lemma deleted_append [simp]: "deleted [] = 0 \<and> deleted (l @ l') = deleted l + deleted l'"
  by (simp add: deleted_def)

lemma deleted_Cons [simp]: "\<not> (\<exists>j. a = DeletedResult j) \<Longrightarrow> deleted (a # l) = deleted l"
  by (simp add: deleted_def)

lemma callback_deletes_none:
  "switch_collect_input_callback J cb s i = (st, s', l) \<Longrightarrow> deleted l = 0"
  by (cases i)
    (auto simp: collect_speech_event_def collect_speech_result_def deliver_asr_event_def Let_def
      split: if_splits option.splits prod.splits)

lemma collect_inputs_deletes_none: "collect_inputs J cb s is = (s', l) \<Longrightarrow> deleted l = 0"
proof (induction "is" arbitrary: s s' l)
  case Nil
  then show ?case by simp
next
  case (Cons i "is")
  obtain st s1 l1 where 1: "switch_collect_input_callback J cb s i = (st, s1, l1)"
    by (metis surj_pair)
  obtain s2 l2 where 2: "collect_inputs J cb s1 is = (s2, l2)" by fastforce
  from Cons.prems 1 2 Cons.IH [OF 2] callback_deletes_none [OF 1] show ?case by auto
qed

lemma collect_wait_deletes_none:
  "collect_wait J cb dm dt st sl s ws = (r, l) \<Longrightarrow> deleted l = 0"
proof (induction J cb dm dt st sl s ws arbitrary: r l rule: collect_wait.induct)
  case (1 J cb dm dt st sl s)
  then show ?case by (auto split: if_splits)
next
  case (2 J cb dm dt st sl s w ws)
  obtain s1 l1 where c: "collect_inputs J cb s (sleep_inputs w) = (s1, l1)" by fastforce
  from "2.prems" "2.IH" [OF _ c [symmetric] refl] collect_inputs_deletes_none [OF c] show ?case
    by (auto simp: c split: if_splits wait_pass.splits prod.splits)
qed

lemma collect_done_releases:
  "collect_done wr st s = (out, l) \<Longrightarrow>
     deleted l + (if out_result out = None then 0 else 1) \<le> 1"
  by (auto simp: collect_done_def Let_def deleted_def split: option.splits if_splits)

text \<open>
  Every way the function returns goes through \<open>collect_done\<close>, on a state with a good
  digit buffer, and nothing before that releases a result.
\<close>

lemma play_and_collect_done:
  fixes J :: "'j json_api"
  assumes "switch_ivr_play_and_collect_input J cb dm wr A md gr mn mx terms dt ws = (Some out, l)"
  shows "\<exists>st s l1 l2. collect_done wr st s = (out, l2) \<and> l = l1 @ l2 \<and> deleted l1 = 0 \<and>
     digits_ok s \<and> same_config (collect_init mn mx terms :: 'j switch_collect_input_state_t) s"
proof -
  let ?s0 = "collect_init mn mx terms :: 'j switch_collect_input_state_t"
  define dt' where "dt' = (if dt = 0 then 5000 else dt)"
  define sp where "sp = (gr \<noteq> None \<and> md \<noteq> None)"
  define l0 :: "'j collect_action list" where
    "l0 = (if sp then [DetectSpeech (the md) (the gr)] else [])"
  note unf = switch_ivr_play_and_collect_input_def Let_def sp_def [symmetric] l0_def [symmetric]
    dt'_def [symmetric]
  have l0: "deleted l0 = 0" by (simp add: l0_def)
  show ?thesis
  proof (cases "sp \<and> detect_speech_status A \<noteq> SWITCH_STATUS_SUCCESS")
    case True
    then have "\<exists>st l2. collect_done wr st ?s0 = (out, l2) \<and> l = l0 @ l2"
      using assms unfolding unf by (auto split: prod.splits if_splits)
    with l0 collect_init_ok(1) same_config_refl show ?thesis by blast
  next
    case False
    define s1 where "s1 = set_flag COLLECT_INPUT_PROMPT
      (if sp then set_flag COLLECT_INPUT_SPEECH ?s0 else set_flag COLLECT_INPUT_SPEECH_DONE ?s0)"
    obtain s2 l1 where 2: "collect_inputs J cb s1 (prompt_inputs A) = (s2, l1)" by fastforce
    define s3 where "s3 = s2\<lparr>flags := flags s2 - {COLLECT_INPUT_PROMPT}\<rparr>"
    obtain r l2 where 3: "collect_after_prompt J cb dm A dt' s3 ws = (r, l2)" by fastforce
    from assms False obtain st s l3 where r: "r = Some (st, s)" and l: "l = (l0 @ l1 @ l2) @ l3"
      and d: "collect_done wr st s = (out, l3)"
      unfolding unf s1_def [symmetric]
      by (auto simp: 2 3 s3_def [symmetric] split: option.splits prod.splits)
    have "deleted l2 = 0"
      using 3 unfolding collect_after_prompt_def Let_def
      by (auto split: if_splits prod.splits dest: collect_wait_deletes_none)
    with l0 collect_inputs_deletes_none [OF 2] have del: "deleted (l0 @ l1 @ l2) = 0" by simp
    have ok1: "digits_ok s1 \<and> same_config ?s0 s1"
      using collect_init_ok(1) [of mn mx terms, where 'a = 'j]
      by (auto simp: s1_def digits_ok_def same_config_def)
    have ok2: "digits_ok s2 \<and> same_config s1 s2" using collect_inputs_ok [of s1] ok1 2 by blast
    have ok3: "digits_ok s3 \<and> same_config s2 s3"
      unfolding s3_def using ok2 by (intro digits_ok_flags) auto
    have "digits_ok s \<and> same_config s3 s" using collect_after_prompt_ok [of s3] ok3 3 r by blast
    then have "digits_ok s \<and> same_config ?s0 s" using ok1 ok2 ok3 by (blast intro: same_config_trans)
    with d l del show ?thesis by blast
  qed
qed

section \<open>Silence ends the wait\<close>

lemma collect_after_sleep_quiet:
  assumes "is_speech s = False" "collect_after_sleep dm dt sl w s = Wait_More st sl' s'"
  shows "is_speech s' = False \<and> last_digit_time s' = last_digit_time s \<and> flags s \<subseteq> flags s' \<and>
    (dt \<le> elapsed_ms (now w) (last_digit_time s) \<longrightarrow> terminator s = None \<longrightarrow>
      test_flag COLLECT_INPUT_DIGITS_DONE s') \<and> terminator s' = terminator s"
  using assms unfolding collect_after_sleep_def Let_def by (auto split: if_splits)

lemma collect_wait_quiet:
  "\<forall>w \<in> set ws. sleep_inputs w = [] \<Longrightarrow> is_speech s = False \<Longrightarrow> terminator s = None \<Longrightarrow>
   test_flag COLLECT_INPUT_SPEECH_DONE s \<Longrightarrow>
   \<exists>w \<in> set ws. dt \<le> elapsed_ms (now w) (last_digit_time s) \<Longrightarrow>
   \<exists>r. fst (collect_wait J cb dm dt st sl s ws) = Some r"
proof (induction ws arbitrary: s st sl)
  case Nil
  then show ?case by simp
next
  case (Cons w ws)
  show ?case
  proof (cases "all_done s \<or> \<not> wt_ready w")
    case True
    then show ?thesis by auto
  next
    case False
    have i: "collect_inputs J cb s (sleep_inputs w) = (s, [])" using Cons.prems(1) by simp
    show ?thesis
    proof (cases "collect_after_sleep dm dt sl w s")
      case (Wait_Done st1 s2)
      with False i show ?thesis by simp
    next
      case (Wait_More st1 sl1 s2)
      note q = collect_after_sleep_quiet [OF Cons.prems(2) Wait_More]
      have "\<exists>r. fst (collect_wait J cb dm dt st1 sl1 s2 ws) = Some r"
      proof (cases "dt \<le> elapsed_ms (now w) (last_digit_time s)")
        case True
        with q Cons.prems(3,4) have "all_done s2" by (auto simp: all_done_def)
        then show ?thesis by (cases ws) auto
      next
        case False
        have d: "\<exists>w \<in> set ws. dt \<le> elapsed_ms (now w) (last_digit_time s2)"
          using Cons.prems(5) False q by auto
        from Cons.IH [of s2 st1 sl1] Cons.prems q d show ?thesis by auto
      qed
      with False i Wait_More show ?thesis by (auto split: prod.splits)
    qed
  qed
qed

lemma collect_after_prompt_quiet:
  assumes "\<forall>w \<in> set ws. sleep_inputs w = []" and "is_speech s = False" and "terminator s = None"
    and "test_flag COLLECT_INPUT_SPEECH_DONE s"
    and "\<exists>w \<in> set ws. dt \<le> elapsed_ms (now w) (wait_start A)"
  shows "\<exists>r. fst (collect_after_prompt J cb dm A dt s ws) = Some r"
proof -
  have w: "\<exists>r. fst (collect_wait J cb dm dt st dt (s\<lparr>last_digit_time := wait_start A\<rparr>) ws) = Some r" for st
    using assms by (intro collect_wait_quiet) auto
  show ?thesis
    unfolding collect_after_prompt_def Let_def
    using w assms(4) by (auto simp: all_done_def split: prod.splits) (metis fst_conv)+
qed

section \<open>Properties\<close>

text \<open>C9. Digits handed to the caller are what was asked for: at least one and at least
  \<open>min_digits\<close>, at most \<open>max_digits\<close> (raised to \<open>min_digits\<close>, capped at 100, so
  the allocated buffer never overflows), without any terminator; and digits and a speech
  result are never returned together.\<close>

theorem collect_input_digits:
  assumes "switch_ivr_play_and_collect_input J cb dm wr A md gr mn mx terms dt ws = (Some out, l)"
    and "out_digits out = Some d"
  shows "0 < mn \<and> max 1 mn \<le> int (length d) \<and> int (length d) \<le> min 100 (max mn mx) \<and>
    (\<forall>c \<in> set d. \<forall>t. normal_terminators terms = Some t \<longrightarrow> c \<notin> set t) \<and> out_result out = None"
proof -
  from play_and_collect_done [OF assms(1)]
  obtain st s l2 where s: "collect_done wr st s = (out, l2)" "digits_ok s"
    "same_config (collect_init mn mx terms) s" by blast
  from s(1) assms(2) have d: "digits s = Some d" "d \<noteq> []" "min_digits s \<le> int (length d)"
    and r: "out_result out = None"
    by (auto simp: collect_done_def Let_def split: if_splits)
  have "0 < mn"
    using s(3) d(1) by (auto simp: same_config_def collect_init_ok split: if_splits)
  have "1 \<le> int (length d)" using d(2) by (cases d) auto
  with s(2,3) d r \<open>0 < mn\<close> show ?thesis
    by (auto simp: digits_ok_def same_config_def collect_init_ok)
qed

definition example_collect :: collect_answers where
  "example_collect = \<lparr>detect_speech_status = SWITCH_STATUS_SUCCESS,
     prompt_inputs = [DtmfInput (CHR ''1'') 0, DtmfInput (CHR ''2'') 1, DtmfInput (CHR ''#'') 2],
     prompt_status = SWITCH_STATUS_BREAK, prompt_ping = SWITCH_STATUS_SUCCESS, wait_start = 0\<rparr>"

definition example_json :: "string json_api" where
  "example_json = \<lparr>cJSON_Parse = Some, json_text = (\<lambda>j. None)\<rparr>"

lemmas collect_evals =
  switch_ivr_play_and_collect_input_def collect_init_def normal_terminators_def
  collect_dtmf_def collect_after_prompt_def collect_after_sleep_def collect_done_def all_done_def
  strcasecmp_eq_def to_lower_def example_collect_def example_json_def elapsed_ms_def
  collect_speech_event_def collect_speech_result_def deliver_asr_event_def

theorem collect_input_digits_witness:
  "\<exists>out l. switch_ivr_play_and_collect_input example_json False False True example_collect None None
       2 4 (Some ''#'') 3000 [] = (Some out, l) \<and> out_digits out = Some ''12'' \<and> out_result out = None"
proof -
  have "\<exists>out l. switch_ivr_play_and_collect_input example_json False False True example_collect
      None None 2 4 (Some ''#'') 3000 [] = (Some out, l) \<and> out_digits out = Some ''12''"
    by (simp add: collect_evals)
  then obtain out l where r: "switch_ivr_play_and_collect_input example_json False False True
      example_collect None None 2 4 (Some ''#'') 3000 [] = (Some out, l)"
    and d: "out_digits out = Some ''12''" by blast
  from collect_input_digits [OF r d] r d show ?thesis by blast
qed

text \<open>Without a recognizer a silent caller is released: once a pass of the wait loop sees
  the clock \<open>digit_timeout\<close> past the start of the wait, the function has returned, whatever
  statuses the sleeps answered.\<close>

theorem collect_input_silence_returns:
  fixes J :: "'j json_api"
  assumes "prompt_inputs A = []" and "\<forall>w \<in> set ws. sleep_inputs w = []"
    and "dt \<noteq> 0" and "\<exists>w \<in> set ws. dt \<le> elapsed_ms (now w) (wait_start A)"
  shows "\<exists>out l. switch_ivr_play_and_collect_input J cb dm wr A None gr mn mx terms dt ws = (Some out, l)"
proof -
  let ?s = "set_flag COLLECT_INPUT_SPEECH_DONE (collect_init mn mx terms :: 'j switch_collect_input_state_t)"
  let ?s' = "?s\<lparr>flags := insert COLLECT_INPUT_PROMPT (flags ?s) - {COLLECT_INPUT_PROMPT}\<rparr>"
  have "\<exists>r. fst (collect_after_prompt J cb dm A dt ?s' ws) = Some r"
    using assms(2,4) by (intro collect_after_prompt_quiet) (simp_all add: collect_init_def Let_def)
  then show ?thesis
    using assms(1,3) unfolding switch_ivr_play_and_collect_input_def Let_def
    by (auto split: prod.splits option.splits)
qed

theorem collect_input_silence_returns_witness:
  "\<exists>out l. switch_ivr_play_and_collect_input example_json False False True
      (example_collect\<lparr>prompt_inputs := [], prompt_status := SWITCH_STATUS_SUCCESS\<rparr>) None None
      1 4 None 3000
      [\<lparr>wt_ready = True, sleep_inputs = [], sleep_status = SWITCH_STATUS_SUCCESS,
        ping_status = SWITCH_STATUS_SUCCESS, now = 3000000\<rparr>] = (Some out, l)"
  by (rule collect_input_silence_returns) (simp_all add: elapsed_ms_def example_collect_def)

text \<open>Every sleep the wait loop asks for is positive and at most the digit timeout.\<close>

theorem collect_wait_sleep_bounds:
  assumes "0 < sleep_time" and "sleep_time \<le> digit_timeout"
    and "collect_wait J cb dm digit_timeout st sleep_time s ws = (r, l)"
    and "Sleep n \<in> set l"
  shows "0 < n \<and> n \<le> digit_timeout"
  using collect_wait_sleeps [OF assms] .

theorem collect_wait_sleep_bounds_witness:
  "0 < (2000 :: u32) \<and> (2000 :: u32) \<le> 3000"
proof -
  let ?s = "set_flag COLLECT_INPUT_SPEECH_DONE (collect_init 1 4 None) :: string switch_collect_input_state_t"
  let ?w = "\<lparr>wt_ready = True, sleep_inputs = [], sleep_status = SWITCH_STATUS_SUCCESS,
        ping_status = SWITCH_STATUS_SUCCESS, now = 1000000\<rparr>"
  have "\<exists>r l. collect_wait example_json False False 3000 SWITCH_STATUS_SUCCESS 3000 ?s [?w, ?w] = (r, l)
      \<and> Sleep 2000 \<in> set l"
    by (simp add: collect_evals)
  then obtain r l where w: "collect_wait example_json False False 3000 SWITCH_STATUS_SUCCESS 3000 ?s
      [?w, ?w] = (r, l)" and n: "Sleep 2000 \<in> set l" by blast
  from collect_wait_sleep_bounds [OF _ _ w n] show ?thesis by simp
qed

text \<open>A run releases at most one speech result, by deleting it or by handing it to the
  caller: when the recognizer reports two results during one call, the second overwrites the
  pointer and the first is neither deleted nor returned.\<close>

theorem collect_input_leaks_results:
  assumes "switch_ivr_play_and_collect_input J cb dm wr A md gr mn mx terms dt ws = (Some out, l)"
  shows "deleted l + (if out_result out = None then 0 else 1) \<le> 1"
proof -
  from play_and_collect_done [OF assms] obtain st s l1 l2
    where d: "collect_done wr st s = (out, l2)" and l: "l = l1 @ l2" "deleted l1 = 0" by blast
  from collect_done_releases [OF d] l show ?thesis by simp
qed

theorem collect_input_leaks_results_witness:
  "\<exists>out l. switch_ivr_play_and_collect_input example_json False False True
      (example_collect\<lparr>prompt_inputs := [EventInput True (Some ''detected-speech'') (Some ''a''),
                                          EventInput True (Some ''detected-speech'') (Some ''b'')]\<rparr>)
      (Some ''m'') (Some ''g'') 0 0 None 3000 [] = (Some out, l)
     \<and> parsed l = 2 \<and> deleted l + (if out_result out = None then 0 else 1) \<le> 1"
proof -
  have "\<exists>out l. switch_ivr_play_and_collect_input example_json False False True
      (example_collect\<lparr>prompt_inputs := [EventInput True (Some ''detected-speech'') (Some ''a''),
                                          EventInput True (Some ''detected-speech'') (Some ''b'')]\<rparr>)
      (Some ''m'') (Some ''g'') 0 0 None 3000 [] = (Some out, l) \<and> parsed l = 2"
    by (simp add: collect_evals parsed_def)
  then obtain out l where r: "switch_ivr_play_and_collect_input example_json False False True
      (example_collect\<lparr>prompt_inputs := [EventInput True (Some ''detected-speech'') (Some ''a''),
                                          EventInput True (Some ''detected-speech'') (Some ''b'')]\<rparr>)
      (Some ''m'') (Some ''g'') 0 0 None 3000 [] = (Some out, l)" and p: "parsed l = 2" by blast
  from collect_input_leaks_results [OF r] r p show ?thesis by blast
qed

end
