(* ===== verification/Ivr_Speech.thy ===== *)
theory Ivr_Speech
  imports Fs_Types
begin

text \<open>
  Text to speech in \<open>src/src/switch_ivr_play_say.c\<close>: the expansion of \<open>*\<close> and
  \<open>#\<close> and the playback loop of \<open>switch_ivr_speak_text_handle\<close>, the cached speech
  handle and \<open>switch_ivr_speak_text\<close>, and the hold functions that play music to both legs.
  FreeSWITCH answers the calls; what the functions do is the list of \<open>speech_action\<close>s.
\<close>

section \<open>Replacing star and pound\<close>

text \<open>
  The text is rebuilt in a zeroed buffer. \<open>NUL\<close> is the zero byte; \<open>strlen_at\<close> is
  \<open>strlen(tp)\<close>; \<open>snprintf_at\<close> is \<open>snprintf(tp + n, size, "%s", s)\<close>.
\<close>

abbreviation NUL :: char where
  "NUL \<equiv> CHR 0x00"

definition write_at :: "string \<Rightarrow> nat \<Rightarrow> string \<Rightarrow> string" where
  "write_at mem i xs = take i mem @ xs @ drop (i + length xs) mem"

definition c_string :: "string \<Rightarrow> string" where
  "c_string mem = takeWhile (\<lambda>c. c \<noteq> NUL) mem"

definition strlen_at :: "string \<Rightarrow> nat \<Rightarrow> nat" where
  "strlen_at mem i = length (c_string (drop i mem))"

definition snprintf_at :: "string \<Rightarrow> nat \<Rightarrow> nat \<Rightarrow> string \<Rightarrow> string" where
  "snprintf_at mem i n s = (if n = 0 then mem else write_at mem i (take (n - 1) s @ [NUL]))"

text \<open>
  \<open>sizeof(tp)\<close> is the size of the pointer, 8 on the 64-bit targets, not the size of the
  buffer it points into.
\<close>

definition sizeof_tp :: nat where
  "sizeof_tp = 8"

fun expand_loop :: "string \<Rightarrow> string \<Rightarrow> string \<Rightarrow> nat \<Rightarrow> string \<Rightarrow> string" where
  "expand_loop star pound mem tp [] = mem"
| "expand_loop star pound mem tp (c # cs) =
     (if c = CHR ''*'' then
        expand_loop star pound
          (snprintf_at mem (tp + strlen_at mem tp) (sizeof_tp - strlen_at mem tp) star)
          (tp + length star) cs
      else if c = CHR ''#'' then
        expand_loop star pound
          (snprintf_at mem (tp + strlen_at mem tp) (sizeof_tp - strlen_at mem tp) pound)
          (tp + length pound) cs
      else expand_loop star pound (mem[tp := c]) (tp + 1) cs)"

definition expand_extra :: "string \<Rightarrow> string \<Rightarrow> string \<Rightarrow> nat" where
  "expand_extra star pound text =
     sum_list (map (\<lambda>c. if c = CHR ''*'' then length star
                        else if c = CHR ''#'' then length pound else 0) text)"

text \<open>The text handed to the speech engine; \<open>None\<close> for a variable means it is not set.\<close>

definition replacement :: "cstring \<Rightarrow> string \<Rightarrow> string" where
  "replacement var dflt = (case var of None \<Rightarrow> dflt | Some s \<Rightarrow> s)"

definition expand_text :: "cstring \<Rightarrow> cstring \<Rightarrow> string \<Rightarrow> string" where
  "expand_text star_replace pound_replace text =
     (let star = replacement star_replace ''star'';
          pound = replacement pound_replace ''pound'';
          extra = expand_extra star pound text
      in if extra \<noteq> 0
         then c_string (expand_loop star pound (replicate (length text + extra + 1) NUL) 0 text)
         else text)"

section \<open>The playback loop\<close>

datatype speech_action =
    FeedTts string
  | FlushTts
  | ClearBreak
  | StoreDigit
  | WroteSpeech u32 u32
  | Yielded nat
  | SpeechOpen string string
  | SpeechClose
  | VoiceParam string
  | SpCodecInit
  | SpCodecDestroy
  | TimerInit string
  | TimerSync
  | TimerDestroy
  | ServiceSession
  | ThreadSessionEnd
  | SpSessionReset bool bool
  | StorePrivate
  | ClearPrivate
  | SpeakHandle

text \<open>What the caller passed as \<open>args\<close>; \<open>sa_buf\<close> is the string in \<open>args->buf\<close>.\<close>

record speak_args =
  sa_callback :: bool
  sa_buf :: cstring
  sa_dmachine :: bool
  sa_frame_callback :: bool

record speak_tick =
  sp_ready :: bool
  sp_break :: bool
  sp_has_dtmf :: bool
  sp_feed :: switch_status_t
  sp_dtmf_callback :: switch_status_t
  sp_event_callback :: "switch_status_t option"
  sp_paused :: bool
  sp_timer_next :: switch_status_t
  sp_read_status :: switch_status_t
  sp_hold_polls :: nat
  sp_ping :: switch_status_t
  sp_frame_callback :: switch_status_t
  sp_read_tts :: "switch_status_t \<times> size_t"
  sp_write :: switch_status_t

text \<open>
  Input handling of one pass. \<open>Inl\<close>: leave the loop at once with this status; \<open>Inr\<close>:
  the value of \<open>status\<close> when it is tested after the input handling.
\<close>

definition speak_dtmf ::
  "speak_args \<Rightarrow> speak_tick \<Rightarrow> switch_status_t \<Rightarrow> (switch_status_t + switch_status_t) \<times> speech_action list" where
  "speak_dtmf a t st =
     (if \<not> sp_has_dtmf t then (Inr st, [])
      else if \<not> sa_callback a \<and> sa_buf a = None \<and> \<not> sa_dmachine a then (Inl SWITCH_STATUS_BREAK, [])
      else if sa_buf a \<noteq> None \<and> strcasecmp_eq (the (sa_buf a)) ''_break_'' then (Inr SWITCH_STATUS_BREAK, [])
      else if sa_dmachine a \<and> sp_feed t \<noteq> SWITCH_STATUS_SUCCESS then (Inl (sp_feed t), [])
      else let st1 = (if sa_dmachine a then sp_feed t else st)
           in if sa_callback a then (Inr (sp_dtmf_callback t), [])
              else if sa_buf a \<noteq> None then (Inr SWITCH_STATUS_BREAK, [StoreDigit])
              else (Inr st1, []))"

definition speak_input ::
  "speak_args option \<Rightarrow> speak_tick \<Rightarrow> switch_status_t
     \<Rightarrow> (switch_status_t + switch_status_t) \<times> speech_action list" where
  "speak_input args t st =
     (case args of
        None \<Rightarrow> (Inr st, [])
      | Some a \<Rightarrow>
          (case speak_dtmf a t st of
             (Inl e, l) \<Rightarrow> (Inl e, l)
           | (Inr st1, l) \<Rightarrow>
               (let st2 = (if sa_callback a
                           then (case sp_event_callback t of
                                   Some os \<Rightarrow> if os \<noteq> SWITCH_STATUS_SUCCESS then os else st1
                                 | None \<Rightarrow> st1)
                           else st1)
                in if st2 \<noteq> SWITCH_STATUS_SUCCESS then (Inl st2, l) else (Inr st2, l))))"

text \<open>
  Pacing: wait for the timer, or time off the channel by reading a frame. \<open>Inl\<close> leaves
  the loop with the given status.
\<close>

definition speak_pace ::
  "(switch_status_t \<Rightarrow> bool) \<Rightarrow> bool \<Rightarrow> speak_args option \<Rightarrow> speak_tick \<Rightarrow> switch_status_t
     \<Rightarrow> (switch_status_t + switch_status_t) \<times> speech_action list" where
  "speak_pace acc timer args t st =
     (if timer
      then (if sp_timer_next t \<noteq> SWITCH_STATUS_SUCCESS then (Inl st, []) else (Inr st, []))
      else let l = (if sp_hold_polls t = 0 then [] else [Yielded (sp_hold_polls t)])
           in if \<not> acc (sp_read_status t) then (Inl st, l)
              else (case args of
                 None \<Rightarrow> (Inr st, l)
               | Some a \<Rightarrow>
                   if sa_dmachine a \<and> sp_ping t \<noteq> SWITCH_STATUS_SUCCESS then (Inl (sp_ping t), l)
                   else let st1 = (if sa_dmachine a then sp_ping t else st)
                        in if sa_frame_callback a \<and> sp_frame_callback t \<noteq> SWITCH_STATUS_SUCCESS
                           then (Inl (sp_frame_callback t), l)
                           else (Inr (if sa_frame_callback a then sp_frame_callback t else st1), l)))"

text \<open>Reading a block of speech and writing it to the channel.\<close>

definition speak_block ::
  "u32 \<Rightarrow> speak_tick \<Rightarrow> (switch_status_t + switch_status_t) \<times> speech_action list" where
  "speak_block ch t =
     (let (st, ilen) = sp_read_tts t
      in if st \<noteq> SWITCH_STATUS_SUCCESS
         then (Inl (if st = SWITCH_STATUS_BREAK then SWITCH_STATUS_SUCCESS else st), [])
         else let l = [WroteSpeech (ucast ilen) (ucast (ilen div 2 div ucast ch))]
              in if sp_write t \<noteq> SWITCH_STATUS_SUCCESS then (Inl st, l) else (Inr st, l))"

text \<open>One pass of the \<open>for (;;)\<close> loop.\<close>

definition speak_pass ::
  "(switch_status_t \<Rightarrow> bool) \<Rightarrow> bool \<Rightarrow> speak_args option \<Rightarrow> u32 \<Rightarrow> switch_status_t \<Rightarrow> speak_tick
     \<Rightarrow> (switch_status_t + switch_status_t) \<times> speech_action list" where
  "speak_pass acc timer args ch st t =
     (if \<not> sp_ready t then (Inl SWITCH_STATUS_FALSE, [])
      else if sp_break t then (Inl SWITCH_STATUS_BREAK, [ClearBreak])
      else case speak_input args t st of
        (Inl e, l) \<Rightarrow> (Inl e, l)
      | (Inr st1, l) \<Rightarrow>
          if sp_paused t then (let (r, l') = speak_pace acc timer args t st1 in (r, l @ l'))
          else (case speak_block ch t of
             (Inl e, l') \<Rightarrow> (Inl e, l @ l')
           | (Inr st2, l') \<Rightarrow> (let (r, l'') = speak_pace acc timer args t st2 in (r, l @ l' @ l''))))"

fun speak_loop ::
  "(switch_status_t \<Rightarrow> bool) \<Rightarrow> bool \<Rightarrow> speak_args option \<Rightarrow> u32 \<Rightarrow> switch_status_t \<Rightarrow> speak_tick list
     \<Rightarrow> switch_status_t option \<times> speech_action list" where
  "speak_loop acc timer args ch st [] = (None, [])"
| "speak_loop acc timer args ch st (t # ts) =
     (case speak_pass acc timer args ch st t of
        (Inl e, l) \<Rightarrow> (Some e, l)
      | (Inr st', l) \<Rightarrow> (let (r, l') = speak_loop acc timer args ch st' ts in (r, l @ l')))"

record speak_setup =
  sh_present :: bool
  sp_pre_answer :: switch_status_t
  codec_ready :: bool
  star_replace :: cstring
  pound_replace :: cstring
  malloc_ok :: bool
  sh_channels :: u32

definition switch_ivr_speak_text_handle ::
  "(switch_status_t \<Rightarrow> bool) \<Rightarrow> speak_setup \<Rightarrow> bool \<Rightarrow> string \<Rightarrow> speak_args option \<Rightarrow> speak_tick list
     \<Rightarrow> switch_status_t option \<times> speech_action list" where
  "switch_ivr_speak_text_handle acc S timer text args ts =
     (if \<not> sh_present S then (Some SWITCH_STATUS_FALSE, [])
      else if sp_pre_answer S \<noteq> SWITCH_STATUS_SUCCESS then (Some SWITCH_STATUS_FALSE, [])
      else if \<not> codec_ready S then (Some SWITCH_STATUS_FALSE, [])
      else if expand_extra (replacement (star_replace S) ''star'') (replacement (pound_replace S) ''pound'') text \<noteq> 0
              \<and> \<not> malloc_ok S
      then (Some SWITCH_STATUS_MEMERR, [])
      else let fed = expand_text (star_replace S) (pound_replace S) text;
               (r, l) = speak_loop acc timer args (sh_channels S) SWITCH_STATUS_SUCCESS ts
           in (r, FeedTts fed # l @ (if r = None then [] else [FlushTts])))"

section \<open>The speech cache\<close>

text \<open>
  The object kept under the channel's private key. \<open>c_timer\<close>: its timer has an interval;
  \<open>c_iface\<close>: its handle has a speech interface.
\<close>

record cached_speech_handle =
  tts_name :: string
  voice_name :: string
  c_timer :: bool
  c_iface :: bool

definition switch_ivr_clear_speech_cache :: "cached_speech_handle option \<Rightarrow> speech_action list" where
  "switch_ivr_clear_speech_cache cache =
     (case cache of
        None \<Rightarrow> []
      | Some c \<Rightarrow> (if c_timer c then [TimerDestroy] else []) @
                  (if c_iface c then [SpeechClose] else []) @ [SpCodecDestroy, ClearPrivate])"

record speak_answers =
  sx_pre_answer :: switch_status_t
  cache_enabled :: bool
  speech_open_status :: switch_status_t
  second_pre_answer :: switch_status_t
  sp_codec_status :: switch_status_t
  timer_name :: cstring
  timer_init_status :: switch_status_t

text \<open>\<open>switch_copy_string(dst, src, 80)\<close> keeps at most 79 characters.\<close>

definition copy80 :: "string \<Rightarrow> string" where
  "copy80 s = take 79 s"

text \<open>The cache lookup: the cached object found, \<open>need_create\<close>, \<open>need_alloc\<close>.\<close>

definition speak_cache_lookup ::
  "bool \<Rightarrow> cached_speech_handle option \<Rightarrow> string \<Rightarrow> bool \<times> bool \<times> speech_action list" where
  "speak_cache_lookup enabled cache tts =
     (if \<not> enabled then (True, True, [])
      else case cache of
        None \<Rightarrow> (True, True, [])
      | Some c \<Rightarrow> if strcasecmp_eq (tts_name c) tts then (False, False, [])
                  else (False, True, switch_ivr_clear_speech_cache cache))"

text \<open>
  \<open>switch_ivr_speak_text\<close>. \<open>speak\<close> is the result of \<open>switch_ivr_speak_text_handle\<close>;
  \<open>during\<close> is the cache as \<open>switch_ivr_clear_speech_cache\<close> finds it on an error path
  after the object of this call was stored under the private key.
\<close>

definition switch_ivr_speak_text ::
  "speak_answers \<Rightarrow> cached_speech_handle option \<Rightarrow> cached_speech_handle option \<Rightarrow> string \<Rightarrow> string
     \<Rightarrow> switch_status_t option \<times> speech_action list
     \<Rightarrow> switch_status_t option \<times> speech_action list" where
  "switch_ivr_speak_text A cache during tts voice speak =
     (if sx_pre_answer A \<noteq> SWITCH_STATUS_SUCCESS then (Some SWITCH_STATUS_FALSE, [])
      else let enabled = cache_enabled A;
               (need_create, need_alloc, l0) = speak_cache_lookup enabled cache tts;
               l1 = l0 @ (if enabled \<and> need_alloc then [StorePrivate] else []) @ [SpSessionReset False False];
               fail = [SpSessionReset True True] @ switch_ivr_clear_speech_cache during
           in if need_create \<and> speech_open_status A \<noteq> SWITCH_STATUS_SUCCESS
              then (Some (speech_open_status A), l1 @ fail)
              else let l2 = l1 @ (if need_create then [SpeechOpen tts voice]
                                  else if enabled \<and> \<not> strcasecmp_eq
                                       (if need_alloc then copy80 voice else voice_name (the cache)) voice
                                  then [VoiceParam voice] else [])
              in if second_pre_answer A \<noteq> SWITCH_STATUS_SUCCESS
                 then (Some SWITCH_STATUS_FALSE, l2 @ [SpeechClose])
                 else if need_create \<and> sp_codec_status A \<noteq> SWITCH_STATUS_SUCCESS
                 then (Some SWITCH_STATUS_GENERR, l2 @ [SpeechClose] @ fail)
                 else let l3 = l2 @ (if need_create then [SpCodecInit] else [])
                 in if timer_name A \<noteq> None \<and> need_create \<and> timer_init_status A \<noteq> SWITCH_STATUS_SUCCESS
                    then (Some SWITCH_STATUS_GENERR, l3 @ [SpCodecDestroy, SpeechClose] @ fail)
                    else let timed = (timer_name A \<noteq> None);
                             l4 = l3 @ (if timed \<and> need_create then [TimerInit (the (timer_name A))] else []) @
                                       (if timed then [TimerSync, ServiceSession] else []);
                             (st, ls) = speak;
                             l5 = l4 @ SpeakHandle # ls
                         in if st = None then (None, l5)
                            else (st, l5 @ (if enabled then [] else [SpeechClose, SpCodecDestroy]) @
                                   (if timed then ThreadSessionEnd # (if enabled then [] else [TimerDestroy])
                                    else []) @ [SpSessionReset False True]))"

section \<open>What the expansion computes\<close>

text \<open>
  The bytes one source character leaves in the buffer: a replacement is cut after seven
  characters, and the rest of its room keeps the zero bytes it was initialised with.
\<close>

definition slot :: "string \<Rightarrow> string \<Rightarrow> char \<Rightarrow> string" where
  "slot star pound c =
     (if c = CHR ''*'' then take 7 star @ replicate (length star - 7) NUL
      else if c = CHR ''#'' then take 7 pound @ replicate (length pound - 7) NUL
      else [c])"

definition full_slot :: "string \<Rightarrow> string \<Rightarrow> char \<Rightarrow> string" where
  "full_slot star pound c =
     (if c = CHR ''*'' then star else if c = CHR ''#'' then pound else [c])"

lemma strlen_at_zeros: "strlen_at (pre @ replicate k NUL) (length pre) = 0"
  by (cases k) (simp_all add: strlen_at_def c_string_def)

lemma c_string_zeros: "c_string (xs @ replicate n NUL) = c_string xs"
  unfolding c_string_def by (induction xs) (auto simp: takeWhile_eq_Nil_iff hd_replicate)

lemma write_zeros:
  assumes "length s < k"
  shows "snprintf_at (pre @ replicate k NUL) (length pre) 8 s =
    pre @ (take 7 s @ replicate (length s - 7) NUL) @ replicate (k - length s) NUL"
proof -
  let ?n = "length (take 7 s)"
  have "drop (Suc ?n) (replicate k NUL) = replicate (k - Suc ?n) NUL" by simp
  then have "snprintf_at (pre @ replicate k NUL) (length pre) 8 s =
      pre @ take 7 s @ NUL # replicate (k - Suc ?n) NUL"
    by (simp add: snprintf_at_def write_at_def)
  also have "NUL # replicate (k - Suc ?n) NUL = replicate (k - ?n) NUL"
    using assms by (cases "k - ?n") auto
  also have "replicate (k - ?n) NUL = replicate (length s - 7) NUL @ replicate (k - length s) NUL"
    using assms by (subst replicate_add [symmetric]) (simp add: min_def)
  finally show ?thesis by simp
qed

lemma expand_loop_slots:
  "length (concat (map (full_slot star pound) cs)) < k \<Longrightarrow>
   expand_loop star pound (pre @ replicate k NUL) (length pre) cs =
     pre @ concat (map (slot star pound) cs) @
     replicate (k - length (concat (map (full_slot star pound) cs))) NUL"
proof (induction cs arbitrary: pre k)
  case Nil
  then show ?case by simp
next
  case (Cons c cs)
  let ?f = "full_slot star pound c"
  have len: "length (slot star pound c) = length ?f" by (auto simp: slot_def full_slot_def)
  have lt: "length ?f < k" using Cons.prems by simp
  have rest: "length (concat (map (full_slot star pound) cs)) < k - length ?f"
    using Cons.prems by simp
  have step: "expand_loop star pound (pre @ replicate k NUL) (length pre) (c # cs) =
    expand_loop star pound ((pre @ slot star pound c) @ replicate (k - length ?f) NUL)
      (length (pre @ slot star pound c)) cs"
  proof -
    have upd: "(pre @ replicate k NUL)[length pre := c] = pre @ c # replicate (k - 1) NUL"
      if "0 < k" using that by (cases k) simp_all
    have min7: "min n 7 + (n - 7) = (n :: nat)" for n by simp
    show ?thesis
      using lt write_zeros [of star k pre] write_zeros [of pound k pre] upd
      by (auto simp: strlen_at_zeros sizeof_tp_def slot_def full_slot_def min7)
  qed
  show ?case
    unfolding step Cons.IH [OF rest, of "pre @ slot star pound c"] by (simp add: len)
qed

lemma length_full_slots:
  "length (concat (map (full_slot star pound) text)) \<le> length text + expand_extra star pound text"
  by (induction "text") (auto simp: full_slot_def expand_extra_def)

lemma expand_text_slots:
  assumes "star = replacement sr ''star''" and "pound = replacement pr ''pound''"
    and "expand_extra star pound text \<noteq> 0"
  shows "expand_text sr pr text = takeWhile (\<lambda>c. c \<noteq> NUL) (concat (map (slot star pound) text))"
proof -
  let ?k = "length text + expand_extra star pound text + 1"
  have "length (concat (map (full_slot star pound) text)) < ?k"
    using length_full_slots [of star pound "text"] by simp
  from expand_loop_slots [OF this, of "[]"]
  have e: "expand_loop star pound (replicate ?k NUL) 0 text =
      concat (map (slot star pound) text) @
      replicate (?k - length (concat (map (full_slot star pound) text))) NUL" by simp
  show ?thesis
    using assms(3) unfolding expand_text_def Let_def assms(1,2) [symmetric] e c_string_zeros
    by (simp add: c_string_def)
qed

lemma slot_short:
  "length star \<le> 7 \<Longrightarrow> length pound \<le> 7 \<Longrightarrow> slot star pound = full_slot star pound"
  by (rule ext) (simp add: slot_def full_slot_def)

section \<open>What the playback loop never does\<close>

text \<open>The actions that manage the speech engine, codec, timer and cache.\<close>

definition manages :: "speech_action \<Rightarrow> bool" where
  "manages a = (case a of FeedTts x \<Rightarrow> True | FlushTts \<Rightarrow> True | SpeechOpen x y \<Rightarrow> True
     | SpeechClose \<Rightarrow> True | SpCodecInit \<Rightarrow> True | SpCodecDestroy \<Rightarrow> True | TimerInit x \<Rightarrow> True
     | TimerDestroy \<Rightarrow> True | _ \<Rightarrow> False)"

lemma speak_pass_manages:
  "speak_pass acc timer args ch st t = (r, l) \<Longrightarrow> a \<in> set l \<Longrightarrow> \<not> manages a"
  unfolding speak_pass_def speak_input_def speak_dtmf_def speak_pace_def speak_block_def Let_def manages_def
  by (auto split: if_splits option.splits prod.splits sum.splits)

lemma speak_loop_manages:
  "speak_loop acc timer args ch st ts = (r, l) \<Longrightarrow> a \<in> set l \<Longrightarrow> \<not> manages a"
proof (induction ts arbitrary: st r l)
  case Nil
  then show ?case by simp
next
  case (Cons t ts)
  obtain p l1 where p: "speak_pass acc timer args ch st t = (p, l1)" by fastforce
  show ?case
  proof (cases p)
    case (Inl e)
    with Cons.prems p speak_pass_manages [OF p] show ?thesis by auto
  next
    case (Inr st')
    obtain r2 l2 where q: "speak_loop acc timer args ch st' ts = (r2, l2)" by fastforce
    with Cons.prems p Inr have "a \<in> set l1 \<or> a \<in> set l2" by auto
    with speak_pass_manages [OF p] Cons.IH [OF q] show ?thesis by blast
  qed
qed

definition opens :: "speech_action list \<Rightarrow> nat" where
  "opens l = length (filter (\<lambda>a. \<exists>x y. a = SpeechOpen x y) l)"

definition closes :: "speech_action list \<Rightarrow> nat" where
  "closes l = count_list l SpeechClose"

definition sp_balanced :: "speech_action list \<Rightarrow> bool" where
  "sp_balanced l \<longleftrightarrow> opens l = closes l \<and> count_list l SpCodecInit = count_list l SpCodecDestroy \<and>
     length (filter (\<lambda>a. \<exists>x. a = TimerInit x) l) = count_list l TimerDestroy"

lemma unmanaged_counts:
  assumes "\<forall>a \<in> set l. a = SpeakHandle \<or> a = FlushTts \<or> (\<exists>x. a = FeedTts x) \<or> \<not> manages a"
  shows "opens l = 0" "closes l = 0" "count_list l SpCodecInit = 0" "count_list l SpCodecDestroy = 0"
    "filter (\<lambda>a. \<exists>x. a = TimerInit x) l = []" "count_list l TimerDestroy = 0"
proof -
  have no: "a \<notin> set l" if "manages a" "a \<noteq> SpeakHandle" "a \<noteq> FlushTts" "\<And>x. a \<noteq> FeedTts x" for a
    using assms that by blast
  have "SpeechOpen x y \<notin> set l" for x y by (rule no) (simp_all add: manages_def)
  then show "opens l = 0" by (auto simp: opens_def filter_empty_conv)
  have "SpeechClose \<notin> set l" by (rule no) (simp_all add: manages_def)
  then show "closes l = 0" by (simp add: closes_def count_list_0_iff)
  have "SpCodecInit \<notin> set l" by (rule no) (simp_all add: manages_def)
  then show "count_list l SpCodecInit = 0" by (simp add: count_list_0_iff)
  have "SpCodecDestroy \<notin> set l" by (rule no) (simp_all add: manages_def)
  then show "count_list l SpCodecDestroy = 0" by (simp add: count_list_0_iff)
  have "TimerInit x \<notin> set l" for x by (rule no) (simp_all add: manages_def)
  then show "filter (\<lambda>a. \<exists>x. a = TimerInit x) l = []" by (auto simp: filter_empty_conv)
  have "TimerDestroy \<notin> set l" by (rule no) (simp_all add: manages_def)
  then show "count_list l TimerDestroy = 0" by (simp add: count_list_0_iff)
qed

section \<open>Properties\<close>

text \<open>When the replacements for \<open>*\<close> and \<open>#\<close> have at most seven characters (as
  the defaults \<open>star\<close> and \<open>pound\<close> do), the text handed to the speech engine is the
  original with every \<open>*\<close> and \<open>#\<close> replaced and nothing else changed.\<close>

theorem expand_text_replaces:
  assumes "star = replacement sr ''star''" and "pound = replacement pr ''pound''"
    and "length star \<le> 7" and "length pound \<le> 7"
    and "expand_extra star pound text \<noteq> 0"
    and "NUL \<notin> set text \<union> set star \<union> set pound"
  shows "expand_text sr pr text = concat (map (full_slot star pound) text)"
proof -
  have "set (full_slot star pound x) \<subseteq> insert x (set star \<union> set pound)" for x
    by (auto simp: full_slot_def)
  then have "set (concat (map (full_slot star pound) text)) \<subseteq> set text \<union> set star \<union> set pound"
    by fastforce
  with assms(6) have "\<forall>c \<in> set (concat (map (full_slot star pound) text)). c \<noteq> NUL" by blast
  then have "takeWhile (\<lambda>c. c \<noteq> NUL) (concat (map (full_slot star pound) text))
      = concat (map (full_slot star pound) text)" by (simp only: takeWhile_eq_all_conv)
  with expand_text_slots [OF assms(1,2,5)] show ?thesis by (simp only: slot_short [OF assms(3,4)])
qed

theorem expand_text_replaces_witness:
  "expand_text None None ''a*b#'' = concat (map (full_slot ''star'' ''pound'') ''a*b#'')
   \<and> concat (map (full_slot ''star'' ''pound'') ''a*b#'') = ''astarbpound''"
proof -
  have s: "''star'' = replacement None ''star''" and p: "''pound'' = replacement None ''pound''"
    by (simp_all add: replacement_def)
  have e: "expand_extra ''star'' ''pound'' ''a*b#'' \<noteq> 0" by (simp add: expand_extra_def)
  have n: "NUL \<notin> set ''a*b#'' \<union> set ''star'' \<union> set ''pound''" by simp
  from expand_text_replaces [OF s p _ _ e n] show ?thesis by (simp add: full_slot_def)
qed

text \<open>A replacement of more than seven characters cuts the announcement short: because the
  copy is bounded by the size of the pointer, the engine is fed the text before the first
  \<open>*\<close> followed by the first seven characters of the replacement, and the rest is lost.\<close>

theorem expand_text_truncates:
  assumes "text = pre @ CHR ''*'' # post" and "sr = Some star" and "7 < length star"
    and "CHR ''*'' \<notin> set pre" and "CHR ''#'' \<notin> set pre" and "NUL \<notin> set pre \<union> set star"
  shows "expand_text sr pr text = pre @ take 7 star"
proof -
  let ?pound = "replacement pr ''pound''"
  have star: "star = replacement sr ''star''" by (simp add: assms(2) replacement_def)
  have "expand_extra star ?pound text \<noteq> 0"
  proof -
    have "length star \<le> expand_extra star ?pound text" unfolding assms(1) expand_extra_def by simp
    with assms(3) show ?thesis by simp
  qed
  note e = expand_text_slots [OF star refl this]
  have pre: "concat (map (slot star ?pound) pre) = pre"
    using assms(4,5) by (induction pre) (auto simp: slot_def)
  have "length star - 7 = Suc (length star - 8)" using assms(3) by simp
  then have sl: "slot star ?pound (CHR ''*'') = take 7 star @ NUL # replicate (length star - 8) NUL"
    by (simp add: slot_def)
  have "c \<noteq> NUL" if "c \<in> set (pre @ take 7 star)" for c
    using that assms(6) set_take_subset [of 7 star] by auto
  from takeWhile_append2 [of "pre @ take 7 star" "\<lambda>c. c \<noteq> NUL", OF this]
  have tw: "takeWhile (\<lambda>c. c \<noteq> NUL) ((pre @ take 7 star) @ NUL # rest) = pre @ take 7 star" for rest
    by simp
  have "concat (map (slot star ?pound) text) = (pre @ take 7 star) @ NUL #
      (replicate (length star - 8) NUL @ concat (map (slot star ?pound) post))"
    by (simp add: assms(1) pre sl)
  then show ?thesis unfolding e by (simp only: tw)
qed

theorem expand_text_truncates_witness:
  "expand_text (Some ''asterisk'') None ''press * now'' = ''press asteris''"
proof -
  have t: "''press * now'' = ''press '' @ CHR ''*'' # '' now''" by simp
  have "7 < length ''asterisk''" by simp
  from expand_text_truncates [OF t refl this, of None] show ?thesis by simp
qed

text \<open>\<open>switch_ivr_speak_text_handle\<close> feeds the engine once and, whenever it returns
  after that, flushes it exactly once, as its last action, on every exit of the loop.\<close>

theorem speak_text_handle_flushes:
  assumes "switch_ivr_speak_text_handle acc S timer text args ts = (Some st, l)" and "l \<noteq> []"
  shows "\<exists>l'. l = FeedTts (expand_text (star_replace S) (pound_replace S) text) # l' @ [FlushTts] \<and>
     (\<forall>a \<in> set l'. \<not> manages a)"
proof -
  obtain r l' where lp: "speak_loop acc timer args (sh_channels S) SWITCH_STATUS_SUCCESS ts = (r, l')"
    by fastforce
  from assms have "r = Some st" and
    "l = FeedTts (expand_text (star_replace S) (pound_replace S) text) # l' @ [FlushTts]"
    by (auto simp: switch_ivr_speak_text_handle_def lp Let_def split: if_splits)
  with speak_loop_manages [OF lp] show ?thesis by blast
qed

definition example_speak_setup :: speak_setup where
  "example_speak_setup = \<lparr>sh_present = True, sp_pre_answer = SWITCH_STATUS_SUCCESS, codec_ready = True,
     star_replace = None, pound_replace = None, malloc_ok = True, sh_channels = 1\<rparr>"

definition hung_up :: speak_tick where
  "hung_up = \<lparr>sp_ready = False, sp_break = False, sp_has_dtmf = False, sp_feed = SWITCH_STATUS_SUCCESS,
     sp_dtmf_callback = SWITCH_STATUS_SUCCESS, sp_event_callback = None, sp_paused = False,
     sp_timer_next = SWITCH_STATUS_SUCCESS, sp_read_status = SWITCH_STATUS_SUCCESS, sp_hold_polls = 0,
     sp_ping = SWITCH_STATUS_SUCCESS, sp_frame_callback = SWITCH_STATUS_SUCCESS,
     sp_read_tts = (SWITCH_STATUS_SUCCESS, 320), sp_write = SWITCH_STATUS_SUCCESS\<rparr>"

theorem speak_text_handle_flushes_witness:
  "\<exists>l l'. switch_ivr_speak_text_handle (\<lambda>s. True) example_speak_setup False ''hi'' None
        [hung_up\<lparr>sp_ready := True\<rparr>, hung_up] = (Some SWITCH_STATUS_FALSE, l)
     \<and> l = FeedTts (expand_text None None ''hi'') # l' @ [FlushTts]"
proof -
  have "\<exists>l. switch_ivr_speak_text_handle (\<lambda>s. True) example_speak_setup False ''hi'' None
        [hung_up\<lparr>sp_ready := True\<rparr>, hung_up] = (Some SWITCH_STATUS_FALSE, l) \<and> l \<noteq> []"
    by (simp add: switch_ivr_speak_text_handle_def example_speak_setup_def hung_up_def speak_pass_def
        speak_input_def speak_block_def speak_pace_def)
  then obtain l where r: "switch_ivr_speak_text_handle (\<lambda>s. True) example_speak_setup False ''hi'' None
        [hung_up\<lparr>sp_ready := True\<rparr>, hung_up] = (Some SWITCH_STATUS_FALSE, l)" and n: "l \<noteq> []" by blast
  have "star_replace example_speak_setup = None" "pound_replace example_speak_setup = None"
    by (simp_all add: example_speak_setup_def)
  with speak_text_handle_flushes [OF r n] r show ?thesis by auto
qed

text \<open>Without handle caching, \<open>switch_ivr_speak_text\<close> leaks nothing: on every return,
  the engine has been closed, the codec destroyed and the timer destroyed exactly as often as
  they were opened.\<close>

theorem speak_text_uncached_releases:
  assumes "\<not> cache_enabled A"
    and "switch_ivr_speak_text A cache None tts voice
           (switch_ivr_speak_text_handle acc S (timer_name A \<noteq> None) text args ts) = (Some st, l)"
  shows "sp_balanced l"
proof -
  obtain r ls where sp: "switch_ivr_speak_text_handle acc S (timer_name A \<noteq> None) text args ts = (r, ls)"
    by fastforce
  have ls: "\<forall>a \<in> set ls. a = SpeakHandle \<or> a = FlushTts \<or> (\<exists>x. a = FeedTts x) \<or> \<not> manages a"
    using sp unfolding switch_ivr_speak_text_handle_def Let_def
    by (auto split: if_splits prod.splits dest: speak_loop_manages)
  note c = unmanaged_counts [OF ls]
  from assms(2) c show ?thesis
    unfolding sp switch_ivr_speak_text_def speak_cache_lookup_def Let_def sp_balanced_def
      switch_ivr_clear_speech_cache_def
    by (auto simp: assms(1) opens_def closes_def split: if_splits)
qed

definition example_speak :: speak_answers where
  "example_speak = \<lparr>sx_pre_answer = SWITCH_STATUS_SUCCESS, cache_enabled = False,
     speech_open_status = SWITCH_STATUS_SUCCESS, second_pre_answer = SWITCH_STATUS_SUCCESS,
     sp_codec_status = SWITCH_STATUS_SUCCESS, timer_name = Some ''soft'',
     timer_init_status = SWITCH_STATUS_SUCCESS\<rparr>"

theorem speak_text_uncached_releases_witness:
  "\<exists>l. switch_ivr_speak_text example_speak None None ''aliyun_tts'' ''aixia''
         (switch_ivr_speak_text_handle (\<lambda>s. True) example_speak_setup (timer_name example_speak \<noteq> None)
            ''hi'' None [hung_up]) = (Some SWITCH_STATUS_FALSE, l) \<and> sp_balanced l"
proof -
  have "\<exists>l. switch_ivr_speak_text example_speak None None ''aliyun_tts'' ''aixia''
         (switch_ivr_speak_text_handle (\<lambda>s. True) example_speak_setup (timer_name example_speak \<noteq> None)
            ''hi'' None [hung_up]) = (Some SWITCH_STATUS_FALSE, l)"
    by (simp add: switch_ivr_speak_text_def speak_cache_lookup_def example_speak_def
        switch_ivr_speak_text_handle_def example_speak_setup_def hung_up_def speak_pass_def)
  then obtain l where r: "switch_ivr_speak_text example_speak None None ''aliyun_tts'' ''aixia''
         (switch_ivr_speak_text_handle (\<lambda>s. True) example_speak_setup (timer_name example_speak \<noteq> None)
            ''hi'' None [hung_up]) = (Some SWITCH_STATUS_FALSE, l)" by blast
  have "\<not> cache_enabled example_speak" by (simp add: example_speak_def)
  from speak_text_uncached_releases [OF this r] r show ?thesis by blast
qed



end
