(* ===== verification/Ivr_Phrase.thy ===== *)
theory Ivr_Phrase
  imports Fs_Types
begin

text \<open>
  \<open>switch_ivr_phrase_macro_event\<close> of \<open>src/src/switch_ivr_play_say.c\<close>: look a phrase macro up
  in the language configuration, match its input patterns against the data and run the
  actions of the matching branch. The parsed configuration is an argument (\<open>lang_conf\<close>,
  \<open>macro_group\<close>, \<open>macro\<close>, \<open>phrase_input\<close>, \<open>action\<close>); the regular expressions, the
  expansion of variables and the statuses of the called functions are answers of FreeSWITCH
  (\<open>phrase_env\<close>), given as functions of what happened so far. A nested \<open>phrase\<close> action is a
  recursive call. The recursion is bounded by fuel; \<open>None\<close> means that the fuel did not
  suffice. \<open>arg_recursion_check_start\<close> is FreeSWITCH's and an answer too.
\<close>

section \<open>Configuration and answers\<close>

text \<open>
  Attributes read with \<open>switch_xml_attr_soft\<close> are strings (empty if missing), the others
  may be missing.
\<close>

record action =
  act_data :: string
  act_function :: string
  act_volume :: string
  act_phrase :: string
  act_say_type :: string
  act_say_method :: string
  act_say_gender :: string
  act_tts_engine :: cstring
  act_tts_voice :: cstring

record phrase_input =
  in_field :: cstring
  in_pattern :: cstring
  break_on_match :: string
  match_actions :: "action list option"
  nomatch_actions :: "action list option"

record macro =
  pause_val :: cstring
  inputs :: "phrase_input list"

record macro_group =
  group_sound_prefix :: cstring
  group_sound_path :: cstring
  group_sound_path2 :: cstring
  group_prefix_enforced :: cstring
  macro_named :: "string \<Rightarrow> macro option"

text \<open>\<open>new_structure\<close>: the \<open>macros\<close> element is not the language itself.\<close>

record lang_conf =
  say_module :: cstring
  old_module :: cstring
  lang_sound_prefix :: cstring
  lang_sound_path :: cstring
  lang_sound_path2 :: cstring
  lang_tts_engine :: cstring
  lang_tts_engine2 :: cstring
  lang_tts_voice :: cstring
  lang_tts_voice2 :: cstring
  new_structure :: bool
  default_group :: macro_group
  group_named :: "string \<Rightarrow> macro_group option"

datatype phrase_act =
    HintCreate string string cstring
  | HintDestroy
  | EventData string
  | XmlFree
  | SetVar string cstring
  | PlayFile string "int option"
  | Execute string string
  | Say string string string string string
  | SpeakText cstring cstring string
  | Sleep int
  | NoMatchWarning

type_synonym phrase_log = "phrase_act list"

text \<open>
  The answers of FreeSWITCH. \<open>locate_language\<close> also says whether it left an XML root to
  free; \<open>recursion_check\<close> gets the number of calls in progress and answers with the status to
  return when it refuses.
\<close>

record phrase_env =
  get_var :: "phrase_log \<Rightarrow> string \<Rightarrow> cstring"
  switch_true :: "cstring \<Rightarrow> bool"
  recursion_check :: "nat \<Rightarrow> switch_status_t option"
  locate_language :: "phrase_log \<Rightarrow> string \<Rightarrow> lang_conf option \<times> bool"
  is_number :: "string \<Rightarrow> bool"
  normalize_volume :: "int \<Rightarrow> int"
  pre_answer :: "phrase_log \<Rightarrow> switch_status_t"
  event_expand :: "phrase_log \<Rightarrow> string \<Rightarrow> string"
  channel_expand :: "phrase_log \<Rightarrow> string \<Rightarrow> string"
  regex_perform :: "string \<Rightarrow> string \<Rightarrow> int"
  malloc_ok :: "phrase_log \<Rightarrow> u32 \<Rightarrow> bool"
  perform_substitution :: "string \<Rightarrow> string \<Rightarrow> string \<Rightarrow> u32 \<Rightarrow> string"
  separate_paren_args :: "string \<Rightarrow> string \<times> cstring"
  app_exists :: "string \<Rightarrow> bool"
  say_exists :: "string \<Rightarrow> bool"
  answer :: "phrase_log \<Rightarrow> phrase_act \<Rightarrow> switch_status_t"

section \<open>One action\<close>

text \<open>What stays fixed while the actions of a macro run.\<close>

record phrase_ctx =
  chan_lang :: string
  say_module_name :: string
  tts_engine :: cstring
  tts_voice :: cstring
  ctx_pause :: int
  ctx_event :: bool

text \<open>A nested run: macro name, data, language and log so far to status and log.\<close>

type_synonym nested = "string \<Rightarrow> string \<Rightarrow> string \<Rightarrow> phrase_log \<Rightarrow> (switch_status_t \<times> phrase_log) option"

definition expand_with :: "phrase_env \<Rightarrow> bool \<Rightarrow> phrase_log \<Rightarrow> string \<Rightarrow> string" where
  "expand_with E has_event hist s = (if has_event then event_expand E hist s else channel_expand E hist s)"

text \<open>
  The data of the action with the captured groups and the variables filled in; \<open>None\<close> if the
  buffer for the substitution cannot be allocated. Its size is computed in \<open>uint32_t\<close>.
\<close>

definition action_data :: "phrase_env \<Rightarrow> bool \<Rightarrow> phrase_log \<Rightarrow> string \<Rightarrow> string \<Rightarrow> string \<Rightarrow> int \<Rightarrow> action \<Rightarrow> string option" where
  "action_data E has_event hist dat field_expanded pat proceed a =
     (if CHR ''('' \<in> set pat \<and> CHR ''$'' \<in> set (act_data a) \<and> proceed > 0
      then (let len = of_nat (length dat + length (act_data a) + 10) * of_int proceed
            in if malloc_ok E hist len
               then Some (expand_with E has_event hist
                      (perform_substitution E pat (act_data a) field_expanded len))
               else None)
      else Some (expand_with E has_event hist (act_data a)))"

text \<open>
  The dispatch on the function name: the new status, whether \<open>done\<close> is set, and what was
  done.
\<close>

definition run_action ::
  "phrase_env \<Rightarrow> phrase_ctx \<Rightarrow> nested \<Rightarrow> phrase_log \<Rightarrow> switch_status_t \<Rightarrow> action \<Rightarrow> string
     \<Rightarrow> (switch_status_t \<times> bool \<times> phrase_log) option" where
  "run_action E C nested hist st a odata =
     (let func = act_function a;
          doing = (\<lambda>act. Some (answer E hist act, False, [act]))
      in
      if strcasecmp_eq func ''play-file'' then
        doing (PlayFile odata
          (if is_number E (act_volume a) then Some (normalize_volume E (atoi (act_volume a))) else None))
      else if strcasecmp_eq func ''phrase'' then
        (case nested (act_phrase a) odata (chan_lang C) hist of
           None \<Rightarrow> None
         | Some (s, l) \<Rightarrow> Some (s, False, l))
      else if strcasecmp_eq func ''break'' then Some (st, True, [])
      else if strcasecmp_eq func ''execute'' then
        (let (cmd, cmd_args) = separate_paren_args E odata
         in if app_exists E cmd
            then doing (Execute cmd (case cmd_args of None \<Rightarrow> [] | Some s \<Rightarrow> s))
            else Some (SWITCH_STATUS_FALSE, False, []))
      else if strcasecmp_eq func ''say'' then
        (if say_exists E (say_module_name C)
         then doing (Say (say_module_name C) odata (act_say_type a) (act_say_method a) (act_say_gender a))
         else Some (st, False, []))
      else if strcasecmp_eq func ''speak-text'' then
        (let my_tts_engine = (if act_tts_engine a = None then tts_engine C else act_tts_engine a);
             my_tts_voice = (if act_tts_voice a = None then tts_voice C else act_tts_voice a)
         in if zstr (tts_engine C) \<or> zstr (tts_voice C) then Some (st, False, [])
            else doing (SpeakText my_tts_engine my_tts_voice odata))
      else Some (st, False, []))"

section \<open>The loops\<close>

text \<open>How the loop over the actions ends: with status and \<open>done\<close>, or out of memory.\<close>

datatype phrase_end = PEnd switch_status_t bool | PNoMem

fun run_actions ::
  "phrase_env \<Rightarrow> phrase_ctx \<Rightarrow> nested \<Rightarrow> string \<Rightarrow> string \<Rightarrow> string \<Rightarrow> int \<Rightarrow> phrase_log
     \<Rightarrow> switch_status_t \<Rightarrow> action list \<Rightarrow> (phrase_end \<times> phrase_log) option" where
  "run_actions E C nested dat fe pat proceed hist st [] = Some (PEnd st False, [])"
| "run_actions E C nested dat fe pat proceed hist st (a # as) =
     (case action_data E (ctx_event C) hist dat fe pat proceed a of
        None \<Rightarrow> Some (PNoMem, [])
      | Some odata \<Rightarrow>
          (case run_action E C nested hist st a odata of
             None \<Rightarrow> None
           | Some (st1, done1, l) \<Rightarrow>
               (let l1 = l @ [Sleep (ctx_pause C)]
                in if done1 \<or> st1 \<noteq> SWITCH_STATUS_SUCCESS then Some (PEnd st1 done1, l1)
                   else (case run_actions E C nested dat fe pat proceed (hist @ l1) st1 as of
                           None \<Rightarrow> None
                         | Some (e, l2) \<Rightarrow> Some (e, l1 @ l2)))))"

text \<open>
  One input: the expanded field, the pattern, the result of the match and the branch it
  selects.
\<close>

definition input_field :: "phrase_env \<Rightarrow> phrase_ctx \<Rightarrow> string \<Rightarrow> phrase_log \<Rightarrow> phrase_input \<Rightarrow> string" where
  "input_field E C dat hist i =
     expand_with E (ctx_event C) hist (case in_field i of Some f \<Rightarrow> f | None \<Rightarrow> dat)"

definition input_pattern :: "phrase_input \<Rightarrow> string" where
  "input_pattern i = (case in_pattern i of Some p \<Rightarrow> p | None \<Rightarrow> ''.*'')"

definition input_proceed :: "phrase_env \<Rightarrow> phrase_ctx \<Rightarrow> string \<Rightarrow> phrase_log \<Rightarrow> phrase_input \<Rightarrow> int" where
  "input_proceed E C dat hist i = regex_perform E (input_field E C dat hist i) (input_pattern i)"

definition input_branch :: "phrase_env \<Rightarrow> phrase_ctx \<Rightarrow> string \<Rightarrow> phrase_log \<Rightarrow> phrase_input \<Rightarrow> action list option" where
  "input_branch E C dat hist i =
     (if input_proceed E C dat hist i \<noteq> 0 then match_actions i else nomatch_actions i)"

definition run_branch ::
  "phrase_env \<Rightarrow> phrase_ctx \<Rightarrow> nested \<Rightarrow> string \<Rightarrow> phrase_log \<Rightarrow> phrase_input \<Rightarrow> action list
     \<Rightarrow> (phrase_end \<times> phrase_log) option" where
  "run_branch E C nested dat hist i as =
     run_actions E C nested dat (input_field E C dat hist i) (input_pattern i)
       (input_proceed E C dat hist i) hist SWITCH_STATUS_SUCCESS as"

text \<open>The loop over the inputs: the status, the number of matches and the log.\<close>

fun run_inputs ::
  "phrase_env \<Rightarrow> phrase_ctx \<Rightarrow> nested \<Rightarrow> string \<Rightarrow> phrase_log \<Rightarrow> switch_status_t \<Rightarrow> nat
     \<Rightarrow> phrase_input list \<Rightarrow> (switch_status_t \<times> nat \<times> phrase_log) option" where
  "run_inputs E C nested dat hist st matches [] = Some (st, matches, [])"
| "run_inputs E C nested dat hist st matches (i # is) =
     (case input_branch E C dat hist i of
        None \<Rightarrow> run_inputs E C nested dat hist SWITCH_STATUS_SUCCESS matches is
      | Some as \<Rightarrow>
          (case run_branch E C nested dat hist i as of
             None \<Rightarrow> None
           | Some (PNoMem, l) \<Rightarrow> Some (SWITCH_STATUS_SUCCESS, matches + 1, l)
           | Some (PEnd st1 done1, l) \<Rightarrow>
               if done1 \<or> st1 \<noteq> SWITCH_STATUS_SUCCESS \<or> switch_true E (Some (break_on_match i))
               then Some (st1, matches + 1, l)
               else (case run_inputs E C nested dat (hist @ l) st1 (matches + 1) is of
                       None \<Rightarrow> None
                     | Some (s, k, l2) \<Rightarrow> Some (s, k, l @ l2))))"

section \<open>The macro\<close>

text \<open>The first attribute that is present.\<close>

fun first_attr :: "cstring list \<Rightarrow> cstring" where
  "first_attr [] = None"
| "first_attr (Some s # as) = Some s"
| "first_attr (None # as) = first_attr as"

text \<open>
  The macro group (\<open>name@group\<close> selects one) with the name of the macro in it, the sound path
  and the value of \<open>sound_prefix_enforced\<close> to set, if any.
\<close>

definition select_group ::
  "phrase_env \<Rightarrow> bool \<Rightarrow> lang_conf \<Rightarrow> string \<Rightarrow> (macro_group \<times> string \<times> cstring \<times> cstring) option" where
  "select_group E enforced lc macro_name =
     (let lang_path = first_attr [lang_sound_prefix lc, lang_sound_path lc, lang_sound_path2 lc]
      in if \<not> new_structure lc then Some (default_group lc, macro_name, lang_path, None)
         else (let (local_name, rest) = (takeWhile (\<lambda>c. c \<noteq> CHR ''@'') macro_name, dropWhile (\<lambda>c. c \<noteq> CHR ''@'') macro_name)
               in case (if rest = [] then Some (default_group lc) else group_named lc (tl rest)) of
                    None \<Rightarrow> None
                  | Some g \<Rightarrow>
                      Some (g, local_name,
                        first_attr [group_sound_prefix g, group_sound_path g, group_sound_path2 g, lang_path],
                        if \<not> enforced \<and> group_prefix_enforced g \<noteq> None \<and> switch_true E (group_prefix_enforced g)
                        then group_prefix_enforced g else None)))"

definition macro_pause :: "macro \<Rightarrow> int" where
  "macro_pause m = (case pause_val m of None \<Rightarrow> 100
     | Some s \<Rightarrow> if atoi s \<ge> 0 then atoi s else 100)"

definition phrase_context :: "lang_conf \<Rightarrow> string \<Rightarrow> bool \<Rightarrow> macro \<Rightarrow> phrase_ctx" where
  "phrase_context lc lang has_event m =
     \<lparr> chan_lang = lang,
       say_module_name = (case first_attr [say_module lc, old_module lc] of Some s \<Rightarrow> s | None \<Rightarrow> lang),
       tts_engine = first_attr [lang_tts_engine lc, lang_tts_engine2 lc],
       tts_voice = first_attr [lang_tts_voice lc, lang_tts_voice2 lc],
       ctx_pause = macro_pause m, ctx_event = has_event \<rparr>"

text \<open>What the code after the label \<open>done\<close> does.\<close>

definition phrase_finish :: "bool \<Rightarrow> cstring \<Rightarrow> bool \<Rightarrow> bool \<Rightarrow> phrase_log" where
  "phrase_finish no_match old_sound_prefix local_enforced xml =
     HintDestroy # (if no_match then [NoMatchWarning] else [])
     @ (if old_sound_prefix \<noteq> None then [SetVar ''sound_prefix'' old_sound_prefix] else [])
     @ (if local_enforced then [SetVar ''sound_prefix_enforced'' None] else [])
     @ (if xml then [XmlFree] else [])"

text \<open>
  From the lookup of the macro to the end of the input loop: status, whether nothing matched,
  the saved sound prefix and the log.
\<close>

definition phrase_run ::
  "phrase_env \<Rightarrow> nested \<Rightarrow> bool \<Rightarrow> bool \<Rightarrow> lang_conf \<Rightarrow> string \<Rightarrow> string \<Rightarrow> phrase_log
     \<Rightarrow> macro_group \<Rightarrow> string \<Rightarrow> cstring \<Rightarrow> (switch_status_t \<times> bool \<times> cstring \<times> phrase_log) option" where
  "phrase_run E nested enforced has_event lc lang dat hist g local_name sound_path =
     (case macro_named g local_name of
        None \<Rightarrow> Some (SWITCH_STATUS_GENERR, False, None, [])
      | Some m \<Rightarrow>
          (let change = sound_path \<noteq> None \<and> \<not> enforced;
               old = (if change then Some (case get_var E hist ''sound_prefix'' of None \<Rightarrow> [] | Some s \<Rightarrow> s) else None);
               l0 = (if change then [SetVar ''sound_prefix'' sound_path] else [])
           in if inputs m = [] then Some (SWITCH_STATUS_GENERR, False, old, l0)
              else if pre_answer E (hist @ l0) \<noteq> SWITCH_STATUS_SUCCESS
              then Some (SWITCH_STATUS_FALSE, False, old, l0)
              else (case run_inputs E (phrase_context lc lang has_event m) nested dat (hist @ l0)
                           SWITCH_STATUS_GENERR 0 (inputs m) of
                      None \<Rightarrow> None
                    | Some (st, k, l) \<Rightarrow> Some (st, k = 0, old, l0 @ l))))"

text \<open>The function with the nested runs as an argument.\<close>

definition phrase_macro_with ::
  "phrase_env \<Rightarrow> nested \<Rightarrow> nat \<Rightarrow> cstring \<Rightarrow> cstring \<Rightarrow> bool \<Rightarrow> cstring \<Rightarrow> phrase_log
     \<Rightarrow> (switch_status_t \<times> phrase_log) option" where
  "phrase_macro_with E nested depth macro_name dat has_event lang_arg hist =
     (case macro_name of
        None \<Rightarrow> Some (SWITCH_STATUS_GENERR, [])
      | Some name \<Rightarrow>
     (case recursion_check E depth of
        Some st \<Rightarrow> Some (st, [])
      | None \<Rightarrow>
         (let enforced = switch_true E (get_var E hist ''sound_prefix_enforced'');
              lang = (case first_attr [lang_arg, get_var E hist ''default_language''] of None \<Rightarrow> ''en'' | Some l \<Rightarrow> l);
              l0 = HintCreate name lang dat # (case dat of Some d \<Rightarrow> if has_event then [EventData d] else [] | None \<Rightarrow> []);
              (conf, xml) = locate_language E (hist @ l0) lang
          in case conf of
               None \<Rightarrow> Some (SWITCH_STATUS_GENERR, l0 @ phrase_finish False None False xml)
             | Some lc \<Rightarrow>
          (case select_group E enforced lc name of
               None \<Rightarrow> Some (SWITCH_STATUS_GENERR, l0 @ phrase_finish False None False xml)
             | Some (g, local_name, sound_path, enf) \<Rightarrow>
                 (let l1 = (if enf \<noteq> None then [SetVar ''sound_prefix_enforced'' enf] else [])
                  in case phrase_run E nested enforced has_event lc lang (case dat of Some d \<Rightarrow> d | None \<Rightarrow> [])
                            (hist @ l0 @ l1) g local_name sound_path of
                       None \<Rightarrow> None
                     | Some (st, no_match, old, l2) \<Rightarrow>
                         Some (st, l0 @ l1 @ l2 @ phrase_finish no_match old (enf \<noteq> None) xml))))))"

text \<open>\<open>switch_ivr_phrase_macro\<close> passes no event; \<open>depth\<close> counts the calls in progress.\<close>

fun switch_ivr_phrase_macro_event ::
  "phrase_env \<Rightarrow> nat \<Rightarrow> nat \<Rightarrow> cstring \<Rightarrow> cstring \<Rightarrow> bool \<Rightarrow> cstring \<Rightarrow> phrase_log
     \<Rightarrow> (switch_status_t \<times> phrase_log) option" where
  "switch_ivr_phrase_macro_event E 0 depth macro_name dat has_event lang hist = None"
| "switch_ivr_phrase_macro_event E (Suc fuel) depth macro_name dat has_event lang hist =
     phrase_macro_with E
       (\<lambda>n d l h. switch_ivr_phrase_macro_event E fuel (Suc depth) (Some n) (Some d) False (Some l) h)
       depth macro_name dat has_event lang hist"

section \<open>Channel variables across a run\<close>

text \<open>\<open>switch_str_nil\<close>: the string, empty for the null pointer.\<close>

definition str_nil :: "cstring \<Rightarrow> string" where
  "str_nil s = (case s of None \<Rightarrow> [] | Some t \<Rightarrow> t)"


text \<open>The log \<open>l\<close>, run after \<open>h\<close>, leaves both variables as they were.\<close>

definition keeps :: "phrase_env \<Rightarrow> phrase_log \<Rightarrow> phrase_log \<Rightarrow> bool" where
  "keeps E h l \<longleftrightarrow>
     str_nil (get_var E (h @ l) ''sound_prefix'') = str_nil (get_var E h ''sound_prefix'') \<and>
     switch_true E (get_var E (h @ l) ''sound_prefix_enforced'')
       = switch_true E (get_var E h ''sound_prefix_enforced'')"

lemma str_nil_simps [simp]: "str_nil None = []" "str_nil (Some s) = s"
  by (simp_all add: str_nil_def)

lemma keeps_Nil [simp]: "keeps E h []"
  by (simp add: keeps_def)






definition sets :: "phrase_act \<Rightarrow> string option" where
  "sets a = (case a of SetVar n v \<Rightarrow> Some n | _ \<Rightarrow> None)"



lemma sets_simps [simp]:
  "sets (SetVar n v) = Some n" "sets (PlayFile s i) = None" "sets (Execute s1 s2) = None"
  "sets (Say s1 s2 s3 s4 s5) = None" "sets (SpeakText c1 c2 s) = None" "sets (Sleep t) = None"
  "sets NoMatchWarning = None" "sets HintDestroy = None" "sets XmlFree = None"
  "sets (HintCreate s s2 c) = None" "sets (EventData s) = None"
  by (simp_all add: sets_def)









section \<open>A run restores the channel\<close>





section \<open>Runs end\<close>

definition returns :: "nested \<Rightarrow> bool" where
  "returns nested \<longleftrightarrow> (\<forall>n d l h. \<exists>s l'. nested n d l h = Some (s, l'))"

lemma run_action_total:
  assumes "returns nested"
  shows "\<exists>st1 dn l. run_action E C nested hist st a odata = Some (st1, dn, l)"
proof -
  obtain s l where "nested (act_phrase a) odata (chan_lang C) hist = Some (s, l)"
    using assms unfolding returns_def by blast
  then have "run_action E C nested hist st a odata \<noteq> None"
    unfolding run_action_def Let_def by (cases "separate_paren_args E odata") (simp del: not_None_eq)
  then show ?thesis by auto
qed

lemma run_actions_total:
  assumes "returns nested"
  shows "\<exists>e l. run_actions E C nested dat fe pat proceed hist st as = Some (e, l)"
proof (induction as arbitrary: hist st)
  case (Cons a as)
  show ?case
  proof (cases "action_data E (ctx_event C) hist dat fe pat proceed a")
    case (Some odata)
    obtain st1 dn l1 where r: "run_action E C nested hist st a odata = Some (st1, dn, l1)"
      using run_action_total [OF assms] by blast
    obtain e l where "run_actions E C nested dat fe pat proceed (hist @ l1 @ [Sleep (ctx_pause C)]) st1 as = Some (e, l)"
      using Cons.IH by blast
    with Some r show ?thesis by (cases "dn \<or> st1 \<noteq> SWITCH_STATUS_SUCCESS") (auto simp: Let_def)
  qed simp
qed simp

lemma run_inputs_total:
  assumes "returns nested"
  shows "\<exists>s k' l. run_inputs E C nested dat hist st k is = Some (s, k', l)"
proof (induction "is" arbitrary: hist st k)
  case (Cons i "is")
  show ?case
  proof (cases "input_branch E C dat hist i")
    case None
    then show ?thesis using Cons.IH by simp
  next
    case (Some as)
    obtain e l1 where r: "run_branch E C nested dat hist i as = Some (e, l1)"
      using run_actions_total [OF assms] unfolding run_branch_def by blast
    show ?thesis
    proof (cases e)
      case (PEnd st1 dn)
      obtain s k' l where "run_inputs E C nested dat (hist @ l1) st1 (Suc k) is = Some (s, k', l)" using Cons.IH by blast
      then show ?thesis using Some r PEnd
        by (cases "dn \<or> st1 \<noteq> SWITCH_STATUS_SUCCESS \<or> switch_true E (Some (break_on_match i))") auto
    qed (use Some r in simp)
  qed
qed simp

lemma phrase_run_total:
  assumes "returns nested"
  shows "phrase_run E nested en ev lc ln dt h g nm path \<noteq> None"
proof -
  define l0 where "l0 = (if path \<noteq> None \<and> \<not> en then [SetVar ''sound_prefix'' path] else [])"
  show ?thesis
  proof (cases "macro_named g nm")
    case (Some m)
    obtain s k l where "run_inputs E (phrase_context lc ln ev m) nested dt (h @ l0) SWITCH_STATUS_GENERR 0 (inputs m) = Some (s, k, l)"
      using run_inputs_total [OF assms] by blast
    with Some show ?thesis unfolding phrase_run_def Let_def l0_def [symmetric] by (simp del: not_None_eq)
  qed (simp add: phrase_run_def)
qed

lemma phrase_macro_with_total:
  assumes "recursion_check E depth = None \<Longrightarrow> returns nested"
  shows "\<exists>s l. phrase_macro_with E nested depth mn dat ev lang hist = Some (s, l)"
proof -
  have "phrase_run E nested en ev' lc ln dt h g nm path \<noteq> None" if "recursion_check E depth = None"
    for en ev' lc ln dt h g nm path by (rule phrase_run_total [OF assms [OF that]])
  then have "phrase_macro_with E nested depth mn dat ev lang hist \<noteq> None"
    unfolding phrase_macro_with_def Let_def
    by (cases "recursion_check E depth") (simp del: not_None_eq split: option.split prod.split)+
  then show ?thesis by auto
qed

lemma phrase_fuel_enough:
  assumes "\<And>d. n \<le> d \<Longrightarrow> recursion_check E d \<noteq> None"
  shows "n < depth + fuel \<Longrightarrow> 0 < fuel
    \<Longrightarrow> \<exists>s l. switch_ivr_phrase_macro_event E fuel depth mn dat ev lang hist = Some (s, l)"
proof (induction fuel arbitrary: depth mn dat ev lang hist)
  case (Suc fuel)
  have "fuel \<noteq> 0" if "recursion_check E depth = None"
    using Suc.prems assms [of depth] that by (cases fuel) auto
  then have "returns (\<lambda>n d l h. switch_ivr_phrase_macro_event E fuel (Suc depth) (Some n) (Some d) False (Some l) h)"
    if "recursion_check E depth = None"
    using Suc.IH [of "Suc depth"] Suc.prems that unfolding returns_def by simp
  then show ?case using phrase_macro_with_total by simp
qed simp

section \<open>Properties\<close>

text \<open>A channel without settings, and a language with one macro that plays a greeting.\<close>

definition last_set :: "phrase_log \<Rightarrow> string \<Rightarrow> cstring" where
  "last_set h n = foldl (\<lambda>v a. case a of SetVar m w \<Rightarrow> if m = n then w else v | _ \<Rightarrow> v) None h"

definition plain_action :: "string \<Rightarrow> string \<Rightarrow> action" where
  "plain_action func dat = \<lparr> act_data = dat, act_function = func, act_volume = [], act_phrase = ''again'',
     act_say_type = [], act_say_method = [], act_say_gender = [],
     act_tts_engine = Some ''flite'', act_tts_voice = Some ''slt'' \<rparr>"

definition example_macro :: "action list \<Rightarrow> macro" where
  "example_macro as = \<lparr> pause_val = Some ''20'', inputs = [\<lparr> in_field = None, in_pattern = None,
     break_on_match = [], match_actions = Some as, nomatch_actions = None \<rparr>] \<rparr>"

definition example_lang :: lang_conf where
  "example_lang = \<lparr> say_module = None, old_module = None, lang_sound_prefix = None,
     lang_sound_path = Some ''/sounds/en'', lang_sound_path2 = None, lang_tts_engine = None,
     lang_tts_engine2 = None, lang_tts_voice = None, lang_tts_voice2 = None, new_structure = True,
     default_group = \<lparr> group_sound_prefix = None, group_sound_path = None, group_sound_path2 = None,
       group_prefix_enforced = Some ''true'',
       macro_named = (\<lambda>n. if n = ''hello'' then Some (example_macro [plain_action ''play-file'' ''hi.wav''])
                          else if n = ''again'' then Some (example_macro [plain_action ''phrase'' ''x'']) else None) \<rparr>,
     group_named = (\<lambda>_. None) \<rparr>"

definition example_env :: phrase_env where
  "example_env = \<lparr> get_var = last_set, switch_true = (\<lambda>s. s = Some ''true''),
     recursion_check = (\<lambda>d. if d < 3 then None else Some SWITCH_STATUS_GENERR),
     locate_language = (\<lambda>_ _. (Some example_lang, True)), is_number = (\<lambda>_. False),
     normalize_volume = id, pre_answer = (\<lambda>_. SWITCH_STATUS_SUCCESS), event_expand = (\<lambda>_ s. s),
     channel_expand = (\<lambda>_ s. s), regex_perform = (\<lambda>_ _. 1), malloc_ok = (\<lambda>_ _. True),
     perform_substitution = (\<lambda>_ d _ _. d), separate_paren_args = (\<lambda>s. (s, None)),
     app_exists = (\<lambda>_. True), say_exists = (\<lambda>_. True), answer = (\<lambda>_ _. SWITCH_STATUS_SUCCESS) \<rparr>"





text \<open>C32. When the recursion check of the arguments refuses calls at depth \<open>n\<close>, a phrase macro
  always returns, even one whose actions run the same macro again: fuel \<open>n + 1\<close> is enough
  for any configuration and data.\<close>

theorem phrase_macro_returns:
  assumes "\<And>d. n \<le> d \<Longrightarrow> recursion_check E d \<noteq> None"
  shows "\<exists>st l. switch_ivr_phrase_macro_event E (Suc n) 0 macro_name dat has_event lang hist = Some (st, l)"
  using phrase_fuel_enough [OF assms, of n 0 "Suc n"] by simp

theorem phrase_macro_returns_witness:
  "\<exists>st l. switch_ivr_phrase_macro_event example_env 4 0 (Some ''again'') (Some ''x'') False None [] = Some (st, l)"
  using phrase_macro_returns [of 3 example_env "Some ''again''" "Some ''x''" False None "[]"]
  by (simp add: example_env_def numeral_eq_Suc)

text \<open>A \<open>speak-text\<close> action that names its own engine and voice says nothing when the
  language has no default engine or voice: the test looks at the language's attributes and not
  at the ones just chosen, and the action counts as a success.\<close>

theorem speak_text_ignores_own_engine:
  assumes "act_function a = ''speak-text''" and "zstr (tts_engine C) \<or> zstr (tts_voice C)"
  shows "run_action E C nested hist st a odata = Some (st, False, [])"
  using assms by (simp add: run_action_def strcasecmp_eq_def to_lower_def)

theorem speak_text_ignores_own_engine_witness:
  "act_tts_engine (plain_action ''speak-text'' ''hi'') = Some ''flite'' \<and>
   run_action example_env (phrase_context example_lang ''en'' False (example_macro [])) (\<lambda>_ _ _ _. None) []
     SWITCH_STATUS_SUCCESS (plain_action ''speak-text'' ''hi'') ''hi'' = Some (SWITCH_STATUS_SUCCESS, False, [])"
  using speak_text_ignores_own_engine [of "plain_action ''speak-text'' ''hi''"
      "phrase_context example_lang ''en'' False (example_macro [])" example_env "\<lambda>_ _ _ _. None" "[]" SWITCH_STATUS_SUCCESS "''hi''"]
  by (simp add: plain_action_def phrase_context_def example_lang_def)

end
