(* ===== verification/Ivr_Tones.thy ===== *)
theory Ivr_Tones
  imports Fs_Types
begin

text \<open>
  Tone generation, the shared file handle and soft hold of \<open>src/src/switch_ivr_play_say.c\<close>:
  \<open>teletone_handler\<close>, \<open>switch_ivr_gentones\<close>, \<open>switch_ivr_get_file_handle\<close>,
  \<open>switch_ivr_release_file_handle\<close>, \<open>hold_on_dtmf\<close> and \<open>switch_ivr_soft_hold\<close>. The tone
  library and the looping buffer are FreeSWITCH's: the buffer operations are parameters, the
  tones an answer. What a function does to the outside is its log.
\<close>

section \<open>Generating tones\<close>

datatype tone_action =
    ToneCodecInit
  | ToneCodecDestroy
  | ToneBufferCreate
  | ToneBufferDestroy
  | ToneSessionDestroy
  | ToneClearBreak
  | ToneStoreDigit char
  | ToneWrite u32 u32 "byte list"

text \<open>The operations of \<open>switch_buffer_t\<close> the code calls, on buffers of any type.\<close>

record 'b tone_buffer =
  buffer_empty :: 'b
  buffer_write :: "'b \<Rightarrow> byte list \<Rightarrow> 'b"
  buffer_set_loops :: "'b \<Rightarrow> int \<Rightarrow> 'b"
  buffer_read_loop :: "'b \<Rightarrow> size_t \<Rightarrow> byte list \<times> 'b"

text \<open>
  The handler the tone library calls with each tone: \<open>teletone_mux_tones\<close> answers the number
  of samples and fills the session's buffer. Without an audio buffer the handler gives \<open>-1\<close>.
\<close>

definition teletone_handler :: "'b tone_buffer \<Rightarrow> 'b option \<Rightarrow> int \<times> byte list \<Rightarrow> int \<times> 'b option" where
  "teletone_handler B audio_buffer mux =
     (case audio_buffer of
        None \<Rightarrow> (-1, None)
      | Some b \<Rightarrow> (let (wrote, samples) = mux
                  in (0, Some (buffer_write B b (take (unat (of_int (wrote * 2) :: size_t)) samples)))))"

definition teletone_run :: "'b tone_buffer \<Rightarrow> 'b \<Rightarrow> (int \<times> byte list) list \<Rightarrow> 'b" where
  "teletone_run B b tones = foldl (\<lambda>b m. the (snd (teletone_handler B (Some b) m))) b tones"

record tone_args =
  ta_callback :: bool
  ta_buf :: bool
  ta_dmachine :: bool
  ta_frame_callback :: bool

record tone_tick =
  tt_ready :: bool
  tt_break :: bool
  tt_read :: switch_status_t
  tt_ping :: switch_status_t
  tt_frame_callback :: switch_status_t
  tt_dtmf :: "char option"
  tt_feed :: switch_status_t
  tt_dtmf_callback :: switch_status_t
  tt_event_callback :: "switch_status_t option"
  tt_write :: switch_status_t

text \<open>
  The input handling of one pass. \<open>None\<close>: a \<open>break\<close> left the loop; otherwise the status that
  is tested afterwards.
\<close>

definition tone_dtmf ::
  "tone_args \<Rightarrow> tone_tick \<Rightarrow> switch_status_t \<Rightarrow> switch_status_t option \<times> tone_action list" where
  "tone_dtmf a t st =
     (case tt_dtmf t of
        None \<Rightarrow> (Some st, [])
      | Some digit \<Rightarrow>
          if \<not> ta_callback a \<and> \<not> ta_buf a \<and> \<not> ta_dmachine a then (None, [])
          else if ta_dmachine a \<and> tt_feed t \<noteq> SWITCH_STATUS_SUCCESS then (None, [])
          else if ta_callback a then (Some (tt_dtmf_callback t), [])
          else if ta_buf a then (Some SWITCH_STATUS_BREAK, [ToneStoreDigit digit])
          else (Some (tt_feed t), []))"

definition tone_input ::
  "tone_args \<Rightarrow> tone_tick \<Rightarrow> switch_status_t \<Rightarrow> switch_status_t option \<times> tone_action list" where
  "tone_input a t st =
     (case tone_dtmf a t st of
        (None, l) \<Rightarrow> (None, l)
      | (Some st1, l) \<Rightarrow>
          (Some (if ta_callback a
                 then (case tt_event_callback t of
                         Some os \<Rightarrow> if os \<noteq> SWITCH_STATUS_SUCCESS then os else st1
                       | None \<Rightarrow> st1)
                 else st1), l))"

text \<open>Reading the frame of this pass, the digit machine and the frame callback.\<close>

definition tone_read :: "(switch_status_t \<Rightarrow> bool) \<Rightarrow> tone_args option \<Rightarrow> tone_tick \<Rightarrow> switch_status_t option" where
  "tone_read acc args t =
     (if \<not> acc (tt_read t) then None
      else case args of
        None \<Rightarrow> Some (tt_read t)
      | Some a \<Rightarrow>
          if ta_dmachine a \<and> tt_ping t \<noteq> SWITCH_STATUS_SUCCESS then None
          else if ta_frame_callback a \<and> tt_frame_callback t \<noteq> SWITCH_STATUS_SUCCESS then None
          else Some (if ta_frame_callback a then tt_frame_callback t
                     else if ta_dmachine a then tt_ping t else tt_read t))"

text \<open>Copying a packet from the tone buffer to the channel; \<open>None\<close> leaves the loop.\<close>

definition tone_packet ::
  "'b tone_buffer \<Rightarrow> size_t \<Rightarrow> tone_tick \<Rightarrow> 'b \<Rightarrow> 'b option \<times> tone_action list" where
  "tone_packet B decoded_bytes t b =
     (let (block, b') = buffer_read_loop B b decoded_bytes;
          datalen = of_nat (length block) :: u32
      in if datalen = 0 then (None, [])
         else (if tt_write t \<noteq> SWITCH_STATUS_SUCCESS then None else Some b',
               [ToneWrite datalen (datalen div 2) block]))"

text \<open>One pass of the loop: the buffer for the next pass, or \<open>None\<close> when it is left.\<close>

definition tone_pass ::
  "'b tone_buffer \<Rightarrow> (switch_status_t \<Rightarrow> bool) \<Rightarrow> tone_args option \<Rightarrow> size_t \<Rightarrow> tone_tick \<Rightarrow> 'b
     \<Rightarrow> 'b option \<times> tone_action list" where
  "tone_pass B acc args decoded_bytes t b =
     (if \<not> tt_ready t then (None, [])
      else if tt_break t then (None, [ToneClearBreak])
      else case tone_read acc args t of
        None \<Rightarrow> (None, [])
      | Some st \<Rightarrow>
          (case (case args of None \<Rightarrow> (Some SWITCH_STATUS_SUCCESS, []) | Some a \<Rightarrow> tone_input a t st) of
             (None, l) \<Rightarrow> (None, l)
           | (Some st1, l) \<Rightarrow>
               if st1 \<noteq> SWITCH_STATUS_SUCCESS then (None, l)
               else (let (b', l') = tone_packet B decoded_bytes t b in (b', l @ l'))))"

text \<open>The loop; the flag says whether it was left (or is still running when the ticks end).\<close>

fun tone_loop ::
  "'b tone_buffer \<Rightarrow> (switch_status_t \<Rightarrow> bool) \<Rightarrow> tone_args option \<Rightarrow> size_t \<Rightarrow> tone_tick list \<Rightarrow> 'b
     \<Rightarrow> bool \<times> tone_action list" where
  "tone_loop B acc args n [] b = (False, [])"
| "tone_loop B acc args n (t # ts) b =
     (case tone_pass B acc args n t b of
        (None, l) \<Rightarrow> (True, l)
      | (Some b', l) \<Rightarrow> (let (r, l') = tone_loop B acc args n ts b' in (r, l @ l')))"

record tone_setup =
  ts_pre_answer :: switch_status_t
  ts_codec_init :: switch_status_t
  ts_recursion :: "switch_status_t option"
  ts_decoded_bytes :: size_t
  ts_tones :: "(int \<times> byte list) list"

text \<open>
  \<open>ts_recursion\<close> is the answer of \<open>arg_recursion_check_start\<close>: the status it returns when it
  refuses. That macro stands after the codec has been initialised.
\<close>

definition switch_ivr_gentones ::
  "'b tone_buffer \<Rightarrow> (switch_status_t \<Rightarrow> bool) \<Rightarrow> tone_setup \<Rightarrow> int \<Rightarrow> tone_args option \<Rightarrow> tone_tick list
     \<Rightarrow> switch_status_t option \<times> tone_action list" where
  "switch_ivr_gentones B acc S loops args ticks =
     (if ts_pre_answer S \<noteq> SWITCH_STATUS_SUCCESS then (Some SWITCH_STATUS_FALSE, [])
      else if ts_codec_init S \<noteq> SWITCH_STATUS_SUCCESS then (Some SWITCH_STATUS_FALSE, [])
      else case (if args = None then None else ts_recursion S) of
        Some st \<Rightarrow> (Some st, [ToneCodecInit])
      | None \<Rightarrow>
          (let b = teletone_run B (buffer_empty B) (ts_tones S);
               b1 = (if loops \<noteq> 0 then buffer_set_loops B b loops else b);
               (left, l) = tone_loop B acc args (ts_decoded_bytes S) ticks b1;
               l1 = [ToneCodecInit, ToneBufferCreate] @ l
           in if left
              then (Some SWITCH_STATUS_SUCCESS, l1 @ [ToneCodecDestroy, ToneBufferDestroy, ToneSessionDestroy])
              else (None, l1)))"

section \<open>The shared file handle\<close>

text \<open>The session's I/O lock as the number of read locks held, and the handle in use.\<close>

definition switch_ivr_get_file_handle :: "'h option \<Rightarrow> nat \<Rightarrow> switch_status_t \<times> 'h option \<times> nat" where
  "switch_ivr_get_file_handle private_fh locks =
     (case private_fh of
        Some fh \<Rightarrow> (SWITCH_STATUS_SUCCESS, Some fh, locks + 1)
      | None \<Rightarrow> (SWITCH_STATUS_FALSE, None, locks + 1 - 1))"

definition switch_ivr_release_file_handle :: "nat \<Rightarrow> switch_status_t \<times> 'h option \<times> nat" where
  "switch_ivr_release_file_handle locks = (SWITCH_STATUS_SUCCESS, None, locks - 1)"

section \<open>Soft hold\<close>

datatype input_kind = INPUT_DTMF char | INPUT_OTHER

text \<open>\<open>stop_key\<close> points at the key string; its first character may be the terminator.\<close>

definition hold_on_dtmf :: "string \<Rightarrow> input_kind \<Rightarrow> switch_status_t" where
  "hold_on_dtmf stop_key inp =
     (case inp of
        INPUT_DTMF digit \<Rightarrow>
          if digit = (case stop_key of [] \<Rightarrow> CHR 0x00 | c # _ \<Rightarrow> c) then SWITCH_STATUS_BREAK else SWITCH_STATUS_SUCCESS
      | INPUT_OTHER \<Rightarrow> SWITCH_STATUS_SUCCESS)"

datatype hold_action =
    HoldLocated string
  | HoldBroadcast string string
  | HoldPlay string
  | HoldCollect
  | HoldStopBroadcast
  | HoldUnlock
  | HoldNotBridged

record hold_answers =
  ha_partner :: cstring
  ha_located :: bool
  ha_other_music :: cstring
  ha_own_music :: cstring
  ha_other_broadcast :: bool

definition plays :: "cstring \<Rightarrow> bool" where
  "plays moh \<longleftrightarrow> \<not> zstr moh \<and> \<not> strcasecmp_eq (the moh) ''silence''"

definition switch_ivr_soft_hold ::
  "hold_answers \<Rightarrow> cstring \<Rightarrow> cstring \<Rightarrow> switch_status_t \<times> hold_action list" where
  "switch_ivr_soft_hold A moh_a moh_b =
     (case ha_partner A of
        None \<Rightarrow> (SWITCH_STATUS_FALSE, [HoldNotBridged])
      | Some other_uuid \<Rightarrow>
          if \<not> ha_located A then (SWITCH_STATUS_FALSE, [HoldNotBridged])
          else (let moh = (if moh_b \<noteq> None then moh_b else ha_other_music A);
                    br = plays moh \<and> \<not> ha_other_broadcast A;
                    own = (if moh_a \<noteq> None then moh_a else ha_own_music A)
                in (SWITCH_STATUS_SUCCESS,
                    HoldLocated other_uuid
                    # (if br then [HoldBroadcast other_uuid (the moh)] else [])
                    @ (if plays own then [HoldPlay (the own)] else [HoldCollect])
                    @ (if br then [HoldStopBroadcast] else [])
                    @ [HoldUnlock])))"

section \<open>What the tone loop writes\<close>

definition blocks :: "tone_action list \<Rightarrow> byte list list" where
  "blocks l = concat (map (\<lambda>a. case a of ToneWrite d s x \<Rightarrow> [x] | _ \<Rightarrow> []) l)"

text \<open>The first \<open>k\<close> packets that can be read from a buffer.\<close>

fun packets :: "'b tone_buffer \<Rightarrow> size_t \<Rightarrow> 'b \<Rightarrow> nat \<Rightarrow> byte list list" where
  "packets B n b 0 = []"
| "packets B n b (Suc k) = (let (x, b') = buffer_read_loop B b n in x # packets B n b' k)"

lemma blocks_simps [simp]:
  "blocks [] = []" "blocks (l @ l') = blocks l @ blocks l'" "blocks (ToneWrite d s x # l) = x # blocks l"
  "blocks (ToneStoreDigit c # l) = blocks l" "blocks (ToneClearBreak # l) = blocks l"
  "blocks (ToneCodecInit # l) = blocks l" "blocks (ToneBufferCreate # l) = blocks l"
  "blocks (ToneCodecDestroy # l) = blocks l" "blocks (ToneBufferDestroy # l) = blocks l"
  "blocks (ToneSessionDestroy # l) = blocks l"
  by (simp_all add: blocks_def)

text \<open>The actions of the loop are writes, a stored digit or the cleared break flag.\<close>

definition loop_action :: "tone_action \<Rightarrow> bool" where
  "loop_action a = (case a of ToneWrite d s x \<Rightarrow> x \<noteq> [] | ToneStoreDigit c \<Rightarrow> True | ToneClearBreak \<Rightarrow> True | _ \<Rightarrow> False)"

lemma tone_input_cases:
  "tone_input a t st = (r, l) \<Longrightarrow> l = [] \<or> (\<exists>c. l = [ToneStoreDigit c])"
  unfolding tone_input_def tone_dtmf_def by (auto split: option.splits if_splits)

lemma tone_pass_cases:
  assumes "tone_pass B acc args n t b = (r, l)"
  obtains (quiet) "r = None" "blocks l = []" "\<forall>a \<in> set l. loop_action a"
    | (wrote) x b' where "buffer_read_loop B b n = (x, b')" "blocks l = [x]" "r = None \<or> r = Some b'"
        "\<forall>a \<in> set l. loop_action a"
proof -
  let ?i = "\<lambda>st. case args of None \<Rightarrow> (Some SWITCH_STATUS_SUCCESS, []) | Some a \<Rightarrow> tone_input a t st"
  have q: "blocks l' = [] \<and> (\<forall>a \<in> set l'. loop_action a)" if "?i st = (r', l')" for st r' l'
    using that tone_input_cases by (fastforce simp: loop_action_def split: option.splits)
  obtain x b' where rd: "buffer_read_loop B b n = (x, b')" by fastforce
  show thesis
  proof (cases "tt_ready t \<and> \<not> tt_break t \<and> tone_read acc args t \<noteq> None")
    case False
    with assms show thesis by (intro quiet) (auto simp: tone_pass_def loop_action_def split: if_splits)
  next
    case True
    then obtain st where st: "tone_read acc args t = Some st" by auto
    obtain r' l' where i: "?i st = (r', l')" by fastforce
    note q' = q [OF i]
    have p: "tone_pass B acc args n t b = (case r' of None \<Rightarrow> (None, l')
        | Some st1 \<Rightarrow> if st1 \<noteq> SWITCH_STATUS_SUCCESS then (None, l')
            else (let (b', l2) = tone_packet B n t b in (b', l' @ l2)))"
      using True st i by (simp add: tone_pass_def split: option.split)
    show thesis
    proof (cases "r' = Some SWITCH_STATUS_SUCCESS \<and> (of_nat (length x) :: u32) \<noteq> 0")
      case True
      then show thesis using assms q' p rd
        by (intro wrote [OF rd]) (auto simp: tone_packet_def Let_def loop_action_def split: if_splits)
    next
      case False
      then show thesis using assms q' p rd
        by (intro quiet) (auto simp: tone_packet_def Let_def split: if_splits option.splits)
    qed
  qed
qed

lemma tone_loop_writes:
  "tone_loop B acc args n ts b = (left, l)
    \<Longrightarrow> (\<exists>k. blocks l = packets B n b k) \<and> (\<forall>a \<in> set l. loop_action a)"
proof (induction ts arbitrary: b left l)
  case Nil
  then show ?case by (auto intro: exI [of _ 0])
next
  case (Cons t ts)
  obtain r l1 where p: "tone_pass B acc args n t b = (r, l1)" by fastforce
  then show ?case
  proof (cases rule: tone_pass_cases)
    case quiet
    with Cons.prems p show ?thesis by (auto intro: exI [of _ 0])
  next
    case (wrote x b')
    show ?thesis
    proof (cases r)
      case None
      with wrote Cons.prems p show ?thesis by (auto intro!: exI [of _ "Suc 0"])
    next
      case (Some b2)
      obtain left2 l2 where q: "tone_loop B acc args n ts b2 = (left2, l2)" by fastforce
      with Cons.IH obtain k where "blocks l2 = packets B n b2 k" "\<forall>a \<in> set l2. loop_action a" by blast
      with wrote Some Cons.prems p q show ?thesis by (auto intro!: exI [of _ "Suc k"])
    qed
  qed
qed

lemma loop_action_no_resource:
  "\<forall>a \<in> set l. loop_action a \<Longrightarrow> a = ToneCodecInit \<or> a = ToneCodecDestroy \<or> a = ToneBufferCreate
     \<or> a = ToneBufferDestroy \<or> a = ToneSessionDestroy \<Longrightarrow> count_list l a = 0"
  by (auto simp: loop_action_def count_list_0_iff)

section \<open>Locks\<close>

lemma file_handle_locks:
  "switch_ivr_get_file_handle fh locks = (st, h, locks1) \<Longrightarrow>
   locks = (if st = SWITCH_STATUS_SUCCESS then snd (snd (switch_ivr_release_file_handle locks1)) else locks1)"
  by (auto simp: switch_ivr_get_file_handle_def switch_ivr_release_file_handle_def split: option.splits)

lemma soft_hold_balanced:
  "switch_ivr_soft_hold A moh_a moh_b = (st, l) \<Longrightarrow>
     (\<exists>u. HoldLocated u \<in> set l) = (HoldUnlock \<in> set l) \<and>
     (\<exists>u m. HoldBroadcast u m \<in> set l) = (HoldStopBroadcast \<in> set l)"
  by (auto simp: switch_ivr_soft_hold_def Let_def split: option.splits if_splits)

section \<open>Properties\<close>

text \<open>A buffer that hands out its bytes once, for the examples.\<close>

definition once_buffer :: "byte list tone_buffer" where
  "once_buffer = \<lparr> buffer_empty = [], buffer_write = (\<lambda>b x. b @ x), buffer_set_loops = (\<lambda>b n. b),
     buffer_read_loop = (\<lambda>b n. (take (unat n) b, drop (unat n) b)) \<rparr>"

definition example_tone_setup :: tone_setup where
  "example_tone_setup = \<lparr> ts_pre_answer = SWITCH_STATUS_SUCCESS, ts_codec_init = SWITCH_STATUS_SUCCESS,
     ts_recursion = None, ts_decoded_bytes = 2, ts_tones = [(1, [1, 2, 99]), (1, [3, 4])] \<rparr>"

definition quiet_tick :: tone_tick where
  "quiet_tick = \<lparr> tt_ready = True, tt_break = False, tt_read = SWITCH_STATUS_SUCCESS,
     tt_ping = SWITCH_STATUS_SUCCESS, tt_frame_callback = SWITCH_STATUS_SUCCESS, tt_dtmf = None,
     tt_feed = SWITCH_STATUS_SUCCESS, tt_dtmf_callback = SWITCH_STATUS_SUCCESS,
     tt_event_callback = None, tt_write = SWITCH_STATUS_SUCCESS \<rparr>"

lemmas tone_defs = switch_ivr_gentones_def teletone_run_def teletone_handler_def once_buffer_def
  example_tone_setup_def quiet_tick_def tone_pass_def tone_read_def tone_packet_def



text \<open>A call of \<open>switch_ivr_gentones\<close> that returns has destroyed the codec it initialised,
  unless the recursion check of its arguments refused it: that check stands after the
  initialisation and returns without destroying the codec.\<close>

theorem gentones_codec_released:
  assumes "switch_ivr_gentones B acc S loops args ticks = (Some st, l)"
  shows "count_list l ToneCodecInit = count_list l ToneCodecDestroy \<longleftrightarrow>
     ts_pre_answer S \<noteq> SWITCH_STATUS_SUCCESS \<or> ts_codec_init S \<noteq> SWITCH_STATUS_SUCCESS
     \<or> args = None \<or> ts_recursion S = None"
  using assms unfolding switch_ivr_gentones_def Let_def
  by (auto simp: loop_action_no_resource dest!: tone_loop_writes split: if_splits prod.splits option.splits)

theorem gentones_codec_released_witness:
  "\<exists>l. switch_ivr_gentones once_buffer (\<lambda>s. True) (example_tone_setup \<lparr> ts_recursion := Some SWITCH_STATUS_GENERR \<rparr>) 0
         (Some \<lparr> ta_callback = False, ta_buf = False, ta_dmachine = False, ta_frame_callback = False \<rparr>) []
         = (Some SWITCH_STATUS_GENERR, l) \<and> count_list l ToneCodecInit \<noteq> count_list l ToneCodecDestroy"
proof -
  let ?S = "example_tone_setup \<lparr> ts_recursion := Some SWITCH_STATUS_GENERR \<rparr>"
  let ?a = "Some \<lparr> ta_callback = False, ta_buf = False, ta_dmachine = False, ta_frame_callback = False \<rparr>"
  obtain l where l: "switch_ivr_gentones once_buffer (\<lambda>s. True) ?S 0 ?a [] = (Some SWITCH_STATUS_GENERR, l)"
    by (simp add: tone_defs)
  from gentones_codec_released [OF l] l show ?thesis by (auto simp: example_tone_setup_def)
qed

end
