(* ===== verification/Ivr_Path.thy ===== *)
theory Ivr_Path
  imports Fs_Types
begin

text \<open>
  How \<open>switch_ivr_record_file_event\<close> and \<open>switch_ivr_play_file\<close> of
  \<open>src/src/switch_ivr_play_say.c\<close> make a path of a file name: the sound prefix goes between the
  parameter blocks a name may start with and the rest of the name.
\<close>

text \<open>
  The parts of the name that FreeSWITCH decides: whether it is a URL or a path, and where the
  block that a name may start with ends.
\<close>

record path_answers =
  is_url :: "string \<Rightarrow> bool"
  is_file_path :: "string \<Rightarrow> bool"
  end_paren :: "string \<Rightarrow> nat option"
  path_separator :: string

text \<open>
  The loop over leading blocks in braces. \<open>tfile\<close> is the copy that is cut at each closing
  brace, and \<open>file\<close> goes on behind the brace in that copy; the search always starts at the
  beginning of the copy. Fuel: a brace inside the copy makes the copy shorter, so one round
  more than it has characters is enough.
\<close>

fun strip_blocks :: "path_answers \<Rightarrow> nat \<Rightarrow> string \<Rightarrow> string \<Rightarrow> string option \<times> string" where
  "strip_blocks P fuel tfile file =
     (case fuel of
        0 \<Rightarrow> (None, file)
      | Suc k \<Rightarrow>
          if file \<noteq> [] \<and> hd file = CHR ''{'' then
            (case end_paren P tfile of
               None \<Rightarrow> (None, file)
             | Some e \<Rightarrow> strip_blocks P k (take e tfile) (dropWhile (\<lambda>c. c = CHR '' '') (drop (e + 1) tfile)))
          else (Some tfile, file))"

definition prefixed_path :: "path_answers \<Rightarrow> string \<Rightarrow> string \<Rightarrow> string" where
  "prefixed_path P prefix file =
     (if is_file_path P file then file
      else let (tfile, rest) =
             (if file \<noteq> [] \<and> hd file = CHR ''{'' then strip_blocks P (Suc (length file)) file file
              else (None, file))
           in (case tfile of None \<Rightarrow> [] | Some t \<Rightarrow> t @ ''}'') @ prefix @ path_separator P @ rest)"

end
