(* ===== verification/Ivr_Record.thy ===== *)
theory Ivr_Record
  imports Ivr_Path
begin

text \<open>
  Recording a call: \<open>merge_recording_variables\<close>, \<open>get_recording_var\<close>, \<open>recording_var_true\<close>,
  \<open>switch_ivr_record_file_event\<close> and \<open>switch_ivr_record_file\<close> of
  \<open>src/src/switch_ivr_play_say.c\<close>. FreeSWITCH's answers before and after the loop are one
  record, those during one pass of the loop a tick; what the function does is its log. The
  samples of a frame are integers (\<open>int16_t\<close>); the sum of their absolute values, a \<open>double\<close> in
  the code, stays far below \<open>2^53\<close> and is exact.
\<close>

section \<open>Recording variables\<close>

text \<open>An event: its headers in order, and FreeSWITCH's lookup of a header by name.\<close>

record event =
  headers :: "(string \<times> string) list"
  get_header :: "string \<Rightarrow> cstring"

text \<open>\<open>switch_snprintf(buf, sizeof(buf), "Recording-Variable-%s", vvar)\<close> with 1024 bytes.\<close>

definition merge_recording_variables :: "event option \<Rightarrow> (string \<times> string) list" where
  "merge_recording_variables vars =
     (case vars of None \<Rightarrow> []
      | Some e \<Rightarrow> map (\<lambda>(n, v). (take 1023 (''Recording-Variable-'' @ n), v)) (headers e))"

text \<open>\<open>fh\<close> is the file handle's \<open>params\<close>, if there is a handle with some.\<close>

definition get_recording_var :: "(string \<Rightarrow> cstring) \<Rightarrow> event option \<Rightarrow> event option \<Rightarrow> string \<Rightarrow> cstring" where
  "get_recording_var chan vars params nm =
     (let v1 = (case vars of None \<Rightarrow> None | Some e \<Rightarrow> get_header e nm);
          v2 = (if v1 = None then (case params of None \<Rightarrow> None | Some e \<Rightarrow> get_header e nm) else v1)
      in if v2 = None then chan nm else v2)"

definition recording_var_true ::
  "(cstring \<Rightarrow> bool) \<Rightarrow> (string \<Rightarrow> cstring) \<Rightarrow> event option \<Rightarrow> event option \<Rightarrow> string \<Rightarrow> bool" where
  "recording_var_true is_true chan vars params nm = is_true (get_recording_var chan vars params nm)"

section \<open>Files, frames and actions\<close>

record codec_impl =
  actual_rate :: u32
  samples_per_packet :: u32
  encoded_bytes :: u32
  decoded_bytes :: u32
  number_of_channels :: u32
  iananame :: string

record rec_handle =
  rh_params :: "event option"
  rh_samples :: u32
  rh_samplerate :: u32
  rh_thresh :: u32
  rh_silence_hits :: u32
  rh_append :: bool
  rh_over :: bool

definition zero_handle :: rec_handle where
  "zero_handle = \<lparr> rh_params = None, rh_samples = 0, rh_samplerate = 0, rh_thresh = 0,
     rh_silence_hits = 0, rh_append = False, rh_over = False \<rparr>"

datatype rec_fault = NullCodec | OutOfFrame | DivisionByZero | BadConversion

datatype rec_action =
    RecOpen string bool bool bool bool
  | RecClose
  | IndOpen string
  | IndClose
  | VidOpen string
  | VidClose
  | WriteCodecInit
  | WriteCodecDestroy
  | RawCodecInit
  | SessionReset
  | Hangup
  | CheckStart
  | CheckStop
  | SetChanVar string cstring
  | SetChanNum string u32
  | SetFileString string string
  | SetFlag string
  | ClearFlag string
  | SetVideoFile string bool
  | VideoRefresh
  | KeyFrame
  | FlushVideo
  | LockVideoFile
  | UnlockVideoFile
  | PreClose
  | SeekTo u32
  | FireEvent string string "(string \<times> string) list"
  | ExecuteValue string
  | ExecuteOn string
  | ApiOn string
  | ApiExecute string cstring
  | RecDigit char
  | WriteFile size_t "int list"
  | WriteSilence size_t
  | SendFrame u32 u32

text \<open>A frame: its buffer as samples, \<open>datalen\<close> in bytes, and the comfort-noise flag.\<close>

record rec_frame =
  fdata :: "int list"
  datalen :: u32
  cng :: bool

record rec_args =
  ra_callback :: bool
  ra_buf :: bool
  ra_dmachine :: bool
  ra_frame_callback :: bool

text \<open>
  One pass: \<open>rt_now\<close> is the clock at the limit test, \<open>rt_now_dtmf\<close> at a digit;
  \<open>rt_video\<close> says, when the video file has ended, whether it could be opened again and holds
  video; \<open>rt_ind\<close> is the result of reading the indication file.
\<close>

record rec_tick =
  rt_ready :: bool
  rt_break :: bool
  rt_now :: int
  rt_dtmf :: "char option"
  rt_now_dtmf :: int
  rt_feed :: switch_status_t
  rt_dtmf_callback :: switch_status_t
  rt_event_callback :: "switch_status_t option"
  rt_read :: switch_status_t
  rt_ping :: switch_status_t
  rt_frame_callback :: switch_status_t
  rt_video :: "(bool \<times> bool) option"
  rt_frame :: rec_frame
  rt_ind :: "size_t option"
  rt_paused :: bool
  rt_file_write :: switch_status_t
  rt_chan_write :: switch_status_t

section \<open>The file name\<close>

definition record_path :: "path_answers \<Rightarrow> string \<Rightarrow> string \<Rightarrow> string \<Rightarrow> string \<times> bool" where
  "record_path P prefix ext file =
     (if is_url P file then (file, False)
      else let full = prefixed_path P prefix file
           in if CHR ''.'' \<in> set full then (full, False) else (full @ ''.'' @ ext, True))"

section \<open>One pass of the loop\<close>

text \<open>What is fixed during the loop.\<close>

record rec_ctx =
  rc_impl :: codec_impl
  rc_divisor :: u32
  rc_limit :: u32
  rc_restart :: bool
  rc_args :: "rec_args option"
  rc_asis :: bool
  rc_thresh :: u32
  rc_org_hits :: u32
  rc_fill_cng :: int
  rc_waste :: int
  rc_video_file :: string
  rc_ind_channels :: u32
  rc_codec_samples :: size_t
  rc_acceptable :: "switch_status_t \<Rightarrow> bool"

record rec_state =
  rs_status :: switch_status_t
  rs_start :: int
  rs_hits :: u32
  rs_ind :: bool
  rs_video :: bool

datatype rec_step = RGo rec_state | RBreak rec_state | RFault rec_fault

text \<open>The raw write codec exists when comfort noise or silence is to be generated.\<close>

definition has_write_codec :: "rec_ctx \<Rightarrow> bool" where
  "has_write_codec C \<longleftrightarrow> rc_fill_cng C \<noteq> 0 \<or> rc_waste C \<noteq> 0"

definition rec_dtmf :: "rec_ctx \<Rightarrow> rec_args \<Rightarrow> rec_tick \<Rightarrow> rec_state \<Rightarrow> rec_step \<times> rec_action list" where
  "rec_dtmf C a t s0 =
     (case rt_dtmf t of
        None \<Rightarrow> (RGo s0, [])
      | Some digit \<Rightarrow>
          (let s = (if rc_limit C \<noteq> 0 \<and> rc_restart C then s0\<lparr>rs_start := rt_now_dtmf t\<rparr> else s0)
           in if \<not> ra_callback a \<and> \<not> ra_buf a \<and> \<not> ra_dmachine a
              then (RBreak (s\<lparr>rs_status := SWITCH_STATUS_BREAK\<rparr>), [])
              else let s1 = (if ra_dmachine a then s\<lparr>rs_status := rt_feed t\<rparr> else s)
                   in if ra_dmachine a \<and> rt_feed t \<noteq> SWITCH_STATUS_SUCCESS then (RBreak s1, [])
                      else if ra_callback a then (RGo (s1\<lparr>rs_status := rt_dtmf_callback t\<rparr>), [])
                      else if ra_buf a then (RGo (s1\<lparr>rs_status := SWITCH_STATUS_BREAK\<rparr>), [RecDigit digit])
                      else (RGo s1, [])))"

definition rec_input :: "rec_ctx \<Rightarrow> rec_tick \<Rightarrow> rec_state \<Rightarrow> rec_step \<times> rec_action list" where
  "rec_input C t s =
     (case rc_args C of
        None \<Rightarrow> (RGo s, [])
      | Some a \<Rightarrow>
          (case rec_dtmf C a t s of
             (RGo s1, l) \<Rightarrow>
               (let s2 = (case (if ra_callback a then rt_event_callback t else None) of
                            Some os \<Rightarrow> if os \<noteq> SWITCH_STATUS_SUCCESS then s1\<lparr>rs_status := os\<rparr> else s1
                          | None \<Rightarrow> s1)
                in if rs_status s2 \<noteq> SWITCH_STATUS_SUCCESS then (RBreak s2, l) else (RGo s2, l))
           | r \<Rightarrow> r))"

definition rec_read :: "rec_ctx \<Rightarrow> rec_tick \<Rightarrow> rec_state \<Rightarrow> rec_step" where
  "rec_read C t s0 =
     (let s = s0\<lparr>rs_status := rt_read t\<rparr>
      in if \<not> rc_acceptable C (rt_read t) then RBreak s
         else case rc_args C of
           None \<Rightarrow> RGo s
         | Some a \<Rightarrow>
             (let s1 = (if ra_dmachine a then s\<lparr>rs_status := rt_ping t\<rparr> else s)
              in if ra_dmachine a \<and> rt_ping t \<noteq> SWITCH_STATUS_SUCCESS then RBreak s1
                 else let s2 = (if ra_frame_callback a then s1\<lparr>rs_status := rt_frame_callback t\<rparr> else s1)
                      in if ra_frame_callback a \<and> rt_frame_callback t \<noteq> SWITCH_STATUS_SUCCESS
                         then RBreak s2 else RGo s2))"

text \<open>The video that is played meanwhile starts over when it has ended.\<close>

definition rec_video :: "rec_ctx \<Rightarrow> rec_tick \<Rightarrow> rec_state \<Rightarrow> rec_state \<times> rec_action list" where
  "rec_video C t s =
     (if \<not> rs_video s then (s, [])
      else case rt_video t of
        None \<Rightarrow> (s, [FlushVideo])
      | Some (opened, has_video) \<Rightarrow>
          (let l = [FlushVideo, LockVideoFile, VidClose] @ (if opened then [VidOpen (rc_video_file C)] else [])
           in if has_video then (s\<lparr>rs_video := opened\<rparr>, l @ [KeyFrame, UnlockVideoFile])
              else (s\<lparr>rs_video := False\<rparr>, l @ [SetVideoFile ''write'' False, VidClose, UnlockVideoFile])))"

text \<open>Silence detection. The loop reads \<open>samples * channels\<close> values of the frame.\<close>

definition record_energy :: "u32 \<Rightarrow> rec_frame \<Rightarrow> rec_fault + nat" where
  "record_energy channels f =
     (let n = unat ((datalen f div 2) * channels)
      in if length (fdata f) < n then Inl OutOfFrame
         else Inr (nat (\<Sum>x \<leftarrow> take n (fdata f). \<bar>x\<bar>)))"

definition record_score :: "u32 \<Rightarrow> u32 \<Rightarrow> rec_frame \<Rightarrow> rec_fault + u32" where
  "record_score channels divisor f =
     (case record_energy channels f of
        Inl e \<Rightarrow> Inl e
      | Inr energy \<Rightarrow>
          if divisor = 0 then Inl DivisionByZero
          else let n = unat (datalen f div 2 div divisor)
               in if n = 0 \<or> energy div n \<ge> 2 ^ 32 then Inl BadConversion else Inr (of_nat (energy div n)))"

definition rec_silence :: "rec_ctx \<Rightarrow> rec_tick \<Rightarrow> rec_state \<Rightarrow> rec_step \<times> rec_action list" where
  "rec_silence C t s =
     (if rc_asis C \<or> rc_thresh C = 0 then (RGo s, [])
      else case record_score (number_of_channels (rc_impl C)) (rc_divisor C) (rt_frame t) of
        Inl e \<Rightarrow> (RFault e, [])
      | Inr score \<Rightarrow>
          if score < rc_thresh C then
            (let s1 = s\<lparr>rs_hits := rs_hits s - 1\<rparr>
             in if rs_hits s1 = 0 then (RBreak s1, [SetChanVar ''silence_hits_exhausted'' (Some ''true'')])
                else (RGo s1, []))
          else (RGo (s\<lparr>rs_hits := rc_org_hits C\<rparr>), []))"

text \<open>
  The frame that is sent while recording: \<open>datalen\<close> and \<open>samples\<close>. An open indication file is
  read for as many samples as the write codec's packets have, through \<open>write_frame.codec\<close>.
\<close>

definition rec_outgoing :: "rec_ctx \<Rightarrow> rec_tick \<Rightarrow> rec_state \<Rightarrow> (rec_fault + rec_state \<times> u32 \<times> u32) \<times> rec_action list" where
  "rec_outgoing C t s =
     (let len = decoded_bytes (rc_impl C)
      in if rs_ind s then
           (if \<not> has_write_codec C then (Inl NullCodec, [])
            else case rt_ind t of
              Some olen \<Rightarrow> (Inr (s, ucast (olen * 2 * ucast (rc_ind_channels C)), ucast olen), [])
            | None \<Rightarrow> (Inr (s\<lparr>rs_ind := False\<rparr>, len, len div 2), [IndClose]))
         else (Inr (s, len, len div 2), []))"

text \<open>Writing the frame, or generated noise for a comfort-noise frame, to the file.\<close>

definition rec_write :: "rec_ctx \<Rightarrow> rec_tick \<Rightarrow> u32 \<Rightarrow> (rec_fault + bool) \<times> rec_action list" where
  "rec_write C t out_len =
     (let f = rt_frame t; ch = number_of_channels (rc_impl C); ok = (rt_file_write t = SWITCH_STATUS_SUCCESS)
      in if \<not> rt_paused t \<and> \<not> cng f then
           (if rc_asis C then (Inr ok, [WriteFile (ucast (datalen f)) (fdata f)])
            else if ch = 0 then (Inl DivisionByZero, [])
            else (Inr ok, [WriteFile (ucast (datalen f div 2 div ch)) (fdata f)]))
         else if cng f \<and> rc_fill_cng C \<noteq> 0 then
           (if ch = 0 then (Inl DivisionByZero, [])
            else (Inr ok, [WriteSilence (ucast (out_len div 2 div ch))]))
         else (Inr True, []))"

definition rec_transfer :: "rec_ctx \<Rightarrow> rec_tick \<Rightarrow> rec_state \<Rightarrow> rec_step \<times> rec_action list" where
  "rec_transfer C t s =
     (case rec_outgoing C t s of
        (Inl e, l) \<Rightarrow> (RFault e, l)
      | (Inr (s1, out_len, out_samples), l) \<Rightarrow>
          (case rec_write C t out_len of
             (Inl e, l2) \<Rightarrow> (RFault e, l @ l2)
           | (Inr ok, l2) \<Rightarrow>
               if \<not> ok then (RBreak s1, l @ l2)
               else if rc_waste C \<noteq> 0 \<or> rs_ind s1
               then (if rt_chan_write t \<noteq> SWITCH_STATUS_SUCCESS then RBreak s1 else RGo s1,
                     l @ l2 @ [SendFrame out_len out_samples])
               else (RGo s1, l @ l2)))"

text \<open>The stages of a pass that the channel or the limit does not end.\<close>

definition rec_stages :: "rec_ctx \<Rightarrow> rec_tick \<Rightarrow> rec_state \<Rightarrow> rec_step \<times> rec_action list" where
  "rec_stages C t s =
     (case rec_input C t s of
        (RGo s1, l1) \<Rightarrow>
          (case rec_read C t s1 of
             RGo s2 \<Rightarrow>
               (let (s3, l2) = rec_video C t s2
                in case rec_silence C t s3 of
                     (RGo s4, l3) \<Rightarrow> (let (r, l4) = rec_transfer C t s4 in (r, l1 @ l2 @ l3 @ l4))
                   | (r, l3) \<Rightarrow> (r, l1 @ l2 @ l3))
           | r \<Rightarrow> (r, l1))
      | r \<Rightarrow> r)"

definition rec_pass :: "rec_ctx \<Rightarrow> rec_tick \<Rightarrow> rec_state \<Rightarrow> rec_step \<times> rec_action list" where
  "rec_pass C t s =
     (if \<not> rt_ready t then (RBreak (s\<lparr>rs_status := SWITCH_STATUS_FALSE\<rparr>), [])
      else if rt_break t then (RBreak (s\<lparr>rs_status := SWITCH_STATUS_BREAK\<rparr>), [ClearFlag ''CF_BREAK''])
      else if rs_start s \<noteq> 0 \<and> rt_now t - rs_start s > uint (rc_limit C) then (RBreak s, [])
      else rec_stages C t s)"

datatype rec_end = RReturned switch_status_t | RRunning | RCrashed rec_fault

fun rec_loop :: "rec_ctx \<Rightarrow> rec_tick list \<Rightarrow> rec_state \<Rightarrow> rec_end \<times> rec_action list" where
  "rec_loop C [] s = (RRunning, [])"
| "rec_loop C (t # ts) s =
     (case rec_pass C t s of
        (RGo s', l) \<Rightarrow> (let (r, l') = rec_loop C ts s' in (r, l @ l'))
      | (RBreak s', l) \<Rightarrow> (RReturned (rs_status s'), l)
      | (RFault e, l) \<Rightarrow> (RCrashed e, l))"

section \<open>Before the loop\<close>

record rec_answers =
  an_pre_answer :: switch_status_t
  an_media_ready :: bool
  an_impl :: codec_impl
  an_recursion :: "switch_status_t option"
  an_chan :: "string \<Rightarrow> cstring"
  an_true :: "cstring \<Rightarrow> bool"
  an_valid_rate :: "int \<Rightarrow> bool"
  an_sounds_dir :: string
  an_paths :: path_answers
  an_video :: bool
  an_video_input :: switch_status_t
  an_open :: switch_status_t
  an_params :: "event option \<Rightarrow> event option"
  an_rate :: "u32 \<Rightarrow> u32"
  an_native :: bool
  an_ind_open :: switch_status_t
  an_ind_channels :: u32
  an_write_codec :: switch_status_t
  an_codec_samples :: size_t
  an_has_video :: bool
  an_vid_open :: switch_status_t
  an_vid_has_video :: bool
  an_raw_codec :: switch_status_t
  an_still_video :: bool
  an_now :: int
  an_start_event :: bool
  an_stop_event :: bool
  an_acceptable :: "switch_status_t \<Rightarrow> bool"
  an_trimmed_ms :: cstring
  an_file_size :: cstring
  an_trimmed :: cstring
  an_expand :: "string \<Rightarrow> string"
  an_native_rate :: u32
  an_samples_out :: u32

text \<open>The arguments of the call.\<close>

record rec_call =
  call_fh :: "rec_handle option"
  call_file :: cstring
  call_args :: "rec_args option"
  call_limit :: u32
  call_vars :: "event option"

definition stop_check :: "rec_call \<Rightarrow> rec_action list" where
  "stop_check K = (if call_args K = None then [] else [CheckStop])"

text \<open>The parameters of the handle: the caller's until the file is open, then what opening made of them.\<close>

definition call_params :: "rec_call \<Rightarrow> event option" where
  "call_params K = (case call_fh K of None \<Rightarrow> None | Some h \<Rightarrow> rh_params h)"

definition rec_var :: "rec_answers \<Rightarrow> rec_call \<Rightarrow> event option \<Rightarrow> string \<Rightarrow> cstring" where
  "rec_var A K params nm = get_recording_var (an_chan A) (call_vars K) params nm"

definition rec_divisor :: "codec_impl \<Rightarrow> u32" where
  "rec_divisor I = (if actual_rate I div 8000 = 0 then 1 else actual_rate I div 8000)"

text \<open>The handle, the caller's or \<open>lfh\<close>, and the position at which recording starts.\<close>

definition begin_handle :: "rec_answers \<Rightarrow> rec_call \<Rightarrow> rec_handle \<times> u32" where
  "begin_handle A K =
     (let h0 = (case call_fh K of None \<Rightarrow> zero_handle | Some h \<Rightarrow> h);
          h1 = h0\<lparr>rh_samples := 0\<rparr>
      in (case rec_var A K (rh_params h1) ''record_sample_rate'' of
            None \<Rightarrow> h1
          | Some p \<Rightarrow> if an_valid_rate A (atoi p) then h1\<lparr>rh_samplerate := of_int (atoi p)\<rparr> else h1,
          rh_samples h0))"

text \<open>Up to the file name: an early return, or the handle, the start position, path and \<open>asis\<close>.\<close>

definition rec_begin ::
  "rec_answers \<Rightarrow> rec_call \<Rightarrow> (switch_status_t + rec_handle \<times> u32 \<times> string \<times> bool) \<times> rec_action list" where
  "rec_begin A K =
     (if an_pre_answer A \<noteq> SWITCH_STATUS_SUCCESS then (Inl SWITCH_STATUS_FALSE, [])
      else case call_file K of
        None \<Rightarrow> (Inl SWITCH_STATUS_FALSE, [])
      | Some file \<Rightarrow>
          (let prefix = (case rec_var A K (call_params K) ''sound_prefix'' of None \<Rightarrow> an_sounds_dir A | Some s \<Rightarrow> s)
           in if \<not> an_media_ready A then (Inl SWITCH_STATUS_FALSE, [])
              else case (if call_args K = None then None else an_recursion A) of
                Some st \<Rightarrow> (Inl st, [])
              | None \<Rightarrow>
                  (let (h, sample_start) = begin_handle A K;
                       (path, asis) = record_path (an_paths A) prefix (iananame (an_impl A)) file;
                       l = (if call_args K = None then [] else [CheckStart])
                   in if asis \<and> encoded_bytes (an_impl A) = 0
                      then (Inl SWITCH_STATUS_GENERR, l @ [SessionReset] @ stop_check K)
                      else (Inr (h, sample_start, path, asis), l))))"

text \<open>Opening the file. A video stream that cannot be set up turns video off again.\<close>

definition rec_open :: "rec_answers \<Rightarrow> rec_call \<Rightarrow> rec_handle \<Rightarrow> string \<Rightarrow> bool \<times> rec_action list" where
  "rec_open A K h path =
     (let buffered = (let v = rec_var A K (rh_params h) ''enable_file_write_buffering'' in v = None \<or> an_true A v);
          app = rh_append h \<or> an_true A (rec_var A K (rh_params h) ''RECORD_APPEND'');
          over = rh_over h \<or> an_true A (rec_var A K (rh_params h) ''RECORD_WRITE_OVER'');
          input_ok = (an_video_input A = SWITCH_STATUS_SUCCESS);
          l = (if an_video A
               then [SetFlag ''CF_VIDEO_DECODED_READ'', VideoRefresh]
                    @ (if input_ok then [] else [SessionReset] @ stop_check K)
               else [])
      in if an_open A \<noteq> SWITCH_STATUS_SUCCESS
         then (False, l @ [Hangup, SessionReset] @ stop_check K)
         else (True, l @ [RecOpen path app over (an_video A \<and> input_ok) buffered]))"

text \<open>\<open>record_fill_cng\<close> and \<open>record_waste_resources\<close>.\<close>

definition noise_level :: "int \<Rightarrow> cstring \<Rightarrow> int" where
  "noise_level dflt v =
     (case v of None \<Rightarrow> dflt
      | Some p \<Rightarrow> if strcasecmp_eq p ''true'' then 1400 else if atoi p < 0 then 0 else atoi p)"

text \<open>The indication file: looked up on the channel first, then in the handle's parameters.\<close>

definition indication :: "rec_answers \<Rightarrow> rec_handle \<Rightarrow> cstring" where
  "indication A h =
     (case an_chan A ''record_indication'' of
        Some p \<Rightarrow> Some p
      | None \<Rightarrow> (case rh_params h of None \<Rightarrow> None | Some e \<Rightarrow> get_header e ''record_indication''))"

text \<open>Video: whether a file is played and whether the caller's video is echoed.\<close>

definition rec_video_setup :: "rec_answers \<Rightarrow> rec_call \<Rightarrow> rec_handle \<Rightarrow> bool \<times> bool \<times> rec_action list" where
  "rec_video_setup A K h =
     (if an_has_video A then
        (let (vid, l) =
           (case rec_var A K (rh_params h) ''record_play_video'' of
              None \<Rightarrow> (False, [])
            | Some p \<Rightarrow>
                (let opened = (an_vid_open A = SWITCH_STATUS_SUCCESS); l = (if opened then [VidOpen p] else [])
                 in if an_vid_has_video A then (opened, l @ [SetVideoFile ''write'' True, KeyFrame])
                    else (False, l @ [VidClose])));
           echo = \<not> vid
         in (vid, echo,
             [VideoRefresh] @ l
             @ (if echo then [SetFlag ''CF_VIDEO_DECODED_READ'', SetFlag ''CF_VIDEO_ECHO''] else [])
             @ [SetVideoFile ''read'' True]))
      else (False, False, if an_video A then [SetFlag ''CF_VIDEO_BLANK''] else []))"

text \<open>The tags of the recording that can be set by variables.\<close>

definition rec_tags :: "(string \<times> string) list" where
  "rec_tags = [(''record_title'', ''TITLE''), (''record_copyright'', ''COPYRIGHT''),
     (''record_software'', ''SOFTWARE''), (''record_artist'', ''ARTIST''),
     (''record_comment'', ''COMMENT''), (''record_date'', ''DATE'')]"

definition set_tags :: "rec_answers \<Rightarrow> rec_call \<Rightarrow> rec_handle \<Rightarrow> rec_action list" where
  "set_tags A K h = concat (map (\<lambda>(nm, col). case rec_var A K (rh_params h) nm of
      None \<Rightarrow> [] | Some v \<Rightarrow> [SetFileString col v, SetChanVar nm None]) rec_tags)"

text \<open>What undoes the video settings.\<close>

definition video_off :: "bool \<Rightarrow> bool \<Rightarrow> rec_action list" where
  "video_off still_video echo =
     (if still_video
      then (if echo then [ClearFlag ''CF_VIDEO_ECHO'', ClearFlag ''CF_VIDEO_DECODED_READ''] else [])
           @ [SetVideoFile ''read'' False, SetVideoFile ''write'' False]
      else [])
     @ [ClearFlag ''CF_VIDEO_BLANK'']"

definition silence_packets :: "codec_impl \<Rightarrow> u32 \<Rightarrow> u32 \<Rightarrow> u32" where
  "silence_packets I rate seconds =
     (if seconds \<noteq> 0 then rate * seconds div samples_per_packet I else rate * 3 div samples_per_packet I)"

definition fill_level :: "rec_answers \<Rightarrow> rec_call \<Rightarrow> event option \<Rightarrow> int" where
  "fill_level A K params = noise_level 0 (rec_var A K params ''record_fill_cng'')"

definition waste_level :: "rec_answers \<Rightarrow> rec_call \<Rightarrow> event option \<Rightarrow> int" where
  "waste_level A K params = noise_level 1400 (rec_var A K params ''record_waste_resources'')"

definition needs_codec :: "rec_answers \<Rightarrow> rec_call \<Rightarrow> event option \<Rightarrow> bool" where
  "needs_codec A K params \<longleftrightarrow> fill_level A K params \<noteq> 0 \<or> waste_level A K params \<noteq> 0"

definition opens_indication :: "rec_answers \<Rightarrow> rec_handle \<Rightarrow> bool" where
  "opens_indication A h \<longleftrightarrow> indication A h \<noteq> None \<and> an_ind_open A = SWITCH_STATUS_SUCCESS"

text \<open>The threshold of the handle asks for silence detection; native recordings have none.\<close>

definition detects :: "rec_handle \<Rightarrow> bool \<Rightarrow> bool" where
  "detects h asis \<longleftrightarrow> rh_thresh h \<noteq> 0 \<and> \<not> asis"

definition packets_of_silence :: "rec_answers \<Rightarrow> rec_handle \<Rightarrow> u32" where
  "packets_of_silence A h = silence_packets (an_impl A) (an_rate A (rh_samplerate h)) (rh_silence_hits h)"

definition rec_context :: "rec_answers \<Rightarrow> rec_call \<Rightarrow> rec_handle \<Rightarrow> bool \<Rightarrow> rec_ctx" where
  "rec_context A K h asis =
     \<lparr> rc_impl = an_impl A, rc_divisor = rec_divisor (an_impl A), rc_limit = call_limit K,
       rc_restart = an_true A (rec_var A K (rh_params h) ''record_restart_limit_on_dtmf''),
       rc_args = call_args K, rc_asis = asis, rc_thresh = rh_thresh h,
       rc_org_hits = (if detects h asis then packets_of_silence A h else 0),
       rc_fill_cng = fill_level A K (rh_params h), rc_waste = waste_level A K (rh_params h),
       rc_video_file = (case rec_var A K (rh_params h) ''record_play_video'' of None \<Rightarrow> [] | Some p \<Rightarrow> p),
       rc_ind_channels = an_ind_channels A, rc_codec_samples = an_codec_samples A,
       rc_acceptable = an_acceptable A \<rparr>"

definition rec_first :: "rec_answers \<Rightarrow> rec_call \<Rightarrow> rec_handle \<Rightarrow> bool \<Rightarrow> bool \<Rightarrow> rec_state" where
  "rec_first A K h asis vid =
     \<lparr> rs_status = SWITCH_STATUS_SUCCESS, rs_start = (if call_limit K \<noteq> 0 then an_now A else 0),
       rs_hits = (if detects h asis then packets_of_silence A h else rh_silence_hits h),
       rs_ind = opens_indication A h, rs_video = vid \<rparr>"

text \<open>
  From the opened file to the loop: an early return or a fault, or the context and the first
  state of the loop with \<open>echo_on\<close>.
\<close>

definition rec_prepare ::
  "rec_answers \<Rightarrow> rec_call \<Rightarrow> rec_handle \<Rightarrow> u32 \<Rightarrow> bool \<Rightarrow> (rec_end + rec_ctx \<times> rec_state \<times> bool) \<times> rec_action list" where
  "rec_prepare A K h sample_start asis0 =
     (let l0 = (if opens_indication A h then [IndOpen (the (indication A h))] else [])
      in if needs_codec A K (rh_params h) \<and> an_write_codec A \<noteq> SWITCH_STATUS_SUCCESS
         then (Inl (RReturned SWITCH_STATUS_FALSE), l0 @ stop_check K)
         else
         (let (vid, echo, l1) = rec_video_setup A K h;
              asis = (asis0 \<or> an_native A);
              l2 = l0 @ (if needs_codec A K (rh_params h) then [WriteCodecInit] else []) @ l1
                   @ (if 0 <s sample_start then [SeekTo sample_start] else [])
                   @ set_tags A K h @ [SetChanVar ''silence_hits_exhausted'' (Some ''false'')]
          in if \<not> asis \<and> an_raw_codec A \<noteq> SWITCH_STATUS_SUCCESS
             then (Inl (RReturned SWITCH_STATUS_GENERR),
                   l2 @ video_off (an_still_video A) echo @ [RecClose, SessionReset] @ stop_check K)
             else let l3 = l2 @ (if asis then [] else [RawCodecInit])
                  in if detects h asis \<and> samples_per_packet (an_impl A) = 0
                     then (Inl (RCrashed DivisionByZero), l3)
                     else (Inr (rec_context A K h asis, rec_first A K h asis vid, echo), l3)))"

section \<open>After the loop\<close>

definition rec_events :: "rec_call \<Rightarrow> string \<Rightarrow> bool \<Rightarrow> string \<Rightarrow> rec_action list" where
  "rec_events K path created what =
     (if created then [FireEvent what path (merge_recording_variables (call_vars K))] else [])
     @ (case call_vars K of None \<Rightarrow> []
        | Some e \<Rightarrow> (case get_header e (''execute_on_record_'' @ what) of None \<Rightarrow> [] | Some x \<Rightarrow> [ExecuteValue x]))
     @ [ExecuteOn (''execute_on_record_'' @ what), ApiOn (''api_on_record_'' @ what)]"

definition both_vars :: "string \<Rightarrow> string \<Rightarrow> cstring \<Rightarrow> rec_action list" where
  "both_vars a b v = (if v = None then [] else [SetChanVar a v, SetChanVar b v])"

definition post_process :: "rec_answers \<Rightarrow> rec_action list" where
  "post_process A =
     (case an_chan A ''record_post_process_exec_api'' of
        None \<Rightarrow> []
      | Some cmd \<Rightarrow>
          (let c = takeWhile (\<lambda>x. x \<noteq> CHR '':'') cmd; r = dropWhile (\<lambda>x. x \<noteq> CHR '':'') cmd
           in [ApiExecute c (if r = [] then None else Some (an_expand A (tl r)))]))"

definition rec_finish :: "rec_answers \<Rightarrow> rec_call \<Rightarrow> rec_ctx \<Rightarrow> bool \<Rightarrow> string \<Rightarrow> rec_action list" where
  "rec_finish A K C echo path =
     (if has_write_codec C then [WriteCodecDestroy] else [])
     @ video_off (an_still_video A) echo
     @ [PreClose]
     @ both_vars ''record_record_trimmed_ms'' ''record_trimmed_ms'' (an_trimmed_ms A)
     @ both_vars ''record_record_file_size'' ''record_file_size'' (an_file_size A)
     @ both_vars ''record_record_trimmed'' ''record_trimmed'' (an_trimmed A)
     @ [RecClose] @ post_process A
     @ (if actual_rate (an_impl A) \<noteq> 0 \<and> an_native_rate A \<ge> 1000
        then [SetChanNum ''record_seconds'' (an_samples_out A div an_native_rate A),
              SetChanNum ''record_ms'' (an_samples_out A div (an_native_rate A div 1000))]
        else [])
     @ [SetChanNum ''record_samples'' (an_samples_out A)]
     @ rec_events K path (an_stop_event A) ''stop'' @ [SessionReset] @ stop_check K"

section \<open>The functions\<close>

definition switch_ivr_record_file_event ::
  "rec_answers \<Rightarrow> rec_call \<Rightarrow> rec_tick list \<Rightarrow> rec_end \<times> rec_action list" where
  "switch_ivr_record_file_event A K ticks =
     (case rec_begin A K of
        (Inl st, l) \<Rightarrow> (RReturned st, l)
      | (Inr (h, sample_start, path, asis), l) \<Rightarrow>
          (case rec_open A K h path of
             (False, l1) \<Rightarrow> (RReturned SWITCH_STATUS_GENERR, l @ l1)
           | (True, l1) \<Rightarrow>
               (case rec_prepare A K (h\<lparr>rh_params := an_params A (rh_params h)\<rparr>) sample_start asis of
                  (Inl r, l2) \<Rightarrow> (r, l @ l1 @ l2)
                | (Inr (C, s, echo), l2) \<Rightarrow>
                    (let (r, l3) = rec_loop C ticks s;
                         before = l @ l1 @ l2 @ rec_events K path (an_start_event A) ''start'' @ l3
                     in case r of
                          RReturned st \<Rightarrow> (RReturned st, before @ rec_finish A K C echo path)
                        | _ \<Rightarrow> (r, before)))))"

definition switch_ivr_record_file ::
  "rec_answers \<Rightarrow> rec_call \<Rightarrow> rec_tick list \<Rightarrow> rec_end \<times> rec_action list" where
  "switch_ivr_record_file A K ticks = switch_ivr_record_file_event A (K\<lparr>call_vars := None\<rparr>) ticks"

section \<open>What a pass does\<close>

lemma rec_dtmf_facts:
  assumes "rec_dtmf C a t s = (r, l)"
  shows "l = [] \<or> (\<exists>c. l = [RecDigit c])" and "\<And>e. r \<noteq> RFault e"
    and "r = RGo s' \<Longrightarrow> rs_hits s' = rs_hits s \<and> rs_ind s' = rs_ind s \<and> rs_video s' = rs_video s \<and>
          (rc_restart C \<or> rs_start s' = rs_start s)"
  using assms by (auto simp: rec_dtmf_def Let_def split: option.splits if_splits)

lemma rec_input_facts:
  assumes "rec_input C t s = (r, l)"
  shows "l = [] \<or> (\<exists>c. l = [RecDigit c])" and "\<And>e. r \<noteq> RFault e"
    and "r = RGo s' \<Longrightarrow> rs_hits s' = rs_hits s \<and> rs_ind s' = rs_ind s \<and> rs_video s' = rs_video s \<and>
          (rc_restart C \<or> rs_start s' = rs_start s)"
proof -
  have "(l = [] \<or> (\<exists>c. l = [RecDigit c])) \<and> (\<forall>e. r \<noteq> RFault e) \<and>
    (\<forall>s'. r = RGo s' \<longrightarrow> rs_hits s' = rs_hits s \<and> rs_ind s' = rs_ind s \<and> rs_video s' = rs_video s \<and>
          (rc_restart C \<or> rs_start s' = rs_start s))"
  proof (cases "rc_args C")
    case None
    with assms show ?thesis by (auto simp: rec_input_def)
  next
    case (Some a)
    obtain r1 l1 where d: "rec_dtmf C a t s = (r1, l1)" by fastforce
    note f = rec_dtmf_facts [OF d]
    show ?thesis
    proof (cases r1)
      case (RGo s1)
      define os where "os = (if ra_callback a then rt_event_callback t else None)"
      define s2 where "s2 = (case os of Some o1 \<Rightarrow> if o1 \<noteq> SWITCH_STATUS_SUCCESS then s1\<lparr>rs_status := o1\<rparr> else s1 | None \<Rightarrow> s1)"
      have "rec_input C t s = (if rs_status s2 \<noteq> SWITCH_STATUS_SUCCESS then (RBreak s2, l1) else (RGo s2, l1))"
        by (simp add: rec_input_def Some d RGo os_def [symmetric] s2_def [symmetric])
      then have "(r, l) = (if rs_status s2 \<noteq> SWITCH_STATUS_SUCCESS then (RBreak s2, l1) else (RGo s2, l1))"
        using assms by simp
      moreover have "rs_hits s2 = rs_hits s1" "rs_ind s2 = rs_ind s1" "rs_video s2 = rs_video s1" "rs_start s2 = rs_start s1"
        by (simp_all add: s2_def split: option.split)
      ultimately show ?thesis using f(1) f(3) [OF RGo] by (auto split: if_splits)
    next
      case (RBreak s1)
      with assms Some d f(1) show ?thesis by (auto simp: rec_input_def)
    next
      case (RFault e)
      with f(2) show ?thesis by blast
    qed
  qed
  then show "l = [] \<or> (\<exists>c. l = [RecDigit c])" "\<And>e. r \<noteq> RFault e"
    "r = RGo s' \<Longrightarrow> rs_hits s' = rs_hits s \<and> rs_ind s' = rs_ind s \<and> rs_video s' = rs_video s \<and>
          (rc_restart C \<or> rs_start s' = rs_start s)" by blast+
qed

lemma rec_read_facts:
  assumes "rec_read C t s = r"
  shows "\<And>e. r \<noteq> RFault e"
    and "r = RGo s' \<Longrightarrow> rs_hits s' = rs_hits s \<and> rs_ind s' = rs_ind s \<and> rs_video s' = rs_video s \<and> rs_start s' = rs_start s"
  using assms by (auto simp: rec_read_def Let_def split: option.splits if_splits)

lemma rec_video_facts:
  assumes "rec_video C t s = (s', l)"
  shows "rs_hits s' = rs_hits s \<and> rs_ind s' = rs_ind s \<and> rs_start s' = rs_start s \<and> rs_status s' = rs_status s"
    and "set l \<subseteq> {FlushVideo, LockVideoFile, VidClose, VidOpen (rc_video_file C), KeyFrame, UnlockVideoFile, SetVideoFile ''write'' False}"
  using assms by (auto simp: rec_video_def Let_def split: option.splits if_splits)

lemma rec_silence_facts:
  assumes "rec_silence C t s = (r, l)"
  shows "l = [] \<or> l = [SetChanVar ''silence_hits_exhausted'' (Some ''true'')]"
    and "r = RGo s' \<Longrightarrow> rs_ind s' = rs_ind s \<and> rs_start s' = rs_start s"
  using assms by (auto simp: rec_silence_def Let_def split: if_splits sum.splits)

text \<open>The file writes of a log.\<close>

definition written :: "rec_action list \<Rightarrow> (size_t \<times> int list) list" where
  "written l = concat (map (\<lambda>a. case a of WriteFile n d \<Rightarrow> [(n, d)] | _ \<Rightarrow> []) l)"

lemma written_append [simp]: "written (l @ l') = written l @ written l'" "written [] = []"
  by (simp_all add: written_def)

lemma written_Cons: "written (a # l) = (case a of WriteFile n d \<Rightarrow> [(n, d)] | _ \<Rightarrow> []) @ written l"
  by (simp add: written_def)

lemma written_none: "(\<And>n d. WriteFile n d \<notin> set l) \<Longrightarrow> written l = []"
  by (auto simp: written_def split: rec_action.splits)

definition frame_write :: "bool \<Rightarrow> u32 \<Rightarrow> rec_tick \<Rightarrow> (size_t \<times> int list) list" where
  "frame_write asis channels t = (if rt_paused t \<or> cng (rt_frame t) then []
     else [(ucast (if asis then datalen (rt_frame t) else datalen (rt_frame t) div 2 div channels), fdata (rt_frame t))])"

abbreviation writes :: "rec_ctx \<Rightarrow> rec_tick \<Rightarrow> (size_t \<times> int list) list" where
  "writes C \<equiv> frame_write (rc_asis C) (number_of_channels (rc_impl C))"

text \<open>The actions that occur inside the loop.\<close>

definition in_loop :: "rec_action \<Rightarrow> bool" where
  "in_loop a = (case a of RecOpen x1 x2 x3 x4 x5 \<Rightarrow> False | RecClose \<Rightarrow> False | CheckStart \<Rightarrow> False | CheckStop \<Rightarrow> False
     | WriteCodecInit \<Rightarrow> False | WriteCodecDestroy \<Rightarrow> False | _ \<Rightarrow> True)"

lemma rec_outgoing_facts:
  assumes "rec_outgoing C t s = (r, l)"
  shows "l = [] \<or> l = [IndClose]" and "r = Inr (s', a, b) \<Longrightarrow> rs_start s' = rs_start s \<and> rs_hits s' = rs_hits s"
  using assms by (auto simp: rec_outgoing_def Let_def split: if_splits option.splits)

lemma rec_write_facts:
  assumes "rec_write C t n = (r, l)"
  shows "\<forall>a \<in> set l. in_loop a" and "r = Inr ok \<Longrightarrow> written l = writes C t" and "r = Inl e \<Longrightarrow> l = []"
  using assms by (auto simp: rec_write_def frame_write_def written_def in_loop_def Let_def split: if_splits)

lemma rec_transfer_facts:
  assumes "rec_transfer C t s = (r, l)"
  shows "\<forall>a \<in> set l. in_loop a"
    and "if (\<exists>e. r = RFault e) then written l = [] else written l = writes C t"
    and "r = RGo s' \<Longrightarrow> rs_start s' = rs_start s \<and> rs_hits s' = rs_hits s"
proof -
  obtain r1 l1 where o: "rec_outgoing C t s = (r1, l1)" by fastforce
  note fo = rec_outgoing_facts [OF o]
  have l1: "written l1 = []" "\<forall>a \<in> set l1. in_loop a" using fo(1) by (auto simp: written_def in_loop_def)
  have "(\<forall>a \<in> set l. in_loop a) \<and> (if (\<exists>e. r = RFault e) then written l = [] else written l = writes C t) \<and>
     (\<forall>s'. r = RGo s' \<longrightarrow> rs_start s' = rs_start s \<and> rs_hits s' = rs_hits s)"
  proof (cases r1)
    case (Inl e)
    with assms o l1 show ?thesis by (auto simp: rec_transfer_def)
  next
    case (Inr x)
    obtain s1 n m where x: "x = (s1, n, m)" by (cases x)
    obtain r2 l2 where w: "rec_write C t n = (r2, l2)" by fastforce
    note fw = rec_write_facts [OF w]
    show ?thesis
    proof (cases r2)
      case (Inl e)
      with assms o w Inr x l1 fw(3) [OF Inl] show ?thesis by (auto simp: rec_transfer_def written_def)
    next
      case (Inr ok)
      with assms o w \<open>r1 = Inr x\<close> x l1 fw(1) fw(2) [OF Inr] fo(2) [of s1 n m] show ?thesis
        by (auto simp: rec_transfer_def in_loop_def written_def split: if_splits)
    qed
  qed
  then show "\<forall>a \<in> set l. in_loop a" "if (\<exists>e. r = RFault e) then written l = [] else written l = writes C t"
    "r = RGo s' \<Longrightarrow> rs_start s' = rs_start s \<and> rs_hits s' = rs_hits s" by blast+
qed

lemma quiet_facts:
  "l = [] \<or> (\<exists>c. l = [RecDigit c]) \<Longrightarrow> written l = [] \<and> (\<forall>a \<in> set l. in_loop a)"
  "set l \<subseteq> {FlushVideo, LockVideoFile, VidClose, VidOpen v, KeyFrame, UnlockVideoFile, SetVideoFile w x}
     \<Longrightarrow> written l = [] \<and> (\<forall>a \<in> set l. in_loop a)"
  "l = [] \<or> l = [SetChanVar n y] \<Longrightarrow> written l = [] \<and> (\<forall>a \<in> set l. in_loop a)"
proof -
  show "l = [] \<or> (\<exists>c. l = [RecDigit c]) \<Longrightarrow> written l = [] \<and> (\<forall>a \<in> set l. in_loop a)"
    by (auto simp: written_def in_loop_def)
  show "l = [] \<or> l = [SetChanVar n y] \<Longrightarrow> written l = [] \<and> (\<forall>a \<in> set l. in_loop a)"
    by (auto simp: written_def in_loop_def)
  assume a: "set l \<subseteq> {FlushVideo, LockVideoFile, VidClose, VidOpen v, KeyFrame, UnlockVideoFile, SetVideoFile w x}"
  then have "written l = []" by (intro written_none) auto
  moreover have "\<forall>a \<in> set l. in_loop a" using a by (auto simp: in_loop_def)
  ultimately show "written l = [] \<and> (\<forall>a \<in> set l. in_loop a)" by blast
qed

definition over_limit :: "rec_ctx \<Rightarrow> rec_tick \<Rightarrow> rec_state \<Rightarrow> bool" where
  "over_limit C t s \<longleftrightarrow> rs_start s \<noteq> 0 \<and> rt_now t - rs_start s > uint (rc_limit C)"

lemma rec_pass_stages:
  "rec_pass C t s =
     (if \<not> rt_ready t then (RBreak (s\<lparr>rs_status := SWITCH_STATUS_FALSE\<rparr>), [])
      else if rt_break t then (RBreak (s\<lparr>rs_status := SWITCH_STATUS_BREAK\<rparr>), [ClearFlag ''CF_BREAK''])
      else if over_limit C t s then (RBreak s, [])
      else rec_stages C t s)"
  by (simp add: rec_pass_def over_limit_def)

lemma rec_stages_facts:
  assumes "rec_stages C t s = (r, l)"
  shows "(\<forall>a \<in> set l. in_loop a) \<and>
    (case r of RGo s' \<Rightarrow> written l = writes C t \<and> (rc_restart C \<or> rs_start s' = rs_start s)
     | _ \<Rightarrow> written l = [] \<or> written l = writes C t)"
proof -
  obtain r1 l1 where i: "rec_input C t s = (r1, l1)" by fastforce
  note fi = rec_input_facts [OF i] and qi = quiet_facts(1) [OF rec_input_facts(1) [OF i]]
  show ?thesis
  proof (cases r1)
    case (RGo s1)
    obtain r2 where rd: "rec_read C t s1 = r2" by blast
    note fr = rec_read_facts [OF rd]
    show ?thesis
    proof (cases r2)
      case s2: (RGo s2)
      obtain s3 l2 where v: "rec_video C t s2 = (s3, l2)" by fastforce
      note fv = rec_video_facts(1) [OF v] and qv = quiet_facts(2) [OF rec_video_facts(2) [OF v]]
      obtain r4 l3 where si: "rec_silence C t s3 = (r4, l3)" by fastforce
      note fs = rec_silence_facts [OF si] and qs = quiet_facts(3) [OF rec_silence_facts(1) [OF si]]
      show ?thesis
      proof (cases r4)
        case s4: (RGo s4)
        obtain r5 l4 where tr: "rec_transfer C t s4 = (r5, l4)" by fastforce
        note ft = rec_transfer_facts [OF tr]
        have rl: "r = r5" "l = l1 @ l2 @ l3 @ l4"
          using assms by (simp_all add: rec_stages_def i RGo rd s2 v si s4 tr)
        have loop: "\<forall>a \<in> set l. in_loop a" using qi qv qs ft(1) unfolding rl(2) by auto
        have w: "written l = written l4" using qi qv qs unfolding rl(2) by simp
        have st: "rc_restart C \<or> rs_start s4 = rs_start s"
          using fi(3) [OF RGo] fr(2) [OF s2] fv fs(2) [OF s4] by simp
        show ?thesis
        proof (cases r5)
          case (RGo s')
          with ft(2) ft(3) [OF RGo] st show ?thesis unfolding rl(1) w using loop by simp
        next
          case (RBreak s')
          with ft(2) show ?thesis unfolding rl(1) w using loop by simp
        next
          case (RFault e)
          with ft(2) show ?thesis unfolding rl(1) w using loop by simp
        qed
      next
        case (RBreak s4)
        then have "r = r4" "l = l1 @ l2 @ l3" using assms by (simp_all add: rec_stages_def i RGo rd s2 v si)
        then show ?thesis using qi qv qs RBreak by auto
      next
        case (RFault e)
        then have "r = r4" "l = l1 @ l2 @ l3" using assms by (simp_all add: rec_stages_def i RGo rd s2 v si)
        then show ?thesis using qi qv qs RFault by auto
      qed
    next
      case (RBreak s2)
      then have "r = RBreak s2" "l = l1" using assms by (simp_all add: rec_stages_def i RGo rd)
      then show ?thesis using qi by simp
    next
      case (RFault e)
      with fr(1) show ?thesis by blast
    qed
  next
    case (RBreak s1)
    then show ?thesis using assms i qi by (auto simp: rec_stages_def)
  next
    case (RFault e)
    with fi(2) show ?thesis by blast
  qed
qed

lemma rec_pass_facts:
  assumes "rec_pass C t s = (r, l)"
  shows "(\<forall>a \<in> set l. in_loop a) \<and>
    (case r of RGo s' \<Rightarrow> written l = writes C t \<and> (rc_restart C \<or> rs_start s' = rs_start s) \<and> \<not> over_limit C t s
     | _ \<Rightarrow> written l = [] \<or> written l = writes C t)"
  using assms rec_stages_facts [of C t s] unfolding rec_pass_stages
  by (auto simp: in_loop_def written_def split: if_splits rec_step.splits)

lemma rec_loop_facts:
  "rec_loop C ts s = (r, l) \<Longrightarrow>
     (\<forall>a \<in> set l. in_loop a) \<and> (\<exists>k \<le> length ts. written l = concat (map (writes C) (take k ts)) \<and> (r = RRunning \<longrightarrow> k = length ts))"
proof (induction ts arbitrary: s r l)
  case (Cons t ts)
  obtain r1 l1 where p: "rec_pass C t s = (r1, l1)" by fastforce
  note f = rec_pass_facts [OF p]
  show ?case
  proof (cases r1)
    case (RGo s')
    obtain r2 l2 where q: "rec_loop C ts s' = (r2, l2)" by fastforce
    from Cons.IH [OF q] obtain k where k: "\<forall>a \<in> set l2. in_loop a" "k \<le> length ts"
      "written l2 = concat (map (writes C) (take k ts))" "r2 = RRunning \<longrightarrow> k = length ts" by blast
    have "l = l1 @ l2" "r = r2" using Cons.prems p q RGo by simp_all
    with k f RGo show ?thesis by (auto intro!: exI [of _ "Suc k"])
  next
    case (RBreak s')
    with Cons.prems p f show ?thesis
      by (auto intro: exI [of _ 0] exI [of _ "Suc 0"])
  next
    case (RFault e)
    with Cons.prems p f show ?thesis
      by (auto intro: exI [of _ 0] exI [of _ "Suc 0"])
  qed
qed simp

text \<open>A tick past the limit ends the loop, unless something ended it before.\<close>

lemma rec_loop_limit:
  assumes "\<not> rc_restart C" and "rs_start s \<noteq> 0" and "rt_now t - rs_start s > uint (rc_limit C)"
  shows "fst (rec_loop C (ts1 @ t # ts2) s) \<noteq> RRunning"
  using assms(2,3)
proof (induction ts1 arbitrary: s)
  case Nil
  then have "over_limit C t s" by (simp add: over_limit_def)
  then have "\<exists>s' l. rec_pass C t s = (RBreak s', l)" by (auto simp: rec_pass_stages)
  then show ?case by auto
next
  case (Cons t1 ts1)
  obtain r1 l1 where p: "rec_pass C t1 s = (r1, l1)" by fastforce
  show ?case
  proof (cases r1)
    case (RGo s')
    then have "rs_start s' = rs_start s" using rec_pass_facts [OF p] assms(1) by simp
    with Cons p RGo show ?thesis by (auto simp: case_prod_beta Let_def)
  qed (use p in auto)
qed

section \<open>Silence detection\<close>

text \<open>
  A tick on which nothing but silence can end the recording: the call is up, the limit is not
  reached, no input, the frame is read, can be scored, and is written.
\<close>

definition steady :: "rec_ctx \<Rightarrow> int \<Rightarrow> rec_tick \<Rightarrow> bool" where
  "steady C start t \<longleftrightarrow> rt_ready t \<and> \<not> rt_break t \<and> (start = 0 \<or> rt_now t - start \<le> uint (rc_limit C)) \<and>
     rt_dtmf t = None \<and> rt_event_callback t = None \<and> rt_read t = SWITCH_STATUS_SUCCESS \<and>
     rt_ping t = SWITCH_STATUS_SUCCESS \<and> rt_frame_callback t = SWITCH_STATUS_SUCCESS \<and>
     (\<exists>v. record_score (number_of_channels (rc_impl C)) (rc_divisor C) (rt_frame t) = Inr v) \<and>
     rt_file_write t = SWITCH_STATUS_SUCCESS \<and> rt_chan_write t = SWITCH_STATUS_SUCCESS"

definition quiet_frame :: "rec_ctx \<Rightarrow> rec_tick \<Rightarrow> bool" where
  "quiet_frame C t = (case record_score (number_of_channels (rc_impl C)) (rc_divisor C) (rt_frame t) of
     Inl e \<Rightarrow> False | Inr v \<Rightarrow> v < rc_thresh C)"

lemma rec_transfer_steady:
  assumes "steady C start t" and "has_write_codec C \<or> \<not> rs_ind s" and "number_of_channels (rc_impl C) \<noteq> 0"
  shows "\<exists>s' l. rec_transfer C t s = (RGo s', l) \<and> rs_hits s' = rs_hits s \<and> rs_start s' = rs_start s \<and>
     rs_status s' = rs_status s \<and> (rs_ind s' \<longrightarrow> rs_ind s)"
  using assms unfolding rec_transfer_def rec_outgoing_def rec_write_def Let_def steady_def
  by (auto split: option.split)

lemma rec_pass_steady:
  assumes t: "steady C (rs_start s) t" and "has_write_codec C \<or> \<not> rs_ind s"
    and "number_of_channels (rc_impl C) \<noteq> 0" and "rc_acceptable C SWITCH_STATUS_SUCCESS"
    and "rs_status s = SWITCH_STATUS_SUCCESS" and d: "\<not> rc_asis C" "rc_thresh C \<noteq> 0"
  shows "if quiet_frame C t \<and> rs_hits s = 1 then \<exists>s' l. rec_pass C t s = (RBreak s', l) \<and> rs_status s' = SWITCH_STATUS_SUCCESS
     else \<exists>s' l. rec_pass C t s = (RGo s', l) \<and> rs_hits s' = (if quiet_frame C t then rs_hits s - 1 else rc_org_hits C) \<and>
       rs_start s' = rs_start s \<and> rs_status s' = SWITCH_STATUS_SUCCESS \<and> (rs_ind s' \<longrightarrow> rs_ind s)"
proof -
  obtain v where v: "record_score (number_of_channels (rc_impl C)) (rc_divisor C) (rt_frame t) = Inr v"
    using t by (auto simp: steady_def)
  have i: "rec_input C t s = (RGo s, [])"
    using t assms(5) by (auto simp: rec_input_def rec_dtmf_def steady_def split: option.split)
  define s2 where "s2 = s\<lparr>rs_status := SWITCH_STATUS_SUCCESS\<rparr>"
  have "rec_read C t s = RGo s2"
    using t assms(4) by (cases "rc_args C") (auto simp: rec_read_def steady_def Let_def s2_def)
  then have r: "rec_read C t s = RGo s2" "rs_status s2 = SWITCH_STATUS_SUCCESS" "rs_hits s2 = rs_hits s"
    "rs_start s2 = rs_start s" "rs_ind s2 = rs_ind s"
    by (simp_all add: s2_def)
  obtain s3 l2 where vd: "rec_video C t s2 = (s3, l2)" by fastforce
  note fv = rec_video_facts(1) [OF vd]
  have q: "quiet_frame C t \<longleftrightarrow> v < rc_thresh C" by (simp add: quiet_frame_def v)
  have p: "rec_pass C t s = rec_stages C t s"
    using t by (auto simp: rec_pass_stages over_limit_def steady_def)
  have h3: "rs_hits s3 = rs_hits s" using fv r by simp
  show ?thesis
  proof (cases "quiet_frame C t \<and> rs_hits s = 1")
    case True
    then have si: "rec_silence C t s3 = (RBreak (s3\<lparr>rs_hits := 0\<rparr>), [SetChanVar ''silence_hits_exhausted'' (Some ''true'')])"
      using d q v h3 by (simp add: rec_silence_def Let_def)
    then show ?thesis using True p fv r by (simp add: rec_stages_def i vd)
  next
    case False
    define s4 where "s4 = s3\<lparr>rs_hits := (if quiet_frame C t then rs_hits s - 1 else rc_org_hits C)\<rparr>"
    have "rec_silence C t s3 = (RGo s4, [])"
      using d q v h3 False by (auto simp: rec_silence_def Let_def s4_def)
    moreover obtain s5 l5 where "rec_transfer C t s4 = (RGo s5, l5)" "rs_hits s5 = rs_hits s4"
      "rs_start s5 = rs_start s4" "rs_status s5 = rs_status s4" "rs_ind s5 \<longrightarrow> rs_ind s4"
      using rec_transfer_steady [OF t, of s4] assms(2,3) fv r by (auto simp: s4_def)
    ultimately show ?thesis using False p fv r by (simp add: rec_stages_def i vd s4_def)
  qed
qed

lemma rec_loop_silence:
  assumes "number_of_channels (rc_impl C) \<noteq> 0" and "rc_acceptable C SWITCH_STATUS_SUCCESS"
    and "\<not> rc_asis C" and "rc_thresh C \<noteq> 0" and "0 < rc_org_hits C"
  shows "\<forall>t \<in> set ts. steady C (rs_start s) t \<Longrightarrow> has_write_codec C \<or> \<not> rs_ind s \<Longrightarrow> rs_status s = SWITCH_STATUS_SUCCESS
    \<Longrightarrow> 0 < rs_hits s \<Longrightarrow> rs_hits s \<le> rc_org_hits C
    \<Longrightarrow> fst (rec_loop C ts s) = (if run_seen (unat (rc_org_hits C) - 1) (unat (rc_org_hits C) - unat (rs_hits s)) (map (quiet_frame C) ts)
          then RReturned SWITCH_STATUS_SUCCESS else RRunning)"
proof (induction ts arbitrary: s)
  case (Cons t ts)
  let ?n = "unat (rc_org_hits C)" and ?h = "unat (rs_hits s)"
  have t: "steady C (rs_start s) t" using Cons.prems(1) by simp
  note p = rec_pass_steady [OF t Cons.prems(2) assms(1,2) Cons.prems(3) assms(3,4)]
  have u: "0 < ?h" "?h \<le> ?n" using Cons.prems(4,5) by (simp_all add: word_less_nat_alt word_le_nat_alt)
  have one: "rs_hits s = 1 \<longleftrightarrow> ?h = 1" by (simp add: word_unat_eq_iff)
  show ?case
  proof (cases "quiet_frame C t \<and> rs_hits s = 1")
    case True
    with p obtain s' l where "rec_pass C t s = (RBreak s', l)" "rs_status s' = SWITCH_STATUS_SUCCESS" by auto
    then show ?thesis using True one u by (simp add: Let_def)
  next
    case False
    with p obtain s' l where g: "rec_pass C t s = (RGo s', l)" "rs_hits s' = (if quiet_frame C t then rs_hits s - 1 else rc_org_hits C)"
      "rs_start s' = rs_start s" "rs_status s' = SWITCH_STATUS_SUCCESS" "rs_ind s' \<longrightarrow> rs_ind s" by auto
    have dec: "unat (rs_hits s - 1) = ?h - 1" using u(1) by (simp add: unat_minus_one unat_gt_0)
    have h': "0 < rs_hits s'" "rs_hits s' \<le> rc_org_hits C"
      "?n - unat (rs_hits s') = (if quiet_frame C t then Suc (?n - ?h) else 0)"
      using g(2) False one u assms(5) dec by (auto simp: word_less_nat_alt word_le_nat_alt split: if_splits)
    have "\<not> (?n - 1 < (if quiet_frame C t then Suc (?n - ?h) else 0))" using False one u by auto
    with Cons.IH [of s'] Cons.prems(1,2) g h' show ?thesis by (auto simp: Let_def case_prod_beta)
  qed
qed simp

section \<open>The whole function\<close>

definition file_opened :: "rec_action list \<Rightarrow> bool" where
  "file_opened l \<longleftrightarrow> (\<exists>a \<in> set l. case a of RecOpen x1 x2 x3 x4 x5 \<Rightarrow> True | _ \<Rightarrow> False)"

lemma file_opened_append [simp]: "file_opened (l @ l') \<longleftrightarrow> file_opened l \<or> file_opened l'"
  by (auto simp: file_opened_def)

lemma begin_handle_facts:
  assumes "begin_handle A K = (h, ss)"
  shows "rh_params h = call_params K" and "rh_thresh h = (case call_fh K of None \<Rightarrow> 0 | Some h0 \<Rightarrow> rh_thresh h0)"
  using assms by (auto simp: begin_handle_def Let_def zero_handle_def call_params_def split: option.splits if_splits)

lemma rec_begin_facts:
  assumes "rec_begin A K = (r, l)"
  shows "set l \<subseteq> {CheckStart, SessionReset, CheckStop}" and "\<not> file_opened l"
    and "r = Inr (h, ss, path, asis) \<Longrightarrow> l = (if call_args K = None then [] else [CheckStart]) \<and> begin_handle A K = (h, ss)"
proof -
  have "set l \<subseteq> {CheckStart, SessionReset, CheckStop} \<and>
      (\<forall>h ss path asis. r = Inr (h, ss, path, asis) \<longrightarrow> l = (if call_args K = None then [] else [CheckStart]) \<and> begin_handle A K = (h, ss))"
    using assms unfolding rec_begin_def Let_def stop_check_def by (auto split: if_splits option.splits prod.splits)
  then show "set l \<subseteq> {CheckStart, SessionReset, CheckStop}" "\<not> file_opened l"
    "r = Inr (h, ss, path, asis) \<Longrightarrow> l = (if call_args K = None then [] else [CheckStart]) \<and> begin_handle A K = (h, ss)"
    by (auto simp: file_opened_def)
qed

lemma rec_open_facts:
  assumes "rec_open A K h path = (ok, l)"
  shows "WriteFile n d \<notin> set l" and "RecClose \<notin> set l" and "file_opened l = ok"
    and "count_list l CheckStart = 0"
    and "count_list l CheckStop = (if call_args K = None then 0 else
       (if an_video A \<and> an_video_input A \<noteq> SWITCH_STATUS_SUCCESS then 1 else 0) + (if ok then 0 else 1))"
  using assms unfolding rec_open_def Let_def stop_check_def by (auto simp: file_opened_def split: if_splits)

text \<open>Parts of the log that neither open, close or write the recording nor touch the check.\<close>

definition harmless :: "rec_action \<Rightarrow> bool" where
  "harmless a = (case a of RecOpen x1 x2 x3 x4 x5 \<Rightarrow> False | RecClose \<Rightarrow> False | CheckStart \<Rightarrow> False | CheckStop \<Rightarrow> False
     | WriteFile n d \<Rightarrow> False | _ \<Rightarrow> True)"

lemma harmless_counts:
  assumes "\<forall>a \<in> set l. harmless a"
  shows "written l = []" "RecClose \<notin> set l" "\<not> file_opened l" "count_list l CheckStop = 0" "count_list l CheckStart = 0"
  using assms by (auto intro!: written_none simp: harmless_def count_list_0_iff file_opened_def split: rec_action.splits)

lemma harmless_parts:
  "\<forall>a \<in> set (set_tags A K h). harmless a" "\<forall>a \<in> set (video_off v e). harmless a"
  "\<forall>a \<in> set (rec_events K p c w). harmless a" "\<forall>a \<in> set (both_vars x y z). harmless a"
  "\<forall>a \<in> set (post_process A). harmless a" "rec_video_setup A K h = (vid, echo, l) \<Longrightarrow> \<forall>a \<in> set l. harmless a"
proof -
  show "\<forall>a \<in> set (set_tags A K h). harmless a"
    unfolding set_tags_def by (auto simp: harmless_def split: option.splits)
  show "\<forall>a \<in> set (video_off v e). harmless a" by (auto simp: video_off_def harmless_def)
  show "\<forall>a \<in> set (rec_events K p c w). harmless a" by (auto simp: rec_events_def harmless_def split: option.splits)
  show "\<forall>a \<in> set (both_vars x y z). harmless a" by (auto simp: both_vars_def harmless_def)
  show "\<forall>a \<in> set (post_process A). harmless a" by (auto simp: post_process_def harmless_def Let_def split: option.splits)
  assume "rec_video_setup A K h = (vid, echo, l)"
  then show "\<forall>a \<in> set l. harmless a"
    by (auto simp: rec_video_setup_def harmless_def Let_def split: option.splits if_splits)
qed

lemma rec_prepare_codec_fails:
  assumes "needs_codec A K (rh_params h)" and "an_write_codec A \<noteq> SWITCH_STATUS_SUCCESS"
  shows "\<exists>l. rec_prepare A K h ss asis = (Inl (RReturned SWITCH_STATUS_FALSE), l @ stop_check K) \<and> (\<forall>a \<in> set l. harmless a)"
  using assms unfolding rec_prepare_def Let_def by (auto simp: harmless_def)

lemma rec_prepare_facts:
  assumes "\<not> (needs_codec A K (rh_params h) \<and> an_write_codec A \<noteq> SWITCH_STATUS_SUCCESS)"
  obtains (failed) l' where "rec_prepare A K h ss asis0
        = (Inl (RReturned SWITCH_STATUS_GENERR), l' @ [RecClose, SessionReset] @ stop_check K)" "\<forall>a \<in> set l'. harmless a"
    | (fault) l where "rec_prepare A K h ss asis0 = (Inl (RCrashed DivisionByZero), l)" "\<forall>a \<in> set l. harmless a"
    | (ready) vid echo l where "rec_prepare A K h ss asis0
        = (Inr (rec_context A K h (asis0 \<or> an_native A), rec_first A K h (asis0 \<or> an_native A) vid, echo), l)"
        "\<forall>a \<in> set l. harmless a"
proof -
  define asis where "asis \<longleftrightarrow> asis0 \<or> an_native A"
  define l0 where "l0 = (if opens_indication A h then [IndOpen (the (indication A h))] else [])"
  obtain vid echo l1 where v: "rec_video_setup A K h = (vid, echo, l1)" by (cases "rec_video_setup A K h") auto
  define l2 where "l2 = l0 @ (if needs_codec A K (rh_params h) then [WriteCodecInit] else []) @ l1
      @ (if 0 <s ss then [SeekTo ss] else []) @ set_tags A K h @ [SetChanVar ''silence_hits_exhausted'' (Some ''false'')]"
  define l3 where "l3 = l2 @ (if asis then [] else [RawCodecInit])"
  have h2: "\<forall>a \<in> set l2. harmless a"
    using harmless_parts(1) [of A K h] harmless_parts(6) [OF v] unfolding l2_def l0_def by (auto simp: harmless_def)
  then have h3: "\<forall>a \<in> set l3. harmless a" by (auto simp: l3_def harmless_def)
  have e: "rec_prepare A K h ss asis0 =
     (if \<not> asis \<and> an_raw_codec A \<noteq> SWITCH_STATUS_SUCCESS
      then (Inl (RReturned SWITCH_STATUS_GENERR), (l2 @ video_off (an_still_video A) echo) @ [RecClose, SessionReset] @ stop_check K)
      else if detects h asis \<and> samples_per_packet (an_impl A) = 0 then (Inl (RCrashed DivisionByZero), l3)
      else (Inr (rec_context A K h asis, rec_first A K h asis vid, echo), l3))"
    unfolding rec_prepare_def Let_def v prod.case if_not_P [OF assms]
      asis_def [symmetric] l0_def [symmetric] l2_def [symmetric] l3_def [symmetric] by simp
  consider "\<not> asis \<and> an_raw_codec A \<noteq> SWITCH_STATUS_SUCCESS"
    | "asis \<or> an_raw_codec A = SWITCH_STATUS_SUCCESS" "detects h asis \<and> samples_per_packet (an_impl A) = 0"
    | "asis \<or> an_raw_codec A = SWITCH_STATUS_SUCCESS" "\<not> (detects h asis \<and> samples_per_packet (an_impl A) = 0)" by blast
  then show thesis
  proof cases
    case 1
    show thesis by (rule failed [OF e [unfolded if_P [OF 1]]]) (use h2 harmless_parts(2) in auto)
  next
    case 2
    show thesis by (rule fault [OF _ h3]) (use e 2 in auto)
  next
    case 3
    show thesis by (rule ready [OF _ h3, of vid echo]) (use e 3 in \<open>auto simp: asis_def\<close>)
  qed
qed

text \<open>The log up to the loop: the file is open, nothing is written, the recursion check is running.\<close>

definition video_failed :: "rec_answers \<Rightarrow> bool" where
  "video_failed A \<longleftrightarrow> an_video A \<and> an_video_input A \<noteq> SWITCH_STATUS_SUCCESS"

definition opened_log :: "rec_answers \<Rightarrow> rec_call \<Rightarrow> rec_action list \<Rightarrow> bool" where
  "opened_log A K l \<longleftrightarrow> file_opened l \<and> RecClose \<notin> set l \<and> written l = [] \<and>
     count_list l CheckStart = (if call_args K = None then 0 else 1) \<and>
     count_list l CheckStop = (if call_args K \<noteq> None \<and> video_failed A then 1 else 0)"

lemma opened_log_harmless: "opened_log A K l \<Longrightarrow> \<forall>a \<in> set l'. harmless a \<Longrightarrow> opened_log A K (l @ l')"
  using harmless_counts [of l'] by (auto simp: opened_log_def)

lemma begin_open_opened_log:
  assumes b: "rec_begin A K = (Inr (h, ss, path, asis), l)" and o: "rec_open A K h path = (True, l1)"
  shows "opened_log A K (l @ l1)"
proof -
  have l: "l = (if call_args K = None then [] else [CheckStart])" using rec_begin_facts(3) [OF b] by simp
  have "written l1 = []" using rec_open_facts(1) [OF o] by (intro written_none) auto
  then show ?thesis using rec_open_facts [OF o] by (auto simp: opened_log_def video_failed_def l written_Cons)
qed

text \<open>The five ways the function can go.\<close>

lemma record_outcome:
  obtains
    (early) st l where "switch_ivr_record_file_event A K ts = (RReturned st, l)"
      "\<not> file_opened l" "written l = []"
  | (codec) l where "switch_ivr_record_file_event A K ts = (RReturned SWITCH_STATUS_FALSE, l @ stop_check K)"
      "opened_log A K l" "needs_codec A K (an_params A (call_params K))" "an_write_codec A \<noteq> SWITCH_STATUS_SUCCESS"
  | (raw) l where "switch_ivr_record_file_event A K ts = (RReturned SWITCH_STATUS_GENERR, l @ [RecClose, SessionReset] @ stop_check K)"
      "opened_log A K l" "\<not> (needs_codec A K (an_params A (call_params K)) \<and> an_write_codec A \<noteq> SWITCH_STATUS_SUCCESS)"
  | (crash) l where "switch_ivr_record_file_event A K ts = (RCrashed DivisionByZero, l)" "opened_log A K l"
  | (loop) h asis vid echo path l r l3 where "rec_loop (rec_context A K h asis) ts (rec_first A K h asis vid) = (r, l3)"
      "switch_ivr_record_file_event A K ts =
         (r, l @ l3 @ (case r of RReturned st \<Rightarrow> rec_finish A K (rec_context A K h asis) echo path | _ \<Rightarrow> []))"
      "opened_log A K l" "\<not> (needs_codec A K (an_params A (call_params K)) \<and> an_write_codec A \<noteq> SWITCH_STATUS_SUCCESS)"
      "rh_params h = an_params A (call_params K)" "rh_thresh h = (case call_fh K of None \<Rightarrow> 0 | Some h0 \<Rightarrow> rh_thresh h0)"
proof -
  obtain rb l where b: "rec_begin A K = (rb, l)" by fastforce
  show thesis
  proof (cases rb)
    case (Inl st)
    show thesis
      by (rule early [of st l]) (use b Inl rec_begin_facts(1,2) [OF b] in
        \<open>auto simp: switch_ivr_record_file_event_def file_opened_def intro!: written_none\<close>)
  next
    case (Inr x)
    obtain h ss path asis where x: "x = (h, ss, path, asis)" by (cases x)
    note b' = b [unfolded Inr x]
    note fb = rec_begin_facts [OF b'] 
    define h' where "h' = h\<lparr>rh_params := an_params A (rh_params h)\<rparr>"
    have h': "rh_params h' = an_params A (call_params K)" "rh_thresh h' = (case call_fh K of None \<Rightarrow> 0 | Some h0 \<Rightarrow> rh_thresh h0)"
      using begin_handle_facts [OF conjunct2 [OF fb(3) [OF refl]]] by (simp_all add: h'_def)
    obtain ok l1 where o: "rec_open A K h path = (ok, l1)" by fastforce
    show thesis
    proof (cases ok)
      case False
      show thesis
        by (rule early [of SWITCH_STATUS_GENERR "l @ l1"]) (use b' o False fb(1,2) rec_open_facts [OF o] in
          \<open>auto simp: switch_ivr_record_file_event_def intro!: written_none\<close>)
    next
      case True
      have op: "opened_log A K (l @ l1)" using begin_open_opened_log [OF b'] o True by simp
      have e: "switch_ivr_record_file_event A K ts = (case rec_prepare A K h' ss asis of
          (Inl r, l2) \<Rightarrow> (r, l @ l1 @ l2)
        | (Inr (C, s, echo), l2) \<Rightarrow> (let (r, l3) = rec_loop C ts s;
              before = l @ l1 @ l2 @ rec_events K path (an_start_event A) ''start'' @ l3
            in case r of RReturned st \<Rightarrow> (RReturned st, before @ rec_finish A K C echo path) | _ \<Rightarrow> (r, before)))"
        using b' o True by (simp add: switch_ivr_record_file_event_def h'_def)
      show thesis
      proof (cases "needs_codec A K (rh_params h') \<and> an_write_codec A \<noteq> SWITCH_STATUS_SUCCESS")
        case T: True
        then obtain l2 where p: "rec_prepare A K h' ss asis = (Inl (RReturned SWITCH_STATUS_FALSE), l2 @ stop_check K)"
          "\<forall>a \<in> set l2. harmless a" using rec_prepare_codec_fails [of A K h' ss asis] by blast
        show thesis
          by (rule codec [of "(l @ l1) @ l2"]) (use e p T h' opened_log_harmless [OF op] in auto)
      next
        case F: False
        then show thesis
        proof (cases rule: rec_prepare_facts [of A K h' ss asis])
          case (failed l2)
          show thesis by (rule raw [of "(l @ l1) @ l2"]) (use e failed F h' opened_log_harmless [OF op] in auto)
        next
          case (fault l2)
          show thesis by (rule crash [of "(l @ l1) @ l2"]) (use e fault opened_log_harmless [OF op] in auto)
        next
          case (ready vid echo l2)
          let ?C = "rec_context A K h' (asis \<or> an_native A)" and ?s = "rec_first A K h' (asis \<or> an_native A) vid"
          obtain r l3 where lp: "rec_loop ?C ts ?s = (r, l3)" by fastforce
          have "opened_log A K (((l @ l1) @ l2) @ rec_events K path (an_start_event A) ''start'')"
            by (intro opened_log_harmless op ready(2) harmless_parts)
          then show thesis
            by (intro loop [OF lp, of "((l @ l1) @ l2) @ rec_events K path (an_start_event A) ''start''" echo path])
              (use e ready(1) lp F h' in \<open>auto split: rec_end.split\<close>)
        qed
      qed
    qed
  qed
qed

lemma rec_finish_facts:
  "written (rec_finish A K C echo path) = []" "RecClose \<in> set (rec_finish A K C echo path)"
  "count_list (rec_finish A K C echo path) CheckStart = 0"
  "count_list (rec_finish A K C echo path) CheckStop = (if call_args K = None then 0 else 1)"
proof -
  note h = harmless_parts [THEN harmless_counts(1)] harmless_parts [THEN harmless_counts(4)] harmless_parts [THEN harmless_counts(5)]
  show "written (rec_finish A K C echo path) = []"
    by (simp add: rec_finish_def h stop_check_def written_Cons)
  show "RecClose \<in> set (rec_finish A K C echo path)" by (simp add: rec_finish_def)
  show "count_list (rec_finish A K C echo path) CheckStart = 0"
    "count_list (rec_finish A K C echo path) CheckStop = (if call_args K = None then 0 else 1)"
    by (simp_all add: rec_finish_def h stop_check_def)
qed

lemma in_loop_counts:
  assumes "\<forall>a \<in> set l. in_loop a"
  shows "RecClose \<notin> set l" "count_list l CheckStart = 0" "count_list l CheckStop = 0"
  using assms by (auto simp: in_loop_def count_list_0_iff)

text \<open>An indication file without the write codec: the first frame that is read follows a null pointer.\<close>

lemma rec_loop_null_codec:
  assumes "rs_ind s" and "\<not> has_write_codec C" and "rc_asis C \<or> rc_thresh C = 0" and "rc_acceptable C SWITCH_STATUS_SUCCESS"
    and "rs_status s = SWITCH_STATUS_SUCCESS" and t: "steady C (rs_start s) t"
  shows "fst (rec_loop C (t # ts) s) = RCrashed NullCodec"
proof -
  have i: "rec_input C t s = (RGo s, [])"
    using t assms(5) by (auto simp: rec_input_def rec_dtmf_def steady_def split: option.split)
  define s2 where "s2 = s\<lparr>rs_status := SWITCH_STATUS_SUCCESS\<rparr>"
  have r: "rec_read C t s = RGo s2"
    using t assms(4) by (cases "rc_args C") (auto simp: rec_read_def steady_def Let_def s2_def)
  obtain s3 l2 where vd: "rec_video C t s2 = (s3, l2)" by fastforce
  have "rs_ind s3" using rec_video_facts(1) [OF vd] assms(1) by (simp add: s2_def)
  then have "rec_transfer C t s3 = (RFault NullCodec, [])" using assms(2) by (simp add: rec_transfer_def rec_outgoing_def)
  moreover have "rec_silence C t s3 = (RGo s3, [])" using assms(3) by (auto simp: rec_silence_def)
  moreover have "rec_pass C t s = rec_stages C t s"
    using t by (auto simp: rec_pass_stages over_limit_def steady_def)
  ultimately show ?thesis by (simp add: rec_stages_def i r vd)
qed

section \<open>Properties\<close>

text \<open>An example call: nothing is set on the channel, one channel of audio at 8000 Hz.\<close>

definition sample_answers :: rec_answers where
  "sample_answers = \<lparr> an_pre_answer = SWITCH_STATUS_SUCCESS, an_media_ready = True,
     an_impl = \<lparr> actual_rate = 8000, samples_per_packet = 160, encoded_bytes = 160, decoded_bytes = 320,
       number_of_channels = 1, iananame = ''PCMU'' \<rparr>,
     an_recursion = None, an_chan = (\<lambda>nm. None), an_true = (\<lambda>v. v = Some ''true''), an_valid_rate = (\<lambda>r. r = 8000),
     an_sounds_dir = ''/s'',
     an_paths = \<lparr> is_url = (\<lambda>f. False), is_file_path = (\<lambda>f. f \<noteq> [] \<and> hd f = CHR ''/''), end_paren = (\<lambda>f. None), path_separator = ''/'' \<rparr>,
     an_video = False, an_video_input = SWITCH_STATUS_SUCCESS, an_open = SWITCH_STATUS_SUCCESS,
     an_params = (\<lambda>p. p), an_rate = (\<lambda>r. 8000), an_native = False, an_ind_open = SWITCH_STATUS_SUCCESS, an_ind_channels = 1,
     an_write_codec = SWITCH_STATUS_SUCCESS, an_codec_samples = 160, an_has_video = False,
     an_vid_open = SWITCH_STATUS_FALSE, an_vid_has_video = False, an_raw_codec = SWITCH_STATUS_SUCCESS,
     an_still_video = False, an_now = 1000, an_start_event = True, an_stop_event = True,
     an_acceptable = (\<lambda>st. st = SWITCH_STATUS_SUCCESS \<or> st = SWITCH_STATUS_BREAK), an_trimmed_ms = None,
     an_file_size = None, an_trimmed = None, an_expand = (\<lambda>x. x), an_native_rate = 8000, an_samples_out = 16000 \<rparr>"

definition sample_handle :: rec_handle where
  "sample_handle = zero_handle\<lparr>rh_thresh := 200, rh_samplerate := 8000\<rparr>"

definition sample_call :: rec_call where
  "sample_call = \<lparr> call_fh = None, call_file = Some ''/a.wav'', call_args = Some \<lparr> ra_callback = False, ra_buf = False,
     ra_dmachine = False, ra_frame_callback = False \<rparr>, call_limit = 30, call_vars = None \<rparr>"

definition sample_tick :: "int \<Rightarrow> int \<Rightarrow> rec_tick" where
  "sample_tick now v = \<lparr> rt_ready = True, rt_break = False, rt_now = now, rt_dtmf = None, rt_now_dtmf = now,
     rt_feed = SWITCH_STATUS_SUCCESS, rt_dtmf_callback = SWITCH_STATUS_SUCCESS, rt_event_callback = None,
     rt_read = SWITCH_STATUS_SUCCESS, rt_ping = SWITCH_STATUS_SUCCESS, rt_frame_callback = SWITCH_STATUS_SUCCESS,
     rt_video = None, rt_frame = \<lparr> fdata = [v, v], datalen = 4, cng = False \<rparr>, rt_ind = None, rt_paused = False,
     rt_file_write = SWITCH_STATUS_SUCCESS, rt_chan_write = SWITCH_STATUS_SUCCESS \<rparr>"

text \<open>A file of 160 samples a second: three seconds of silence are three packets.\<close>

definition slow_answers :: rec_answers where
  "slow_answers = sample_answers\<lparr>an_rate := (\<lambda>r. 160)\<rparr>"

lemmas sample_defs = sample_answers_def sample_handle_def sample_call_def sample_tick_def zero_handle_def

text \<open>A recording with a limit that digits do not restart ends: once the clock of some pass is more than the limit past the start, the function is no longer in its loop.\<close>

theorem record_limit_ends:
  assumes "call_limit K \<noteq> 0" and "an_now A \<noteq> 0"
    and "\<not> an_true A (rec_var A K (an_params A (call_params K)) ''record_restart_limit_on_dtmf'')"
    and "rt_now t - an_now A > uint (call_limit K)"
  shows "fst (switch_ivr_record_file_event A K (ts1 @ t # ts2)) \<noteq> RRunning"
proof (cases rule: record_outcome [of A K "ts1 @ t # ts2"])
  case (loop h asis vid echo path l r l3)
  have "fst (rec_loop (rec_context A K h asis) (ts1 @ t # ts2) (rec_first A K h asis vid)) \<noteq> RRunning"
    by (rule rec_loop_limit) (use assms loop(5) in \<open>simp_all add: rec_context_def rec_first_def\<close>)
  with loop show ?thesis by simp
qed auto

theorem record_limit_ends_witness:
  "fst (switch_ivr_record_file_event sample_answers sample_call [sample_tick 1001 5, sample_tick 1031 5]) \<noteq> RRunning"
  using record_limit_ends [of sample_call sample_answers "sample_tick 1031 5" "[sample_tick 1001 5]" "[]"]
  by (simp add: sample_defs rec_var_def get_recording_var_def call_params_def)



text \<open>C26. A recording that opened its file and returned has closed it, except when the codec for the frames sent meanwhile could not be made: that return leaves the file open.\<close>

theorem record_closes_file:
  assumes "fst (switch_ivr_record_file_event A K ts) = RReturned st" and "file_opened (snd (switch_ivr_record_file_event A K ts))"
  shows "RecClose \<in> set (snd (switch_ivr_record_file_event A K ts)) \<longleftrightarrow>
     \<not> (needs_codec A K (an_params A (call_params K)) \<and> an_write_codec A \<noteq> SWITCH_STATUS_SUCCESS)"
proof (cases rule: record_outcome [of A K ts])
  case (loop h asis vid echo path l r l3)
  with assms(1) show ?thesis by (simp add: rec_finish_facts(2))
qed (use assms in \<open>auto simp: opened_log_def stop_check_def\<close>)

theorem record_closes_file_witness:
  "RecClose \<notin> set (snd (switch_ivr_record_file_event (sample_answers\<lparr>an_write_codec := SWITCH_STATUS_GENERR\<rparr>) sample_call []))"
proof -
  let ?A = "sample_answers\<lparr>an_write_codec := SWITCH_STATUS_GENERR\<rparr>"
  have "fst (switch_ivr_record_file_event ?A sample_call []) = RReturned SWITCH_STATUS_FALSE"
    "file_opened (snd (switch_ivr_record_file_event ?A sample_call []))"
    "needs_codec ?A sample_call (an_params ?A (call_params sample_call)) \<and> an_write_codec ?A \<noteq> SWITCH_STATUS_SUCCESS"
    by code_simp+
  then show ?thesis using record_closes_file [of ?A sample_call "[]"] by blast
qed

text \<open>The recursion check of a call with input arguments is started once, and stopped once when a recording that opened its file returns, except when the video input could not be set up: then it is stopped twice, which leaves the counter of the arguments one too low.\<close>

theorem record_check_balance:
  assumes "fst (switch_ivr_record_file_event A K ts) = RReturned st" and "file_opened (snd (switch_ivr_record_file_event A K ts))"
    and "call_args K \<noteq> None"
  shows "count_list (snd (switch_ivr_record_file_event A K ts)) CheckStart = 1 \<and>
     count_list (snd (switch_ivr_record_file_event A K ts)) CheckStop = (if video_failed A then 2 else 1)"
proof (cases rule: record_outcome [of A K ts])
  case (loop h asis vid echo path l r l3)
  with assms(1,3) in_loop_counts [OF conjunct1 [OF rec_loop_facts [OF loop(1)]]] show ?thesis
    by (simp add: opened_log_def rec_finish_facts)
qed (use assms in \<open>auto simp: opened_log_def stop_check_def\<close>)

theorem record_check_balance_witness:
  "count_list (snd (switch_ivr_record_file_event (sample_answers\<lparr>an_video := True, an_video_input := SWITCH_STATUS_GENERR\<rparr>)
      sample_call [sample_tick 1001 5, sample_tick 1031 5])) CheckStop = 2"
proof -
  let ?A = "sample_answers\<lparr>an_video := True, an_video_input := SWITCH_STATUS_GENERR\<rparr>"
  let ?ts = "[sample_tick 1001 5, sample_tick 1031 5]"
  have "fst (switch_ivr_record_file_event ?A sample_call ?ts) = RReturned SWITCH_STATUS_SUCCESS"
    "file_opened (snd (switch_ivr_record_file_event ?A sample_call ?ts))" "call_args sample_call \<noteq> None" "video_failed ?A"
    by code_simp+
  then show ?thesis using record_check_balance [of ?A sample_call ?ts] by simp
qed

text \<open>C11. Silence ends a recording exactly when as many quiet frames as the handle asks for come in a row: with frames that can be scored and nothing else that ends the recording, the loop returns if and only if there is such a run.\<close>

theorem record_silence_iff_run:
  assumes "rh_thresh h \<noteq> 0" and "0 < packets_of_silence A h" and "number_of_channels (an_impl A) \<noteq> 0"
    and "an_acceptable A SWITCH_STATUS_SUCCESS" and "needs_codec A K (rh_params h) \<or> \<not> opens_indication A h"
    and "\<forall>t \<in> set ts. steady (rec_context A K h False) (if call_limit K \<noteq> 0 then an_now A else 0) t"
  shows "fst (rec_loop (rec_context A K h False) ts (rec_first A K h False vid)) =
     (if has_run (unat (packets_of_silence A h) - 1) (map (quiet_frame (rec_context A K h False)) ts)
      then RReturned SWITCH_STATUS_SUCCESS else RRunning)"
proof -
  let ?C = "rec_context A K h False" and ?s = "rec_first A K h False vid"
  have d: "rc_org_hits ?C = packets_of_silence A h" "rs_hits ?s = packets_of_silence A h"
    using assms(1) by (simp_all add: rec_context_def rec_first_def detects_def)
  have "fst (rec_loop ?C ts ?s) = (if run_seen (unat (rc_org_hits ?C) - 1) (unat (rc_org_hits ?C) - unat (rs_hits ?s)) (map (quiet_frame ?C) ts)
        then RReturned SWITCH_STATUS_SUCCESS else RRunning)"
    by (rule rec_loop_silence)
      (use assms d in \<open>simp_all add: rec_context_def rec_first_def has_write_codec_def needs_codec_def\<close>)
  then show ?thesis by (simp add: d run_seen_has_run)
qed

theorem record_silence_iff_run_witness:
  "fst (rec_loop (rec_context slow_answers sample_call sample_handle False)
      (replicate 3 (sample_tick 1001 5)) (rec_first slow_answers sample_call sample_handle False False)) = RReturned SWITCH_STATUS_SUCCESS"
proof -
  let ?C = "rec_context slow_answers sample_call sample_handle False"
  have p: "packets_of_silence slow_answers sample_handle = 3" by code_simp
  have t: "steady ?C 1000 (sample_tick 1001 5)"
    by (simp add: steady_def slow_answers_def sample_defs rec_context_def record_score_def record_energy_def rec_divisor_def)
  have q: "quiet_frame ?C (sample_tick 1001 5)"
    by (simp add: quiet_frame_def slow_answers_def sample_defs rec_context_def record_score_def record_energy_def rec_divisor_def)
  have r: "has_run 2 (replicate 3 True)" unfolding has_run_def by (intro exI [of _ 0]) (simp add: nth_replicate)
  have e: "rh_thresh sample_handle \<noteq> 0" "number_of_channels (an_impl slow_answers) \<noteq> 0"
    "an_acceptable slow_answers SWITCH_STATUS_SUCCESS" "\<not> opens_indication slow_answers sample_handle"
    "call_limit sample_call = 30" "an_now slow_answers = 1000" by code_simp+
  have "0 < packets_of_silence slow_answers sample_handle" unfolding p by simp
  moreover have "\<forall>x \<in> set (replicate 3 (sample_tick 1001 5)).
      steady ?C (if call_limit sample_call \<noteq> 0 then an_now slow_answers else 0) x" using t by (simp add: e)
  ultimately show ?thesis
    using record_silence_iff_run [of sample_handle slow_answers sample_call "replicate 3 (sample_tick 1001 5)" False] e q r
    by (simp add: p map_replicate)
qed

text \<open>An indication file that is open while \<open>record_waste_resources\<close> and \<open>record_fill_cng\<close> ask for no noise: there is no write codec, and the first frame that is read makes the loop follow the null pointer \<open>write_frame.codec\<close>.\<close>

theorem record_indication_null_codec:
  assumes "opens_indication A h" and "\<not> needs_codec A K (rh_params h)" and "rh_thresh h = 0"
    and "an_acceptable A SWITCH_STATUS_SUCCESS"
    and "steady (rec_context A K h asis) (if call_limit K \<noteq> 0 then an_now A else 0) t"
  shows "fst (rec_loop (rec_context A K h asis) (t # ts) (rec_first A K h asis vid)) = RCrashed NullCodec"
  by (rule rec_loop_null_codec)
    (use assms in \<open>simp_all add: rec_context_def rec_first_def has_write_codec_def needs_codec_def\<close>)

theorem record_indication_null_codec_witness:
  "fst (rec_loop (rec_context (sample_answers\<lparr>an_chan := [''record_indication'' \<mapsto> ''/beep.wav'', ''record_waste_resources'' \<mapsto> ''0'']\<rparr>)
        sample_call zero_handle False) [sample_tick 1001 5]
      (rec_first (sample_answers\<lparr>an_chan := [''record_indication'' \<mapsto> ''/beep.wav'', ''record_waste_resources'' \<mapsto> ''0'']\<rparr>)
        sample_call zero_handle False False)) = RCrashed NullCodec"
proof -
  let ?A = "sample_answers\<lparr>an_chan := [''record_indication'' \<mapsto> ''/beep.wav'', ''record_waste_resources'' \<mapsto> ''0'']\<rparr>"
  have "opens_indication ?A zero_handle" "\<not> needs_codec ?A sample_call (rh_params zero_handle)" by code_simp+
  moreover have "steady (rec_context ?A sample_call zero_handle False) 1000 (sample_tick 1001 5)"
    by (simp add: steady_def sample_defs rec_context_def record_score_def record_energy_def rec_divisor_def)
  ultimately show ?thesis
    using record_indication_null_codec [of ?A zero_handle sample_call False "sample_tick 1001 5" "[]" False]
    by (simp add: sample_defs)
qed

end
