(* ===== verification/Ivr_Play.thy ===== *)
theory Ivr_Play
  imports Ivr_Path
begin

text \<open>
  Playing files: \<open>switch_ivr_play_file\<close> of \<open>src/src/switch_ivr_play_say.c\<close>. FreeSWITCH's answers
  are records: those for the whole call, those for one file of the list, and one tick per pass
  of the playback loop; what the function does is its log. The audio goes through one buffer of
  bytes, \<open>abuf\<close>, which the model pl_keeps as the list of its bytes so that every copy and every
  \<open>memset\<close> has its place in it; an access outside is a fault. The FIFO buffers
  (\<open>switch_buffer_t\<close>) are FreeSWITCH's and a parameter.
\<close>

section \<open>Buffers\<close>

record 'b file_buffer =
  fb_empty :: 'b
  fb_write :: "'b \<Rightarrow> byte list \<Rightarrow> 'b"
  fb_read :: "'b \<Rightarrow> nat \<Rightarrow> byte list \<times> 'b"
  fb_inuse :: "'b \<Rightarrow> nat"
  fb_zero :: "'b \<Rightarrow> 'b"

datatype play_fault = BufferOverrun | NullBuffer | NullCodec | PlayHang

text \<open>Stores into \<open>abuf\<close>: a copy to its beginning, and \<open>memset\<close> at an offset in bytes.\<close>

definition pl_put :: "byte list \<Rightarrow> byte list \<Rightarrow> byte list option" where
  "pl_put m d = (if length d \<le> length m then Some (d @ drop (length d) m) else None)"

definition memset_at :: "byte list \<Rightarrow> nat \<Rightarrow> nat \<Rightarrow> byte \<Rightarrow> byte list option" where
  "memset_at m off n v = (if off + n \<le> length m then Some (take off m @ replicate n v @ drop (off + n) m) else None)"

text \<open>\<open>FILE_STARTSAMPLES\<close>, and the size of \<open>abuf\<close> for a number of channels.\<close>

definition FILE_STARTSAMPLES :: u32 where
  "FILE_STARTSAMPLES = 1024 * 32"

definition abuf_size :: "u32 \<Rightarrow> u32" where
  "abuf_size channels = FILE_STARTSAMPLES * 2 * channels"

section \<open>Changing the speed\<close>

text \<open>\<open>n\<close> samples of \<open>abuf\<close> from position \<open>pos\<close> on, as bytes; a 16-bit sample in the byte order of the machine (little endian).\<close>

definition samples_at :: "byte list \<Rightarrow> nat \<Rightarrow> nat \<Rightarrow> byte list option" where
  "samples_at m pos n = (if 2 * (pos + n) \<le> length m then Some (take (2 * n) (drop (2 * pos) m)) else None)"

definition short_at :: "byte list \<Rightarrow> nat \<Rightarrow> int" where
  "short_at m i = sint (ucast (m ! (2 * i)) + 256 * ucast (m ! (2 * i + 1)) :: u16)"

text \<open>
  The sample that is inserted: the mean of three neighbours, a \<open>float\<close> cut to \<open>short\<close>. The sum is
  below \<open>2^24\<close> and the quotient at least a third away from the next integer unless it is one, so
  the cut is that of the exact quotient.
\<close>

definition mean_of_three :: "byte list \<Rightarrow> nat \<Rightarrow> byte list" where
  "mean_of_three m i =
     (let v = short_at m i + short_at m (i + 1) + short_at m (i - 1);
          q = (if v < 0 then - ((- v) div 3) else v div 3);
          w = of_int q :: u16
      in [ucast w, ucast (drop_bit 8 w)])"

text \<open>The loop that copies \<open>step\<close> samples and then leaves one out or inserts one.\<close>

function stretch_loop ::
  "'b file_buffer \<Rightarrow> bool \<Rightarrow> nat \<Rightarrow> nat \<Rightarrow> byte list \<Rightarrow> nat \<Rightarrow> nat \<Rightarrow> 'b \<Rightarrow> play_fault + nat \<times> nat \<times> 'b" where
  "stretch_loop B fast step newlen m wrote bp b =
     (if wrote + step < newlen then
        (if fast \<and> step = 0 then Inl PlayHang
         else case samples_at m bp step of
           None \<Rightarrow> Inl BufferOverrun
         | Some d \<Rightarrow>
             (let b1 = fb_write B b d
              in if fast then stretch_loop B fast step newlen m (wrote + step) (bp + step + 1) b1
                 else if bp + step = 0 \<or> length m < 2 * (bp + step + 2) then Inl BufferOverrun
                 else stretch_loop B fast step newlen m (wrote + step + 1) (bp + step) (fb_write B b1 (mean_of_three m (bp + step)))))
      else Inr (wrote, bp, b))"
  by pat_completeness auto
termination
  by (relation "measure (\<lambda>(B, fast, step, newlen, m, wrote, bp, b). newlen - wrote)") auto

text \<open>\<open>(int) (factor * olen)\<close> with \<open>factor\<close> a quarter or a half is exact.\<close>

definition speed_supplement :: "int \<Rightarrow> nat \<Rightarrow> nat" where
  "speed_supplement speed olen = (let s = nat \<bar>speed\<bar> * olen div 4 in if s = 0 then 1 else s)"

definition play_stretch :: "'b file_buffer \<Rightarrow> int \<Rightarrow> nat \<Rightarrow> byte list \<Rightarrow> 'b \<Rightarrow> play_fault + 'b" where
  "play_stretch B speed olen m b =
     (let supplement = speed_supplement speed olen; fast = (speed > 0);
          newlen = (if fast then olen - supplement else olen + supplement);
          step = (if fast then newlen div supplement else olen div supplement)
      in case stretch_loop B fast step newlen m 0 0 b of
           Inl e \<Rightarrow> Inl e
         | Inr (wrote, bp, b1) \<Rightarrow>
             if wrote < newlen
             then (case samples_at m bp (newlen - wrote) of None \<Rightarrow> Inl BufferOverrun | Some d \<Rightarrow> Inr (fb_write B b1 d))
             else Inr b1)"

section \<open>State and actions\<close>

datatype play_action =
    PlayOpen string
  | PlayClose
  | PlayCodecInit
  | PlayCodecDestroy
  | PlayTimerInit
  | PlayTimerDestroy
  | PlayService
  | PlayThreadEnd
  | PlayPrivate bool
  | PlayVideoFile bool
  | PlaySeek u32
  | PlayVar string string
  | PlayNum string u32
  | PlayEvent string "(string \<times> string) list"
  | PlayPhrase string cstring cstring
  | PlaySay string cstring string
  | PlaySleep int
  | PlayReset bool
  | PlayCheckStart
  | PlayCheckStop
  | PlayClearBreak
  | PlayDigit char
  | PlayAudioSync
  | PlayWrite bool u32 "byte list"

record play_args =
  pa_callback :: bool
  pa_buf :: bool
  pa_dmachine :: bool
  pa_frame_callback :: bool

record play_impl =
  pi_actual_rate :: u32
  pi_rate :: u32
  pi_samples :: u32
  pi_encoded_bytes :: u32
  pi_channels :: u32
  pi_microseconds :: u32
  pi_iananame :: string

text \<open>
  One pass of the loop. \<open>pt_break\<close> is the value of the break flag, \<open>pt_speed\<close> a speed somebody
  has set, \<open>pt_fresh\<close> the value of bytes \<open>realloc\<close> adds; \<open>pt_file_read\<close> is the status of a read,
  the bytes it stored and \<open>olen\<close>, and \<open>pt_native\<close> the native flag after it; \<open>pt_volume\<close> is the
  change of the volume, if one is set. Waiting while the call is on hold is left out.
\<close>

record play_tick =
  pt_ready :: bool
  pt_break :: nat
  pt_dtmf :: "char option"
  pt_feed :: switch_status_t
  pt_dtmf_callback :: switch_status_t
  pt_event_callback :: "switch_status_t option"
  pt_cur_channels :: u32
  pt_fresh :: byte
  pt_paused :: bool
  pt_file_read :: "switch_status_t \<times> byte list \<times> size_t"
  pt_native :: bool
  pt_speed :: "int option"
  pt_seek :: bool
  pt_timer :: switch_status_t
  pt_samplecount :: u32
  pt_read :: switch_status_t
  pt_ping :: switch_status_t
  pt_frame_callback :: switch_status_t
  pt_volume :: "(byte list \<Rightarrow> byte list) option"
  pt_parsing :: bool
  pt_write :: switch_status_t

text \<open>
  The variables of the function that change: \<open>ps_codec\<close> is the L16 codec, when it is ready, as
  its samples and bytes per packet and its channels; \<open>ps_abuf\<close> is empty until \<open>ps_alloc\<close>.
\<close>

record 'b play_state =
  ps_status :: switch_status_t
  ps_done :: bool
  ps_backup :: cstring
  ps_timeout :: u32
  ps_alloc :: bool
  ps_abuf :: "byte list"
  ps_codec :: "(u32 \<times> u32 \<times> u32) option"
  ps_count :: u32
  ps_more :: bool
  ps_llen :: size_t
  ps_last_speed :: int
  ps_audio :: "'b option"
  ps_sp :: "'b option"
  ps_start :: u32
  ps_eof :: bool
  ps_framelen :: u32
  ps_native :: bool
  ps_last_native :: bool
  ps_speed :: int
  ps_offset :: u32

text \<open>What is fixed while one file is played.\<close>

record 'b play_ctx =
  pc_buf :: "'b file_buffer"
  pc_args :: "play_args option"
  pc_impl :: play_impl
  pc_acceptable :: "switch_status_t \<Rightarrow> bool"
  pc_timer :: bool
  pc_timeout_ok :: bool
  pc_channels :: u32
  pc_ilen :: u32

section \<open>One pass of the loop\<close>

text \<open>\<open>PStop\<close> leaves the loop, \<open>PNext\<close> goes on with the next pass.\<close>

datatype 'b play_next = PNext "'b play_state" | PStop "'b play_state" | PBad play_fault

text \<open>The input handling: \<open>PNext\<close> goes on with the pass.\<close>

definition play_dtmf :: "play_args \<Rightarrow> play_tick \<Rightarrow> 'b play_state \<Rightarrow> 'b play_next \<times> play_action list" where
  "play_dtmf a t s =
     (case pt_dtmf t of
        None \<Rightarrow> (PNext s, [])
      | Some digit \<Rightarrow>
          if \<not> pa_callback a \<and> \<not> pa_buf a \<and> \<not> pa_dmachine a
          then (PStop (s\<lparr>ps_status := SWITCH_STATUS_BREAK, ps_done := True\<rparr>), [])
          else let s1 = (if pa_dmachine a then s\<lparr>ps_status := pt_feed t\<rparr> else s)
               in if pa_dmachine a \<and> pt_feed t \<noteq> SWITCH_STATUS_SUCCESS then (PStop s1, [])
                  else if pa_callback a then (PNext (s1\<lparr>ps_status := pt_dtmf_callback t\<rparr>), [])
                  else if pa_buf a then (PNext (s1\<lparr>ps_status := SWITCH_STATUS_BREAK\<rparr>), [PlayDigit digit])
                  else (PNext s1, []))"

definition play_input :: "play_args option \<Rightarrow> play_tick \<Rightarrow> 'b play_state \<Rightarrow> 'b play_next \<times> play_action list" where
  "play_input args t s =
     (case args of
        None \<Rightarrow> (PNext s, [])
      | Some a \<Rightarrow>
          (case play_dtmf a t s of
             (PNext s1, l) \<Rightarrow>
               (let s2 = (case (if pa_callback a then pt_event_callback t else None) of
                            Some os \<Rightarrow> if os \<noteq> SWITCH_STATUS_SUCCESS then s1\<lparr>ps_status := os\<rparr> else s1
                          | None \<Rightarrow> s1)
                in if ps_status s2 \<noteq> SWITCH_STATUS_SUCCESS then (PStop (s2\<lparr>ps_done := True\<rparr>), l)
                   else (PNext s2, l))
           | r \<Rightarrow> r))"

text \<open>\<open>abuf\<close> grows when the file has more channels.\<close>

definition play_resize :: "'b play_ctx \<Rightarrow> play_tick \<Rightarrow> 'b play_state \<Rightarrow> 'b play_state" where
  "play_resize C t s =
     (let buflen = abuf_size (if pt_cur_channels t > 0 then pt_cur_channels t else pc_channels C)
      in if unat buflen > length (ps_abuf s)
         then s\<lparr>ps_abuf := ps_abuf s @ replicate (unat buflen - length (ps_abuf s)) (pt_fresh t)\<rparr>
         else s)"

text \<open>
  Where the next packet comes from. \<open>Got s olen do_speed\<close>: it is in \<open>abuf\<close>; \<open>Again\<close> and \<open>Over\<close>
  are \<open>continue\<close> and \<open>break\<close>.
\<close>

datatype 'b fetched = Got "'b play_state" size_t bool | Again "'b play_state" | Over "'b play_state" | Bad play_fault

text \<open>A packet from a buffer; a short one is filled up at \<open>abuf + bread\<close>, counted in samples.\<close>

definition fill_frame :: "byte list \<Rightarrow> nat \<Rightarrow> byte list \<Rightarrow> byte list option" where
  "fill_frame m framelen d =
     (case pl_put m d of
        None \<Rightarrow> None
      | Some m1 \<Rightarrow> if length d < framelen then memset_at m1 (2 * length d) (framelen - length d) 255 else Some m1)"

definition packet_len :: "'b play_ctx \<Rightarrow> 'b play_state \<Rightarrow> size_t" where
  "packet_len C s = (if ps_native s then ucast (ps_framelen s) else ucast (pc_ilen C))"

definition fetch_paused :: "'b play_ctx \<Rightarrow> 'b play_state \<Rightarrow> 'b fetched" where
  "fetch_paused C s =
     (let n = (if ps_framelen s > FILE_STARTSAMPLES then FILE_STARTSAMPLES else ps_framelen s)
      in case memset_at (ps_abuf s) 0 (unat n) 255 of
           None \<Rightarrow> Bad BufferOverrun
         | Some m \<Rightarrow> Got (s\<lparr>ps_framelen := n, ps_abuf := m\<rparr>) (ucast (pc_ilen C)) False)"

definition fetch_sp :: "'b play_ctx \<Rightarrow> 'b play_state \<Rightarrow> 'b \<Rightarrow> 'b fetched" where
  "fetch_sp C s b =
     (let (d, b1) = fb_read (pc_buf C) b (unat (ps_framelen s)); s1 = s\<lparr>ps_sp := Some b1\<rparr>
      in if d = [] then (if ps_eof s then Over s1 else Again s1)
         else case fill_frame (ps_abuf s) (unat (ps_framelen s)) d of
           None \<Rightarrow> Bad BufferOverrun
         | Some m \<Rightarrow> Got (s1\<lparr>ps_abuf := m\<rparr>) (packet_len C s) False)"

definition fetch_audio :: "'b play_ctx \<Rightarrow> 'b play_state \<Rightarrow> 'b \<Rightarrow> 'b fetched" where
  "fetch_audio C s b =
     (let (d, b1) = fb_read (pc_buf C) b (unat (ps_framelen s)); s1 = s\<lparr>ps_audio := Some b1\<rparr>
      in if d = [] then (if ps_eof s then Over s1 else Again s1)
         else case fill_frame (ps_abuf s) (unat (ps_framelen s)) d of
           None \<Rightarrow> Bad BufferOverrun
         | Some m \<Rightarrow>
             Got (s1\<lparr>ps_abuf := m,
                     ps_offset := ps_offset s + of_nat (if ps_native s then length d else length d div 2)\<rparr>)
               (packet_len C s) True)"

text \<open>The file turned native or no longer is: the packet size changes and the buffer is flushed.\<close>

definition fetch_switch :: "'b play_ctx \<Rightarrow> 'b play_state \<Rightarrow> 'b \<Rightarrow> 'b fetched + 'b play_state \<times> 'b" where
  "fetch_switch C s b =
     (if ps_native s = ps_last_native s then Inr (s, b)
      else if ps_native s then
        (let s1 = s\<lparr>ps_framelen := pi_encoded_bytes (pc_impl C)\<rparr>
         in if pi_encoded_bytes (pc_impl C) = 0 then Inl (Again (s1\<lparr>ps_eof := True\<rparr>))
            else Inr (s1, fb_zero (pc_buf C) b))
      else case ps_codec s of
        None \<Rightarrow> Inl (Bad NullCodec)
      | Some (n, bytes, ch) \<Rightarrow> Inr (s\<lparr>ps_framelen := bytes\<rparr>, fb_zero (pc_buf C) b))"

text \<open>What was read goes through the audio buffer, and a packet is taken out of it.\<close>

definition fetch_queue :: "'b play_ctx \<Rightarrow> 'b play_state \<Rightarrow> 'b \<Rightarrow> size_t \<Rightarrow> 'b fetched" where
  "fetch_queue C s b olen =
     (let n = unat (if ps_native s then olen else olen * 2 * ucast (pc_channels C))
      in if length (ps_abuf s) < n then Bad BufferOverrun
         else let (d, b1) = fb_read (pc_buf C) (fb_write (pc_buf C) b (take n (ps_abuf s))) (unat (ps_framelen s))
              in case pl_put (ps_abuf s) d of
                   None \<Rightarrow> Bad BufferOverrun
                 | Some m \<Rightarrow>
                     Got (s\<lparr>ps_last_native := ps_native s, ps_audio := Some b1, ps_abuf := m,
                            ps_offset := ps_offset s + of_nat (length d div 2)\<rparr>)
                       (of_nat (if ps_native s then length d else length d div 2)) True)"

definition fetch_file :: "'b play_ctx \<Rightarrow> play_tick \<Rightarrow> 'b play_state \<Rightarrow> 'b fetched" where
  "fetch_file C t s0 =
     (if ps_eof s0 then Over s0
      else let (st, data, olen) = pt_file_read t
           in case pl_put (ps_abuf s0) data of
                None \<Rightarrow> Bad BufferOverrun
              | Some m \<Rightarrow>
                  (let s = s0\<lparr>ps_native := pt_native t, ps_abuf := m\<rparr>
                   in if st = SWITCH_STATUS_BREAK then Again s
                      else if st \<noteq> SWITCH_STATUS_SUCCESS then Again (s\<lparr>ps_eof := True\<rparr>)
                      else case ps_audio s of
                        None \<Rightarrow> Bad NullBuffer
                      | Some b \<Rightarrow>
                          (case fetch_switch C s b of
                             Inl r \<Rightarrow> r
                           | Inr (s1, b1) \<Rightarrow> fetch_queue C s1 b1 olen)))"

text \<open>A buffer is used when it holds more than a packet, or at the end of the file.\<close>

definition ready_buffer :: "'b play_ctx \<Rightarrow> 'b play_state \<Rightarrow> 'b option \<Rightarrow> 'b option" where
  "ready_buffer C s ob =
     (case ob of None \<Rightarrow> None
      | Some b \<Rightarrow> if ps_eof s \<or> fb_inuse (pc_buf C) b > unat (ps_framelen s) then Some b else None)"

definition play_fetch :: "'b play_ctx \<Rightarrow> play_tick \<Rightarrow> 'b play_state \<Rightarrow> 'b fetched" where
  "play_fetch C t s =
     (if pt_paused t then fetch_paused C s
      else case ready_buffer C s (ps_sp s) of
        Some b \<Rightarrow> fetch_sp C s b
      | None \<Rightarrow>
          (case ready_buffer C s (ps_audio s) of
             Some b \<Rightarrow> fetch_audio C s b
           | None \<Rightarrow> fetch_file C t s))"

text \<open>Speed and seeking. \<open>PStop\<close> here means that the pass goes on to send the packet.\<close>

definition clamp_speed :: "int \<Rightarrow> int" where
  "clamp_speed v = (if v > 2 then 2 else if v < -2 then -2 else v)"

definition zero_buffer :: "'b file_buffer \<Rightarrow> 'b option \<Rightarrow> play_fault + 'b option" where
  "zero_buffer B ob = (case ob of None \<Rightarrow> Inl NullBuffer | Some b \<Rightarrow> Inr (Some (fb_zero B b)))"

definition play_speed :: "'b play_ctx \<Rightarrow> play_tick \<Rightarrow> 'b play_state \<Rightarrow> size_t \<Rightarrow> bool \<Rightarrow> 'b play_next" where
  "play_speed C t s0 olen do_speed =
     (let s1 = (if ps_native s0 then s0 else s0\<lparr>ps_speed := clamp_speed (ps_speed s0)\<rparr>)
      in case (if \<not> ps_native s1 \<and> ps_audio s1 \<noteq> None \<and> ps_last_speed s1 > -1 \<and> ps_last_speed s1 \<noteq> ps_speed s1
               then zero_buffer (pc_buf C) (ps_sp s1) else Inr (ps_sp s1)) of
           Inl e \<Rightarrow> PBad e
         | Inr sp \<Rightarrow>
             (case (if pt_seek t then zero_buffer (pc_buf C) (ps_audio s1) else Inr (ps_audio s1)) of
                Inl e \<Rightarrow> PBad e
              | Inr audio \<Rightarrow>
                  (let s2 = s1\<lparr>ps_sp := sp, ps_audio := audio\<rparr>
                   in if \<not> ps_native s2 \<and> ps_speed s2 \<noteq> 0 \<and> do_speed
                      then (case play_stretch (pc_buf C) (ps_speed s2) (unat olen) (ps_abuf s2)
                                   (case sp of None \<Rightarrow> fb_empty (pc_buf C) | Some b \<Rightarrow> b) of
                              Inl e \<Rightarrow> PBad e
                            | Inr b \<Rightarrow> PNext (s2\<lparr>ps_sp := Some b, ps_last_speed := ps_speed s2\<rparr>))
                      else PStop s2)))"

text \<open>Pacing by the timer or by the frames the channel delivers; \<open>PNext\<close> goes on.\<close>

definition play_pace :: "'b play_ctx \<Rightarrow> play_tick \<Rightarrow> 'b play_state \<Rightarrow> 'b play_next" where
  "play_pace C t s =
     (if ps_more s then PNext s
      else if pc_timer C then
        (let s1 = s\<lparr>ps_count := pt_samplecount t\<rparr>
         in if pt_timer t \<noteq> SWITCH_STATUS_SUCCESS then PStop s1 else PNext s1)
      else if \<not> pc_acceptable C (pt_read t) then PStop s
      else case pc_args C of
        None \<Rightarrow> PNext s
      | Some a \<Rightarrow>
          (let s1 = (if pa_dmachine a then s\<lparr>ps_status := pt_ping t\<rparr> else s)
           in if pa_dmachine a \<and> pt_ping t \<noteq> SWITCH_STATUS_SUCCESS then PStop s1
              else let s2 = (if pa_frame_callback a then s1\<lparr>ps_status := pt_frame_callback t\<rparr> else s1)
                   in if pa_frame_callback a \<and> pt_frame_callback t \<noteq> SWITCH_STATUS_SUCCESS then PStop s2 else PNext s2))"

text \<open>A packet shorter than the last one is filled up at the offset \<open>olen\<close>, counted in bytes.\<close>

definition play_pad :: "'b play_state \<Rightarrow> size_t \<Rightarrow> ('b play_state \<times> size_t) option" where
  "play_pad s olen =
     (if olen < ps_llen s then
        (case memset_at (ps_abuf s) (unat olen) (unat (ps_llen s - olen)) 255 of
           None \<Rightarrow> None
         | Some m \<Rightarrow> Some (s\<lparr>ps_abuf := m\<rparr>, ps_llen s))
      else Some (s, olen))"

text \<open>The samples that are sent: the volume changed, or zeros while digits are being parsed.\<close>

definition play_data :: "'b play_ctx \<Rightarrow> play_tick \<Rightarrow> 'b play_state \<Rightarrow> nat \<Rightarrow> byte list option" where
  "play_data C t s datalen =
     (if length (ps_abuf s) < datalen then None
      else case (case pt_volume t of
                   None \<Rightarrow> Some (ps_abuf s)
                 | Some f \<Rightarrow> if ps_native s then Some (ps_abuf s) else pl_put (ps_abuf s) (f (take (2 * (datalen div 2)) (ps_abuf s)))) of
        None \<Rightarrow> None
      | Some m \<Rightarrow>
          if (case pc_args C of None \<Rightarrow> False | Some a \<Rightarrow> pa_dmachine a \<and> pt_parsing t)
          then memset_at m 0 datalen 0 else Some m)"

text \<open>Sending the packet, the timeout and the status of the write.\<close>

definition play_send :: "'b play_ctx \<Rightarrow> play_tick \<Rightarrow> 'b play_state \<Rightarrow> size_t \<Rightarrow> 'b play_next \<times> play_action list" where
  "play_send C t s0 olen =
     (let samples = ucast olen :: u32; datalen = (if ps_native s0 then samples else samples * 2)
      in case play_data C t s0 (unat datalen) of
           None \<Rightarrow> (PBad BufferOverrun, [])
         | Some m \<Rightarrow>
             (let s = s0\<lparr>ps_more := False, ps_llen := olen, ps_abuf := m, ps_status := pt_write t\<rparr>;
                  l = [PlayWrite (ps_native s) samples (take (unat datalen) m)];
                  left = ps_timeout s - samples
              in if ps_timeout s \<noteq> 0 \<and> left \<le>s 0
                 then (PStop (s\<lparr>ps_timeout := 0, ps_done := True,
                               ps_status := (if pc_timeout_ok C then SWITCH_STATUS_SUCCESS else SWITCH_STATUS_TIMEOUT)\<rparr>), l)
                 else let s1 = (if ps_timeout s \<noteq> 0 then s\<lparr>ps_timeout := left\<rparr> else s)
                      in if pt_write t = SWITCH_STATUS_MORE_DATA
                         then (PNext (s1\<lparr>ps_status := SWITCH_STATUS_SUCCESS, ps_more := True\<rparr>), l)
                         else if pt_write t \<noteq> SWITCH_STATUS_SUCCESS then (PStop (s1\<lparr>ps_done := True\<rparr>), l)
                         else if ps_done s1 then (PStop s1, l) else (PNext s1, l)))"

definition play_output :: "'b play_ctx \<Rightarrow> play_tick \<Rightarrow> 'b play_state \<Rightarrow> size_t \<Rightarrow> 'b play_next \<times> play_action list" where
  "play_output C t s olen =
     (case play_pad s olen of
        None \<Rightarrow> (PBad BufferOverrun, [])
      | Some (s1, olen1) \<Rightarrow>
          (case play_pace C t s1 of
             PNext s2 \<Rightarrow> play_send C t s2 olen1
           | r \<Rightarrow> (r, [])))"

definition play_body :: "'b play_ctx \<Rightarrow> play_tick \<Rightarrow> 'b play_state \<Rightarrow> 'b play_next \<times> play_action list" where
  "play_body C t s =
     (case play_fetch C t (play_resize C t s) of
        Bad e \<Rightarrow> (PBad e, [])
      | Over s1 \<Rightarrow> (PStop s1, [])
      | Again s1 \<Rightarrow> (PNext s1, [])
      | Got s1 olen do_speed \<Rightarrow>
          if ps_done s1 \<or> olen = 0 then (PStop s1, [])
          else (case play_speed C t s1 olen do_speed of
                  PBad e \<Rightarrow> (PBad e, [])
                | PNext s2 \<Rightarrow> (PNext s2, [])
                | PStop s2 \<Rightarrow> play_output C t s2 olen))"

definition play_pass :: "'b play_ctx \<Rightarrow> play_tick \<Rightarrow> 'b play_state \<Rightarrow> 'b play_next \<times> play_action list" where
  "play_pass C t s0 =
     (let s = (case pt_speed t of None \<Rightarrow> s0 | Some v \<Rightarrow> s0\<lparr>ps_speed := v\<rparr>)
      in if \<not> pt_ready t then (PStop (s\<lparr>ps_status := SWITCH_STATUS_FALSE\<rparr>), [])
         else if pt_break t \<noteq> 0
         then (PStop (s\<lparr>ps_status := SWITCH_STATUS_BREAK, ps_done := ps_done s \<or> pt_break t = 2\<rparr>), [PlayClearBreak])
         else case play_input (pc_args C) t s of
           (PNext s1, l) \<Rightarrow> (let (r, l') = play_body C t s1 in (r, l @ l'))
         | r \<Rightarrow> r)"

text \<open>The loop; it is still running when the ticks end before it does.\<close>

datatype 'b pl_loop_end = LoopDone "'b play_state" | LoopRunning | LoopBad play_fault

fun play_loop :: "'b play_ctx \<Rightarrow> play_tick list \<Rightarrow> 'b play_state \<Rightarrow> 'b pl_loop_end \<times> play_action list" where
  "play_loop C [] s = (LoopRunning, [])"
| "play_loop C (t # ts) s =
     (case play_pass C t s of
        (PNext s', l) \<Rightarrow> (let (r, l') = play_loop C ts s' in (r, l @ l'))
      | (PStop s', l) \<Rightarrow> (LoopDone s', l)
      | (PBad e, l) \<Rightarrow> (LoopBad e, l))"

section \<open>One file of the list\<close>

text \<open>FreeSWITCH's answers for the whole call.\<close>

record 'b play_env =
  pe_buf :: "'b file_buffer"
  pe_pre_answer :: switch_status_t
  pe_impl :: play_impl
  pe_chan :: "string \<Rightarrow> cstring"
  pe_true :: "cstring \<Rightarrow> bool"
  pe_media_ready :: bool
  pe_recursion :: "switch_status_t option"
  pe_separate :: "string \<Rightarrow> char \<Rightarrow> string list"
  pe_base_dir :: string
  pe_paths :: path_answers
  pe_acceptable :: "switch_status_t \<Rightarrow> bool"

text \<open>
  The answers for one file. \<open>pf_open\<close> and \<open>pf_open_backup\<close> are the results of opening the file and
  its backup; \<open>pf_channels\<close> to \<open>pf_native\<close> are fields of the open handle; \<open>pf_codec_init\<close> is the
  codec, if it can be made; \<open>pf_timer_count\<close> the sample count of a new timer.
\<close>

record play_file_answers =
  pf_ready :: bool
  pf_sleep :: switch_status_t
  pf_phrase :: switch_status_t
  pf_say :: switch_status_t
  pf_open :: switch_status_t
  pf_open_backup :: switch_status_t
  pf_has_video :: bool
  pf_channels :: u32
  pf_speed :: int
  pf_offset :: u32
  pf_native :: bool
  pf_strings :: "string \<Rightarrow> cstring"
  pf_codec_init :: "(u32 \<times> u32 \<times> u32) option"
  pf_timer_init :: switch_status_t
  pf_timer_count :: u32
  pf_start_event :: bool
  pf_stop_event :: bool
  pf_params :: "(string \<times> string) list"
  pf_native_rate :: u32
  pf_samples_in :: u32
  pf_ticks :: "play_tick list"

definition strncasecmp_eq :: "nat \<Rightarrow> string \<Rightarrow> string \<Rightarrow> bool" where
  "strncasecmp_eq n a b = strcasecmp_eq (take n a) (take n b)"

text \<open>The path, and the backup for a name without extension.\<close>

definition play_path :: "'b play_env \<Rightarrow> string \<Rightarrow> string \<times> cstring" where
  "play_path E file =
     (let prefix = (case pe_chan E ''sound_prefix'' of None \<Rightarrow> pe_base_dir E | Some p \<Rightarrow> p)
      in if is_url (pe_paths E) file then (file, None)
         else let full = prefixed_path (pe_paths E) prefix file
              in if CHR ''.'' \<in> set full then (full, None)
                 else (full @ ''.'' @ pi_iananame (pe_impl E),
                       Some (full @ ''.'' @ (case pe_chan E ''native_backup_extension'' of None \<Rightarrow> ''wav'' | Some x \<Rightarrow> x))))"

text \<open>The loop that opens the file or its backup: the name that was opened, and \<open>backup_file\<close>.\<close>

definition play_open :: "play_file_answers \<Rightarrow> string \<Rightarrow> cstring \<Rightarrow> string option \<times> cstring" where
  "play_open F file backup =
     (if pf_open F = SWITCH_STATUS_SUCCESS then (Some file, backup)
      else case backup of
        None \<Rightarrow> (None, None)
      | Some b \<Rightarrow> (if pf_open_backup F = SWITCH_STATUS_SUCCESS then Some b else None, None))"

definition play_strings :: "play_file_answers \<Rightarrow> play_action list" where
  "play_strings F = concat (map (\<lambda>c. case pf_strings F c of None \<Rightarrow> [] | Some v \<Rightarrow> [PlayVar (''RECORD_'' @ c) v])
     [''TITLE'', ''COPYRIGHT'', ''SOFTWARE'', ''ARTIST'', ''COMMENT'', ''DATE''])"

text \<open>What each way of giving up an open file does.\<close>

definition play_abandon :: "play_action list" where
  "play_abandon = [PlayPrivate False, PlayVideoFile False, PlayClose, PlayReset True]"

definition event_headers :: "string \<Rightarrow> (string \<times> string) list" where
  "event_headers file =
     (if strncasecmp_eq 13 file ''local_stream:'' then [(''Playback-File-Type'', ''local_stream'')] else [])
     @ (if strncasecmp_eq 12 file ''tone_stream:'' then [(''Playback-File-Type'', ''tone_stream'')] else [])
     @ [(''Playback-File-Path'', file)]"

text \<open>
  From the open file to the loop: \<open>Inl\<close> is a \<open>continue\<close> with the next file or a fault, \<open>Inr\<close> the
  context and the state the loop starts with.
\<close>

definition file_begin :: "play_file_answers \<Rightarrow> 'b play_state \<Rightarrow> 'b play_state \<times> play_action list" where
  "file_begin F s =
     ((if ps_alloc s then s else s\<lparr>ps_alloc := True, ps_abuf := replicate (unat (abuf_size (pf_channels F))) 0\<rparr>)
        \<lparr>ps_speed := pf_speed F, ps_offset := pf_offset F, ps_native := pf_native F\<rparr>,
      [PlayAudioSync, PlayPrivate True]
      @ (if pf_has_video F then [PlayVideoFile True] else [])
      @ (if ps_start s > 0 then [PlaySeek (ps_start s)] else [])
      @ play_strings F)"

text \<open>The codec, made once: \<open>None\<close> when it cannot be made.\<close>

definition file_codec :: "play_file_answers \<Rightarrow> 'b play_state \<Rightarrow> (u32 \<times> u32 \<times> u32) option \<times> play_action list" where
  "file_codec F s =
     (case ps_codec s of
        Some c \<Rightarrow> (Some c, [])
      | None \<Rightarrow> (case pf_codec_init F of None \<Rightarrow> (None, []) | Some c \<Rightarrow> (Some c, [PlayCodecInit])))"

text \<open>Samples, bytes and channels of a packet.\<close>

definition packet_sizes :: "'b play_env \<Rightarrow> bool \<Rightarrow> u32 \<times> u32 \<times> u32 \<Rightarrow> u32 \<times> u32 \<times> u32" where
  "packet_sizes E native c =
     (if native then (pi_samples (pe_impl E), pi_encoded_bytes (pe_impl E), pi_channels (pe_impl E)) else c)"

definition file_prepare ::
  "'b play_env \<Rightarrow> play_args option \<Rightarrow> play_file_answers \<Rightarrow> string \<Rightarrow> 'b play_state
     \<Rightarrow> ('b play_state + 'b play_ctx \<times> 'b play_state) \<times> play_action list" where
  "file_prepare E args F file s0 =
     (let (s1, l1) = file_begin F s0
      in case file_codec F s1 of
           (None, l2) \<Rightarrow> (Inl (s1\<lparr>ps_status := SWITCH_STATUS_GENERR\<rparr>), l1 @ l2 @ play_abandon)
         | (Some c, l2) \<Rightarrow>
             (let s2 = s1\<lparr>ps_codec := Some c\<rparr>; (samples, framelen, channels) = packet_sizes E (ps_native s2) c
              in if ps_native s2 \<and> framelen = 0
                 then (Inl (s2\<lparr>ps_status := SWITCH_STATUS_GENERR\<rparr>), l1 @ l2 @ play_abandon)
                 else
                 (let s3 = s2\<lparr>ps_framelen := framelen, ps_last_native := ps_native s2\<rparr>;
                      has_timer = (pe_chan E ''timer_name'' \<noteq> None);
                      start_timer = (has_timer \<and> ps_count s3 = 0)
                  in if start_timer \<and> pf_timer_init F \<noteq> SWITCH_STATUS_SUCCESS
                     then (Inl (s3\<lparr>ps_codec := None, ps_status := SWITCH_STATUS_GENERR\<rparr>),
                           l1 @ l2 @ [PlayCodecDestroy] @ play_abandon)
                     else
                     (let s4 = (if start_timer then s3\<lparr>ps_count := pf_timer_count F\<rparr> else s3);
                          s5 = s4\<lparr>ps_audio := (case ps_audio s4 of None \<Rightarrow> Some (fb_empty (pe_buf E)) | Some b \<Rightarrow> Some b)\<rparr>
                      in (Inr (\<lparr> pc_buf = pe_buf E, pc_args = args, pc_impl = pe_impl E, pc_acceptable = pe_acceptable E,
                                 pc_timer = has_timer,
                                 pc_timeout_ok = (let v = pe_chan E ''playback_timeout_as_success'' in v \<noteq> None \<and> pe_true E v),
                                 pc_channels = pf_channels F, pc_ilen = samples * channels \<rparr>, s5),
                          l1 @ l2 @ (if start_timer then [PlayTimerInit] else []) @ (if has_timer then [PlayService] else [])
                          @ (if pf_start_event F then [PlayEvent ''PLAYBACK_START'' (event_headers file @ pf_params F)] else []))))))"

text \<open>After the loop.\<close>

definition file_finish :: "'b play_env \<Rightarrow> play_file_answers \<Rightarrow> string \<Rightarrow> 'b play_state \<Rightarrow> 'b play_state \<times> play_action list" where
  "file_finish E F file s =
     (s\<lparr>ps_audio := None, ps_sp := None\<rparr>,
      [PlayNum ''playback_last_offset_pos'' (ps_offset s)]
      @ (if pi_rate (pe_impl E) \<noteq> 0 \<and> pf_native_rate F \<ge> 1000
         then [PlayNum ''playback_seconds'' (pf_samples_in F div pf_native_rate F),
               PlayNum ''playback_ms'' (pf_samples_in F div (pf_native_rate F div 1000))]
         else [])
      @ [PlayNum ''playback_samples'' (pf_samples_in F)]
      @ (if pf_stop_event F
         then [PlayEvent ''PLAYBACK_STOP'' (event_headers file
                 @ [(''Playback-Status'', if ps_status s = SWITCH_STATUS_BREAK then ''break'' else ''done'')] @ pf_params F)]
         else [])
      @ [PlayPrivate False, PlayVideoFile False, PlayClose])"

definition play_one ::
  "'b play_env \<Rightarrow> play_args option \<Rightarrow> play_file_answers \<Rightarrow> string \<Rightarrow> 'b play_state \<Rightarrow> 'b pl_loop_end \<times> play_action list" where
  "play_one E args F name s0 =
     (let (path, b) = play_path E name;
          (opened, backup) = play_open F path (case b of None \<Rightarrow> ps_backup s0 | Some x \<Rightarrow> Some x);
          s = s0\<lparr>ps_backup := backup\<rparr>
      in case opened of
           None \<Rightarrow> (LoopDone (s\<lparr>ps_status := SWITCH_STATUS_NOTFOUND\<rparr>), [PlayReset True])
         | Some file \<Rightarrow>
             (case file_prepare E args F file s of
                (Inl s1, l) \<Rightarrow> (LoopDone s1, [PlayOpen file] @ l)
              | (Inr (C, s1), l) \<Rightarrow>
                  (case play_loop C (pf_ticks F) s1 of
                     (LoopDone s2, l2) \<Rightarrow>
                       (let (s3, l3) = file_finish E F file s2 in (LoopDone s3, [PlayOpen file] @ l @ l2 @ l3))
                   | (r, l2) \<Rightarrow> (r, [PlayOpen file] @ l @ l2))))"

section \<open>The function\<close>

text \<open>One entry of the list: a phrase macro, a text to speak or a file. \<open>Inl\<close> leaves the loop over the list.\<close>

definition play_entry ::
  "'b play_env \<Rightarrow> play_args option \<Rightarrow> play_file_answers \<Rightarrow> string \<Rightarrow> 'b play_state
     \<Rightarrow> ('b pl_loop_end + 'b play_state) \<times> play_action list" where
  "play_entry E args F name s =
     (if CHR '':'' \<in> set name \<and> strncasecmp_eq 7 name ''phrase:''
      then let dup = drop 7 name; macro = takeWhile (\<lambda>c. c \<noteq> CHR '':'') dup; rest = dropWhile (\<lambda>c. c \<noteq> CHR '':'') dup
           in (if pf_phrase F \<noteq> SWITCH_STATUS_SUCCESS then Inl (LoopDone (s\<lparr>ps_status := pf_phrase F\<rparr>)) else Inr s,
               [PlayPhrase macro (if rest = [] then None else Some (tl rest)) (pe_chan E ''language'')])
      else if CHR '':'' \<in> set name \<and> strncasecmp_eq 4 name ''say:''
      then (case pe_chan E ''tts_engine'' of
              None \<Rightarrow> (Inr s, [])
            | Some engine \<Rightarrow>
                (if pf_say F \<noteq> SWITCH_STATUS_SUCCESS then Inl (LoopDone (s\<lparr>ps_status := pf_say F\<rparr>)) else Inr s,
                 [PlaySay engine (pe_chan E ''tts_voice'') (drop 4 name)]))
      else (case play_one E args F name s of
              (LoopDone s1, l) \<Rightarrow> (Inr s1, l)
            | (r, l) \<Rightarrow> (Inl r, l)))"

text \<open>
  The loop over the list of names. \<open>F cur\<close> are the answers for the entry number \<open>cur\<close>;
  \<open>LoopDone\<close> is the state in which the loop over the list is left.
\<close>

fun play_files ::
  "'b play_env \<Rightarrow> play_args option \<Rightarrow> (nat \<Rightarrow> play_file_answers) \<Rightarrow> int \<Rightarrow> nat \<Rightarrow> string list \<Rightarrow> 'b play_state
     \<Rightarrow> 'b pl_loop_end \<times> play_action list" where
  "play_files E args F sleep_val cur [] s = (LoopDone s, [])"
| "play_files E args F sleep_val cur (name # names) s =
     (if \<not> pf_ready (F cur) \<or> ps_done s then (LoopDone s, [])
      else
      (let sleeps = (cur \<noteq> 0 \<and> sleep_val \<noteq> 0); l1 = (if sleeps then [PlaySleep sleep_val] else []);
           s1 = s\<lparr>ps_eof := False, ps_start := (if cur \<noteq> 0 then 0 else ps_start s)\<rparr>
       in if sleeps \<and> pf_sleep (F cur) \<noteq> SWITCH_STATUS_SUCCESS
          then (LoopDone (s1\<lparr>ps_status := pf_sleep (F cur)\<rparr>), l1)
          else case play_entry E args (F cur) name (s1\<lparr>ps_status := SWITCH_STATUS_SUCCESS\<rparr>) of
            (Inl e, l2) \<Rightarrow> (e, l1 @ l2)
          | (Inr s2, l2) \<Rightarrow> (let (e, l3) = play_files E args F sleep_val (Suc cur) names s2 in (e, l1 @ l2 @ l3))))"

datatype play_end = PReturned switch_status_t | PRunning | PCrashed play_fault

text \<open>The arguments of the call: the file name, the fields of the caller's handle (zero without one), and the input arguments.\<close>

record 'b play_call =
  pk_file :: cstring
  pk_samples :: u32
  pk_audio :: "'b option"
  pk_sp :: "'b option"
  pk_args :: "play_args option"

text \<open>\<open>timeout_samples\<close> and \<open>cumulative\<close>.\<close>

definition play_timeout :: "'b play_env \<Rightarrow> u32 \<times> bool" where
  "play_timeout E =
     (let limit = (\<lambda>v. if atoi v > 1 then pi_actual_rate (pe_impl E) * of_int (atoi v) else 0)
      in case pe_chan E ''playback_timeout_sec_cumulative'' of
           Some v \<Rightarrow> (limit v, atoi v > 1)
         | None \<Rightarrow>
             (case pe_chan E ''playback_timeout_sec'' of
                Some v \<Rightarrow> (limit v, False)
              | None \<Rightarrow> (0, False)))"

text \<open>The list of names and the pause between them.\<close>

definition play_names :: "'b play_env \<Rightarrow> string \<Rightarrow> string list" where
  "play_names E file =
     (case pe_chan E ''playback_delimiter'' of
        None \<Rightarrow> [file]
      | Some v \<Rightarrow> if v = [] then [file] else take 128 (pe_separate E file (hd v)))"

definition play_sleep_val :: "'b play_env \<Rightarrow> int" where
  "play_sleep_val E =
     (case pe_chan E ''playback_delimiter'' of
        None \<Rightarrow> 250
      | Some v \<Rightarrow>
          (case pe_chan E ''playback_sleep_val'' of
             None \<Rightarrow> 250
           | Some x \<Rightarrow> if atoi x \<ge> 0 then atoi x else 250))"

definition play_init :: "'b play_env \<Rightarrow> 'b play_call \<Rightarrow> 'b play_state" where
  "play_init E K =
     \<lparr> ps_status = SWITCH_STATUS_SUCCESS, ps_done = False, ps_backup = None, ps_timeout = fst (play_timeout E),
       ps_alloc = False, ps_abuf = [], ps_codec = None, ps_count = 0, ps_more = False, ps_llen = 0, ps_last_speed = -1,
       ps_audio = pk_audio K, ps_sp = pk_sp K, ps_start = pk_samples K, ps_eof = False, ps_framelen = 0,
       ps_native = False, ps_last_native = False, ps_speed = 0, ps_offset = 0 \<rparr>"

definition play_end_actions :: "'b play_env \<Rightarrow> 'b play_call \<Rightarrow> 'b play_state \<Rightarrow> play_action list" where
  "play_end_actions E K s =
     (if ps_codec s \<noteq> None then [PlayCodecDestroy] else [])
     @ (if ps_count s \<noteq> 0 then [PlayThreadEnd, PlayTimerDestroy] else [])
     @ [PlayReset False]
     @ (if pk_args K = None then [] else [PlayCheckStop])
     @ (if ps_timeout s \<noteq> 0 \<and> snd (play_timeout E)
        then [PlayNum ''playback_timeout_sec_cumulative'' (ps_timeout s div pi_actual_rate (pe_impl E))] else [])"

definition switch_ivr_play_file ::
  "'b play_env \<Rightarrow> 'b play_call \<Rightarrow> (nat \<Rightarrow> play_file_answers) \<Rightarrow> play_end \<times> play_action list" where
  "switch_ivr_play_file E K F =
     (if pe_pre_answer E \<noteq> SWITCH_STATUS_SUCCESS \<or> zstr (pk_file K) \<or> \<not> pe_media_ready E
      then (PReturned SWITCH_STATUS_FALSE, [])
      else case (if pk_args K = None then None else pe_recursion E) of
        Some st \<Rightarrow> (PReturned st, [])
      | None \<Rightarrow>
          (let l0 = (if pk_args K = None then [] else [PlayCheckStart]);
               (r, l) = play_files E (pk_args K) F (play_sleep_val E) 0 (play_names E (the (pk_file K))) (play_init E K)
           in case r of
                LoopDone s \<Rightarrow> (PReturned (ps_status s), l0 @ l @ play_end_actions E K s)
              | LoopRunning \<Rightarrow> (PRunning, l0 @ l)
              | LoopBad e \<Rightarrow> (PCrashed e, l0 @ l)))"

section \<open>The stretching loop\<close>

text \<open>
  What is documented of a dynamic \<open>switch_buffer_t\<close>: it holds the bytes \<open>cont b\<close>, a write
  appends, a read takes a prefix.
\<close>

definition file_buffer_laws :: "'b file_buffer \<Rightarrow> ('b \<Rightarrow> byte list) \<Rightarrow> bool" where
  "file_buffer_laws B cont \<longleftrightarrow> cont (fb_empty B) = [] \<and>
     (\<forall>b d. cont (fb_write B b d) = cont b @ d) \<and>
     (\<forall>b n. fst (fb_read B b n) = take n (cont b) \<and> cont (snd (fb_read B b n)) = drop n (cont b)) \<and>
     (\<forall>b. fb_inuse B b = length (cont b)) \<and>
     (\<forall>b. cont (fb_zero B b) = [])"

lemma file_buffer_simps:
  assumes "file_buffer_laws B cont"
  shows "cont (fb_empty B) = []" "cont (fb_write B b d) = cont b @ d" "fst (fb_read B b n) = take n (cont b)"
    "cont (snd (fb_read B b n)) = drop n (cont b)" "fb_inuse B b = length (cont b)" "cont (fb_zero B b) = []"
  using assms by (auto simp: file_buffer_laws_def)

lemma samples_at_ok: "2 * (pos + n) \<le> length m \<Longrightarrow> samples_at m pos n = Some (take (2 * n) (drop (2 * pos) m))"
  by (simp add: samples_at_def)

lemma mean_of_three_length [simp]: "length (mean_of_three m i) = 2"
  by (simp add: mean_of_three_def Let_def)

declare stretch_loop.simps [simp del]

lemma stretch_fast:
  assumes B: "file_buffer_laws B cont" and n: "newlen \<le> Suc supp * step" and m: "2 * (newlen + supp) \<le> length m"
  shows "wrote = k * step \<Longrightarrow> bp = wrote + k \<Longrightarrow> wrote \<le> newlen \<Longrightarrow> k \<le> supp \<Longrightarrow>
    \<exists>wrote' k' b'. stretch_loop B True step newlen m wrote bp b = Inr (wrote', wrote' + k', b') \<and> wrote' \<le> newlen \<and>
      k' \<le> supp \<and> length (cont b') + 2 * wrote = length (cont b) + 2 * wrote'"
proof (induction "newlen - wrote" arbitrary: wrote k bp b rule: less_induct)
  case less
  show ?case
  proof (cases "wrote + step < newlen")
    case False
    then have "stretch_loop B True step newlen m wrote bp b = Inr (wrote, bp, b)" by (simp add: stretch_loop.simps)
    then show ?thesis using less.prems by blast
  next
    case True
    then have s: "0 < step" using n by (cases step) auto
    have k: "Suc k \<le> supp"
    proof (rule ccontr)
      assume "\<not> Suc k \<le> supp"
      then have "supp * step \<le> k * step" by (intro mult_right_mono) auto
      moreover have "newlen \<le> supp * step + step" using n by simp
      ultimately show False using True less.prems(1) by linarith
    qed
    have "2 * (bp + step) \<le> length m" using True less.prems(2) k m by simp
    note d = samples_at_ok [OF this]
    let ?d = "take (2 * step) (drop (2 * bp) m)"
    have len: "length (cont (fb_write B b ?d)) = length (cont b) + 2 * step"
      using \<open>2 * (bp + step) \<le> length m\<close> by (simp add: file_buffer_simps [OF B])
    have "\<exists>wrote' k' b'. stretch_loop B True step newlen m (wrote + step) (bp + step + 1) (fb_write B b ?d) = Inr (wrote', wrote' + k', b') \<and>
        wrote' \<le> newlen \<and> k' \<le> supp \<and> length (cont b') + 2 * (wrote + step) = length (cont (fb_write B b ?d)) + 2 * wrote'"
      by (rule less.hyps [where k = "Suc k"]) (use True less.prems k s in auto)
    then show ?thesis using True s d len
      by (auto simp: stretch_loop.simps [of B True step newlen m wrote bp b])
  qed
qed

lemma stretch_slow:
  assumes B: "file_buffer_laws B cont" and n: "olen \<le> Suc supp * step" "supp * step \<le> olen" "0 < step"
    and m: "2 * (olen + 2) \<le> length m"
  shows "wrote = k * Suc step \<Longrightarrow> bp = k * step \<Longrightarrow> k \<le> supp \<Longrightarrow> wrote \<le> olen + supp \<Longrightarrow>
    \<exists>wrote' b'. stretch_loop B False step (olen + supp) m wrote bp b = Inr (wrote', supp * step, b') \<and> wrote' \<le> olen + supp \<and>
      wrote' = supp * Suc step \<and> length (cont b') + 2 * wrote = length (cont b) + 2 * wrote'"
proof (induction "olen + supp - wrote" arbitrary: wrote k bp b rule: less_induct)
  case less
  show ?case
  proof (cases "k = supp")
    case True
    then have "\<not> wrote + step < olen + supp" using less.prems n by (simp add: algebra_simps)
    then have "stretch_loop B False step (olen + supp) m wrote bp b = Inr (wrote, bp, b)" by (simp add: stretch_loop.simps)
    then show ?thesis using less.prems True by blast
  next
    case False
    then have k: "Suc k \<le> supp" using less.prems by simp
    then have "Suc k * step \<le> supp * step" by (rule mult_right_mono) simp
    then have b: "bp + step \<le> olen" using less.prems n by simp
    have w: "wrote + step < olen + supp" using b k less.prems by simp
    note d = samples_at_ok [of bp step m]
    let ?d = "take (2 * step) (drop (2 * bp) m)" and ?v = "mean_of_three m (bp + step)"
    let ?b = "fb_write B (fb_write B b ?d) ?v"
    have len: "length (cont ?b) = length (cont b) + 2 * Suc step"
      using b m by (simp add: file_buffer_simps [OF B])
    have "\<exists>wrote' b'. stretch_loop B False step (olen + supp) m (wrote + step + 1) (bp + step) ?b = Inr (wrote', supp * step, b') \<and>
        wrote' \<le> olen + supp \<and> wrote' = supp * Suc step \<and> length (cont b') + 2 * (wrote + step + 1) = length (cont ?b) + 2 * wrote'"
      by (rule less.hyps [where k = "Suc k"]) (use w less.prems k in auto)
    then show ?thesis using w n(3) b d m len
      by (auto simp: stretch_loop.simps [of B False step "olen + supp" m wrote bp b])
  qed
qed

lemma speed_steps:
  assumes "1 \<le> olen" and "speed \<in> {-2, -1, 1, 2}"
  defines "supp \<equiv> speed_supplement speed olen"
  shows "1 \<le> supp" "supp \<le> olen" "olen \<le> Suc supp * (olen div supp)" "olen - supp \<le> Suc supp * ((olen - supp) div supp)"
proof -
  have j: "nat \<bar>speed\<bar> = 1 \<or> nat \<bar>speed\<bar> = 2" using assms(2) by auto
  have *: "1 \<le> supp \<and> supp \<le> olen \<and> olen \<le> Suc supp * (olen div supp) \<and> olen - supp \<le> Suc supp * ((olen - supp) div supp)"
  proof (cases "nat \<bar>speed\<bar> * olen div 4 = 0")
    case True
    then have "supp = 1" by (simp add: supp_def speed_supplement_def Let_def)
    then show ?thesis using assms(1) by simp
  next
    case False
    then have s: "supp = nat \<bar>speed\<bar> * olen div 4" by (simp add: supp_def speed_supplement_def Let_def)
    have p: "0 < supp" using False s by simp
    show ?thesis
    proof (cases "nat \<bar>speed\<bar> = 1")
      case True
      then have q: "4 * supp \<le> olen" "olen < 4 * supp + 4" using s by auto
      have a: "4 \<le> olen div supp" "3 \<le> (olen - supp) div supp"
        using q p by (auto simp: less_eq_div_iff_mult_less_eq)
      have "Suc supp * 4 \<le> Suc supp * (olen div supp)" "Suc supp * 3 \<le> Suc supp * ((olen - supp) div supp)"
        by (intro mult_left_mono a; simp)+
      then show ?thesis using q p by auto
    next
      case False
      with j s have q: "2 * supp \<le> olen" "olen < 2 * supp + 2" by auto
      have a: "2 \<le> olen div supp" "1 \<le> (olen - supp) div supp"
        using q p by (auto simp: less_eq_div_iff_mult_less_eq)
      have "Suc supp * 2 \<le> Suc supp * (olen div supp)" "Suc supp * 1 \<le> Suc supp * ((olen - supp) div supp)"
        by (intro mult_left_mono a; simp)+
      then show ?thesis using q p by auto
    qed
  qed
  then show "1 \<le> supp" "supp \<le> olen" "olen \<le> Suc supp * (olen div supp)" "olen - supp \<le> Suc supp * ((olen - supp) div supp)"
    by simp_all
qed

lemma play_stretch_fast:
  assumes B: "file_buffer_laws B cont" and o: "1 \<le> olen" and v: "speed \<in> {1, 2}" and m: "2 * (olen + 2) \<le> length m"
  shows "\<exists>b'. play_stretch B speed olen m b = Inr b' \<and>
     length (cont b') = length (cont b) + 2 * (olen - speed_supplement speed olen)"
proof -
  define supp where "supp = speed_supplement speed olen"
  define newlen where "newlen = olen - supp"
  have sp: "1 \<le> supp" "supp \<le> olen" "newlen \<le> Suc supp * (newlen div supp)"
    using speed_steps [OF o, of speed] v by (auto simp: supp_def newlen_def)
  have f: "0 < speed" using v by auto
  obtain w k b1 where l: "stretch_loop B True (newlen div supp) newlen m 0 0 b = Inr (w, w + k, b1)" "w \<le> newlen" "k \<le> supp"
    "length (cont b1) = length (cont b) + 2 * w"
    using stretch_fast [OF B sp(3), of m 0 0 0 b] m sp(2) by (auto simp: newlen_def)
  have "2 * (w + k + (newlen - w)) \<le> length m" using l m sp(2) by (simp add: newlen_def)
  note d = samples_at_ok [OF this]
  show ?thesis
    using f l d \<open>2 * (w + k + (newlen - w)) \<le> length m\<close>
    by (auto simp: play_stretch_def Let_def supp_def [symmetric] newlen_def [symmetric] file_buffer_simps [OF B])
qed

lemma play_stretch_slow:
  assumes B: "file_buffer_laws B cont" and o: "1 \<le> olen" and v: "speed \<in> {-2, -1}" and m: "2 * (olen + 2) \<le> length m"
  shows "\<exists>b'. play_stretch B speed olen m b = Inr b' \<and>
     length (cont b') = length (cont b) + 2 * (olen + speed_supplement speed olen)"
proof -
  define supp where "supp = speed_supplement speed olen"
  have sp: "1 \<le> supp" "supp \<le> olen" "olen \<le> Suc supp * (olen div supp)"
    using speed_steps [OF o, of speed] v by (auto simp: supp_def)
  have st: "supp * (olen div supp) \<le> olen" "0 < olen div supp"
    using sp by (simp_all add: div_greater_zero_iff mult.commute)
  have f: "\<not> 0 < speed" using v by auto
  obtain w b1 where l: "stretch_loop B False (olen div supp) (olen + supp) m 0 0 b = Inr (w, supp * (olen div supp), b1)" "w \<le> olen + supp"
    "w = supp * Suc (olen div supp)" "length (cont b1) = length (cont b) + 2 * w"
    using stretch_slow [OF B sp(3) st m, of 0 0 0 b] by auto
  have "2 * (supp * (olen div supp) + (olen + supp - w)) \<le> length m" using l(3) st m by simp
  note d = samples_at_ok [OF this]
  have fin: "length (take (2 * (olen + supp - w)) (drop (2 * (supp * (olen div supp))) m)) = 2 * (olen + supp - w)"
    using \<open>2 * (supp * (olen div supp) + (olen + supp - w)) \<le> length m\<close> by simp
  have e: "play_stretch B speed olen m b = (if w < olen + supp
      then Inr (fb_write B b1 (take (2 * (olen + supp - w)) (drop (2 * (supp * (olen div supp))) m))) else Inr b1)"
    using f l(1) d by (simp add: play_stretch_def Let_def supp_def [symmetric])
  show ?thesis
    unfolding e supp_def [symmetric] using l(2,4) fin by (auto simp: file_buffer_simps [OF B])
qed

section \<open>What the loop leaves alone\<close>

definition pl_keeps :: "'b play_state \<Rightarrow> 'b play_state \<Rightarrow> bool" where
  "pl_keeps s s' \<longleftrightarrow> ps_codec s' = ps_codec s \<and> ps_backup s' = ps_backup s \<and> ps_alloc s' = ps_alloc s"

lemma pl_keeps_refl [simp]: "pl_keeps s s" by (simp add: pl_keeps_def)

lemma pl_keeps_trans [trans]: "pl_keeps s s' \<Longrightarrow> pl_keeps s' s'' \<Longrightarrow> pl_keeps s s''" by (simp add: pl_keeps_def)

text \<open>What is sent by a log, and the actions the loop can take.\<close>

definition sent :: "play_action list \<Rightarrow> (u32 \<times> byte list) list" where
  "sent l = concat (map (\<lambda>a. case a of PlayWrite nat_ n d \<Rightarrow> [(n, d)] | _ \<Rightarrow> []) l)"

definition sent_samples :: "play_action list \<Rightarrow> int list" where
  "sent_samples l = map (\<lambda>(n, d). uint n) (sent l)"

lemma sent_simps [simp]: "sent [] = []" "sent (l @ l') = sent l @ sent l'"
  "sent (a # l) = (case a of PlayWrite x n d \<Rightarrow> [(n, d)] | _ \<Rightarrow> []) @ sent l"
  by (simp_all add: sent_def)

lemma sent_samples_simps [simp]: "sent_samples [] = []" "sent_samples (l @ l') = sent_samples l @ sent_samples l'"
  by (simp_all add: sent_samples_def)

definition play_in_loop :: "play_action \<Rightarrow> bool" where
  "play_in_loop a = (case a of PlayWrite x n d \<Rightarrow> True | PlayDigit c \<Rightarrow> True | PlayClearBreak \<Rightarrow> True | _ \<Rightarrow> False)"

definition silent :: "play_action list \<Rightarrow> bool" where
  "silent l \<longleftrightarrow> (\<forall>a \<in> set l. play_in_loop a) \<and> sent l = []"

text \<open>A step that sends nothing keeps the timeout too.\<close>

definition quietly :: "'b play_state \<Rightarrow> 'b play_state \<Rightarrow> bool" where
  "quietly s s' \<longleftrightarrow> pl_keeps s s' \<and> ps_timeout s' = ps_timeout s"

lemma quietly_refl [simp]: "quietly s s" by (simp add: quietly_def)

lemma quietly_trans: "quietly s s' \<Longrightarrow> quietly s' s'' \<Longrightarrow> quietly s s''" by (auto simp: quietly_def pl_keeps_def)

fun quiet_next :: "'b play_state \<Rightarrow> 'b play_next \<Rightarrow> bool" where
  "quiet_next s (PNext s') = quietly s s'"
| "quiet_next s (PStop s') = quietly s s'"
| "quiet_next s (PBad e) = True"

fun quiet_fetch :: "'b play_state \<Rightarrow> 'b fetched \<Rightarrow> bool" where
  "quiet_fetch s (Got s' n d) = quietly s s'"
| "quiet_fetch s (Again s') = quietly s s'"
| "quiet_fetch s (Over s') = quietly s s'"
| "quiet_fetch s (Bad e) = True"

lemma play_dtmf_quiet: "quiet_next s (fst (play_dtmf a t s)) \<and> silent (snd (play_dtmf a t s))"
  by (auto simp: play_dtmf_def Let_def quietly_def pl_keeps_def silent_def play_in_loop_def split: option.split)

lemma play_input_quiet: "quiet_next s (fst (play_input args t s)) \<and> silent (snd (play_input args t s))"
proof (cases args)
  case None
  then show ?thesis by (simp add: play_input_def silent_def)
next
  case (Some a)
  obtain r l where d: "play_dtmf a t s = (r, l)" by fastforce
  have q: "quiet_next s r" "silent l" using play_dtmf_quiet [of s a t] d by simp_all
  show ?thesis
  proof (cases r)
    case (PNext s1)
    define os where "os = (if pa_callback a then pt_event_callback t else None)"
    define s2 where "s2 = (case os of Some o1 \<Rightarrow> if o1 \<noteq> SWITCH_STATUS_SUCCESS then s1\<lparr>ps_status := o1\<rparr> else s1 | None \<Rightarrow> s1)"
    have "play_input args t s = (if ps_status s2 \<noteq> SWITCH_STATUS_SUCCESS then (PStop (s2\<lparr>ps_done := True\<rparr>), l) else (PNext s2, l))"
      by (simp add: play_input_def Some d PNext os_def [symmetric] s2_def [symmetric])
    moreover have "quietly s1 s2" by (simp add: s2_def quietly_def pl_keeps_def split: option.split)
    ultimately show ?thesis using q PNext by (auto simp: quietly_def pl_keeps_def)
  qed (use q d Some in \<open>simp_all add: play_input_def\<close>)
qed

lemma play_resize_quiet: "quietly s (play_resize C t s)"
  by (simp add: play_resize_def Let_def quietly_def pl_keeps_def)

lemma fetch_queue_quiet: "quiet_fetch s (fetch_queue C s b olen)"
  by (simp add: fetch_queue_def Let_def quietly_def pl_keeps_def split: option.split prod.split)

lemma fetch_switch_quiet:
  "case fetch_switch C s b of Inl r \<Rightarrow> quiet_fetch s r | Inr (s', b') \<Rightarrow> quietly s s'"
  by (simp add: fetch_switch_def Let_def quietly_def pl_keeps_def split: option.split)

lemma fetch_file_quiet: "quiet_fetch s (fetch_file C t s)"
proof -
  obtain st d n where r: "pt_file_read t = (st, d, n)" by (cases "pt_file_read t")
  show ?thesis
  proof (cases "pl_put (ps_abuf s) d")
    case (Some m)
    let ?s = "s\<lparr>ps_native := pt_native t, ps_abuf := m\<rparr>"
    have q: "quietly s ?s" "quietly s (?s\<lparr>ps_eof := True\<rparr>)" by (simp_all add: quietly_def pl_keeps_def)
    have "quiet_fetch s (case fetch_switch C ?s b of Inl r \<Rightarrow> r | Inr (s1, b1) \<Rightarrow> fetch_queue C s1 b1 n)" for b
    proof (cases "fetch_switch C ?s b")
      case (Inl r)
      with fetch_switch_quiet [of ?s C b] q show ?thesis by (cases r) (auto intro: quietly_trans)
    next
      case (Inr x)
      obtain s1 b1 where x: "x = (s1, b1)" by (cases x)
      have "quietly s s1" using fetch_switch_quiet [of ?s C b] Inr x q(1) by (auto intro: quietly_trans)
      with fetch_queue_quiet [of s1 C b1 n] show ?thesis unfolding Inr x sum.case prod.case
        by (cases "fetch_queue C s1 b1 n") (auto intro: quietly_trans)
    qed
    with q Some r show ?thesis by (auto simp: fetch_file_def Let_def split: option.split)
  qed (simp add: fetch_file_def r)
qed

lemma play_fetch_quiet: "quiet_fetch s (play_fetch C t s)"
proof -
  have "quiet_fetch s (fetch_paused C s)" "quiet_fetch s (fetch_sp C s b)" "quiet_fetch s (fetch_audio C s b)" for b
    by (simp_all add: fetch_paused_def fetch_sp_def fetch_audio_def Let_def quietly_def pl_keeps_def split: option.split prod.split)
  with fetch_file_quiet [of s C t] show ?thesis by (auto simp: play_fetch_def split: option.split)
qed

lemma play_speed_quiet: "quiet_next s (play_speed C t s olen ds)"
  by (simp add: play_speed_def Let_def quietly_def pl_keeps_def split: sum.split option.split)

lemma play_pace_quiet: "quiet_next s (play_pace C t s)"
  by (simp add: play_pace_def Let_def quietly_def pl_keeps_def split: option.split)

section \<open>The timeout\<close>

text \<open>
  \<open>spent T l T'\<close>: a log takes the timeout from \<open>T\<close> to \<open>T'\<close>. A timeout that is reached (0) was not
  reached before the last packet.
\<close>

definition spent :: "u32 \<Rightarrow> play_action list \<Rightarrow> u32 \<Rightarrow> bool" where
  "spent T l T' \<longleftrightarrow>
     (if T' = 0 then sent_samples l \<noteq> [] \<and> sum_list (butlast (sent_samples l)) < sint T
      else 0 < sint T' \<and> sint T' = sint T - sum_list (sent_samples l))"

text \<open>Packets of at least one and fewer than \<open>2^31\<close> samples.\<close>

definition fair :: "play_action list \<Rightarrow> bool" where
  "fair l \<longleftrightarrow> (\<forall>n \<in> set (sent_samples l). 0 < n \<and> n < 2 ^ 31)"

lemma fair_append [simp]: "fair (l @ l') \<longleftrightarrow> fair l \<and> fair l'" by (auto simp: fair_def)

lemma spent_refl: "sent l = [] \<Longrightarrow> 0 < sint T \<Longrightarrow> spent T l T"
  by (auto simp: spent_def sent_samples_def)

lemma spent_append:
  assumes "spent T l T'" and "T' \<noteq> 0" and "spent T' l' T''"
  shows "spent T (l @ l') T''"
  using assms by (auto simp: spent_def butlast_append split: if_splits)

lemma sint_minus_uint:
  fixes T n :: u32
  assumes "0 < sint T" and "uint n < 2 ^ 31"
  shows "sint (T - n) = sint T - uint n"
proof -
  have "sint T < 2 ^ 31" using sint_lt [of T] by simp
  then have b: "- (2 ^ 31) \<le> sint T - uint n" "sint T - uint n < 2 ^ 31"
    using assms uint_ge_0 [of n] by linarith+
  have "(of_int (sint T - uint n) :: u32) = T - n" by simp
  then have "sint (T - n) = sint (of_int (sint T - uint n) :: u32)" by simp
  also have "\<dots> = sint T - uint n"
    using b by (simp only: sint_sbintrunc') (simp add: signed_take_bit_int_eq_self_iff)
  finally show ?thesis .
qed

text \<open>What a step that may send does to the timeout.\<close>

fun spends :: "'b play_state \<Rightarrow> 'b play_next \<times> play_action list \<Rightarrow> bool" where
  "spends s (PNext s', l) = (spent (ps_timeout s) l (ps_timeout s') \<and> ps_timeout s' \<noteq> 0)"
| "spends s (PStop s', l) = (spent (ps_timeout s) l (ps_timeout s') \<and> (ps_timeout s' = 0 \<longrightarrow> ps_done s'))"
| "spends s (PBad e, l) = (sent l = [])"

lemma spends_quiet:
  assumes "quiet_next s r" and "silent l" and "0 < sint (ps_timeout s)"
  shows "spends s (r, l)"
  using assms spent_refl [of l "ps_timeout s"] by (cases r) (auto simp: quietly_def silent_def)

lemma play_send_spends:
  assumes T: "0 < sint (ps_timeout s)" and f: "fair (snd (play_send C t s olen))"
  shows "spends s (play_send C t s olen)"
proof -
  define n where "n = (ucast olen :: u32)"
  define dl where "dl = (if ps_native s then n else n * 2)"
  show ?thesis
  proof (cases "play_data C t s (unat dl)")
    case None
    then show ?thesis by (simp add: play_send_def Let_def n_def [symmetric] dl_def [symmetric])
  next
    case (Some m)
    have n0: "ps_timeout s \<noteq> 0" using T by auto
    let ?l = "[PlayWrite (ps_native s) n (take (unat dl) m)]"
    have l: "snd (play_send C t s olen) = ?l"
      by (simp add: play_send_def Let_def n_def [symmetric] dl_def [symmetric] Some)
    have w: "0 < uint n" "uint n < 2 ^ 31" using f unfolding l by (simp_all add: fair_def sent_samples_def)
    have m: "sint (ps_timeout s - n) = sint (ps_timeout s) - uint n" by (rule sint_minus_uint [OF T w(2)])
    have sam: "sent_samples ?l = [uint n]" by (simp add: sent_samples_def)
    have left: "ps_timeout s - n \<le>s 0 \<longleftrightarrow> sint (ps_timeout s) - uint n \<le> 0" by (simp add: word_sle_eq m)
    show ?thesis
    proof (cases "sint (ps_timeout s) - uint n \<le> 0")
      case True
      then show ?thesis using T left sam n0
        by (simp add: play_send_def Let_def n_def [symmetric] dl_def [symmetric] Some spent_def)
    next
      case False
      moreover from False have "ps_timeout s - n \<noteq> 0" using m by auto
      ultimately show ?thesis using left sam m n0
        by (simp add: play_send_def Let_def n_def [symmetric] dl_def [symmetric] Some spent_def)
    qed
  qed
qed

lemma play_send_keeps:
  "(\<forall>a \<in> set (snd (play_send C t s olen)). play_in_loop a) \<and>
   (case fst (play_send C t s olen) of PNext s' \<Rightarrow> pl_keeps s s' | PStop s' \<Rightarrow> pl_keeps s s' | PBad e \<Rightarrow> True)"
  by (simp add: play_send_def Let_def pl_keeps_def play_in_loop_def split: option.split)

text \<open>The same for the output, the body and the pass: what is kept and what is spent.\<close>

definition step_ok :: "'b play_state \<Rightarrow> 'b play_next \<times> play_action list \<Rightarrow> bool" where
  "step_ok s x \<longleftrightarrow> (\<forall>a \<in> set (snd x). play_in_loop a) \<and>
     (case fst x of PNext s' \<Rightarrow> pl_keeps s s' | PStop s' \<Rightarrow> pl_keeps s s' | PBad e \<Rightarrow> True) \<and>
     (0 < sint (ps_timeout s) \<longrightarrow> fair (snd x) \<longrightarrow> spends s x)"

lemma step_ok_quiet: "quiet_next s r \<Longrightarrow> silent l \<Longrightarrow> step_ok s (r, l)"
  by (cases r) (auto simp: step_ok_def silent_def quietly_def intro: spent_refl)

lemma step_ok_after:
  assumes "quietly s s1" and "silent l" and "step_ok s1 (r, l')"
  shows "step_ok s (r, l @ l')"
  using assms by (cases r) (auto simp: step_ok_def silent_def quietly_def pl_keeps_def spent_def sent_samples_def)

lemma silent_Nil [simp]: "silent []" by (simp add: silent_def)

lemma play_output_ok: "step_ok s (play_output C t s olen)"
proof (cases "play_pad s olen")
  case None
  then show ?thesis by (simp add: play_output_def step_ok_def)
next
  case (Some x)
  obtain s1 n where x: "x = (s1, n)" by (cases x)
  have q: "quietly s s1" using Some x by (auto simp: play_pad_def quietly_def pl_keeps_def split: if_splits option.splits)
  have p: "quiet_next s1 (play_pace C t s1)" by (rule play_pace_quiet)
  show ?thesis
  proof (cases "play_pace C t s1")
    case (PNext s2)
    have "quietly s s2" using q p PNext by (auto intro: quietly_trans)
    moreover have "step_ok s2 (play_send C t s2 n)"
      using play_send_keeps [of C t s2 n] play_send_spends [of s2 C t n] by (auto simp: step_ok_def)
    ultimately show ?thesis using Some x PNext step_ok_after [of s s2 "[]"]
      by (cases "play_send C t s2 n") (auto simp: play_output_def)
  next
    case (PStop s2)
    have "quietly s s2" using q p PStop by (auto intro: quietly_trans)
    then show ?thesis using Some x PStop by (auto simp: play_output_def intro: step_ok_quiet)
  next
    case (PBad e)
    then show ?thesis using Some x by (auto simp: play_output_def intro: step_ok_quiet)
  qed
qed

lemma play_body_ok: "step_ok s (play_body C t s)"
proof -
  let ?s = "play_resize C t s"
  note q0 = play_resize_quiet [of s C t]
  have f: "quiet_fetch ?s (play_fetch C t ?s)" by (rule play_fetch_quiet)
  show ?thesis
  proof (cases "play_fetch C t ?s")
    case (Got s1 n ds)
    have q1: "quietly s s1" using q0 f Got by (auto intro: quietly_trans)
    show ?thesis
    proof (cases "ps_done s1 \<or> n = 0")
      case True
      then show ?thesis using Got q1 by (auto simp: play_body_def intro: step_ok_quiet)
    next
      case False
      have sp: "quiet_next s1 (play_speed C t s1 n ds)" by (rule play_speed_quiet)
      show ?thesis
      proof (cases "play_speed C t s1 n ds")
        case (PStop s2)
        have "quietly s s2" using q1 sp PStop by (auto intro: quietly_trans)
        then show ?thesis using Got False PStop play_output_ok [of s2 C t n] step_ok_after [of s s2 "[]"]
          by (cases "play_output C t s2 n") (auto simp: play_body_def)
      next
        case (PNext s2)
        have "quietly s s2" using q1 sp PNext by (auto intro: quietly_trans)
        then show ?thesis using Got False PNext by (auto simp: play_body_def intro: step_ok_quiet)
      qed (use Got False in \<open>auto simp: play_body_def intro: step_ok_quiet\<close>)
    qed
  qed (use q0 f in \<open>auto simp: play_body_def intro!: step_ok_quiet intro: quietly_trans\<close>)
qed

lemma play_pass_ok: "step_ok s (play_pass C t s)"
proof -
  let ?s = "case pt_speed t of None \<Rightarrow> s | Some v \<Rightarrow> s\<lparr>ps_speed := v\<rparr>"
  have q0: "quietly s ?s" by (simp add: quietly_def pl_keeps_def split: option.split)
  obtain r l where i: "play_input (pc_args C) t ?s = (r, l)" by fastforce
  have q: "quiet_next ?s r" "silent l" using play_input_quiet [of ?s "pc_args C" t] i by simp_all
  consider "\<not> pt_ready t" | "pt_ready t" "pt_break t \<noteq> 0" | "pt_ready t" "pt_break t = 0" by blast
  then show ?thesis
  proof cases
    case 3
    show ?thesis
    proof (cases r)
      case (PNext s1)
      have "quietly s s1" using q0 q(1) PNext by (auto intro: quietly_trans)
      then show ?thesis using 3 i PNext q(2) play_body_ok [of s1 C t] step_ok_after [of s s1 l]
        by (cases "play_body C t s1") (auto simp: play_pass_def Let_def)
    next
      case (PStop s1)
      have "quietly s s1" using q0 q(1) PStop by (auto intro: quietly_trans)
      then show ?thesis using 3 i PStop q(2) by (auto simp: play_pass_def Let_def intro: step_ok_quiet)
    qed (use 3 i q in \<open>auto simp: play_pass_def Let_def intro: step_ok_quiet\<close>)
  qed (use q0 in \<open>auto simp: play_pass_def Let_def quietly_def pl_keeps_def silent_def play_in_loop_def intro!: step_ok_quiet\<close>)
qed

fun loop_ok :: "'b play_state \<Rightarrow> 'b pl_loop_end \<times> play_action list \<Rightarrow> bool" where
  "loop_ok s (LoopDone s', l) = ((\<forall>a \<in> set l. play_in_loop a) \<and> pl_keeps s s' \<and>
     (0 < sint (ps_timeout s) \<longrightarrow> fair l \<longrightarrow> spent (ps_timeout s) l (ps_timeout s') \<and> (ps_timeout s' = 0 \<longrightarrow> ps_done s')))"
| "loop_ok s (r, l) = ((\<forall>a \<in> set l. play_in_loop a) \<and>
     (0 < sint (ps_timeout s) \<longrightarrow> fair l \<longrightarrow> sum_list (sent_samples l) < sint (ps_timeout s)))"

lemma play_loop_ok: "loop_ok s (play_loop C ts s)"
proof (induction ts arbitrary: s)
  case (Cons t ts)
  obtain r1 l1 where p: "play_pass C t s = (r1, l1)" by fastforce
  have ok: "step_ok s (r1, l1)" using play_pass_ok [of s C t] p by simp
  show ?case
  proof (cases r1)
    case (PNext s1)
    obtain r2 l2 where q: "play_loop C ts s1 = (r2, l2)" by fastforce
    have e: "play_loop C (t # ts) s = (r2, l1 @ l2)" by (simp add: p PNext q)
    have k: "pl_keeps s s1" "\<forall>a \<in> set l1. play_in_loop a" using ok PNext by (simp_all add: step_ok_def)
    have sp: "spent (ps_timeout s) l1 (ps_timeout s1)" "ps_timeout s1 \<noteq> 0" "0 < sint (ps_timeout s1)"
      "sum_list (sent_samples l1) + sint (ps_timeout s1) = sint (ps_timeout s)"
      if "0 < sint (ps_timeout s)" "fair l1" using ok PNext that by (auto simp: step_ok_def spent_def)
    have ih: "loop_ok s1 (r2, l2)" using Cons.IH [of s1] q by simp
    show ?thesis
    proof (cases r2)
      case (LoopDone s2)
      with ih k sp show ?thesis unfolding e LoopDone by (auto intro: pl_keeps_trans spent_append)
    next
      case LoopRunning
      with ih k sp show ?thesis unfolding e LoopRunning by fastforce
    next
      case (LoopBad x)
      with ih k sp show ?thesis unfolding e LoopBad by fastforce
    qed
  qed (use ok p in \<open>auto simp: step_ok_def sent_samples_def\<close>)
qed simp

section \<open>Resources\<close>

definition pl_opens :: "play_action list \<Rightarrow> nat" where
  "pl_opens l = length (filter (\<lambda>a. case a of PlayOpen f \<Rightarrow> True | _ \<Rightarrow> False) l)"

lemma pl_opens_simps [simp]: "pl_opens [] = 0" "pl_opens (l @ l') = pl_opens l + pl_opens l'"
  "pl_opens (a # l) = (case a of PlayOpen f \<Rightarrow> 1 | _ \<Rightarrow> 0) + pl_opens l"
  by (auto simp: pl_opens_def split: play_action.split)

definition codec_held :: "'b play_state \<Rightarrow> nat" where
  "codec_held s = (if ps_codec s = None then 0 else 1)"

text \<open>\<open>pl_balanced s l s'\<close>: the log closes as many files as it opens and accounts for the codec.\<close>

definition pl_balanced :: "'b play_state \<Rightarrow> play_action list \<Rightarrow> 'b play_state \<Rightarrow> bool" where
  "pl_balanced s l s' \<longleftrightarrow> pl_opens l = count_list l PlayClose \<and>
     codec_held s + count_list l PlayCodecInit = codec_held s' + count_list l PlayCodecDestroy"

lemma pl_balanced_append: "pl_balanced s l s' \<Longrightarrow> pl_balanced s' l' s'' \<Longrightarrow> pl_balanced s (l @ l') s''"
  by (simp add: pl_balanced_def)

text \<open>Actions that neither send nor touch files, codec or recursion check.\<close>

definition pl_neutral :: "play_action \<Rightarrow> bool" where
  "pl_neutral a = (case a of PlayOpen f \<Rightarrow> False | PlayClose \<Rightarrow> False | PlayCodecInit \<Rightarrow> False | PlayCodecDestroy \<Rightarrow> False
     | PlayCheckStart \<Rightarrow> False | PlayCheckStop \<Rightarrow> False | PlayWrite x n d \<Rightarrow> False | _ \<Rightarrow> True)"

lemma pl_neutral_counts:
  assumes "\<forall>a \<in> set l. pl_neutral a"
  shows "pl_opens l = 0" "count_list l PlayClose = 0" "count_list l PlayCodecInit = 0" "count_list l PlayCodecDestroy = 0" "sent l = []"
    "count_list l PlayCheckStart = 0" "count_list l PlayCheckStop = 0"
  using assms by (auto simp: pl_neutral_def count_list_0_iff pl_opens_def sent_def filter_empty_conv split: play_action.split)

lemma play_in_loop_counts:
  assumes "\<forall>a \<in> set l. play_in_loop a"
  shows "pl_opens l = 0" "count_list l PlayClose = 0" "count_list l PlayCodecInit = 0" "count_list l PlayCodecDestroy = 0"
    "count_list l PlayCheckStart = 0" "count_list l PlayCheckStop = 0"
  using assms by (auto simp: play_in_loop_def count_list_0_iff pl_opens_def filter_empty_conv split: play_action.split)

lemma play_strings_neutral: "\<forall>a \<in> set (play_strings F). pl_neutral a"
proof -
  have "\<forall>a \<in> set (case pf_strings F c of None \<Rightarrow> [] | Some v \<Rightarrow> [PlayVar (''RECORD_'' @ c) v]). pl_neutral a" for c
    by (cases "pf_strings F c") (simp_all add: pl_neutral_def)
  then show ?thesis unfolding play_strings_def set_concat set_map by blast
qed

lemma file_begin_facts:
  assumes "file_begin F s = (s', l)"
  shows "\<forall>a \<in> set l. pl_neutral a" and "ps_codec s' = ps_codec s \<and> ps_timeout s' = ps_timeout s \<and> ps_done s' = ps_done s \<and> ps_backup s' = ps_backup s"
proof -
  show "\<forall>a \<in> set l. pl_neutral a" using assms play_strings_neutral [of F] by (auto simp: file_begin_def pl_neutral_def split: if_splits)
  show "ps_codec s' = ps_codec s \<and> ps_timeout s' = ps_timeout s \<and> ps_done s' = ps_done s \<and> ps_backup s' = ps_backup s"
    using assms by (cases "ps_alloc s") (auto simp: file_begin_def)
qed

lemma file_prepare_facts:
  assumes "file_prepare E args F file s = (r, l)"
  shows "case r of
       Inl s' \<Rightarrow> sent l = [] \<and> pl_opens l = 0 \<and> count_list l PlayClose = 1 \<and> ps_timeout s' = ps_timeout s \<and> ps_done s' = ps_done s \<and>
         ps_backup s' = ps_backup s \<and> codec_held s + count_list l PlayCodecInit = codec_held s' + count_list l PlayCodecDestroy
     | Inr (C, s') \<Rightarrow> sent l = [] \<and> pl_opens l = 0 \<and> count_list l PlayClose = 0 \<and> ps_timeout s' = ps_timeout s \<and> ps_done s' = ps_done s \<and>
         ps_backup s' = ps_backup s \<and> codec_held s + count_list l PlayCodecInit = codec_held s' + count_list l PlayCodecDestroy"
proof -
  obtain s1 l1 where b: "file_begin F s = (s1, l1)" by fastforce
  note fb = file_begin_facts(2) [OF b] and nl = pl_neutral_counts [OF file_begin_facts(1) [OF b]]
  obtain oc l2 where c: "file_codec F s1 = (oc, l2)" by fastforce
  have h: "codec_held s1 = codec_held s" using fb by (simp add: codec_held_def)
  have cc: "pl_opens l2 = 0" "count_list l2 PlayClose = 0" "count_list l2 PlayCodecDestroy = 0" "sent l2 = []"
    "oc \<noteq> None \<Longrightarrow> codec_held s + count_list l2 PlayCodecInit = 1" "oc = None \<Longrightarrow> l2 = []"
    using c h by (auto simp: file_codec_def codec_held_def split: option.splits)
  show ?thesis
  proof (cases oc)
    case None
    then show ?thesis using assms b c fb nl cc
      by (auto simp: file_prepare_def play_abandon_def codec_held_def)
  next
    case (Some p)
    obtain n bytes ch where k: "packet_sizes E (ps_native s1) p = (n, bytes, ch)" by (cases "packet_sizes E (ps_native s1) p")
    let ?s2 = "s1\<lparr>ps_codec := Some p\<rparr>"
    let ?st = "pe_chan E ''timer_name'' \<noteq> None \<and> ps_count s1 = 0 \<and> pf_timer_init F \<noteq> SWITCH_STATUS_SUCCESS"
    have cc5: "codec_held s + count_list l2 PlayCodecInit = 1" using cc(5) Some by simp
    consider (size) "ps_native s1" "bytes = 0" | (timer) "\<not> (ps_native s1 \<and> bytes = 0)" ?st
      | (ready) "\<not> (ps_native s1 \<and> bytes = 0)" "\<not> ?st" by blast
    then show ?thesis
    proof cases
      case size
      then have "packet_sizes E True p = (n, 0, ch)" using k by simp
      with size have "r = Inl (?s2\<lparr>ps_status := SWITCH_STATUS_GENERR\<rparr>)" "l = l1 @ l2 @ play_abandon"
        using assms by (simp_all add: file_prepare_def Let_def b c Some k)
      then show ?thesis using fb nl cc(1-4) cc5 by (simp add: play_abandon_def codec_held_def)
    next
      case timer
      then have "\<exists>s'. r = Inl s' \<and> ps_timeout s' = ps_timeout s1 \<and> ps_done s' = ps_done s1 \<and> ps_backup s' = ps_backup s1 \<and> ps_codec s' = None"
        "l = l1 @ l2 @ [PlayCodecDestroy] @ play_abandon"
        using assms by (auto simp add: file_prepare_def Let_def b c Some k)
      then show ?thesis using fb nl cc(1-4) cc5 by (auto simp add: play_abandon_def codec_held_def)
    next
      case ready
      have "\<exists>C s' l'. r = Inr (C, s') \<and> ps_timeout s' = ps_timeout s1 \<and> ps_done s' = ps_done s1 \<and> ps_backup s' = ps_backup s1 \<and>
          ps_codec s' = Some p \<and> l = l1 @ l2 @ l' \<and> (\<forall>a \<in> set l'. pl_neutral a)"
        using assms ready by (auto simp add: file_prepare_def Let_def b c Some k pl_neutral_def)
      then obtain C s' l' where e: "r = Inr (C, s')" "ps_timeout s' = ps_timeout s1" "ps_done s' = ps_done s1" "ps_backup s' = ps_backup s1"
          "ps_codec s' = Some p" "l = l1 @ l2 @ l'" "\<forall>a \<in> set l'. pl_neutral a" by blast
      show ?thesis using fb nl cc(1-4) cc5 e(1-6) pl_neutral_counts [OF e(7)] by (simp add: codec_held_def)
    qed
  qed
qed

text \<open>What a part of the call does when it ends in \<open>s'\<close>, and when it does not end.\<close>

fun pl_part_ok :: "'b play_state \<Rightarrow> 'b pl_loop_end \<times> play_action list \<Rightarrow> bool" where
  "pl_part_ok s (LoopDone s', l) = (pl_balanced s l s' \<and>
     (0 < sint (ps_timeout s) \<longrightarrow> fair l \<longrightarrow> spent (ps_timeout s) l (ps_timeout s') \<and> (ps_timeout s' = 0 \<longrightarrow> ps_done s')))"
| "pl_part_ok s (r, l) = (0 < sint (ps_timeout s) \<longrightarrow> fair l \<longrightarrow> sum_list (sent_samples l) < sint (ps_timeout s))"

lemma fair_silent: "sent l = [] \<Longrightarrow> fair l" by (simp add: fair_def sent_samples_def)

lemma pl_part_ok_silent:
  assumes "sent l = []" and "pl_balanced s l s'" and "ps_timeout s' = ps_timeout s"
  shows "pl_part_ok s (LoopDone s', l)"
  using assms by (auto intro: spent_refl)

lemma file_finish_facts:
  assumes "file_finish E F file s = (s', l)"
  shows "sent l = []" "pl_opens l = 0" "count_list l PlayClose = 1" "count_list l PlayCodecInit = 0" "count_list l PlayCodecDestroy = 0"
    "ps_timeout s' = ps_timeout s" "ps_done s' = ps_done s" "ps_codec s' = ps_codec s" "ps_backup s' = ps_backup s"
  using assms by (auto simp: file_finish_def)

lemma play_one_ok: "pl_part_ok s (play_one E args F name s)"
proof -
  obtain path b where p: "play_path E name = (path, b)" by fastforce
  obtain opened backup where o: "play_open F path (case b of None \<Rightarrow> ps_backup s | Some x \<Rightarrow> Some x) = (opened, backup)" by fastforce
  let ?s = "s\<lparr>ps_backup := backup\<rparr>"
  show ?thesis
  proof (cases opened)
    case None
    then show ?thesis
      by (auto simp: play_one_def p o pl_balanced_def codec_held_def intro: spent_refl)
  next
    case (Some fn)
    obtain r l where q: "file_prepare E args F fn ?s = (r, l)" by fastforce
    note fp = file_prepare_facts [OF q]
    show ?thesis
    proof (cases r)
      case (Inl s1)
      then have "play_one E args F name s = (LoopDone s1, [PlayOpen fn] @ l)" by (simp add: play_one_def p o Some q)
      moreover have "pl_part_ok s (LoopDone s1, [PlayOpen fn] @ l)"
        by (rule pl_part_ok_silent) (use fp Inl in \<open>simp_all add: pl_balanced_def codec_held_def\<close>)
      ultimately show ?thesis by simp
    next
      case (Inr x)
      obtain C s1 where x: "x = (C, s1)" by (cases x)
      obtain r2 l2 where lp: "play_loop C (pf_ticks F) s1 = (r2, l2)" by fastforce
      have ok: "loop_ok s1 (r2, l2)" using play_loop_ok [of s1 C "pf_ticks F"] lp by simp
      have nl: "sent ([PlayOpen fn] @ l) = []" using fp Inr x by simp
      have T: "ps_timeout s1 = ps_timeout s" using fp Inr x by simp
      show ?thesis
      proof (cases r2)
        case (LoopDone s2)
        obtain s3 l3 where f: "file_finish E F fn s2 = (s3, l3)" by fastforce
        note ff = file_finish_facts [OF f]
        have e: "play_one E args F name s = (LoopDone s3, [PlayOpen fn] @ l @ l2 @ l3)"
          by (simp add: play_one_def p o Some q Inr x lp LoopDone f)
        have "pl_balanced s ([PlayOpen fn] @ l @ l2 @ l3) s3"
          using fp ff ok play_in_loop_counts [of l2] by (simp add: Inr x LoopDone pl_balanced_def codec_held_def pl_keeps_def)
        then show ?thesis using ok nl T ff unfolding e LoopDone
          by (auto simp: spent_def sent_samples_def fair_def)
      next
        case LoopRunning
        then show ?thesis using ok nl T by (simp add: play_one_def p o Some q Inr x lp sent_samples_def fair_def)
      next
        case (LoopBad z)
        then show ?thesis using ok nl T by (simp add: play_one_def p o Some q Inr x lp sent_samples_def fair_def)
      qed
    qed
  qed
qed

lemma play_entry_cases:
  assumes "play_entry E args F name s = (r, l)"
  obtains (silent) "\<forall>a \<in> set l. pl_neutral a" "r = Inr s \<or> (\<exists>c. r = Inl (LoopDone (s\<lparr>ps_status := c\<rparr>)))"
    | (one) "(case r of Inl e \<Rightarrow> e | Inr s' \<Rightarrow> LoopDone s', l) = play_one E args F name s"
proof -
  define phrase where "phrase \<longleftrightarrow> CHR '':'' \<in> set name \<and> strncasecmp_eq 7 name ''phrase:''"
  define say where "say \<longleftrightarrow> CHR '':'' \<in> set name \<and> strncasecmp_eq 4 name ''say:''"
  note d = assms [unfolded play_entry_def phrase_def [symmetric] say_def [symmetric] Let_def]
  consider phrase | "\<not> phrase" say | "\<not> phrase" "\<not> say" by blast
  then show thesis
  proof cases
    case 1
    note e = d [unfolded if_P [OF 1] prod.inject]
    show thesis
      by (rule silent) (simp add: conjunct2 [OF e, symmetric] pl_neutral_def, use conjunct1 [OF e] in \<open>auto split: if_splits\<close>)
  next
    case 2
    note e = d [unfolded if_not_P [OF 2(1)] if_P [OF 2(2)]]
    show thesis
    proof (cases "pe_chan E ''tts_engine''")
      case None
      show thesis by (rule silent) (use e None in auto)
    next
      case (Some x)
      note e' = e [unfolded Some option.case prod.inject]
      show thesis
        by (rule silent) (simp add: conjunct2 [OF e', symmetric] pl_neutral_def, use conjunct1 [OF e'] in \<open>auto split: if_splits\<close>)
    qed
  next
    case 3
    note e = d [unfolded if_not_P [OF 3(1)] if_not_P [OF 3(2)]]
    obtain r1 l1 where o: "play_one E args F name s = (r1, l1)" by fastforce
    show thesis by (rule one) (use e o in \<open>cases r1; simp; auto\<close>)
  qed
qed

lemma play_entry_ok:
  assumes "play_entry E args F name s = (r, l)"
  shows "pl_part_ok s (case r of Inl e \<Rightarrow> e | Inr s' \<Rightarrow> LoopDone s', l)"
  using assms
proof (cases rule: play_entry_cases)
  case silent
  note n = pl_neutral_counts [OF silent(1)]
  have "pl_part_ok s (LoopDone (s\<lparr>ps_status := c\<rparr>), l)" "pl_part_ok s (LoopDone s, l)" for c
    by (rule pl_part_ok_silent; simp add: n pl_balanced_def codec_held_def)+
  then show ?thesis using silent(2) by auto
next
  case one
  with play_one_ok [of s E args F name] show ?thesis by simp
qed

text \<open>Playing the list: the timeout counts over all its entries.\<close>

lemma pl_part_ok_append:
  assumes "pl_part_ok s (LoopDone s1, l)" and "pl_part_ok s1 (r, l')"
    and "ps_done s1 \<Longrightarrow> l' = [] \<and> r = LoopDone s1"
  shows "pl_part_ok s (r, l @ l')"
proof (cases "ps_done s1")
  case True
  then show ?thesis using assms by auto
next
  case False
  show ?thesis
  proof (cases r)
    case (LoopDone s2)
    have b: "pl_balanced s (l @ l') s2" using assms(1,2) LoopDone by (auto intro: pl_balanced_append)
    have "spent (ps_timeout s) (l @ l') (ps_timeout s2) \<and> (ps_timeout s2 = 0 \<longrightarrow> ps_done s2)"
      if "0 < sint (ps_timeout s)" "fair (l @ l')"
    proof -
      have 1: "spent (ps_timeout s) l (ps_timeout s1)" "ps_timeout s1 \<noteq> 0" using assms(1) that False by auto
      then have "0 < sint (ps_timeout s1)" by (simp add: spent_def)
      with assms(2) that LoopDone 1 show ?thesis by (auto intro: spent_append)
    qed
    with b LoopDone show ?thesis by auto
  next
    case LoopRunning
    have "sum_list (sent_samples (l @ l')) < sint (ps_timeout s)" if "0 < sint (ps_timeout s)" "fair (l @ l')"
      using assms(1,2) that False LoopRunning by (auto simp: spent_def split: if_splits)
    with LoopRunning show ?thesis by simp
  next
    case (LoopBad e)
    have "sum_list (sent_samples (l @ l')) < sint (ps_timeout s)" if "0 < sint (ps_timeout s)" "fair (l @ l')"
      using assms(1,2) that False LoopBad by (auto simp: spent_def split: if_splits)
    with LoopBad show ?thesis by simp
  qed
qed

lemma play_files_ok: "pl_part_ok s (play_files E args F sl cur names s)"
proof (induction names arbitrary: cur s)
  case Nil
  show ?case by (auto simp: pl_balanced_def intro: spent_refl)
next
  case (Cons name names)
  let ?sleeps = "cur \<noteq> 0 \<and> sl \<noteq> 0"
  let ?l1 = "if ?sleeps then [PlaySleep sl] else []"
  let ?s1 = "s\<lparr>ps_eof := False, ps_start := (if cur \<noteq> 0 then 0 else ps_start s)\<rparr>"
  let ?s2 = "?s1\<lparr>ps_status := SWITCH_STATUS_SUCCESS\<rparr>"
  have l1: "pl_part_ok s (LoopDone s', ?l1)" if "ps_codec s' = ps_codec s" "ps_timeout s' = ps_timeout s" for s'
    by (rule pl_part_ok_silent) (use that in \<open>auto simp: pl_balanced_def codec_held_def\<close>)
  show ?case
  proof (cases "\<not> pf_ready (F cur) \<or> ps_done s")
    case True
    then have "play_files E args F sl cur (name # names) s = (LoopDone s, [])" by simp
    then show ?thesis by (auto simp: pl_balanced_def intro: spent_refl)
  next
    case ready: False
    show ?thesis
    proof (cases "?sleeps \<and> pf_sleep (F cur) \<noteq> SWITCH_STATUS_SUCCESS")
      case True
      then have "play_files E args F sl cur (name # names) s = (LoopDone (?s1\<lparr>ps_status := pf_sleep (F cur)\<rparr>), ?l1)"
        using ready by (simp add: Let_def)
      then show ?thesis using l1 by (simp del: pl_part_ok.simps)
    next
      case go: False
      obtain r l2 where e: "play_entry E args (F cur) name ?s2 = (r, l2)" by fastforce
      note eo = play_entry_ok [OF e]
      have ok2: "pl_part_ok s (case r of Inl x \<Rightarrow> x | Inr s' \<Rightarrow> LoopDone s', ?l1 @ l2)"
        by (rule pl_part_ok_append [OF l1 [of ?s2] eo]) (use ready in simp_all)
      show ?thesis
      proof (cases r)
        case (Inl x)
        then have "play_files E args F sl cur (name # names) s = (x, ?l1 @ l2)"
          using ready go e by (auto simp: Let_def)
        with ok2 Inl show ?thesis by simp
      next
        case (Inr s3)
        obtain r4 l4 where f: "play_files E args F sl (Suc cur) names s3 = (r4, l4)" by fastforce
        have eq: "play_files E args F sl cur (name # names) s = (r4, (?l1 @ l2) @ l4)"
          using ready go e Inr f by (auto simp: Let_def)
        have "l4 = [] \<and> r4 = LoopDone s3" if "ps_done s3" using f that by (cases names) auto
        then have "pl_part_ok s (r4, (?l1 @ l2) @ l4)"
          by (intro pl_part_ok_append [of s s3 "?l1 @ l2"]) (use ok2 Inr Cons.IH [of s3 "Suc cur"] f in auto)
        then show ?thesis by (simp only: eq)
      qed
    qed
  qed
qed

section \<open>Steady playback\<close>

text \<open>
  A pass on which nothing interferes: the call is up, the file is read as 16-bit samples, at
  least a packet at a time, and neither speed, volume, position nor the channel change.
\<close>

definition pl_plain_tick :: "'b play_ctx \<Rightarrow> nat \<Rightarrow> nat \<Rightarrow> play_tick \<Rightarrow> bool" where
  "pl_plain_tick C fl len t \<longleftrightarrow> pt_ready t \<and> pt_break t = 0 \<and> \<not> pt_paused t \<and> pt_cur_channels t = 0 \<and> \<not> pt_native t \<and>
     pt_speed t = None \<and> \<not> pt_seek t \<and> pt_volume t = None \<and> pt_timer t = SWITCH_STATUS_SUCCESS \<and> pc_acceptable C (pt_read t) \<and>
     pt_write t = SWITCH_STATUS_SUCCESS \<and>
     (case pt_file_read t of (st, d, n) \<Rightarrow> st = SWITCH_STATUS_SUCCESS \<and> unat (n * 2 * ucast (pc_channels C)) = length d \<and>
        fl \<le> length d \<and> length d \<le> len)"


definition plain_state :: "'b play_ctx \<Rightarrow> nat \<Rightarrow> nat \<Rightarrow> 'b play_state \<Rightarrow> 'b \<Rightarrow> bool" where
  "plain_state C fl len s b \<longleftrightarrow> \<not> ps_native s \<and> \<not> ps_last_native s \<and> ps_speed s = 0 \<and> ps_last_speed s = -1 \<and> ps_sp s = None \<and>
     ps_audio s = Some b \<and> \<not> ps_done s \<and> \<not> ps_more s \<and> ps_llen s \<le> ucast (pc_ilen C) \<and>
     unat (ps_framelen s) = fl \<and> length (ps_abuf s) = len"

text \<open>The packets fit the buffer, and a packet is \<open>ilen\<close> samples of two bytes.\<close>

definition plain_ctx :: "'b play_ctx \<Rightarrow> nat \<Rightarrow> nat \<Rightarrow> bool" where
  "plain_ctx C fl len \<longleftrightarrow> pc_args C = None \<and> 0 < fl \<and> 2 * unat (pc_ilen C) = fl \<and> fl \<le> len \<and> unat (abuf_size (pc_channels C)) \<le> len \<and> len < 2 ^ 32"




text \<open>A packet in \<open>abuf\<close> is sent as it is.\<close>

lemma plain_output:
  assumes C: "plain_ctx C fl len" and t: "pl_plain_tick C fl len t" and s: "plain_state C fl len s b" and T: "ps_timeout s = 0"
    and f: "play_fetch C t s = Got s1 (ucast (pc_ilen C)) True" "plain_state C fl len s1 b1" "ps_timeout s1 = ps_timeout s"
  shows "\<exists>s'. play_pass C t s = (PNext s', [PlayWrite False (pc_ilen C) (take fl (ps_abuf s1))]) \<and>
     plain_state C fl len s' b1 \<and> ps_timeout s' = 0 \<and> ps_eof s' = ps_eof s1"
proof -
  have i: "unat (pc_ilen C) \<noteq> 0" "2 * unat (pc_ilen C) = fl" "fl < 2 ^ 32" using C by (auto simp: plain_ctx_def)
  have dl: "unat (pc_ilen C * 2) = fl" using i by (simp add: unat_word_ariths)
  have n: "(ucast (pc_ilen C) :: size_t) \<noteq> 0" using i(1) by (auto simp: word_unat_eq_iff unat_ucast_up)
  have u: "(ucast (ucast (pc_ilen C) :: size_t) :: u32) = pc_ilen C" by (simp add: word_unat_eq_iff unsigned_ucast_eq take_bit_word_eq_self)
  have r: "play_resize C t s = s"
    using t s C by (auto simp: play_resize_def Let_def pl_plain_tick_def plain_state_def plain_ctx_def)
  define s2 where "s2 = s1\<lparr>ps_speed := 0, ps_sp := None, ps_audio := Some b1\<rparr>"
  have sp: "play_speed C t s1 (ucast (pc_ilen C)) True = PStop s2"
    using t f(2) by (auto simp: play_speed_def Let_def pl_plain_tick_def plain_state_def clamp_speed_def s2_def)
  have pad: "play_pad s2 (ucast (pc_ilen C)) = Some (s2, ucast (pc_ilen C))"
    using f(2) by (auto simp: play_pad_def plain_state_def s2_def)
  define s3 where "s3 = (if pc_timer C then s2\<lparr>ps_count := pt_samplecount t\<rparr> else s2)"
  have pc: "play_pace C t s2 = PNext s3"
    using t f(2) C by (auto simp: play_pace_def Let_def pl_plain_tick_def plain_state_def plain_ctx_def s2_def s3_def)
  have s3: "ps_abuf s3 = ps_abuf s1" "\<not> ps_native s3" "ps_timeout s3 = 0" "\<not> ps_done s3" "plain_state C fl len s3 b1"
    using f(2,3) T by (auto simp: s3_def s2_def plain_state_def)
  have dat: "play_data C t s3 fl = Some (ps_abuf s1)"
    using t f(2) C s3 by (auto simp: play_data_def pl_plain_tick_def plain_state_def plain_ctx_def)
  define s4 where "s4 = s3\<lparr>ps_more := False, ps_llen := ucast (pc_ilen C), ps_abuf := ps_abuf s1, ps_status := SWITCH_STATUS_SUCCESS\<rparr>"
  have snd: "play_send C t s3 (ucast (pc_ilen C)) = (PNext s4, [PlayWrite False (pc_ilen C) (take fl (ps_abuf s1))])"
    using s3 dat dl t by (simp add: play_send_def Let_def u pl_plain_tick_def s4_def)
  have d: "\<not> ps_done s1" using f(2) by (simp add: plain_state_def)
  have "play_body C t s = (PNext s4, [PlayWrite False (pc_ilen C) (take fl (ps_abuf s1))])"
    by (simp add: play_body_def r f(1) d n sp play_output_def pad pc snd)
  then have "play_pass C t s = (PNext s4, [PlayWrite False (pc_ilen C) (take fl (ps_abuf s1))])"
    using t C by (simp add: play_pass_def Let_def pl_plain_tick_def plain_ctx_def play_input_def)
  moreover have "plain_state C fl len s4 b1" using s3(1,5) by (simp add: plain_state_def s4_def)
  moreover have "ps_eof s4 = ps_eof s1" by (simp add: s4_def s3_def s2_def)
  ultimately show ?thesis using s3(3) by (auto simp: s4_def)
qed


text \<open>
  The rest of the file, less than a packet: it is sent, but the filling starts at twice its
  length, so that as much of the packet before it is sent again.
\<close>

lemma plain_last:
  assumes B: "file_buffer_laws (pc_buf C) cont" and C: "plain_ctx C fl len" and t: "pl_plain_tick C fl len t" and s: "plain_state C fl len s b"
    and T: "ps_timeout s = 0" and eof: "ps_eof s" and q: "cont b \<noteq> []" "length (cont b) < fl" "fl + length (cont b) \<le> len"
  shows "\<exists>s' b'. play_pass C t s = (PNext s', [PlayWrite False (pc_ilen C)
       (take fl (cont b @ take (length (cont b)) (drop (length (cont b)) (ps_abuf s)) @ replicate (fl - length (cont b)) 255))]) \<and>
     plain_state C fl len s' b' \<and> cont b' = [] \<and> ps_timeout s' = 0 \<and> ps_eof s'"
proof -
  let ?k = "length (cont b)"
  obtain d b1 where r: "fb_read (pc_buf C) b fl = (d, b1)" by fastforce
  have d: "d = cont b" "cont b1 = []"
    using file_buffer_simps(3,4) [OF B, of b fl] r q(2) by simp_all
  have L: "length (ps_abuf s) = len" "unat (ps_framelen s) = fl" "\<not> ps_native s" using s by (simp_all add: plain_state_def)
  define m where "m = cont b @ take ?k (drop ?k (ps_abuf s)) @ replicate (fl - ?k) 255 @ drop (fl + ?k) (ps_abuf s)"
  have m: "fill_frame (ps_abuf s) fl d = Some m" "length m = len"
    using L q d by (simp_all add: fill_frame_def pl_put_def memset_at_def m_def add.commute)
  let ?s = "s\<lparr>ps_audio := Some b1, ps_abuf := m, ps_offset := ps_offset s + of_nat (length d div 2)\<rparr>"
  have "fetch_audio C s b = Got ?s (ucast (pc_ilen C)) True"
    using r m(1) L d q(1) by (simp add: fetch_audio_def packet_len_def Let_def)
  moreover have "play_fetch C t s = fetch_audio C s b"
    using s t eof by (simp add: play_fetch_def ready_buffer_def plain_state_def pl_plain_tick_def)
  ultimately have f: "play_fetch C t s = Got ?s (ucast (pc_ilen C)) True" by simp
  have s1: "plain_state C fl len ?s b1" using s m(2) by (simp add: plain_state_def)
  have "take fl m = take fl (cont b @ take ?k (drop ?k (ps_abuf s)) @ replicate (fl - ?k) 255)"
    using q L by (simp add: m_def)
  then show ?thesis using plain_output [OF C t s T f s1] d(2) eof by fastforce
qed




section \<open>Properties\<close>

text \<open>An example: buffers as lists of bytes, a channel with no variables set, files of one channel.\<close>

definition pl_list_buffer :: "byte list file_buffer" where
  "pl_list_buffer = \<lparr> fb_empty = [], fb_write = (\<lambda>b d. b @ d), fb_read = (\<lambda>b n. (take n b, drop n b)),
     fb_inuse = length, fb_zero = (\<lambda>b. []) \<rparr>"

lemma pl_list_buffer_laws: "file_buffer_laws pl_list_buffer (\<lambda>b. b)"
  by (simp add: file_buffer_laws_def pl_list_buffer_def)

definition demo_env :: "byte list play_env" where
  "demo_env = \<lparr> pe_buf = pl_list_buffer, pe_pre_answer = SWITCH_STATUS_SUCCESS,
     pe_impl = \<lparr> pi_actual_rate = 2, pi_rate = 2, pi_samples = 2, pi_encoded_bytes = 2, pi_channels = 1,
       pi_microseconds = 20000, pi_iananame = ''PCMU'' \<rparr>,
     pe_chan = (\<lambda>nm. None), pe_true = (\<lambda>v. v = Some ''true''), pe_media_ready = True, pe_recursion = None,
     pe_separate = (\<lambda>f c. [''/x'', ''/y.wav'']), pe_base_dir = ''/s'',
     pe_paths = \<lparr> is_url = (\<lambda>f. False), is_file_path = (\<lambda>f. f \<noteq> [] \<and> hd f = CHR ''/''), end_paren = (\<lambda>f. None), path_separator = ''/'' \<rparr>,
     pe_acceptable = (\<lambda>st. st = SWITCH_STATUS_SUCCESS) \<rparr>"

definition demo_tick :: "byte list \<Rightarrow> play_tick" where
  "demo_tick d = \<lparr> pt_ready = True, pt_break = 0, pt_dtmf = None, pt_feed = SWITCH_STATUS_SUCCESS,
     pt_dtmf_callback = SWITCH_STATUS_SUCCESS, pt_event_callback = None, pt_cur_channels = 0, pt_fresh = 0, pt_paused = False,
     pt_file_read = (if d = [] then SWITCH_STATUS_FALSE else SWITCH_STATUS_SUCCESS, d, of_nat (length d div 2)), pt_native = False,
     pt_speed = None, pt_seek = False, pt_timer = SWITCH_STATUS_SUCCESS, pt_samplecount = 0, pt_read = SWITCH_STATUS_SUCCESS,
     pt_ping = SWITCH_STATUS_SUCCESS, pt_frame_callback = SWITCH_STATUS_SUCCESS, pt_volume = None, pt_parsing = False,
     pt_write = SWITCH_STATUS_SUCCESS \<rparr>"

definition demo_file :: "switch_status_t \<Rightarrow> play_tick list \<Rightarrow> play_file_answers" where
  "demo_file op ts = \<lparr> pf_ready = True, pf_sleep = SWITCH_STATUS_SUCCESS, pf_phrase = SWITCH_STATUS_SUCCESS,
     pf_say = SWITCH_STATUS_SUCCESS, pf_open = op, pf_open_backup = SWITCH_STATUS_SUCCESS, pf_has_video = False,
     pf_channels = 1, pf_speed = 0, pf_offset = 0, pf_native = False, pf_strings = (\<lambda>c. None), pf_codec_init = Some (2, 4, 1),
     pf_timer_init = SWITCH_STATUS_SUCCESS, pf_timer_count = 0, pf_start_event = False, pf_stop_event = False, pf_params = [],
     pf_native_rate = 2, pf_samples_in = 0, pf_ticks = ts \<rparr>"

definition demo_call :: "string \<Rightarrow> byte list play_call" where
  "demo_call f = \<lparr> pk_file = Some f, pk_samples = 0, pk_audio = None, pk_sp = None, pk_args = None \<rparr>"

definition demo_ctx :: "byte list play_ctx" where
  "demo_ctx = \<lparr> pc_buf = pl_list_buffer, pc_args = None, pc_impl = pe_impl demo_env, pc_acceptable = pe_acceptable demo_env,
     pc_timer = False, pc_timeout_ok = False, pc_channels = 1, pc_ilen = 2 \<rparr>"

definition demo_state :: "byte list \<Rightarrow> byte list play_state" where
  "demo_state q = (play_init demo_env (demo_call ''/x''))\<lparr>ps_alloc := True, ps_abuf := replicate 65536 7, ps_codec := Some (2, 4, 1),
     ps_audio := Some q, ps_framelen := 4\<rparr>"

lemma demo_plain:
  "plain_ctx demo_ctx 4 65536" "plain_state demo_ctx 4 65536 (demo_state q) q" "ps_timeout (demo_state q) = 0"
  "file_buffer_laws (pc_buf demo_ctx) (\<lambda>b. b)"
  "pl_plain_tick demo_ctx 4 65536 (demo_tick [1, 2, 3, 4, 5, 6])"
proof -
  show "plain_ctx demo_ctx 4 65536"
    by (simp add: plain_ctx_def demo_ctx_def abuf_size_def FILE_STARTSAMPLES_def)
  show "plain_state demo_ctx 4 65536 (demo_state q) q" "ps_timeout (demo_state q) = 0"
    by (simp_all add: plain_state_def demo_state_def play_init_def demo_env_def play_timeout_def demo_call_def)
  show "file_buffer_laws (pc_buf demo_ctx) (\<lambda>b. b)" using pl_list_buffer_laws by (simp add: demo_ctx_def)
  show "pl_plain_tick demo_ctx 4 65536 (demo_tick [1, 2, 3, 4, 5, 6])"
    by (simp add: pl_plain_tick_def demo_tick_def demo_ctx_def demo_env_def)
qed

text \<open>The call either returns at once or plays the list.\<close>

lemma play_file_cases:
  obtains (early) st where "switch_ivr_play_file E K F = (PReturned st, [])"
  | (files) l0 r l where "pl_part_ok (play_init E K) (r, l)" "l0 = (if pk_args K = None then [] else [PlayCheckStart])"
      "switch_ivr_play_file E K F = (case r of LoopDone s \<Rightarrow> (PReturned (ps_status s), l0 @ l @ play_end_actions E K s)
        | LoopRunning \<Rightarrow> (PRunning, l0 @ l) | LoopBad e \<Rightarrow> (PCrashed e, l0 @ l))"
proof -
  define early_p where "early_p \<longleftrightarrow> pe_pre_answer E \<noteq> SWITCH_STATUS_SUCCESS \<or> zstr (pk_file K) \<or> \<not> pe_media_ready E"
  obtain r l where p: "play_files E (pk_args K) F (play_sleep_val E) 0 (play_names E (the (pk_file K))) (play_init E K) = (r, l)" by fastforce
  have ok: "pl_part_ok (play_init E K) (r, l)"
    using play_files_ok [of "play_init E K" E "pk_args K" F "play_sleep_val E" 0 "play_names E (the (pk_file K))"] p by simp
  consider "early_p" | x where "\<not> early_p" "(if pk_args K = None then None else pe_recursion E) = Some x"
    | "\<not> early_p" "(if pk_args K = None then None else pe_recursion E) = None" by fastforce
  then show thesis
  proof cases
    case 3
    show thesis by (rule files [OF ok refl]) (use 3 in \<open>simp add: switch_ivr_play_file_def early_p_def Let_def p\<close>)
  qed (use early in \<open>simp_all add: switch_ivr_play_file_def early_p_def\<close>)
qed

text \<open>C28. A call that returns has closed every file it opened and destroyed every codec it initialised, whichever files could not be opened, prepared or played to the end.\<close>

theorem play_releases:
  assumes "fst (switch_ivr_play_file E K F) = PReturned st"
  shows "pl_opens (snd (switch_ivr_play_file E K F)) = count_list (snd (switch_ivr_play_file E K F)) PlayClose \<and>
     count_list (snd (switch_ivr_play_file E K F)) PlayCodecInit = count_list (snd (switch_ivr_play_file E K F)) PlayCodecDestroy"
proof (cases rule: play_file_cases [of E K F])
  case (files l0 r l)
  then obtain s where r: "r = LoopDone s" using assms by (cases r) auto
  have "pl_balanced (play_init E K) l s" using files(1) r by simp
  then show ?thesis unfolding files(2,3) r
    by (auto simp: pl_balanced_def codec_held_def play_init_def play_end_actions_def split: if_splits)
qed simp

theorem play_releases_witness:
  "pl_opens (snd (switch_ivr_play_file demo_env (demo_call ''/x'') (\<lambda>i. (demo_file SWITCH_STATUS_SUCCESS [(demo_tick [])\<lparr>pt_ready := False\<rparr>])\<lparr>pf_channels := 0\<rparr>))) = 1 \<and>
   count_list (snd (switch_ivr_play_file demo_env (demo_call ''/x'') (\<lambda>i. (demo_file SWITCH_STATUS_SUCCESS [(demo_tick [])\<lparr>pt_ready := False\<rparr>])\<lparr>pf_channels := 0\<rparr>))) PlayClose = 1"
proof -
  let ?F = "\<lambda>i :: nat. (demo_file SWITCH_STATUS_SUCCESS [(demo_tick [])\<lparr>pt_ready := False\<rparr>])\<lparr>pf_channels := 0\<rparr>"
  have "fst (switch_ivr_play_file demo_env (demo_call ''/x'') ?F) = PReturned SWITCH_STATUS_FALSE"
    "pl_opens (snd (switch_ivr_play_file demo_env (demo_call ''/x'') ?F)) = 1" by code_simp+
  then show ?thesis using play_releases [of demo_env "demo_call ''/x''" ?F SWITCH_STATUS_FALSE] by simp
qed





text \<open>The end of a file, less than a packet, is sent with the next packet; but \<open>memset(abuf + bread, ...)\<close> counts \<open>bread\<close> in samples where it is a number of bytes, so that the packet goes on with as many old bytes of \<open>abuf\<close> before the filling begins.\<close>

theorem play_last_packet:
  assumes "file_buffer_laws (pc_buf C) cont" and "plain_ctx C fl len" and "pl_plain_tick C fl len t"
    and "plain_state C fl len s b" and "ps_timeout s = 0" and "ps_eof s"
    and "cont b \<noteq> []" and "length (cont b) < fl" and "fl + length (cont b) \<le> len"
  shows "sent (snd (play_pass C t s)) = [(pc_ilen C,
     take fl (cont b @ take (length (cont b)) (drop (length (cont b)) (ps_abuf s)) @ replicate (fl - length (cont b)) 255))]"
  using plain_last [OF assms] by auto

theorem play_last_packet_witness:
  "sent (snd (play_pass demo_ctx (demo_tick [1, 2, 3, 4, 5, 6]) (demo_state [9]\<lparr>ps_eof := True\<rparr>))) = [(2, [9, 7, 255, 255])]"
proof -
  let ?s = "demo_state [9]\<lparr>ps_eof := True\<rparr>"
  have a: "ps_abuf ?s = replicate 65536 7" by (simp add: demo_state_def)
  have b: "take 1 (drop 1 (replicate 65536 (7 :: byte))) = [7]" by (simp only: drop_replicate take_replicate) simp
  have "plain_state demo_ctx 4 65536 ?s [9]" using demo_plain(2) [of "[9]"] by (simp add: plain_state_def)
  then have "sent (snd (play_pass demo_ctx (demo_tick [1, 2, 3, 4, 5, 6]) ?s)) = [(pc_ilen demo_ctx,
      take 4 ([9] @ take (length [9 :: byte]) (drop (length [9 :: byte]) (ps_abuf ?s)) @ replicate (4 - length [9 :: byte]) 255))]"
    by (intro play_last_packet [where len = 65536, OF demo_plain(4,1,5)]) (simp_all add: demo_plain(3))
  also have "\<dots> = [(2, [9, 7, 255, 255])]" unfolding a using b by (simp add: demo_ctx_def numeral_3_eq_3)
  finally show ?thesis .
qed

text \<open>A packet that is shorter than the one before it (the last read of a file gave less than a packet) loses its second half: the filling of \<open>llen - olen\<close> bytes starts at byte \<open>olen\<close>, but the \<open>olen\<close> samples of the packet are \<open>2 * olen\<close> bytes long.\<close>

theorem play_short_packet_overwritten:
  assumes "\<not> ps_native s" and "olen < ps_llen s" and "ps_llen s < 2 ^ 31" and "2 * unat (ps_llen s) \<le> length (ps_abuf s)"
    and "pc_args C = None" and "pc_timer C" and "pt_timer t = SWITCH_STATUS_SUCCESS" and "pt_volume t = None"
  shows "sent (snd (play_output C t s olen)) = [(ucast (ps_llen s),
     take (unat olen) (ps_abuf s) @ replicate (unat (ps_llen s) - unat olen) 255
       @ take (unat (ps_llen s)) (drop (unat (ps_llen s)) (ps_abuf s)))]"
proof -
  let ?o = "unat olen" and ?l = "unat (ps_llen s)"
  have l: "?o < ?l" "?l < 2 ^ 31" using assms(2,3) by (simp_all add: word_less_nat_alt)
  have dif: "unat (ps_llen s - olen) = ?l - ?o" using assms(2) by (simp add: unat_sub order_less_imp_le)
  define m where "m = take ?o (ps_abuf s) @ replicate (?l - ?o) 255 @ drop ?l (ps_abuf s)"
  have lm: "length m = length (ps_abuf s)" using l assms(4) by (simp add: m_def)
  have pad: "play_pad s olen = Some (s\<lparr>ps_abuf := m\<rparr>, ps_llen s)"
    using assms(2,4) l by (simp add: play_pad_def memset_at_def dif m_def)
  obtain s2 where pc: "play_pace C t (s\<lparr>ps_abuf := m\<rparr>) = PNext s2" "ps_abuf s2 = m" "\<not> ps_native s2"
    using assms(1,6,7) by (cases "ps_more s") (auto simp: play_pace_def Let_def)
  have n: "unat (ucast (ps_llen s) :: u32) = ?l" using l by (simp add: unsigned_ucast_eq take_bit_nat_eq_self)
  have dl: "unat ((ucast (ps_llen s) :: u32) * 2) = 2 * ?l" using l by (simp add: unat_word_ariths n)
  have dat: "play_data C t s2 (2 * ?l) = Some m"
    using assms(4,5,8) pc lm by (simp add: play_data_def)
  have "snd (play_send C t s2 (ps_llen s)) = [PlayWrite False (ucast (ps_llen s)) (take (2 * ?l) m)]"
    using pc dat dl by (simp add: play_send_def Let_def)
  moreover have "take (2 * ?l) m = take ?o (ps_abuf s) @ replicate (?l - ?o) 255 @ take ?l (drop ?l (ps_abuf s))"
    using l assms(4) by (simp add: m_def)
  ultimately show ?thesis by (simp add: play_output_def pad pc(1))
qed

theorem play_short_packet_overwritten_witness:
  "sent (snd (play_output (demo_ctx\<lparr>pc_timer := True\<rparr>) (demo_tick []) (demo_state []\<lparr>ps_abuf := [1, 2, 3, 4], ps_llen := 2\<rparr>) 1))
     = [(2, [1, 255, 3, 4])]"
  using play_short_packet_overwritten [of "demo_state []\<lparr>ps_abuf := [1, 2, 3, 4], ps_llen := 2\<rparr>" 1 "demo_ctx\<lparr>pc_timer := True\<rparr>" "demo_tick []"]
  by (simp add: demo_ctx_def demo_tick_def demo_state_def play_init_def)

text \<open>Changing the speed: a packet of \<open>olen\<close> samples is stretched or shortened by a quarter or half of them, the loop ends, and neither reads nor writes outside the buffer.\<close>

theorem play_stretch_length:
  assumes "file_buffer_laws B cont" and "1 \<le> olen" and "speed \<in> {-2, -1, 1, 2}" and "2 * (olen + 2) \<le> length m"
  shows "\<exists>b'. play_stretch B speed olen m b = Inr b' \<and> length (cont b') = length (cont b) +
     2 * (if speed > 0 then olen - speed_supplement speed olen else olen + speed_supplement speed olen)"
  using assms(3) play_stretch_fast [OF assms(1,2) _ assms(4), of speed b] play_stretch_slow [OF assms(1,2) _ assms(4), of speed b]
  by auto

theorem play_stretch_length_witness:
  "\<exists>b'. play_stretch pl_list_buffer (-1) 4 (replicate 12 1) [] = Inr b' \<and> length b' = 10"
  using play_stretch_length [OF pl_list_buffer_laws, of 4 "-1" "replicate 12 1" "[]"]
  by (simp add: speed_supplement_def)

lemma play_one_backup:
  assumes "play_one E args F name s = (LoopDone s', l)" and "play_path E name = (path, Some b)" and "pf_open F = SWITCH_STATUS_SUCCESS"
  shows "ps_backup s' = Some b"
proof -
  let ?s = "s\<lparr>ps_backup := Some b\<rparr>"
  obtain r l1 where q: "file_prepare E args F path ?s = (r, l1)" by fastforce
  note fp = file_prepare_facts [OF q]
  show ?thesis
  proof (cases r)
    case (Inl s1)
    then show ?thesis using assms fp by (simp add: play_one_def play_open_def q)
  next
    case (Inr x)
    obtain C s1 where x: "x = (C, s1)" by (cases x)
    obtain r2 l2 where lp: "play_loop C (pf_ticks F) s1 = (r2, l2)" by fastforce
    then obtain s2 where s2: "r2 = LoopDone s2" using assms by (cases r2) (simp_all add: play_one_def play_open_def q Inr x)
    have "ps_backup s2 = Some b" using play_loop_ok [of s1 C "pf_ticks F"] lp s2 fp by (simp add: Inr x pl_keeps_def)
    then show ?thesis using assms by (auto simp: play_one_def play_open_def q Inr x lp s2 file_finish_def)
  qed
qed

lemma play_files_step:
  assumes "pf_ready (F cur)" and "\<not> ps_done s" and "cur = 0 \<or> pf_sleep (F cur) = SWITCH_STATUS_SUCCESS"
    and "play_entry E args (F cur) name (s\<lparr>ps_eof := False, ps_start := (if cur \<noteq> 0 then 0 else ps_start s), ps_status := SWITCH_STATUS_SUCCESS\<rparr>) = (r, l)"
  shows "set l \<subseteq> set (snd (play_files E args F sl cur (name # names) s))"
    and "r = Inr s2 \<Longrightarrow> set (snd (play_files E args F sl (Suc cur) names s2)) \<subseteq> set (snd (play_files E args F sl cur (name # names) s))"
  using assms by (auto simp: Let_def case_prod_beta split: sum.split)

lemma play_one_opens:
  assumes "play_path E name = (path, None)" and "play_open F path (ps_backup s) = (Some b, bk)"
  shows "PlayOpen b \<in> set (snd (play_one E args F name s))"
proof -
  obtain r l where "file_prepare E args F b (s\<lparr>ps_backup := bk\<rparr>) = (r, l)" by fastforce
  then show ?thesis using assms
    by (simp add: play_one_def split: sum.split prod.split pl_loop_end.split)
qed

text \<open>\<open>backup_file\<close> is not reset between the files of a list: when a name without extension has been played and the next file, which has an extension, cannot be opened, the backup of the first one is opened and played in its place.\<close>

theorem play_backup_of_other_file:
  assumes "play_path E x = (xpath, Some b)" and "play_path E y = (ypath, None)"
    and "CHR '':'' \<notin> set x" and "CHR '':'' \<notin> set y"
    and "pf_open (F 0) = SWITCH_STATUS_SUCCESS" and "pf_open (F 1) \<noteq> SWITCH_STATUS_SUCCESS" and "pf_open_backup (F 1) = SWITCH_STATUS_SUCCESS"
    and "pf_ready (F 0)" and "pf_ready (F 1)" and "pf_sleep (F 1) = SWITCH_STATUS_SUCCESS" and "\<not> ps_done s"
    and "play_one E args (F 0) x (s\<lparr>ps_eof := False, ps_status := SWITCH_STATUS_SUCCESS\<rparr>) = (LoopDone s1, l1)" and "\<not> ps_done s1"
  shows "PlayOpen b \<in> set (snd (play_files E args F sl 0 [x, y] s))"
proof -
  have bk: "ps_backup s1 = Some b" by (rule play_one_backup [OF assms(12,1,5)])
  define s2 where "s2 = s1\<lparr>ps_eof := False, ps_start := 0, ps_status := SWITCH_STATUS_SUCCESS\<rparr>"
  obtain r2 l2 where o: "play_one E args (F 1) y s2 = (r2, l2)" by fastforce
  have l2: "PlayOpen b \<in> set l2"
    using play_one_opens [OF assms(2), of "F 1" s2 b None args] o assms(6,7) bk by (simp add: play_open_def s2_def)
  obtain r where "play_entry E args (F 1) y s2 = (r, l2)"
    using o assms(4) by (cases r2) (simp_all add: play_entry_def)
  then have e2: "play_entry E args (F (Suc 0)) y (s1\<lparr>ps_eof := False, ps_start := (if Suc 0 \<noteq> 0 then 0 else ps_start s1),
      ps_status := SWITCH_STATUS_SUCCESS\<rparr>) = (r, l2)" by (simp add: s2_def)
  have "set l2 \<subseteq> set (snd (play_files E args F sl (Suc 0) [y] s1))"
    by (rule play_files_step(1) [where F = F and cur = "Suc 0", OF _ assms(13) _ e2]) (use assms(9,10) in simp_all)
  with l2 have in2: "PlayOpen b \<in> set (snd (play_files E args F sl (Suc 0) [y] s1))" by blast
  have e1: "play_entry E args (F 0) x (s\<lparr>ps_eof := False, ps_start := (if (0 :: nat) \<noteq> 0 then 0 else ps_start s),
      ps_status := SWITCH_STATUS_SUCCESS\<rparr>) = (Inr s1, l1)"
    using assms(3,12) by (simp add: play_entry_def)
  have "set (snd (play_files E args F sl (Suc 0) [y] s1)) \<subseteq> set (snd (play_files E args F sl 0 [x, y] s))"
    by (rule play_files_step(2) [where F = F and cur = 0, OF assms(8,11) _ e1 refl]) simp
  with in2 show ?thesis by blast
qed

theorem play_backup_of_other_file_witness:
  "PlayOpen ''/x.wav'' \<in> set (snd (play_files demo_env None
     (\<lambda>i. (demo_file (if i = 0 then SWITCH_STATUS_SUCCESS else SWITCH_STATUS_FALSE) [demo_tick [], demo_tick []])\<lparr>pf_channels := 0\<rparr>)
     250 0 [''/x'', ''/y.wav''] (play_init demo_env (demo_call ''/x!/y.wav''))))"
proof -
  let ?F = "\<lambda>i :: nat. (demo_file (if i = 0 then SWITCH_STATUS_SUCCESS else SWITCH_STATUS_FALSE) [demo_tick [], demo_tick []])\<lparr>pf_channels := 0\<rparr>"
  let ?s = "play_init demo_env (demo_call ''/x!/y.wav'')"
  let ?o = "play_one demo_env None (?F 0) ''/x'' (?s\<lparr>ps_eof := False, ps_status := SWITCH_STATUS_SUCCESS\<rparr>)"
  have p: "play_path demo_env ''/x'' = (''/x.PCMU'', Some ''/x.wav'')" "play_path demo_env ''/y.wav'' = (''/y.wav'', None)" by code_simp+
  have "case fst ?o of LoopDone s1 \<Rightarrow> \<not> ps_done s1 | _ \<Rightarrow> False" by code_simp
  then obtain s1 l1 where o: "?o = (LoopDone s1, l1)" "\<not> ps_done s1" by (cases ?o) (auto split: pl_loop_end.splits)
  show ?thesis
    by (rule play_backup_of_other_file [where F = ?F, OF p _ _ _ _ _ _ _ _ _ o(1) o(2)]) (simp_all add: demo_file_def play_init_def)
qed

end
