(* ===== verification/Base64.thy ===== *)
theory Base64
  imports Prelude
begin

text \<open>
  \<open>src/libs/libhv/util/base64.c\<close>: \<open>hv_base64_encode\<close> and \<open>hv_base64_decode\<close>. Bytes
  and characters are 8-bit words; C promotes them to \<open>int\<close> before it shifts and masks, so
  the intermediate values are integers. \<open>unsigned int\<close> indices that can wrap are 32-bit
  words. A read outside the input or a write outside the output buffer is the value \<open>None\<close>.
\<close>

unbundle bit_operations_syntax

section \<open>Tables\<close>

definition base64en :: "byte list" where
  "base64en = map of_char ''ABCDEFGHIJKLMNOPQRSTUVWXYZabcdefghijklmnopqrstuvwxyz0123456789+/''"

definition BASE64_PAD :: byte where
  "BASE64_PAD = 61"

definition BASE64DE_FIRST :: int where
  "BASE64DE_FIRST = 43"

definition BASE64DE_LAST :: int where
  "BASE64DE_LAST = 122"

definition base64de :: "int list" where
  "base64de =
     [62, -1, -1, -1, 63, 52, 53, 54,
      55, 56, 57, 58, 59, 60, 61, -1,
      -1, -1, -1, -1, -1, -1, 0, 1,
      2, 3, 4, 5, 6, 7, 8, 9,
      10, 11, 12, 13, 14, 15, 16, 17,
      18, 19, 20, 21, 22, 23, 24, 25,
      -1, -1, -1, -1, -1, -1, 26, 27,
      28, 29, 30, 31, 32, 33, 34, 35,
      36, 37, 38, 39, 40, 41, 42, 43,
      44, 45, 46, 47, 48, 49, 50, 51]"

abbreviation en :: "int \<Rightarrow> byte" where
  "en v \<equiv> base64en ! nat v"

section \<open>Encoding\<close>

text \<open>What iteration \<open>i\<close> of the loop appends to the output.\<close>

definition encode_step :: "byte list \<Rightarrow> nat \<Rightarrow> byte list" where
  "encode_step inp i =
     (if i mod 3 = 0 then [en (drop_bit 2 (uint (inp ! i)) AND 0x3F)]
      else if i mod 3 = 1 then
        [en (push_bit 4 (uint (inp ! (i - 1)) AND 0x3) + (drop_bit 4 (uint (inp ! i)) AND 0xF))]
      else
        [en (push_bit 2 (uint (inp ! (i - 1)) AND 0xF) + (drop_bit 6 (uint (inp ! i)) AND 0x3)),
         en (uint (inp ! i) AND 0x3F)])"

function encode_loop :: "byte list \<Rightarrow> nat \<Rightarrow> byte list \<Rightarrow> byte list" where
  "encode_loop inp i out =
     (if i < length inp then encode_loop inp (i + 1) (out @ encode_step inp i) else out)"
  by pat_completeness auto
termination by (relation "measure (\<lambda>(inp, i, out). length inp - i)") auto

text \<open>The step back and the padding; \<open>i\<close> is the unsigned index after \<open>i -= 1\<close>.\<close>

definition encode_pad :: "byte list \<Rightarrow> u32 \<Rightarrow> byte list option" where
  "encode_pad inp i =
     (if i mod 3 = 0 then
        if unat i < length inp
        then Some [en (push_bit 4 (uint (inp ! unat i) AND 0x3)), BASE64_PAD, BASE64_PAD]
        else None
      else if i mod 3 = 1 then
        if unat i < length inp
        then Some [en (push_bit 2 (uint (inp ! unat i) AND 0xF)), BASE64_PAD]
        else None
      else Some [])"

definition hv_base64_encode :: "byte list \<Rightarrow> byte list option" where
  "hv_base64_encode inp =
     map_option ((@) (encode_loop inp 0 [])) (encode_pad inp (of_nat (length inp) - 1))"

section \<open>Decoding\<close>

text \<open>\<open>out[j] = v\<close> and \<open>out[j] += v\<close> in a buffer of fixed size.\<close>

definition put :: "byte list \<Rightarrow> nat \<Rightarrow> byte \<Rightarrow> byte list option" where
  "put out j v = (if j < length out then Some (out[j := v]) else None)"

definition add :: "byte list \<Rightarrow> nat \<Rightarrow> byte \<Rightarrow> byte list option" where
  "add out j v = (if j < length out then Some (out[j := out ! j + v]) else None)"

text \<open>The table lookup with its range check; \<open>None\<close> stands for \<open>return -1\<close>.\<close>

definition decode_char :: "byte \<Rightarrow> int option" where
  "decode_char ch =
     (if sint ch < BASE64DE_FIRST \<or> sint ch > BASE64DE_LAST then None
      else let c = base64de ! nat (sint ch - BASE64DE_FIRST) in if c = -1 then None else Some c)"

text \<open>One iteration of the switch: the buffer and \<open>j\<close> afterwards.\<close>

definition decode_step :: "byte list \<Rightarrow> nat \<Rightarrow> int \<Rightarrow> byte list \<Rightarrow> nat \<Rightarrow> (byte list \<times> nat) option" where
  "decode_step inp i c out j =
     (let inlen = of_nat (length inp) :: u32; i32 = of_nat i :: u32
      in if i mod 4 = 0 then
           map_option (\<lambda>out'. (out', j)) (put out j (of_int (push_bit 2 c AND 0xFF)))
         else if i mod 4 = 1 then
           Option.bind (add out j (of_int (drop_bit 4 c AND 0x3))) (\<lambda>out1.
             if i32 < inlen - 3 \<or> inp ! unat (inlen - 2) \<noteq> BASE64_PAD
             then map_option (\<lambda>out2. (out2, j + 1)) (put out1 (j + 1) (of_int (push_bit 4 (c AND 0xF))))
             else Some (out1, j + 1))
         else if i mod 4 = 2 then
           Option.bind (add out j (of_int (drop_bit 2 c AND 0xF))) (\<lambda>out1.
             if i32 < inlen - 2 \<or> inp ! unat (inlen - 1) \<noteq> BASE64_PAD
             then map_option (\<lambda>out2. (out2, j + 1)) (put out1 (j + 1) (of_int (push_bit 6 (c AND 0x3))))
             else Some (out1, j + 1))
         else map_option (\<lambda>out'. (out', j + 1)) (add out j (of_int c)))"

text \<open>The loop: \<open>Some (r, out)\<close> is the returned number (\<open>-1\<close> for an invalid character)
  with the buffer, \<open>None\<close> a write outside the buffer.\<close>

function decode_loop :: "byte list \<Rightarrow> nat \<Rightarrow> byte list \<Rightarrow> nat \<Rightarrow> (int \<times> byte list) option" where
  "decode_loop inp i out j =
     (if i < length inp then
        if inp ! i = BASE64_PAD then Some (int j, out)
        else case decode_char (inp ! i) of
               None \<Rightarrow> Some (-1, out)
             | Some c \<Rightarrow>
                 (case decode_step inp i c out j of
                    None \<Rightarrow> None
                  | Some (out', j') \<Rightarrow> decode_loop inp (i + 1) out' j')
      else Some (int j, out))"
  by pat_completeness auto
termination by (relation "measure (\<lambda>(inp, i, out, j). length inp - i)") auto

definition hv_base64_decode :: "byte list \<Rightarrow> byte list \<Rightarrow> (int \<times> byte list) option" where
  "hv_base64_decode inp out = decode_loop inp 0 out 0"

definition BASE64_ENCODE_OUT_SIZE :: "nat \<Rightarrow> nat" where
  "BASE64_ENCODE_OUT_SIZE s = (s + 2) div 3 * 4"

definition BASE64_DECODE_OUT_SIZE :: "nat \<Rightarrow> nat" where
  "BASE64_DECODE_OUT_SIZE s = s div 4 * 3"

declare encode_loop.simps [simp del] decode_loop.simps [simp del]


section \<open>The reference encoding\<close>

text \<open>
  RFC 4648: three bytes form a 24-bit number whose four base-64 digits are the four
  characters; a final group of one or two bytes is padded.
\<close>

definition digit :: "int \<Rightarrow> nat \<Rightarrow> byte" where
  "digit v k = en (v div 64 ^ k mod 64)"

fun rfc4648 :: "byte list \<Rightarrow> byte list" where
  "rfc4648 [] = []"
| "rfc4648 [a] = (let v = uint a * 65536 in [digit v 3, digit v 2, BASE64_PAD, BASE64_PAD])"
| "rfc4648 [a, b] =
     (let v = uint a * 65536 + uint b * 256 in [digit v 3, digit v 2, digit v 1, BASE64_PAD])"
| "rfc4648 (a # b # c # r) =
     (let v = uint a * 65536 + uint b * 256 + uint c
      in digit v 3 # digit v 2 # digit v 1 # digit v 0 # rfc4648 r)"

section \<open>Encoding meets the reference\<close>

lemma and_mask_mod:
  fixes x :: int
  shows "x AND 3 = x mod 4" "x AND 15 = x mod 16" "x AND 63 = x mod 64" "x AND 255 = x mod 256"
  using take_bit_eq_mask [of 2 x] take_bit_eq_mask [of 4 x] take_bit_eq_mask [of 6 x]
    take_bit_eq_mask [of 8 x]
  by (simp_all add: mask_eq_exp_minus_1 take_bit_eq_mod)

lemmas bits_arith = and_mask_mod push_bit_eq_mult drop_bit_eq_div

lemma byte_range:
  fixes a :: byte
  shows "0 \<le> uint a" "uint a < 256"
  using uint_bounded [of a] by simp_all

lemma digits3:
  assumes "0 \<le> a" "a < 256" "0 \<le> b" "b < 256" "0 \<le> c" "c < (256 :: int)"
  shows "(a * 65536 + b * 256 + c) div 64 ^ 3 mod 64 = a div 4 mod 64"
    and "(a * 65536 + b * 256 + c) div 64 ^ 2 mod 64 = a mod 4 * 16 + b div 16 mod 16"
    and "(a * 65536 + b * 256 + c) div 64 ^ 1 mod 64 = b mod 16 * 4 + c div 64 mod 4"
    and "(a * 65536 + b * 256 + c) div 64 ^ 0 mod 64 = c mod 64"
proof -
  define s t where "s = a div 4" and "t = a mod 4"
  define q r where "q = b div 16" and "r = b mod 16"
  define x y where "x = c div 64" and "y = c mod 64"
  have a: "a = 4 * s + t" "0 \<le> t" "t < 4" "s < 64" using assms by (simp_all add: s_def t_def)
  have b: "b = 16 * q + r" "0 \<le> r" "r < 16" "0 \<le> q" "q < 16" using assms by (simp_all add: q_def r_def)
  have c: "c = 64 * x + y" "0 \<le> y" "y < 64" "0 \<le> x" "x < 4" using assms by (simp_all add: x_def y_def)
  let ?v = "a * 65536 + b * 256 + c"
  show "?v div 64 ^ 3 mod 64 = a div 4 mod 64"
    using assms by simp
  have "?v div 4096 = 64 * s + (16 * t + q)"
    by (rule int_div_pos_eq [where r = "256 * r + c"]) (use assms a b in auto)
  moreover have "(64 * s + (16 * t + q)) mod 64 = 16 * t + q"
    by (rule int_mod_pos_eq [where q = s]) (use a b in auto)
  ultimately show "?v div 64 ^ 2 mod 64 = a mod 4 * 16 + b div 16 mod 16"
    using b by (simp add: t_def [symmetric] q_def [symmetric])
  have "?v div 64 = 64 * (a * 16 + q) + (4 * r + x)"
    by (rule int_div_pos_eq [where r = y]) (use assms b c in auto)
  moreover have "(64 * (a * 16 + q) + (4 * r + x)) mod 64 = 4 * r + x"
    by (rule int_mod_pos_eq [where q = "a * 16 + q"]) (use b c in auto)
  ultimately show "?v div 64 ^ 1 mod 64 = b mod 16 * 4 + c div 64 mod 4"
    using c by (simp add: r_def [symmetric] x_def [symmetric])
  have "?v mod 64 = y"
    by (rule int_mod_pos_eq [where q = "a * 1024 + b * 4 + x"]) (use c in auto)
  then show "?v div 64 ^ 0 mod 64 = c mod 64"
    by (simp add: y_def [symmetric])
qed

text \<open>The four characters of a full group as the loop computes them, and those of a last group.\<close>

fun body :: "byte list \<Rightarrow> byte list" where
  "body (a # b # c # r) =
     encode_step [a, b, c] 0 @ encode_step [a, b, c] 1 @ encode_step [a, b, c] 2 @ body r"
| "body [a, b] = encode_step [a, b] 0 @ encode_step [a, b] 1"
| "body [a] = encode_step [a] 0"
| "body [] = []"

lemma encode_loop_Nil: "encode_loop inp (length inp) out = out"
  by (subst encode_loop.simps) simp

lemma encode_loop_next:
  "i < length inp \<Longrightarrow> encode_loop inp i out = encode_loop inp (Suc i) (out @ encode_step inp i)"
  by (subst encode_loop.simps) simp

lemma encode_step_pre:
  assumes "length pre mod 3 = 0" and "k < 3" and "k < length xs"
  shows "encode_step (pre @ xs) (length pre + k) = encode_step xs k"
proof -
  consider "k = 0" | "k = 1" | "k = 2" using assms(2) by linarith
  then show ?thesis
  proof cases
    case 1
    with assms(1) show ?thesis by (simp add: encode_step_def nth_append)
  next
    case 2
    have "Suc (length pre) mod 3 = 1" using assms(1) by presburger
    with 2 show ?thesis by (simp add: encode_step_def nth_append)
  next
    case 3
    have m: "Suc (Suc (length pre)) mod 3 = 2" using assms(1) by presburger
    have x: "length pre + 2 = Suc (Suc (length pre))" by simp
    show ?thesis unfolding 3 x by (simp add: encode_step_def nth_append m)
  qed
qed

lemma encode_step_cut:
  assumes "k < length xs"
  shows "encode_step (xs @ ys) k = encode_step xs k"
  using assms by (simp add: encode_step_def nth_append)

lemma encode_loop_pre:
  assumes "length pre mod 3 = 0" and "k < 3" and "k < length xs" and "m = Suc k"
  shows "encode_loop (pre @ xs) (length pre + k) out
    = encode_loop (pre @ xs) (length pre + m) (out @ encode_step xs k)"
  using encode_loop_next [of "length pre + k" "pre @ xs" out] encode_step_pre [OF assms(1-3)] assms(3,4)
  by simp

lemma encode_loop_body:
  "length pre mod 3 = 0 \<Longrightarrow> encode_loop (pre @ xs) (length pre + 0) out = out @ body xs"
proof (induction xs arbitrary: pre out rule: body.induct)
  case (1 a b c r)
  let ?xs = "a # b # c # r"
  have cut: "encode_step ?xs k = encode_step [a, b, c] k" if "k < 3" for k
    using encode_step_cut [of k "[a, b, c]" r] that by simp
  have e: "length (pre @ [a, b, c]) + 0 = length pre + 3" "(pre @ [a, b, c]) @ r = pre @ ?xs"
    by simp_all
  have m: "length (pre @ [a, b, c]) mod 3 = 0" using 1(2) by simp
  have "encode_loop (pre @ ?xs) (length pre + 0) out
      = encode_loop (pre @ ?xs) (length pre + 1) (out @ encode_step ?xs 0)"
    by (rule encode_loop_pre [OF 1(2)]) simp_all
  also have "\<dots> = encode_loop (pre @ ?xs) (length pre + 2) ((out @ encode_step ?xs 0) @ encode_step ?xs 1)"
    by (rule encode_loop_pre [OF 1(2)]) simp_all
  also have "\<dots> = encode_loop (pre @ ?xs) (length pre + 3)
      (((out @ encode_step ?xs 0) @ encode_step ?xs 1) @ encode_step ?xs 2)"
    by (rule encode_loop_pre [OF 1(2)]) simp_all
  also have "\<dots> = (((out @ encode_step ?xs 0) @ encode_step ?xs 1) @ encode_step ?xs 2) @ body r"
    by (rule 1(1) [OF m, unfolded e])
  finally show ?case by (simp add: cut)
next
  case (2 a b)
  have "encode_loop (pre @ [a, b]) (length pre + 0) out
      = encode_loop (pre @ [a, b]) (length pre + 1) (out @ encode_step [a, b] 0)"
    by (rule encode_loop_pre [OF 2]) simp_all
  also have "\<dots> = encode_loop (pre @ [a, b]) (length pre + 2)
      ((out @ encode_step [a, b] 0) @ encode_step [a, b] 1)"
    by (rule encode_loop_pre [OF 2]) simp_all
  finally show ?case using encode_loop_Nil [of "pre @ [a, b]"] by simp
next
  case (3 a)
  have "encode_loop (pre @ [a]) (length pre + 0) out
      = encode_loop (pre @ [a]) (length pre + 1) (out @ encode_step [a] 0)"
    by (rule encode_loop_pre [OF 3]) simp_all
  then show ?case using encode_loop_Nil [of "pre @ [a]"] by simp
next
  case 4
  show ?case using encode_loop_Nil [of pre] by simp
qed

lemma digit_vals:
  fixes a b c :: byte
  shows "digit (uint a * 65536 + uint b * 256 + uint c) 3 = en (uint a div 4 mod 64)"
    and "digit (uint a * 65536 + uint b * 256 + uint c) 2 = en (uint a mod 4 * 16 + uint b div 16 mod 16)"
    and "digit (uint a * 65536 + uint b * 256 + uint c) 1 = en (uint b mod 16 * 4 + uint c div 64 mod 4)"
    and "digit (uint a * 65536 + uint b * 256 + uint c) 0 = en (uint c mod 64)"
  unfolding digit_def by (simp_all only: digits3 byte_range)

lemma encode_group:
  "encode_step [a, b, c] 0 @ encode_step [a, b, c] 1 @ encode_step [a, b, c] 2 =
     (let v = uint a * 65536 + uint b * 256 + uint c in [digit v 3, digit v 2, digit v 1, digit v 0])"
  unfolding Let_def digit_vals
  by (simp add: encode_step_def bits_arith mult.commute)

lemma encode_group2:
  "encode_step [a, b] 0 @ encode_step [a, b] 1 @ [en (push_bit 2 (uint b AND 0xF))] =
     (let v = uint a * 65536 + uint b * 256 in [digit v 3, digit v 2, digit v 1])"
  using digit_vals [of a b 0] by (simp add: encode_step_def bits_arith mult.commute)

lemma encode_group1:
  "encode_step [a] 0 @ [en (push_bit 4 (uint a AND 0x3))] =
     (let v = uint a * 65536 in [digit v 3, digit v 2])"
  using digit_vals [of a 0 0] by (simp add: encode_step_def bits_arith mult.commute)

text \<open>The padding, by the length of the input.\<close>

lemma rfc_body:
  "xs \<noteq> [] \<Longrightarrow>
   rfc4648 xs = body xs @
     (if (length xs - 1) mod 3 = 0 then [en (push_bit 4 (uint (last xs) AND 0x3)), BASE64_PAD, BASE64_PAD]
      else if (length xs - 1) mod 3 = 1 then [en (push_bit 2 (uint (last xs) AND 0xF)), BASE64_PAD]
      else [])"
proof (induction xs rule: rfc4648.induct)
  case (2 a)
  then show ?case using encode_group1 [of a] by (simp add: Let_def)
next
  case (3 a b)
  then show ?case using encode_group2 [of a b] by (simp add: Let_def)
next
  case (4 a b c r)
  have m: "(length (a # b # c # r) - 1) mod 3 = (length r - 1) mod 3" if "r \<noteq> []"
    using that by (cases r) simp_all
  show ?case
  proof (cases "r = []")
    case True
    then show ?thesis using encode_group [of a b c] by (simp add: Let_def)
  next
    case False
    with 4 m encode_group [of a b c] show ?thesis by (simp add: Let_def)
  qed
qed simp

lemma encode_pad_last:
  assumes "xs \<noteq> []" and "length xs < 2 ^ 32"
  shows "encode_pad xs (of_nat (length xs) - 1) = Some
     (if (length xs - 1) mod 3 = 0 then [en (push_bit 4 (uint (last xs) AND 0x3)), BASE64_PAD, BASE64_PAD]
      else if (length xs - 1) mod 3 = 1 then [en (push_bit 2 (uint (last xs) AND 0xF)), BASE64_PAD]
      else [])"
proof -
  define i :: u32 where "i = of_nat (length xs) - 1"
  have i: "i = of_nat (length xs - 1)" using assms(1) by (cases xs) (simp_all add: i_def)
  then have u: "unat i = length xs - 1" using assms by simp
  have m: "unat (i mod 3) = (length xs - 1) mod 3"
    using u by (simp add: unat_mod_distrib)
  have "(i mod 3 = 0) = ((length xs - 1) mod 3 = 0)" "(i mod 3 = 1) = ((length xs - 1) mod 3 = 1)"
    unfolding m [symmetric] by (simp_all only: word_unat_eq_iff unat_0 unat_1)
  moreover have "unat i < length xs" "xs ! unat i = last xs"
    using assms(1) u by (simp_all add: last_conv_nth)
  ultimately show ?thesis
    unfolding encode_pad_def i_def [symmetric] by (simp only: if_True if_distrib [where f = Some])
qed

lemma encode_rfc:
  assumes "xs \<noteq> []" and "length xs < 2 ^ 32"
  shows "hv_base64_encode xs = Some (rfc4648 xs)"
  using encode_loop_body [of "[]" xs "[]"] encode_pad_last [OF assms] rfc_body [OF assms(1)]
  by (simp add: hv_base64_encode_def)

section \<open>Decoding inverts encoding\<close>

lemma base64en_codes:
  "base64en =
  [65, 66, 67, 68, 69, 70, 71, 72, 73, 74, 75, 76, 77, 78, 79, 80, 81, 82, 83, 84, 85, 86, 87, 88, 89, 90,
   97, 98, 99, 100, 101, 102, 103, 104, 105, 106, 107, 108, 109, 110, 111, 112, 113, 114, 115, 116, 117,
   118, 119, 120, 121, 122, 48, 49, 50, 51, 52, 53, 54, 55, 56, 57, 43, 47]"
  unfolding base64en_def by (simp add: of_char_Char)

lemma tables_inverse:
  "map (\<lambda>ch. (decode_char ch, ch = BASE64_PAD)) base64en = map (\<lambda>n. (Some (int n), False)) [0..<64]"
  unfolding base64en_codes
  by (simp add: decode_char_def BASE64DE_FIRST_def BASE64DE_LAST_def base64de_def BASE64_PAD_def upt_rec)

lemma base64en_length [simp]: "length base64en = 64"
  by (simp add: base64en_def)

lemma en_decodes:
  assumes "0 \<le> v" "v < 64"
  shows "decode_char (en v) = Some v \<and> en v \<noteq> BASE64_PAD"
proof -
  have n: "nat v < 64" "int (nat v) = v" using assms by simp_all
  have "map (\<lambda>ch. (decode_char ch, ch = BASE64_PAD)) base64en ! nat v
      = map (\<lambda>n. (Some (int n), False)) [0..<64] ! nat v"
    by (simp only: tables_inverse)
  with n show ?thesis by simp
qed

text \<open>The tests for a padded last group, on inputs of at least four characters.\<close>

definition full1 :: "byte list \<Rightarrow> nat \<Rightarrow> bool" where
  "full1 inp i \<longleftrightarrow> i < length inp - 3 \<or> inp ! (length inp - 2) \<noteq> BASE64_PAD"

definition full2 :: "byte list \<Rightarrow> nat \<Rightarrow> bool" where
  "full2 inp i \<longleftrightarrow> i < length inp - 2 \<or> inp ! (length inp - 1) \<noteq> BASE64_PAD"

lemma full_tests:
  assumes "4 \<le> length inp" and "length inp < 2 ^ 32" and "i < length inp"
  shows "(of_nat i < (of_nat (length inp) :: u32) - 3 \<or>
           inp ! unat ((of_nat (length inp) :: u32) - 2) \<noteq> BASE64_PAD) = full1 inp i"
    and "(of_nat i < (of_nat (length inp) :: u32) - 2 \<or>
           inp ! unat ((of_nat (length inp) :: u32) - 1) \<noteq> BASE64_PAD) = full2 inp i"
proof -
  have d: "(of_nat (length inp) :: u32) - of_nat k = of_nat (length inp - k)" if "k \<le> 4" for k
    using of_nat_diff [of k "length inp", where 'a = u32] assms(1) that by simp
  have e: "(of_nat (length inp) :: u32) - 3 = of_nat (length inp - 3)"
    "(of_nat (length inp) :: u32) - 2 = of_nat (length inp - 2)"
    "(of_nat (length inp) :: u32) - 1 = of_nat (length inp - 1)"
    using d [of 3] d [of 2] d [of 1] by simp_all
  have b: "length inp - k < 2 ^ LENGTH(32)" for k using assms(2) by simp
  have ib: "i < 2 ^ LENGTH(32)" using assms by simp
  show "(of_nat i < (of_nat (length inp) :: u32) - 3 \<or>
           inp ! unat ((of_nat (length inp) :: u32) - 2) \<noteq> BASE64_PAD) = full1 inp i"
    unfolding e full1_def by (simp only: of_nat_word_less_iff [OF ib b] unat_of_nat_small [OF b])
  show "(of_nat i < (of_nat (length inp) :: u32) - 2 \<or>
           inp ! unat ((of_nat (length inp) :: u32) - 1) \<noteq> BASE64_PAD) = full2 inp i"
    unfolding e full2_def by (simp only: of_nat_word_less_iff [OF ib b] unat_of_nat_small [OF b])
qed

lemma decode_loop_next:
  assumes "i < length inp" and "inp ! i = en v" and "0 \<le> v" and "v < 64"
    and "decode_step inp i v out j = Some (out', j')"
  shows "decode_loop inp i out j = decode_loop inp (i + 1) out' j'"
  using assms en_decodes [OF assms(3,4)] by (subst decode_loop.simps) simp

lemma put_at: "put (xs @ x # ys) (length xs) v = Some (xs @ v # ys)"
  by (simp add: put_def)

lemma add_at: "add (xs @ x # ys) (length xs) v = Some (xs @ (x + v) # ys)"
  by (simp add: add_def)

lemma decode_step0:
  "i mod 4 = 0 \<Longrightarrow> decode_step inp i v (d @ x # r) (length d) = Some (d @ of_int (v * 4 mod 256) # r, length d)"
  by (simp add: decode_step_def Let_def put_at bits_arith mult.commute)

lemma decode_step1:
  assumes "4 \<le> length inp" "length inp < 2 ^ 32" "i < length inp" "i mod 4 = 1"
  shows "full1 inp i \<Longrightarrow> decode_step inp i v (d @ x # y # r) (length d)
      = Some ((d @ [x + of_int (v div 16 mod 4)]) @ of_int (v mod 16 * 16) # r, length (d @ [x]))"
    and "\<not> full1 inp i \<Longrightarrow> decode_step inp i v (d @ x # r) (length d)
      = Some (d @ (x + of_int (v div 16 mod 4)) # r, length (d @ [x]))"
  using put_at [of "d @ [x + of_int (v div 16 mod 4)]" y r] assms(4)
  unfolding decode_step_def Let_def full_tests [OF assms(1-3)]
  by (simp_all add: add_at bits_arith mult.commute)

lemma decode_step2:
  assumes "4 \<le> length inp" "length inp < 2 ^ 32" "i < length inp" "i mod 4 = 2"
  shows "full2 inp i \<Longrightarrow> decode_step inp i v (d @ x # y # r) (length d)
      = Some ((d @ [x + of_int (v div 4 mod 16)]) @ of_int (v mod 4 * 64) # r, length (d @ [x]))"
    and "\<not> full2 inp i \<Longrightarrow> decode_step inp i v (d @ x # r) (length d)
      = Some (d @ (x + of_int (v div 4 mod 16)) # r, length (d @ [x]))"
  using put_at [of "d @ [x + of_int (v div 4 mod 16)]" y r] assms(4)
  unfolding decode_step_def Let_def full_tests [OF assms(1-3)]
  by (simp_all add: add_at bits_arith mult.commute)

lemma decode_step3:
  "i mod 4 = 3 \<Longrightarrow> decode_step inp i v (d @ x # r) (length d) = Some (d @ (x + of_int v) # r, length (d @ [x]))"
  by (simp add: decode_step_def Let_def add_at)

lemma bytes_rebuilt:
  fixes a b c :: byte
  shows "(of_int ((uint a div 4 mod 64) * 4 mod 256) :: byte)
      + of_int ((uint a mod 4 * 16 + uint b div 16 mod 16) div 16 mod 4) = a"
    and "(of_int ((uint a mod 4 * 16 + uint b div 16 mod 16) mod 16 * 16) :: byte)
      + of_int ((uint b mod 16 * 4 + uint c div 64 mod 4) div 4 mod 16) = b"
    and "(of_int ((uint b mod 16 * 4 + uint c div 64 mod 4) mod 4 * 64) :: byte) + of_int (uint c mod 64) = c"
proof -
  have q: "0 \<le> uint x div 16" "uint x div 16 < 16" "0 \<le> uint x div 64" "uint x div 64 < 4"
    "uint x div 4 < 64" "0 \<le> uint x div 4" for x :: byte
    using byte_range [of x] by linarith+
  have r: "uint x div 4 mod 64 = uint x div 4" "uint x div 16 mod 16 = uint x div 16"
    "uint x div 64 mod 4 = uint x div 64" for x :: byte
    using q [of x] by (simp_all only: mod_pos_pos_trivial)
  have "uint a div 4 * 4 + uint a mod 4 = uint a" "uint b div 16 * 16 + uint b mod 16 = uint b"
    "uint c div 64 * 64 + uint c mod 64 = uint c" by simp_all
  then have w: "(of_int (uint a div 4 * 4) :: byte) + of_int (uint a mod 4) = a"
    "(of_int (uint b div 16 * 16) :: byte) + of_int (uint b mod 16) = b"
    "(of_int (uint c div 64 * 64) :: byte) + of_int (uint c mod 64) = c"
    by (simp_all only: of_int_add [symmetric] word_of_int_uint)
  show "(of_int ((uint a div 4 mod 64) * 4 mod 256) :: byte)
      + of_int ((uint a mod 4 * 16 + uint b div 16 mod 16) div 16 mod 4) = a"
  proof -
    have "uint a div 4 mod 64 * 4 mod 256 = uint a div 4 * 4"
      unfolding r using q(5,6) [of a] by (intro mod_pos_pos_trivial) linarith+
    moreover have "(uint a mod 4 * 16 + uint b div 16 mod 16) div 16 mod 4 = uint a mod 4"
      unfolding r using q(1,2) [of b] by (simp add: div_add1_eq [of _ "uint b div 16"])
    ultimately show ?thesis using w(1) by simp
  qed
  show "(of_int ((uint a mod 4 * 16 + uint b div 16 mod 16) mod 16 * 16) :: byte)
      + of_int ((uint b mod 16 * 4 + uint c div 64 mod 4) div 4 mod 16) = b"
  proof -
    have "(uint a mod 4 * 16 + uint b div 16 mod 16) mod 16 = uint b div 16"
      unfolding r using q [of b] by simp
    moreover have "(uint b mod 16 * 4 + uint c div 64 mod 4) div 4 mod 16 = uint b mod 16"
      unfolding r using q [of c] by simp
    ultimately show ?thesis using w(2) by simp
  qed
  show "(of_int ((uint b mod 16 * 4 + uint c div 64 mod 4) mod 4 * 64) :: byte) + of_int (uint c mod 64) = c"
  proof -
    have "(uint b mod 16 * 4 + uint c div 64 mod 4) mod 4 = uint c div 64"
      unfolding r using q [of c] by simp
    then show ?thesis using w(3) by simp
  qed
qed

lemma digit_ranges:
  fixes a b c :: byte
  shows "0 \<le> uint a div 4 mod 64" "uint a div 4 mod 64 < 64"
    "0 \<le> uint a mod 4 * 16 + uint b div 16 mod 16" "uint a mod 4 * 16 + uint b div 16 mod 16 < 64"
    "0 \<le> uint b mod 16 * 4 + uint c div 64 mod 4" "uint b mod 16 * 4 + uint c div 64 mod 4 < 64"
    "0 \<le> uint c mod 64" "uint c mod 64 < 64"
proof -
  have "0 \<le> x mod k" "x mod k \<le> k - 1" if "0 < k" for x k :: int
    using that by (simp_all add: pos_mod_bound zle_diff1_eq)
  from this [of 4 "uint a"] this [of 16 "uint b div 16"] this [of 16 "uint b"] this [of 4 "uint c div 64"]
  show "0 \<le> uint a mod 4 * 16 + uint b div 16 mod 16" "uint a mod 4 * 16 + uint b div 16 mod 16 < 64"
    "0 \<le> uint b mod 16 * 4 + uint c div 64 mod 4" "uint b mod 16 * 4 + uint c div 64 mod 4 < 64"
    by linarith+
qed simp_all

text \<open>
  The four characters of a group and the part of a byte that is stored before the next
  character is read.
\<close>

definition ch0 :: "byte \<Rightarrow> byte" where
  "ch0 a = en (uint a div 4 mod 64)"

definition ch1 :: "byte \<Rightarrow> byte \<Rightarrow> byte" where
  "ch1 a b = en (uint a mod 4 * 16 + uint b div 16 mod 16)"

definition ch2 :: "byte \<Rightarrow> byte \<Rightarrow> byte" where
  "ch2 b c = en (uint b mod 16 * 4 + uint c div 64 mod 4)"

definition ch3 :: "byte \<Rightarrow> byte" where
  "ch3 c = en (uint c mod 64)"

definition part1 :: "byte \<Rightarrow> byte \<Rightarrow> byte" where
  "part1 a b = of_int ((uint a mod 4 * 16 + uint b div 16 mod 16) mod 16 * 16)"

definition part2 :: "byte \<Rightarrow> byte \<Rightarrow> byte" where
  "part2 b c = of_int ((uint b mod 16 * 4 + uint c div 64 mod 4) mod 4 * 64)"

lemma rfc_chars:
  "rfc4648 [a] = [ch0 a, ch1 a 0, BASE64_PAD, BASE64_PAD]"
  "rfc4648 [a, b] = [ch0 a, ch1 a b, ch2 b 0, BASE64_PAD]"
  "rfc4648 (a # b # c # r) = ch0 a # ch1 a b # ch2 b c # ch3 c # rfc4648 r"
  using digit_vals [of a 0 0] digit_vals [of a b 0] digit_vals [of a b c]
  by (simp_all add: Let_def ch0_def ch1_def ch2_def ch3_def)

lemma ch_not_pad: "ch2 b c \<noteq> BASE64_PAD" "ch3 c \<noteq> BASE64_PAD"
  unfolding ch2_def ch3_def
  using en_decodes [OF digit_ranges(5,6) [of b c]] en_decodes [OF digit_ranges(7,8) [of c]] by blast+

lemma decode_one:
  assumes "4 \<le> length inp" "length inp < 2 ^ 32" "length pre mod 4 = 0"
    and "inp = pre @ ch0 a # ch1 a b # suf"
  shows "\<not> full1 inp (length pre + 1) \<Longrightarrow>
      decode_loop inp (length pre) (d @ x # r) (length d)
        = decode_loop inp (length (pre @ [ch0 a, ch1 a b])) ((d @ [a]) @ r) (length (d @ [a]))"
    and "full1 inp (length pre + 1) \<Longrightarrow>
      decode_loop inp (length pre) (d @ x # y # r) (length d)
        = decode_loop inp (length (pre @ [ch0 a, ch1 a b])) ((d @ [a]) @ part1 a b # r) (length (d @ [a]))"
proof -
  let ?v = "uint a div 4 mod 64" and ?w = "uint a mod 4 * 16 + uint b div 16 mod 16"
  have l: "length pre < length inp" "length pre + 1 < length inp" using assms(4) by simp_all
  have n: "inp ! length pre = en ?v" "inp ! (length pre + 1) = en ?w"
    using assms(4) by (simp_all add: nth_append ch0_def ch1_def)
  have m: "(length pre + 1) mod 4 = 1" using assms(3) by presburger
  have 1: "decode_loop inp (length pre) (d @ x # r) (length d)
      = decode_loop inp (length pre + 1) (d @ of_int (?v * 4 mod 256) # r) (length d)" for r
    by (rule decode_loop_next [OF l(1) n(1) digit_ranges(1,2) [of a]]) (rule decode_step0 [OF assms(3)])
  note 2 = decode_loop_next [OF l(2) n(2) digit_ranges(3,4) [of a b]]
  note s = decode_step1 [OF assms(1,2) l(2) m]
  note B = bytes_rebuilt(1) [of a b]
  have e: "length pre + 1 + 1 = length (pre @ [ch0 a, ch1 a b])" by simp
  show "decode_loop inp (length pre) (d @ x # r) (length d)
        = decode_loop inp (length (pre @ [ch0 a, ch1 a b])) ((d @ [a]) @ r) (length (d @ [a]))"
    if "\<not> full1 inp (length pre + 1)"
    unfolding 1 2 [OF s(2) [OF that]] B e by simp
  show "decode_loop inp (length pre) (d @ x # y # r) (length d)
        = decode_loop inp (length (pre @ [ch0 a, ch1 a b])) ((d @ [a]) @ part1 a b # r) (length (d @ [a]))"
    if "full1 inp (length pre + 1)"
    unfolding 1 2 [OF s(1) [OF that]] B e part1_def [symmetric] by simp
qed

lemma decode_two:
  assumes "4 \<le> length inp" "length inp < 2 ^ 32" "length pre mod 4 = 2" and "inp = pre @ ch2 b c # suf"
  shows "\<not> full2 inp (length pre) \<Longrightarrow>
      decode_loop inp (length pre) (d @ part1 a b # r) (length d)
        = decode_loop inp (length (pre @ [ch2 b c])) ((d @ [b]) @ r) (length (d @ [b]))"
    and "full2 inp (length pre) \<Longrightarrow>
      decode_loop inp (length pre) (d @ part1 a b # y # r) (length d)
        = decode_loop inp (length (pre @ [ch2 b c])) ((d @ [b]) @ part2 b c # r) (length (d @ [b]))"
proof -
  let ?v = "uint b mod 16 * 4 + uint c div 64 mod 4"
  have l: "length pre < length inp" and n: "inp ! length pre = en ?v"
    using assms(4) by (simp_all add: ch2_def)
  note 2 = decode_loop_next [OF l n digit_ranges(5,6) [of b c]]
  note s = decode_step2 [OF assms(1,2) l assms(3)]
  have B: "part1 a b + of_int (?v div 4 mod 16) = b" unfolding part1_def by (rule bytes_rebuilt(2))
  have e: "length pre + 1 = length (pre @ [ch2 b c])" by simp
  show "decode_loop inp (length pre) (d @ part1 a b # r) (length d)
        = decode_loop inp (length (pre @ [ch2 b c])) ((d @ [b]) @ r) (length (d @ [b]))"
    if "\<not> full2 inp (length pre)"
    unfolding 2 [OF s(2) [OF that]] B e by simp
  show "decode_loop inp (length pre) (d @ part1 a b # y # r) (length d)
        = decode_loop inp (length (pre @ [ch2 b c])) ((d @ [b]) @ part2 b c # r) (length (d @ [b]))"
    if "full2 inp (length pre)"
    unfolding 2 [OF s(1) [OF that]] B e part2_def [symmetric] by simp
qed

lemma decode_three:
  assumes "length pre mod 4 = 3" and "inp = pre @ ch3 c # suf"
  shows "decode_loop inp (length pre) (d @ part2 b c # r) (length d)
        = decode_loop inp (length (pre @ [ch3 c])) ((d @ [c]) @ r) (length (d @ [c]))"
proof -
  have l: "length pre < length inp" and n: "inp ! length pre = en (uint c mod 64)"
    using assms(2) by (simp_all add: ch3_def)
  have B: "part2 b c + of_int (uint c mod 64) = c" unfolding part2_def by (rule bytes_rebuilt(3))
  have e: "length pre + 1 = length (pre @ [ch3 c])" by simp
  show ?thesis
    unfolding decode_loop_next [OF l n digit_ranges(7,8) [of c] decode_step3 [OF assms(1)]] B e by simp
qed

lemma decode_pad:
  assumes "inp = pre @ BASE64_PAD # suf"
  shows "decode_loop inp (length pre) out j = Some (int j, out)"
  using assms by (subst decode_loop.simps) simp

lemma decode_end: "decode_loop inp (length inp) out j = Some (int j, out)"
  by (subst decode_loop.simps) simp

lemma rfc4648_length: "length (rfc4648 xs) = (length xs + 2) div 3 * 4"
  by (induction xs rule: rfc4648.induct) (simp_all add: Let_def, presburger)

lemma decode_group:
  assumes "length inp < 2 ^ 32" and "length pre mod 4 = 0"
    and "inp = pre @ ch0 a # ch1 a b # ch2 b c # ch3 c # rfc4648 t"
  shows "decode_loop inp (length pre) (d @ x # y # z # r) (length d)
    = decode_loop inp (length (pre @ [ch0 a, ch1 a b, ch2 b c, ch3 c])) ((d @ [a, b, c]) @ r)
        (length (d @ [a, b, c]))"
proof -
  have l: "4 \<le> length inp" using assms(3) by simp
  have m: "length (pre @ [ch0 a, ch1 a b]) mod 4 = 2" "length (pre @ [ch0 a, ch1 a b, ch2 b c]) mod 4 = 3"
    using assms(2) by (simp_all add: mod_Suc)
  have f: "full1 inp (length pre + 1)" "full2 inp (length (pre @ [ch0 a, ch1 a b]))"
    unfolding assms(3) full1_def full2_def using ch_not_pad
    by (cases "rfc4648 t"; simp add: nth_append)+
  have i: "inp = (pre @ [ch0 a, ch1 a b]) @ ch2 b c # ch3 c # rfc4648 t"
    "inp = ((pre @ [ch0 a, ch1 a b]) @ [ch2 b c]) @ ch3 c # rfc4648 t"
    using assms(3) by simp_all
  have "decode_loop inp (length pre) (d @ x # y # z # r) (length d)
      = decode_loop inp (length (pre @ [ch0 a, ch1 a b])) ((d @ [a]) @ part1 a b # z # r) (length (d @ [a]))"
    by (rule decode_one(2) [OF l assms(1,2,3) f(1)])
  also have "\<dots> = decode_loop inp (length ((pre @ [ch0 a, ch1 a b]) @ [ch2 b c]))
      (((d @ [a]) @ [b]) @ part2 b c # r) (length ((d @ [a]) @ [b]))"
    by (rule decode_two(2) [OF l assms(1) m(1) i(1) f(2)])
  also have "\<dots> = decode_loop inp (length (((pre @ [ch0 a, ch1 a b]) @ [ch2 b c]) @ [ch3 c]))
      ((((d @ [a]) @ [b]) @ [c]) @ r) (length (((d @ [a]) @ [b]) @ [c]))"
    by (rule decode_three [OF _ i(2)]) (use m(2) in simp)
  finally show ?thesis by simp
qed

lemma decode_last2:
  assumes "length inp < 2 ^ 32" and "length pre mod 4 = 0"
    and "inp = pre @ ch0 a # ch1 a b # ch2 b 0 # [BASE64_PAD]"
  shows "decode_loop inp (length pre) (d @ x # y # r) (length d)
    = Some (int (length (d @ [a, b])), (d @ [a, b]) @ r)"
proof -
  have l: "4 \<le> length inp" using assms(3) by simp
  have m: "length (pre @ [ch0 a, ch1 a b]) mod 4 = 2" using assms(2) by (simp add: mod_Suc)
  have f: "full1 inp (length pre + 1)" "\<not> full2 inp (length (pre @ [ch0 a, ch1 a b]))"
    unfolding assms(3) full1_def full2_def using ch_not_pad by (simp_all add: nth_append)
  have i: "inp = (pre @ [ch0 a, ch1 a b]) @ ch2 b 0 # [BASE64_PAD]"
    "inp = ((pre @ [ch0 a, ch1 a b]) @ [ch2 b 0]) @ BASE64_PAD # []"
    using assms(3) by simp_all
  have "decode_loop inp (length pre) (d @ x # y # r) (length d)
      = decode_loop inp (length (pre @ [ch0 a, ch1 a b])) ((d @ [a]) @ part1 a b # r) (length (d @ [a]))"
    by (rule decode_one(2) [OF l assms(1,2,3) f(1)])
  also have "\<dots> = decode_loop inp (length ((pre @ [ch0 a, ch1 a b]) @ [ch2 b 0]))
      (((d @ [a]) @ [b]) @ r) (length ((d @ [a]) @ [b]))"
    by (rule decode_two(1) [OF l assms(1) m i(1) f(2)])
  also have "\<dots> = Some (int (length ((d @ [a]) @ [b])), ((d @ [a]) @ [b]) @ r)"
    by (rule decode_pad [OF i(2)])
  finally show ?thesis by simp
qed

lemma decode_last1:
  assumes "length inp < 2 ^ 32" and "length pre mod 4 = 0"
    and "inp = pre @ ch0 a # ch1 a 0 # [BASE64_PAD, BASE64_PAD]"
  shows "decode_loop inp (length pre) (d @ x # r) (length d)
    = Some (int (length (d @ [a])), (d @ [a]) @ r)"
proof -
  have l: "4 \<le> length inp" using assms(3) by simp
  have f: "\<not> full1 inp (length pre + 1)"
    unfolding assms(3) full1_def by (simp add: nth_append)
  have i: "inp = (pre @ [ch0 a, ch1 a 0]) @ BASE64_PAD # [BASE64_PAD]"
    using assms(3) by simp
  show ?thesis
    unfolding decode_one(1) [OF l assms(1,2,3) f] by (rule decode_pad [OF i])
qed

lemma decode_rfc:
  "length inp < 2 ^ 32 \<Longrightarrow> inp = pre @ rfc4648 xs \<Longrightarrow> length pre mod 4 = 0 \<Longrightarrow> length xs \<le> length r \<Longrightarrow>
   decode_loop inp (length pre) (d @ r) (length d)
     = Some (int (length d + length xs), d @ xs @ drop (length xs) r)"
proof (induction xs arbitrary: pre d r rule: rfc4648.induct)
  case 1
  then show ?case using decode_end [of inp] by simp
next
  case (2 a)
  then obtain x r' where r: "r = x # r'" by (cases r) simp_all
  show ?case
    unfolding r decode_last1 [OF 2(1,3) 2(2) [unfolded rfc_chars]] by simp
next
  case (3 a b)
  then obtain x y r' where r: "r = x # y # r'" by (auto simp: Suc_le_length_iff)
  show ?case
    unfolding r decode_last2 [OF 3(1,3) 3(2) [unfolded rfc_chars]] by simp
next
  case (4 a b c t)
  then obtain x y z r' where r: "r = x # y # z # r'" by (auto simp: Suc_le_length_iff)
  have m: "length (pre @ [ch0 a, ch1 a b, ch2 b c, ch3 c]) mod 4 = 0" using 4(4) by simp
  have i: "inp = (pre @ [ch0 a, ch1 a b, ch2 b c, ch3 c]) @ rfc4648 t"
    using 4(3) [unfolded rfc_chars] by simp
  have "length t \<le> length r'" using 4(5) r by simp
  from 4(1) [OF refl 4(2) i m this, of "d @ [a, b, c]"] show ?case
    unfolding r decode_group [OF 4(2,4) 4(3) [unfolded rfc_chars]] by simp
qed

section \<open>Properties\<close>

text \<open>Encoding a non-empty input gives its RFC 4648 encoding, whose size is what
  \<open>BASE64_ENCODE_OUT_SIZE\<close> promises.\<close>

theorem base64_encode_rfc:
  assumes "xs \<noteq> []" and "length xs < 2 ^ 32"
  shows "hv_base64_encode xs = Some (rfc4648 xs) \<and>
         length (rfc4648 xs) = BASE64_ENCODE_OUT_SIZE (length xs)"
  using encode_rfc [OF assms] by (simp add: rfc4648_length BASE64_ENCODE_OUT_SIZE_def)

theorem base64_encode_rfc_witness:
  "hv_base64_encode [77, 97, 110, 33] = Some (rfc4648 [77, 97, 110, 33]) \<and>
   BASE64_ENCODE_OUT_SIZE 4 = 8"
  using base64_encode_rfc [of "[77, 97, 110, 33]"] by (simp add: BASE64_ENCODE_OUT_SIZE_def)

text \<open>C31. Decoding inverts encoding: a buffer as long as the data suffices, the returned
  length is that of the data, and the bytes behind it are left alone.\<close>

theorem base64_roundtrip:
  assumes "xs \<noteq> []" and "BASE64_ENCODE_OUT_SIZE (length xs) < 2 ^ 32" and "length xs \<le> length out"
  shows "\<exists>e. hv_base64_encode xs = Some e \<and>
         hv_base64_decode e out = Some (int (length xs), xs @ drop (length xs) out)"
proof -
  have l: "length (rfc4648 xs) < 2 ^ 32"
    using assms(2) by (simp add: rfc4648_length BASE64_ENCODE_OUT_SIZE_def)
  have "length xs \<le> length (rfc4648 xs)" by (simp add: rfc4648_length)
  with l have "length xs < 2 ^ 32" by linarith
  with encode_rfc [OF assms(1)] decode_rfc [OF l, of "[]" xs out "[]"] assms(3) show ?thesis
    by (simp add: hv_base64_decode_def)
qed

theorem base64_roundtrip_witness:
  "\<exists>e. hv_base64_encode [255, 0, 7, 200] = Some e \<and> hv_base64_decode e [0, 0, 0, 0] = Some (4, [255, 0, 7, 200])"
  using base64_roundtrip [of "[255, 0, 7, 200]" "[0, 0, 0, 0]"] by (simp add: BASE64_ENCODE_OUT_SIZE_def)

text \<open>Two inputs leave the buffers: for an empty input the encoder steps back to index
  \<open>2^32 - 1\<close> and reads there, and for two characters without padding the decoder writes a
  second byte, past a buffer of one byte more than \<open>BASE64_DECODE_OUT_SIZE\<close>.\<close>

theorem base64_out_of_bounds:
  "hv_base64_encode [] = None \<and>
   (\<forall>v w out. 0 \<le> v \<and> v < 64 \<and> 0 \<le> w \<and> w < 64 \<and> length out \<le> BASE64_DECODE_OUT_SIZE 2 + 1
      \<longrightarrow> hv_base64_decode [en v, en w] out = None)"
proof (intro conjI allI impI)
  have "(4294967295 :: u32) mod 3 = 0" by simp
  then show "hv_base64_encode [] = None"
    by (simp add: hv_base64_encode_def encode_pad_def)
next
  fix v w :: int and out :: "byte list"
  assume a: "0 \<le> v \<and> v < 64 \<and> 0 \<le> w \<and> w < 64 \<and> length out \<le> BASE64_DECODE_OUT_SIZE 2 + 1"
  then have d: "decode_char (en v) = Some v" "decode_char (en w) = Some w"
    "en v \<noteq> BASE64_PAD" "en w \<noteq> BASE64_PAD" using en_decodes by blast+
  show "hv_base64_decode [en v, en w] out = None"
  proof (cases out)
    case Nil
    then show ?thesis
      by (simp add: hv_base64_decode_def decode_loop.simps [of _ 0] d decode_step_def put_def Let_def)
  next
    case (Cons x r)
    with a have r: "out = [x]" by (simp add: BASE64_DECODE_OUT_SIZE_def)
    show ?thesis
      by (simp add: hv_base64_decode_def decode_loop.simps [of _ 0] decode_loop.simps [of _ "Suc 0"]
          d decode_step_def put_def add_def Let_def r)
  qed
qed

theorem base64_out_of_bounds_witness:
  "hv_base64_decode [base64en ! 16, base64en ! 16] [0] = None"
  using base64_out_of_bounds by (auto simp: BASE64_DECODE_OUT_SIZE_def dest!: spec [of _ 16] spec [of _ "[0]"])

end
