(* ===== verification/Websocket.thy ===== *)
theory Websocket
  imports Prelude
begin

text \<open>
  \<open>src/libs/libhv/http/websocket_parser.c\<close>: the frame parser, the masking functions and
  the frame builder. \<open>size_t\<close> values are 64-bit words, positions in the input are natural
  numbers, and the test \<open>p + parser->require <= end\<close> is made on 64-bit addresses as the
  machine does. The callbacks are functions of the parser and of a user state \<open>'u\<close>: they
  answer a number, the new \<open>mask_offset\<close> (the one field that \<open>websocket_parser_decode\<close>,
  which they may call, stores) and the new user state.
\<close>

unbundle bit_operations_syntax

section \<open>Parser state and settings\<close>

definition WS_OP_MASK :: u32 where "WS_OP_MASK = 0xF"
definition WS_FIN :: u32 where "WS_FIN = 0x10"
definition WS_HAS_MASK :: u32 where "WS_HAS_MASK = 0x20"

datatype ws_state = s_start | s_head | s_length | s_mask | s_body

record websocket_parser =
  ws_state :: ws_state
  ws_flags :: u32
  mask :: "byte list"
  mask_offset :: byte
  ws_length :: size_t
  require :: size_t
  ws_offset :: size_t

record 'u websocket_parser_settings =
  on_frame_header :: "(websocket_parser \<Rightarrow> 'u \<Rightarrow> int \<times> byte \<times> 'u) option"
  on_frame_body :: "(websocket_parser \<Rightarrow> byte list \<Rightarrow> 'u \<Rightarrow> int \<times> byte \<times> 'u) option"
  on_frame_end :: "(websocket_parser \<Rightarrow> 'u \<Rightarrow> int \<times> byte \<times> 'u) option"

definition websocket_parser_init :: websocket_parser where
  "websocket_parser_init =
     \<lparr>ws_state = s_start, ws_flags = 0, mask = [0, 0, 0, 0], mask_offset = 0,
      ws_length = 0, require = 0, ws_offset = 0\<rparr>"

definition websocket_parser_settings_init :: "'u websocket_parser_settings" where
  "websocket_parser_settings_init = \<lparr>on_frame_header = None, on_frame_body = None, on_frame_end = None\<rparr>"

section \<open>Parsing\<close>

text \<open>\<open>NOTIFY_CB\<close>: call the callback if there is one; \<open>True\<close> when it answers 0.\<close>

definition notify ::
  "(websocket_parser \<Rightarrow> 'u \<Rightarrow> int \<times> byte \<times> 'u) option \<Rightarrow> websocket_parser \<Rightarrow> 'u
     \<Rightarrow> bool \<times> websocket_parser \<times> 'u" where
  "notify cb P u =
     (case cb of None \<Rightarrow> (True, P, u)
      | Some f \<Rightarrow> (let (r, mo, u') = f P u in (r = 0, P\<lparr>mask_offset := mo\<rparr>, u')))"

definition emit ::
  "(websocket_parser \<Rightarrow> byte list \<Rightarrow> 'u \<Rightarrow> int \<times> byte \<times> 'u) option \<Rightarrow> websocket_parser \<Rightarrow> byte list
     \<Rightarrow> 'u \<Rightarrow> bool \<times> websocket_parser \<times> 'u" where
  "emit cb P bs u =
     (case cb of None \<Rightarrow> (True, P, u)
      | Some f \<Rightarrow> (let (r, mo, u') = f P bs u in (r = 0, P\<lparr>mask_offset := mo\<rparr>, u')))"

text \<open>
  How one iteration ends: go on at a position (after the \<open>p++\<close> of the loop) with
  \<open>frame_offset\<close>, return a count, or hand the body callback bytes outside the input.
\<close>

datatype 'u ws_pass =
    Go nat size_t websocket_parser 'u
  | Return size_t websocket_parser 'u
  | Overread

text \<open>
  The header is complete: with a body the state becomes \<open>s_body\<close>, otherwise the frame ends
  at once. \<open>at\<close> is what \<open>GET_NPARSED\<close> answers here, \<open>next\<close> the next position.
\<close>

definition header_done ::
  "'u websocket_parser_settings \<Rightarrow> size_t \<Rightarrow> nat \<Rightarrow> size_t \<Rightarrow> websocket_parser \<Rightarrow> 'u \<Rightarrow> 'u ws_pass" where
  "header_done S at next fo P u =
     (if ws_length P \<noteq> 0 then
        (let (ok, P1, u1) = notify (on_frame_header S) (P\<lparr>ws_state := s_body, require := ws_length P\<rparr>) u
         in if ok then Go next fo P1 u1 else Return at P1 u1)
      else
        (let (ok, P1, u1) = notify (on_frame_header S) (P\<lparr>ws_state := s_start\<rparr>) u
         in if \<not> ok then Return at P1 u1
            else let (ok2, P2, u2) = notify (on_frame_end S) P1 u1
                 in if ok2 then Go next fo P2 u2 else Return at P2 u2))"

definition pass_start :: "byte \<Rightarrow> nat \<Rightarrow> size_t \<Rightarrow> websocket_parser \<Rightarrow> 'u \<Rightarrow> 'u ws_pass" where
  "pass_start cc p fo P u =
     (let fl = ucast cc AND WS_OP_MASK;
          fl' = (if cc AND 0x80 \<noteq> 0 then fl OR WS_FIN else fl)
      in Go (p + 1) (fo + 1)
           (P\<lparr>ws_offset := 0, ws_length := 0, mask_offset := 0, ws_flags := fl', ws_state := s_head\<rparr>) u)"

definition pass_head ::
  "'u websocket_parser_settings \<Rightarrow> byte \<Rightarrow> nat \<Rightarrow> size_t \<Rightarrow> websocket_parser \<Rightarrow> 'u \<Rightarrow> 'u ws_pass" where
  "pass_head S cc p fo P0 u =
     (let P1 = P0\<lparr>ws_length := ucast cc AND 0x7F\<rparr>;
          P = (if cc AND 0x80 \<noteq> 0 then P1\<lparr>ws_flags := ws_flags P1 OR WS_HAS_MASK\<rparr> else P1)
      in if ws_length P \<ge> 126 then
           Go (p + 1) (fo + 1)
             (P\<lparr>require := (if ws_length P = 127 then 8 else 2), ws_length := 0, ws_state := s_length\<rparr>) u
         else if ws_flags P AND WS_HAS_MASK \<noteq> 0 then
           Go (p + 1) (fo + 1) (P\<lparr>ws_state := s_mask, require := 4\<rparr>) u
         else header_done S (of_nat p) (p + 1) (fo + 1) P u)"

text \<open>The inner loops over the length bytes and over the mask bytes.\<close>

fun read_length :: "byte list \<Rightarrow> websocket_parser \<Rightarrow> websocket_parser \<times> nat" where
  "read_length [] P = (P, 0)"
| "read_length (b # bs) P =
     (if require P \<noteq> 0
      then let (P', n) = read_length bs
                 (P\<lparr>ws_length := push_bit 8 (ws_length P) OR ucast b, require := require P - 1\<rparr>)
           in (P', n + 1)
      else (P, 0))"

fun read_mask :: "byte list \<Rightarrow> websocket_parser \<Rightarrow> websocket_parser \<times> nat" where
  "read_mask [] P = (P, 0)"
| "read_mask (b # bs) P =
     (if require P \<noteq> 0
      then let (P', n) = read_mask bs
                 (P\<lparr>mask := (mask P)[unat (4 - require P) := b], require := require P - 1\<rparr>)
           in (P', n + 1)
      else (P, 0))"

text \<open>After the inner loop \<open>p\<close> is stepped back, so \<open>GET_NPARSED\<close> is one less than read.\<close>

definition pass_length ::
  "'u websocket_parser_settings \<Rightarrow> byte list \<Rightarrow> nat \<Rightarrow> size_t \<Rightarrow> websocket_parser \<Rightarrow> 'u \<Rightarrow> 'u ws_pass" where
  "pass_length S dat p fo P0 u =
     (let (P, n) = read_length (drop p dat) P0; fo' = fo + of_nat n
      in if require P = 0 then
           if ws_flags P AND WS_HAS_MASK \<noteq> 0
           then Go (p + n) fo' (P\<lparr>ws_state := s_mask, require := 4\<rparr>) u
           else header_done S (of_nat (p + n) - 1) (p + n) fo' P u
         else Go (p + n) fo' P u)"

definition pass_mask ::
  "'u websocket_parser_settings \<Rightarrow> byte list \<Rightarrow> nat \<Rightarrow> size_t \<Rightarrow> websocket_parser \<Rightarrow> 'u \<Rightarrow> 'u ws_pass" where
  "pass_mask S dat p fo P0 u =
     (let (P, n) = read_mask (drop p dat) P0; fo' = fo + of_nat n
      in if require P = 0 then header_done S (of_nat (p + n) - 1) (p + n) fo' P u
         else Go (p + n) fo' P u)"

text \<open>\<open>if(!parser->require) { SET_STATE(s_start); NOTIFY_CB(frame_end); }\<close>\<close>

definition body_end ::
  "'u websocket_parser_settings \<Rightarrow> size_t \<Rightarrow> nat \<Rightarrow> size_t \<Rightarrow> websocket_parser \<Rightarrow> 'u \<Rightarrow> 'u ws_pass" where
  "body_end S at next fo P u =
     (if require P = 0 then
        (let (ok, P1, u1) = notify (on_frame_end S) (P\<lparr>ws_state := s_start\<rparr>) u
         in if ok then Go next fo P1 u1 else Return at P1 u1)
      else Go next fo P u)"

text \<open>\<open>addr\<close> is the address of \<open>data\<close>; the fit test compares addresses.\<close>

definition pass_body ::
  "'u websocket_parser_settings \<Rightarrow> size_t \<Rightarrow> byte list \<Rightarrow> nat \<Rightarrow> size_t \<Rightarrow> websocket_parser \<Rightarrow> 'u \<Rightarrow> 'u ws_pass" where
  "pass_body S addr dat p fo P u =
     (let len = length dat in
      if require P = 0 then body_end S (of_nat p) (p + 1) fo P u
      else if addr + of_nat p + require P \<le> addr + of_nat len then
        if p + unat (require P) > len then Overread
        else let n = unat (require P);
                 (ok, P1, u1) = emit (on_frame_body S) P (take n (drop p dat)) u
             in if \<not> ok then Return (of_nat p) P1 u1
                else body_end S (of_nat (p + n) - 1) (p + n) (of_nat (p + n)) (P1\<lparr>require := 0\<rparr>) u1
      else let (ok, P1, u1) = emit (on_frame_body S) P (drop p dat) u
           in if \<not> ok then Return (of_nat p) P1 u1
              else body_end S (of_nat len - 1) len 0
                     (P1\<lparr>require := require P1 - of_nat (len - p),
                         ws_offset := ws_offset P1 + (of_nat len - fo)\<rparr>) u1)"

definition ws_pass ::
  "'u websocket_parser_settings \<Rightarrow> size_t \<Rightarrow> byte list \<Rightarrow> nat \<Rightarrow> size_t \<Rightarrow> websocket_parser \<Rightarrow> 'u \<Rightarrow> 'u ws_pass" where
  "ws_pass S addr dat p fo P u =
     (case ws_state P of
        s_start \<Rightarrow> pass_start (dat ! p) p fo P u
      | s_head \<Rightarrow> pass_head S (dat ! p) p fo P u
      | s_length \<Rightarrow> pass_length S dat p fo P u
      | s_mask \<Rightarrow> pass_mask S dat p fo P u
      | s_body \<Rightarrow> pass_body S addr dat p fo P u)"

text \<open>Every iteration advances, or leaves a header state for a later one.\<close>

definition ws_rank :: "ws_state \<Rightarrow> nat" where
  "ws_rank st = (case st of s_length \<Rightarrow> 3 | s_mask \<Rightarrow> 2 | _ \<Rightarrow> 1)"

lemma notify_frame:
  "notify cb P u = (ok, P', u') \<Longrightarrow> \<exists>mo. P' = P\<lparr>mask_offset := mo\<rparr>"
  by (cases cb; cases P) (auto simp: notify_def split: prod.splits)

lemma emit_frame:
  "emit cb P bs u = (ok, P', u') \<Longrightarrow> \<exists>mo. P' = P\<lparr>mask_offset := mo\<rparr>"
  by (cases cb; cases P) (auto simp: emit_def split: prod.splits)

lemma header_done_Go:
  "header_done S at next fo P u = Go p' fo' P' u' \<Longrightarrow> p' = next \<and> ws_rank (ws_state P') = 1"
  by (auto simp: header_done_def Let_def ws_rank_def split: if_splits prod.splits dest!: notify_frame)

lemma body_end_Go:
  "body_end S at next fo P u = Go p' fo' P' u' \<Longrightarrow> p' = next"
  by (auto simp: body_end_def Let_def split: if_splits prod.splits)

lemma read_length_0: "read_length bs P = (P', 0) \<Longrightarrow> P' = P \<and> (bs = [] \<or> require P = 0)"
  by (cases bs) (auto split: if_splits prod.splits)

lemma read_mask_0: "read_mask bs P = (P', 0) \<Longrightarrow> P' = P \<and> (bs = [] \<or> require P = 0)"
  by (cases bs) (auto split: if_splits prod.splits)

lemma ws_pass_advances:
  assumes "ws_pass S addr dat p fo P u = Go p' fo' P' u'" and "p < length dat"
  shows "p < p' \<or> p' = p \<and> ws_rank (ws_state P') < ws_rank (ws_state P)"
proof (cases "ws_state P")
  case s_start
  with assms show ?thesis by (auto simp: ws_pass_def pass_start_def Let_def)
next
  case s_head
  with assms show ?thesis
    by (auto simp: ws_pass_def pass_head_def Let_def split: if_splits dest!: header_done_Go)
next
  case s_length
  obtain Q n where Q: "read_length (drop p dat) P = (Q, n)" by fastforce
  show ?thesis
  proof (cases n)
    case 0
    with Q read_length_0 assms(2) have "Q = P" "require P = 0" by fastforce+
    with s_length assms Q 0 show ?thesis
      by (auto simp: ws_pass_def pass_length_def Let_def ws_rank_def split: if_splits dest!: header_done_Go)
  next
    case (Suc k)
    with s_length assms Q show ?thesis
      by (auto simp: ws_pass_def pass_length_def Let_def split: if_splits dest!: header_done_Go)
  qed
next
  case s_mask
  obtain Q n where Q: "read_mask (drop p dat) P = (Q, n)" by fastforce
  show ?thesis
  proof (cases n)
    case 0
    with Q read_mask_0 assms(2) have "Q = P" "require P = 0" by fastforce+
    with s_mask assms Q 0 show ?thesis
      by (auto simp: ws_pass_def pass_mask_def Let_def ws_rank_def split: if_splits dest!: header_done_Go)
  next
    case (Suc k)
    with s_mask assms Q show ?thesis
      by (auto simp: ws_pass_def pass_mask_def Let_def split: if_splits dest!: header_done_Go)
  qed
next
  case s_body
  with assms show ?thesis
    by (auto simp: ws_pass_def pass_body_def Let_def word_gt_0 unat_gt_0
        split: if_splits prod.splits dest!: body_end_Go)
qed

text \<open>The loop; \<open>None\<close> is an over-read.\<close>

function ws_loop ::
  "'u websocket_parser_settings \<Rightarrow> size_t \<Rightarrow> byte list \<Rightarrow> nat \<Rightarrow> size_t \<Rightarrow> websocket_parser \<Rightarrow> 'u
     \<Rightarrow> (size_t \<times> websocket_parser \<times> 'u) option" where
  "ws_loop S addr dat p fo P u =
     (if p < length dat then
        (case ws_pass S addr dat p fo P u of
           Go p' fo' P' u' \<Rightarrow> ws_loop S addr dat p' fo' P' u'
         | Return r P' u' \<Rightarrow> Some (r, P', u')
         | Overread \<Rightarrow> None)
      else Some (of_nat (length dat), P, u))"
  by pat_completeness auto
termination
  by (relation "measures [\<lambda>(S, addr, dat, p, fo, P, u). length dat - p,
                          \<lambda>(S, addr, dat, p, fo, P, u). ws_rank (ws_state P)]")
    (auto dest!: ws_pass_advances)

declare ws_loop.simps [simp del]

definition websocket_parser_execute ::
  "'u websocket_parser_settings \<Rightarrow> size_t \<Rightarrow> byte list \<Rightarrow> websocket_parser \<Rightarrow> 'u
     \<Rightarrow> (size_t \<times> websocket_parser \<times> 'u) option" where
  "websocket_parser_execute S addr dat P u = ws_loop S addr dat 0 0 P u"

section \<open>Masking and building frames\<close>

definition websocket_decode :: "byte list \<Rightarrow> byte list \<Rightarrow> byte \<Rightarrow> byte list \<times> byte" where
  "websocket_decode src msk mo =
     (map (\<lambda>i. src ! i XOR msk ! ((i + unat mo) mod 4)) [0..<length src],
      of_nat ((length src + unat mo) mod 4))"

definition websocket_parser_decode :: "byte list \<Rightarrow> websocket_parser \<Rightarrow> byte list \<times> websocket_parser" where
  "websocket_parser_decode src P =
     (map (\<lambda>i. src ! i XOR mask P ! ((i + unat (mask_offset P)) mod 4)) [0..<length src],
      P\<lparr>mask_offset := of_nat ((length src + unat (mask_offset P)) mod 4)\<rparr>)"

definition websocket_calc_frame_size :: "u32 \<Rightarrow> size_t \<Rightarrow> size_t" where
  "websocket_calc_frame_size flags data_len =
     (let size = data_len + 2;
          size1 = (if data_len \<ge> 126 then (if data_len > 0xFFFF then size + 8 else size + 2) else size)
      in if flags AND WS_HAS_MASK \<noteq> 0 then size1 + 4 else size1)"

definition frame_byte0 :: "u32 \<Rightarrow> byte" where
  "frame_byte0 flags = (if flags AND WS_FIN \<noteq> 0 then 0x80 else 0) OR ucast (flags AND WS_OP_MASK)"

definition frame_byte1 :: "u32 \<Rightarrow> byte" where
  "frame_byte1 flags = (if flags AND WS_HAS_MASK \<noteq> 0 then 0x80 else 0)"

text \<open>Byte \<open>k\<close> of the length, \<open>(data_len >> 8k) & 0xFF\<close>, and the header they make up.\<close>

definition len_byte :: "size_t \<Rightarrow> nat \<Rightarrow> byte" where
  "len_byte data_len k = ucast (drop_bit (8 * k) data_len AND 0xFF)"

definition frame_head :: "u32 \<Rightarrow> size_t \<Rightarrow> byte list" where
  "frame_head flags data_len =
     (if data_len < 126 then [frame_byte0 flags, frame_byte1 flags OR ucast data_len]
      else if data_len \<le> 0xFFFF then
        [frame_byte0 flags, frame_byte1 flags OR 126, ucast (drop_bit 8 data_len), ucast (data_len AND 0xFF)]
      else
        [frame_byte0 flags, frame_byte1 flags OR 127, len_byte data_len 7, len_byte data_len 6,
         len_byte data_len 5, len_byte data_len 4, len_byte data_len 3, len_byte data_len 2,
         len_byte data_len 1, len_byte data_len 0])"

text \<open>\<open>msk\<close> is \<open>None\<close> for a null pointer: then the four bytes already in the buffer mask.\<close>

definition websocket_build_frame ::
  "byte list \<Rightarrow> u32 \<Rightarrow> byte list option \<Rightarrow> byte list \<Rightarrow> (byte list \<times> size_t) option" where
  "websocket_build_frame frame flags msk dat =
     (let data_len = of_nat (length dat); hd = frame_head flags data_len; n = length hd
      in Option.bind (store frame 0 hd) (\<lambda>f1.
         if flags AND WS_HAS_MASK \<noteq> 0 then
           Option.bind (case msk of None \<Rightarrow> Some f1 | Some m \<Rightarrow> store f1 n (take 4 m)) (\<lambda>f2.
             if n + 4 > length f2 then None
             else Option.bind (store f2 (n + 4) (fst (websocket_decode dat (take 4 (drop n f2)) 0)))
                    (\<lambda>f3. Some (f3, of_nat (n + 4) + data_len)))
         else Option.bind (store f1 n dat) (\<lambda>f2. Some (f2, of_nat n + data_len))))"


section \<open>The stream view of the parser\<close>

text \<open>
  What a client sees: the frame header, the payload bytes one by one with the mask removed,
  the end of the frame. \<open>recorder\<close> are the callbacks that record it, unmasking with
  \<open>websocket_parser_decode\<close> as the parser's interface prescribes.
\<close>

datatype ws_event = EHeader u32 size_t | EByte byte | EEnd

definition has_mask :: "websocket_parser \<Rightarrow> bool" where
  "has_mask P \<longleftrightarrow> ws_flags P AND WS_HAS_MASK \<noteq> 0"

definition recorder :: "ws_event list websocket_parser_settings" where
  "recorder =
     \<lparr>on_frame_header = Some (\<lambda>P u. (0, mask_offset P, u @ [EHeader (ws_flags P) (ws_length P)])),
      on_frame_body = Some (\<lambda>P bs u.
        if has_mask P
        then let (ds, P') = websocket_parser_decode bs P in (0, mask_offset P', u @ map EByte ds)
        else (0, mask_offset P, u @ map EByte bs)),
      on_frame_end = Some (\<lambda>P u. (0, mask_offset P, u @ [EEnd]))\<rparr>"

text \<open>The reference: a machine that reads one byte at a time. It keeps no \<open>offset\<close>.\<close>

definition forget :: "websocket_parser \<Rightarrow> websocket_parser" where
  "forget P = P\<lparr>ws_offset := 0\<rparr>"

fun header_event :: "websocket_parser \<times> ws_event list \<Rightarrow> websocket_parser \<times> ws_event list" where
  "header_event (P, u) =
     (if ws_length P \<noteq> 0
      then (P\<lparr>ws_state := s_body, require := ws_length P\<rparr>, u @ [EHeader (ws_flags P) (ws_length P)])
      else (P\<lparr>ws_state := s_start\<rparr>, u @ [EHeader (ws_flags P) (ws_length P), EEnd]))"

fun length_read :: "websocket_parser \<times> ws_event list \<Rightarrow> websocket_parser \<times> ws_event list" where
  "length_read (P, u) =
     (if require P \<noteq> 0 then (P, u)
      else if has_mask P then (P\<lparr>ws_state := s_mask, require := 4\<rparr>, u)
      else header_event (P, u))"

fun mask_read :: "websocket_parser \<times> ws_event list \<Rightarrow> websocket_parser \<times> ws_event list" where
  "mask_read (P, u) = (if require P \<noteq> 0 then (P, u) else header_event (P, u))"

fun body_read :: "websocket_parser \<times> ws_event list \<Rightarrow> websocket_parser \<times> ws_event list" where
  "body_read (P, u) = (if require P \<noteq> 0 then (P, u) else (P\<lparr>ws_state := s_start\<rparr>, u @ [EEnd]))"

fun ws_byte :: "byte \<Rightarrow> websocket_parser \<times> ws_event list \<Rightarrow> websocket_parser \<times> ws_event list" where
  "ws_byte b (P, u) =
     (case ws_state P of
        s_start \<Rightarrow>
          (P\<lparr>ws_offset := 0, ws_length := 0, mask_offset := 0,
             ws_flags := (if b AND 0x80 \<noteq> 0 then (ucast b AND WS_OP_MASK) OR WS_FIN
                          else ucast b AND WS_OP_MASK),
             ws_state := s_head\<rparr>, u)
      | s_head \<Rightarrow>
          (let n = ucast b AND 0x7F :: size_t;
               Q = P\<lparr>ws_length := n,
                     ws_flags := (if b AND 0x80 \<noteq> 0 then ws_flags P OR WS_HAS_MASK else ws_flags P)\<rparr>
           in if n \<ge> 126
              then (Q\<lparr>require := (if n = 127 then 8 else 2), ws_length := 0, ws_state := s_length\<rparr>, u)
              else if has_mask Q then (Q\<lparr>ws_state := s_mask, require := 4\<rparr>, u)
              else header_event (Q, u))
      | s_length \<Rightarrow>
          length_read (P\<lparr>ws_length := push_bit 8 (ws_length P) OR ucast b, require := require P - 1\<rparr>, u)
      | s_mask \<Rightarrow>
          mask_read (P\<lparr>mask := (mask P)[unat (4 - require P) := b], require := require P - 1\<rparr>, u)
      | s_body \<Rightarrow>
          body_read
            (if has_mask P
             then (P\<lparr>require := require P - 1, mask_offset := of_nat ((1 + unat (mask_offset P)) mod 4)\<rparr>,
                   u @ [EByte (b XOR mask P ! (unat (mask_offset P) mod 4))])
             else (P\<lparr>require := require P - 1\<rparr>, u @ [EByte b])))"

abbreviation ws_bytes ::
  "byte list \<Rightarrow> websocket_parser \<times> ws_event list \<Rightarrow> websocket_parser \<times> ws_event list" where
  "ws_bytes bs \<equiv> fold ws_byte bs"

text \<open>Well-formed parsers: a state that waits for bytes waits for at least one.\<close>

definition ws_wf :: "websocket_parser \<Rightarrow> bool" where
  "ws_wf P \<longleftrightarrow> (ws_state P \<in> {s_length, s_mask, s_body} \<longrightarrow> require P \<noteq> 0)"

text \<open>
  No announced frame is so long that the end address of its body wraps around:
  \<open>m\<close> is the address behind the input.
\<close>

fun frames_fit :: "nat \<Rightarrow> byte list \<Rightarrow> websocket_parser \<times> ws_event list \<Rightarrow> bool" where
  "frames_fit m [] s = True"
| "frames_fit m (b # bs) s =
     ((ws_state (fst s) = s_body \<longrightarrow> m + unat (require (fst s)) < 2 ^ 64) \<and> frames_fit m bs (ws_byte b s))"

lemma frames_fit_append:
  "frames_fit m (xs @ ys) s \<longleftrightarrow> frames_fit m xs s \<and> frames_fit m ys (ws_bytes xs s)"
  by (induction xs arbitrary: s) auto

subsection \<open>The recorder's callbacks\<close>

lemma notify_recorder [simp]:
  "notify (on_frame_header recorder) P u = (True, P, u @ [EHeader (ws_flags P) (ws_length P)])"
  "notify (on_frame_end recorder) P u = (True, P, u @ [EEnd])"
  by (simp_all add: notify_def recorder_def)

lemma header_done_recorder:
  "header_done recorder at next fo P u = (let (Q, v) = header_event (P, u) in Go next fo Q v)"
  by (simp add: header_done_def)

lemma body_end_recorder:
  "body_end recorder at next fo P u = (let (Q, v) = body_read (P, u) in Go next fo Q v)"
  by (simp add: body_end_def)

lemma forget_simps [simp]:
  "ws_state (forget P) = ws_state P" "require (forget P) = require P" "ws_length (forget P) = ws_length P"
  "ws_flags (forget P) = ws_flags P" "mask (forget P) = mask P" "mask_offset (forget P) = mask_offset P"
  "has_mask (forget P) = has_mask P" "forget (forget P) = forget P"
  by (simp_all add: forget_def has_mask_def)

lemma forget_upd:
  "forget (P\<lparr>ws_state := a\<rparr>) = (forget P)\<lparr>ws_state := a\<rparr>" "forget (P\<lparr>require := r\<rparr>) = (forget P)\<lparr>require := r\<rparr>"
  "forget (P\<lparr>ws_length := l\<rparr>) = (forget P)\<lparr>ws_length := l\<rparr>" "forget (P\<lparr>ws_flags := f\<rparr>) = (forget P)\<lparr>ws_flags := f\<rparr>"
  "forget (P\<lparr>mask := m\<rparr>) = (forget P)\<lparr>mask := m\<rparr>" "forget (P\<lparr>mask_offset := mo\<rparr>) = (forget P)\<lparr>mask_offset := mo\<rparr>"
  "forget (P\<lparr>ws_offset := x\<rparr>) = forget P"
  by (simp_all add: forget_def)

lemma header_event_forget:
  "header_event (P, u) = (Q, v) \<Longrightarrow> header_event (forget P, u) = (forget Q, v) \<and> ws_wf Q"
  by (auto simp: forget_upd ws_wf_def split: if_splits)

lemma body_read_forget:
  "body_read (P, u) = (Q, v) \<Longrightarrow> ws_state P = s_body \<Longrightarrow> body_read (forget P, u) = (forget Q, v) \<and> ws_wf Q"
  by (auto simp: forget_upd ws_wf_def split: if_splits)

subsection \<open>The inner loops\<close>

lemma read_length_bytes:
  assumes "ws_state P = s_length" "require P \<noteq> 0" "bs \<noteq> []" "read_length bs P = (Q, n)"
  shows "0 < n \<and> n \<le> length bs \<and> ws_state Q = s_length \<and>
    ws_bytes (take n bs) (forget P, u) = length_read (forget Q, u)"
  using assms
proof (induction bs arbitrary: P n)
  case (Cons b bs)
  let ?P = "P\<lparr>ws_length := push_bit 8 (ws_length P) OR ucast b, require := require P - 1\<rparr>"
  obtain R k where R: "read_length bs ?P = (R, k)" by fastforce
  with Cons.prems have q: "Q = R" "n = Suc k" by auto
  have s: "ws_byte b (forget P, u) = length_read (forget ?P, u)"
    using Cons.prems(1) by (simp add: forget_upd del: length_read.simps)
  show ?case
  proof (cases "require ?P = 0 \<or> bs = []")
    case True
    with R have "R = ?P" "k = 0" by (cases bs; auto)+
    with q s Cons.prems(1) show ?thesis by simp
  next
    case False
    then have "length_read (forget ?P, u) = (forget ?P, u)" by simp
    with Cons.IH [of ?P k] False R q s Cons.prems(1) show ?thesis by (simp del: length_read.simps)
  qed
qed simp

lemma read_mask_bytes:
  assumes "ws_state P = s_mask" "require P \<noteq> 0" "bs \<noteq> []" "read_mask bs P = (Q, n)"
  shows "0 < n \<and> n \<le> length bs \<and> ws_state Q = s_mask \<and>
    ws_bytes (take n bs) (forget P, u) = mask_read (forget Q, u)"
  using assms
proof (induction bs arbitrary: P n)
  case (Cons b bs)
  let ?P = "P\<lparr>mask := (mask P)[unat (4 - require P) := b], require := require P - 1\<rparr>"
  obtain R k where R: "read_mask bs ?P = (R, k)" by fastforce
  with Cons.prems have q: "Q = R" "n = Suc k" by auto
  have s: "ws_byte b (forget P, u) = mask_read (forget ?P, u)"
    using Cons.prems(1) by (simp add: forget_upd del: mask_read.simps)
  show ?case
  proof (cases "require ?P = 0 \<or> bs = []")
    case True
    with R have "R = ?P" "k = 0" by (cases bs; auto)+
    with q s Cons.prems(1) show ?thesis by simp
  next
    case False
    then have "mask_read (forget ?P, u) = (forget ?P, u)" by simp
    with Cons.IH [of ?P k] False R q s Cons.prems(1) show ?thesis by (simp del: mask_read.simps)
  qed
qed simp

subsection \<open>The body\<close>

text \<open>What the recorder's body callback appends, and the mask offset it leaves.\<close>

definition unmasked :: "websocket_parser \<Rightarrow> byte list \<Rightarrow> byte list" where
  "unmasked P bs = (if has_mask P then fst (websocket_parser_decode bs P) else bs)"

definition offset_after :: "websocket_parser \<Rightarrow> nat \<Rightarrow> byte" where
  "offset_after P n = (if has_mask P then of_nat ((n + unat (mask_offset P)) mod 4) else mask_offset P)"

lemma emit_recorder:
  "emit (on_frame_body recorder) P bs u
     = (True, P\<lparr>mask_offset := offset_after P (length bs)\<rparr>, u @ map EByte (unmasked P bs))"
  by (simp add: emit_def recorder_def websocket_parser_decode_def unmasked_def offset_after_def)

lemma websocket_parser_decode_Cons:
  "fst (websocket_parser_decode (b # bs) P) =
     (b XOR mask P ! (unat (mask_offset P) mod 4)) #
       fst (websocket_parser_decode bs (P\<lparr>mask_offset := of_nat ((1 + unat (mask_offset P)) mod 4)\<rparr>))"
proof -
  let ?mo = "unat (mask_offset P)"
  have m: "unat (of_nat ((1 + ?mo) mod 4) :: byte) = (1 + ?mo) mod 4"
    by (rule unat_of_nat_small) (simp add: less_le_trans [OF mod_less_divisor])
  have "(i + (1 + ?mo) mod 4) mod 4 = (Suc i + ?mo) mod 4" for i
    by (simp add: mod_simps)
  then show ?thesis
    unfolding websocket_parser_decode_def
    by (simp add: m map_upt_Suc del: upt_Suc)
qed

lemma body_bytes:
  assumes "ws_state P = s_body" "0 < length bs" "length bs \<le> unat (require P)"
  shows "ws_bytes bs (P, u) =
    body_read (P\<lparr>require := require P - of_nat (length bs), mask_offset := offset_after P (length bs)\<rparr>,
               u @ map EByte (unmasked P bs))"
  using assms
proof (induction bs arbitrary: P u)
  case (Cons b bs)
  let ?P = "P\<lparr>require := require P - 1, mask_offset := offset_after P 1\<rparr>"
  have s: "ws_byte b (P, u) = body_read (?P, u @ [EByte (hd (unmasked P [b]))])"
    using Cons.prems(1)
    by (simp add: offset_after_def unmasked_def websocket_parser_decode_def del: body_read.simps)
  have o: "offset_after ?P n = offset_after P (Suc n)" for n
  proof -
    have m: "unat (of_nat ((1 + unat (mask_offset P)) mod 4) :: byte) = (1 + unat (mask_offset P)) mod 4"
      by (rule unat_of_nat_small) (simp add: less_le_trans [OF mod_less_divisor])
    show ?thesis by (simp add: offset_after_def has_mask_def m mod_simps)
  qed
  have d: "unmasked P (b # bs) = hd (unmasked P [b]) # unmasked ?P bs"
    using websocket_parser_decode_Cons [of b bs P] websocket_parser_decode_Cons [of b "[]" P]
    by (simp add: unmasked_def has_mask_def offset_after_def websocket_parser_decode_def)
  show ?case
  proof (cases bs)
    case Nil
    with s show ?thesis by (simp add: unmasked_def websocket_parser_decode_def)
  next
    case bs: (Cons c cs)
    have r: "1 < unat (require P)" using Cons.prems(3) bs by simp
    then have r1: "unat (require P - 1) = unat (require P) - 1" 
      by (metis not_less_zero unat_0 unat_minus_one)
    with r have "require P - 1 \<noteq> 0" by (metis diff_is_0_eq not_le unat_0)
    then have "ws_byte b (P, u) = (?P, u @ [EByte (hd (unmasked P [b]))])" using s by simp
    moreover have "ws_bytes bs (?P, u @ [EByte (hd (unmasked P [b]))]) =
      body_read (?P\<lparr>require := require ?P - of_nat (length bs), mask_offset := offset_after ?P (length bs)\<rparr>,
               (u @ [EByte (hd (unmasked P [b]))]) @ map EByte (unmasked ?P bs))"
      by (rule Cons.IH) (use Cons.prems r1 bs in simp_all)
    ultimately show ?thesis using o d by (simp add: algebra_simps del: body_read.simps)
  qed
qed simp

subsection \<open>One iteration, then the loop\<close>

text \<open>An iteration reads some bytes as the reference machine reads them.\<close>

definition reads :: "byte list \<Rightarrow> nat \<Rightarrow> websocket_parser \<Rightarrow> ws_event list \<Rightarrow> ws_event list ws_pass \<Rightarrow> bool" where
  "reads dat p P u r \<longleftrightarrow>
     (\<exists>p' fo' P' u'. r = Go p' fo' P' u' \<and> p < p' \<and> p' \<le> length dat \<and> ws_wf P' \<and>
        ws_bytes (take (p' - p) (drop p dat)) (forget P, u) = (forget P', u'))"

lemma reads_one:
  assumes "p < length dat" and "ws_byte (dat ! p) (forget P, u) = (forget P', u')" and "ws_wf P'"
  shows "reads dat p P u (Go (p + 1) fo' P' u')"
proof -
  have "drop p dat = dat ! p # drop (Suc p) dat" using assms(1) by (simp add: Cons_nth_drop_Suc)
  with assms show ?thesis by (simp add: reads_def del: ws_byte.simps)
qed

lemma pass_start_reads:
  assumes "p < length dat" and "ws_state P = s_start"
  shows "reads dat p P u (pass_start (dat ! p) p fo P u)"
  unfolding pass_start_def Let_def
  by (rule reads_one [OF assms(1)]) (use assms(2) in \<open>auto simp: forget_def ws_wf_def\<close>)

lemma pass_head_reads:
  assumes "p < length dat" and "ws_state P = s_head"
  shows "reads dat p P u (pass_head recorder (dat ! p) p fo P u)"
proof -
  define b where "b = dat ! p"
  define Q where "Q = P\<lparr>ws_length := ucast b AND 0x7F,
     ws_flags := (if b AND 0x80 \<noteq> 0 then ws_flags P OR WS_HAS_MASK else ws_flags P)\<rparr>"
  have Q: "(if b AND 0x80 \<noteq> 0 then P\<lparr>ws_length := ucast b AND 0x7F\<rparr>\<lparr>ws_flags :=
              ws_flags (P\<lparr>ws_length := ucast b AND 0x7F\<rparr>) OR WS_HAS_MASK\<rparr>
            else P\<lparr>ws_length := ucast b AND 0x7F\<rparr>) = Q"
    by (simp add: Q_def)
  have f: "(forget P)\<lparr>ws_length := ucast b AND 0x7F,
     ws_flags := (if b AND 0x80 \<noteq> 0 then ws_flags (forget P) OR WS_HAS_MASK else ws_flags (forget P))\<rparr> = forget Q"
    by (simp add: Q_def forget_upd)
  have l: "ucast b AND 0x7F = ws_length Q" by (simp add: Q_def)
  have byte: "ws_byte b (forget P, u) =
      (if ws_length Q \<ge> 126
       then ((forget Q)\<lparr>require := (if ws_length Q = 127 then 8 else 2), ws_length := 0, ws_state := s_length\<rparr>, u)
       else if has_mask Q then ((forget Q)\<lparr>ws_state := s_mask, require := 4\<rparr>, u)
       else header_event (forget Q, u))"
    using assms(2) unfolding ws_byte.simps Let_def f
    by (simp add: l del: header_event.simps)
  obtain R v where R: "header_event (Q, u) = (R, v)" by fastforce
  have pass: "pass_head recorder b p fo P u =
      (if ws_length Q \<ge> 126
       then Go (p + 1) (fo + 1) (Q\<lparr>require := (if ws_length Q = 127 then 8 else 2), ws_length := 0, ws_state := s_length\<rparr>) u
       else if has_mask Q then Go (p + 1) (fo + 1) (Q\<lparr>ws_state := s_mask, require := 4\<rparr>) u
       else Go (p + 1) (fo + 1) R v)"
    unfolding pass_head_def Let_def Q by (simp add: has_mask_def header_done_recorder R del: header_event.simps)
  note h = header_event_forget [OF R]
  consider "ws_length Q \<ge> 126" | "\<not> ws_length Q \<ge> 126" "has_mask Q" | "\<not> ws_length Q \<ge> 126" "\<not> has_mask Q"
    by blast
  then show ?thesis
  proof cases
    case 1
    then show ?thesis unfolding b_def [symmetric] pass
      by (simp only: if_True) (rule reads_one [OF assms(1)], unfold b_def [symmetric] byte,
          auto simp: forget_upd ws_wf_def)
  next
    case 2
    then show ?thesis unfolding b_def [symmetric] pass
      by (simp only: if_True if_False) (rule reads_one [OF assms(1)], unfold b_def [symmetric] byte,
          auto simp: forget_upd ws_wf_def)
  next
    case 3
    then show ?thesis unfolding b_def [symmetric] pass
      by (simp only: if_True if_False) (rule reads_one [OF assms(1)], unfold b_def [symmetric] byte,
          use h in \<open>simp_all del: header_event.simps\<close>)
  qed
qed

lemma pass_length_reads:
  assumes "p < length dat" and "ws_state P = s_length" and "ws_wf P"
  shows "reads dat p P u (pass_length recorder dat p fo P u)"
proof -
  obtain Q n where Q: "read_length (drop p dat) P = (Q, n)" by fastforce
  have r: "require P \<noteq> 0" using assms(2,3) by (simp add: ws_wf_def)
  note b = read_length_bytes [OF assms(2) r _ Q, of u]
  obtain R v where R: "length_read (Q, u) = (R, v)" by fastforce
  have "pass_length recorder dat p fo P u = Go (p + n) (fo + of_nat n) R v"
    using R unfolding pass_length_def Q by (auto simp: Let_def has_mask_def header_done_recorder split: if_splits)
  moreover have "length_read (forget Q, u) = (forget R, v) \<and> ws_wf R"
    using R b assms(1) header_event_forget [of Q u R v]
    by (auto simp: forget_upd ws_wf_def simp del: header_event.simps split: if_splits)
  ultimately show ?thesis using b assms(1) by (auto simp: reads_def simp del: length_read.simps)
qed

lemma pass_mask_reads:
  assumes "p < length dat" and "ws_state P = s_mask" and "ws_wf P"
  shows "reads dat p P u (pass_mask recorder dat p fo P u)"
proof -
  obtain Q n where Q: "read_mask (drop p dat) P = (Q, n)" by fastforce
  have r: "require P \<noteq> 0" using assms(2,3) by (simp add: ws_wf_def)
  note b = read_mask_bytes [OF assms(2) r _ Q, of u]
  obtain R v where R: "mask_read (Q, u) = (R, v)" by fastforce
  have "pass_mask recorder dat p fo P u = Go (p + n) (fo + of_nat n) R v"
    using R unfolding pass_mask_def Q by (auto simp: Let_def header_done_recorder split: if_splits)
  moreover have "mask_read (forget Q, u) = (forget R, v) \<and> ws_wf R"
    using R b assms(1) header_event_forget [of Q u R v]
    by (auto simp: forget_upd ws_wf_def simp del: header_event.simps split: if_splits)
  ultimately show ?thesis using b assms(1) by (auto simp: reads_def simp del: mask_read.simps)
qed

lemma fit_test:
  fixes addr r :: size_t
  assumes "unat addr + n < 2 ^ 64" and "p \<le> n" and "unat addr + p + unat r < 2 ^ 64"
  shows "addr + of_nat p + r \<le> addr + of_nat n \<longleftrightarrow> p + unat r \<le> n"
proof -
  have u: "unat (x + y) = unat x + unat y" if "unat x + unat y < 2 ^ 64" for x y :: size_t
    using that unat_add_lem [of x y] by simp
  have "unat (of_nat p :: size_t) = p" "unat (of_nat n :: size_t) = n"
    using assms(1,2) by simp_all
  with assms have "unat (addr + of_nat n) = unat addr + n" "unat (addr + of_nat p) = unat addr + p"
    using u [of addr "of_nat n"] u [of addr "of_nat p"] by simp_all
  with assms(3) u [of "addr + of_nat p" r] show ?thesis by (simp add: word_le_nat_alt)
qed

lemma pass_body_reads:
  assumes "p < length dat" and "ws_state P = s_body" and "ws_wf P"
    and "unat addr + length dat + unat (require P) < 2 ^ 64"
  shows "reads dat p P u (pass_body recorder addr dat p fo P u)"
proof -
  have r: "require P \<noteq> 0" using assms(2,3) by (simp add: ws_wf_def)
  then have r0: "0 < unat (require P)" by (simp add: unat_gt_0)
  have fit: "addr + of_nat p + require P \<le> addr + of_nat (length dat) \<longleftrightarrow> p + unat (require P) \<le> length dat"
    by (rule fit_test) (use assms(1,4) in linarith)+
  define n where "n = min (unat (require P)) (length dat - p)"
  define bs where "bs = take n (drop p dat)"
  have bs: "length bs = n" "0 < n" "n \<le> unat (require P)" "p + n \<le> length dat"
    using r0 assms(1) by (auto simp: bs_def n_def)
  define Q where "Q = P\<lparr>mask_offset := offset_after P n\<rparr>"
  let ?v = "u @ map EByte (unmasked P bs)"
  have body: "ws_bytes bs (forget P, u) = body_read (forget (Q\<lparr>require := require P - of_nat n\<rparr>), ?v)"
    using body_bytes [of "forget P" bs u] bs assms(2)
    by (cases P) (simp add: Q_def forget_def unmasked_def offset_after_def has_mask_def
        websocket_parser_decode_def del: body_read.simps)
  have ended: "reads dat p P u (body_end recorder at (p + n) fo' (Q\<lparr>require := require P - of_nat n, ws_offset := x\<rparr>) ?v)"
    for at fo' x
  proof -
    obtain R w where R: "body_read (Q\<lparr>require := require P - of_nat n, ws_offset := x\<rparr>, ?v) = (R, w)" by fastforce
    have "body_read (forget (Q\<lparr>require := require P - of_nat n, ws_offset := x\<rparr>), ?v) = (forget R, w) \<and> ws_wf R"
      by (rule body_read_forget [OF R]) (simp add: Q_def assms(2))
    then have "ws_bytes bs (forget P, u) = (forget R, w)" "ws_wf R"
      using body by (simp_all add: forget_upd del: body_read.simps)
    then show ?thesis using bs
      by (simp add: reads_def body_end_recorder R bs_def [symmetric] del: body_read.simps)
  qed
  show ?thesis
  proof (cases "p + unat (require P) \<le> length dat")
    case True
    then have n: "n = unat (require P)" by (simp add: n_def)
    then have "require P - of_nat n = 0" by simp
    with ended [of _ _ "ws_offset Q"] True r n show ?thesis
      unfolding pass_body_def Let_def fit
      by (simp add: emit_recorder bs_def Q_def)
  next
    case False
    then have n: "n = length dat - p" "bs = drop p dat" by (simp_all add: n_def bs_def)
    with bs(4) have "p + n = length dat" using assms(1) by simp
    with ended False r n show ?thesis
      unfolding pass_body_def Let_def fit
      by (simp add: emit_recorder Q_def)
  qed
qed

lemma ws_pass_reads:
  assumes "p < length dat" and "ws_wf P" and "frames_fit (unat addr + length dat) (drop p dat) (forget P, u)"
  shows "reads dat p P u (ws_pass recorder addr dat p fo P u)"
proof -
  have "drop p dat = dat ! p # drop (Suc p) dat" using assms(1) by (simp add: Cons_nth_drop_Suc)
  with assms(3) have "ws_state P = s_body \<longrightarrow> unat addr + length dat + unat (require P) < 2 ^ 64" by simp
  with assms(1,2) show ?thesis
    by (cases "ws_state P") (simp_all add: ws_pass_def pass_start_reads pass_head_reads pass_length_reads
        pass_mask_reads pass_body_reads)
qed

lemma ws_loop_reads:
  assumes "p \<le> length dat" and "ws_wf P" and "frames_fit (unat addr + length dat) (drop p dat) (forget P, u)"
  shows "\<exists>P' u'. ws_loop recorder addr dat p fo P u = Some (of_nat (length dat), P', u') \<and> ws_wf P' \<and>
    ws_bytes (drop p dat) (forget P, u) = (forget P', u')"
  using assms
proof (induction "length dat - p" arbitrary: p fo P u rule: less_induct)
  case less
  show ?case
  proof (cases "p < length dat")
    case False
    with less.prems show ?thesis by (subst ws_loop.simps) simp
  next
    case True
    from ws_pass_reads [OF True less.prems(2,3), of fo] obtain p' fo' P' u' where
      g: "ws_pass recorder addr dat p fo P u = Go p' fo' P' u'" "p < p'" "p' \<le> length dat" "ws_wf P'"
        "ws_bytes (take (p' - p) (drop p dat)) (forget P, u) = (forget P', u')"
      by (auto simp: reads_def)
    have split: "drop p dat = take (p' - p) (drop p dat) @ drop p' dat"
      using g(2) append_take_drop_id [of "p' - p" "drop p dat"] by simp
    have fit: "frames_fit (unat addr + length dat) (drop p' dat) (forget P', u')"
      using less.prems(3) g(5) by (subst (asm) split) (simp add: frames_fit_append)
    have "ws_bytes (drop p dat) (forget P, u) = ws_bytes (drop p' dat) (forget P', u')"
      using g(5) by (subst split) simp
    with less.hyps [OF _ g(3,4) fit, of fo'] g(1,2) True show ?thesis
      by (subst ws_loop.simps) auto
  qed
qed

section \<open>Parsing what was built\<close>

subsection \<open>Bits\<close>

declare bit_numeral_word_iff [simp del]

lemma less_5_6: "n < 5 \<longleftrightarrow> n < 4 \<or> n = 4" "n < 6 \<longleftrightarrow> n < 5 \<or> n = 5" for n :: nat
  by auto

lemmas ws_bits = WS_OP_MASK_def WS_FIN_def WS_HAS_MASK_def

lemma bit_frame_byte0: "bit (frame_byte0 fl) n \<longleftrightarrow> n < 4 \<and> bit fl n \<or> n = 7 \<and> bit fl 4"
  unfolding frame_byte0_def ws_bits bit_tests
  by (auto simp: bit_or_iff bit_and_iff bit_unsigned_iff bit_consts)

lemma bit_frame_byte1: "bit (frame_byte1 fl) n \<longleftrightarrow> n = 7 \<and> bit fl 5"
  unfolding frame_byte1_def ws_bits bit_tests by (auto simp: bit_consts)

lemma parsed_flags:
  "(if frame_byte0 fl AND 0x80 \<noteq> 0 then (ucast (frame_byte0 fl) AND WS_OP_MASK) OR WS_FIN
    else ucast (frame_byte0 fl) AND WS_OP_MASK) = fl AND 0x1F"
  unfolding ws_bits bit_tests
  by (rule bit_word_eqI)
    (auto simp: bit_or_iff bit_and_iff bit_unsigned_iff bit_consts bit_frame_byte0 less_5_6)

lemma parsed_mask_flag:
  "(if bit fl 5 then (fl AND 0x1F) OR WS_HAS_MASK else fl AND 0x1F) = fl AND 0x3F"
  unfolding ws_bits
  by (rule bit_word_eqI) (auto simp: bit_or_iff bit_and_iff bit_consts less_5_6)

lemma second_byte:
  assumes "c < 128"
  shows "(frame_byte1 fl OR c) AND 0x80 \<noteq> 0 \<longleftrightarrow> bit fl 5"
    and "ucast (frame_byte1 fl OR c) AND (0x7F :: size_t) = ucast c"
proof -
  have c: "\<not> bit c n" if "7 \<le> n" for n
  proof -
    have "unat c < 2 ^ 7" using assms by (simp add: word_less_nat_alt)
    then have "unat (take_bit 7 c) = unat c" by (simp add: unsigned_take_bit_eq take_bit_nat_eq_self)
    then have "take_bit 7 c = c" by (simp add: word_unat_eq_iff)
    then show ?thesis using that by (metis bit_take_bit_iff not_less)
  qed
  show "(frame_byte1 fl OR c) AND 0x80 \<noteq> 0 \<longleftrightarrow> bit fl 5"
    unfolding bit_tests by (simp add: bit_or_iff bit_frame_byte1 c)
  show "ucast (frame_byte1 fl OR c) AND (0x7F :: size_t) = ucast c"
    by (rule bit_word_eqI)
      (use c in \<open>auto simp: bit_or_iff bit_and_iff bit_unsigned_iff bit_consts bit_frame_byte1 not_less [symmetric]\<close>)
qed

text \<open>Reading the next length byte shifts the window on the length by one byte.\<close>

lemma length_byte_step:
  fixes x :: size_t
  assumes "m + 8 \<le> 64"
  shows "push_bit 8 (drop_bit (m + 8) x) OR ucast (ucast (drop_bit m x AND 0xFF) :: byte) = drop_bit m x"
proof (rule bit_word_eqI)
  fix n assume n: "n < LENGTH(64)"
  show "bit (push_bit 8 (drop_bit (m + 8) x) OR ucast (ucast (drop_bit m x AND 0xFF) :: byte)) n
      = bit (drop_bit m x) n"
  proof (cases "n < 8")
    case True
    then show ?thesis
      by (simp add: bit_or_iff bit_and_iff bit_unsigned_iff bit_consts bit_push_bit_iff bit_drop_bit_eq)
  next
    case False
    then have "m + 8 + (n - 8) = m + n" by simp
    with False n show ?thesis
      by (simp add: bit_or_iff bit_and_iff bit_unsigned_iff bit_consts bit_push_bit_iff bit_drop_bit_eq)
  qed
qed

subsection \<open>The header bytes\<close>

abbreviation acc_length :: "byte list \<Rightarrow> size_t \<Rightarrow> size_t" where
  "acc_length bs l \<equiv> fold (\<lambda>b l. push_bit 8 l OR ucast b) bs l"

lemma len_bytes_value:
  "acc_length [len_byte n 7, len_byte n 6, len_byte n 5, len_byte n 4, len_byte n 3, len_byte n 2,
     len_byte n 1, len_byte n 0] 0 = n"
proof -
  have 0: "drop_bit 64 n = 0"
    by (rule bit_word_eqI) (auto simp: bit_drop_bit_eq dest: bit_imp_le_length)
  have s: "push_bit 8 (drop_bit (8 * Suc k) n) OR ucast (len_byte n k) = drop_bit (8 * k) n" if "k < 8" for k
    using length_byte_step [of "8 * k" n] that by (simp add: len_byte_def add.commute)
  show ?thesis
    using s [of 7] s [of 6] s [of 5] s [of 4] s [of 3] s [of 2] s [of 1] s [of 0] 0 by simp
qed

lemma short_len_bytes_value:
  assumes "n \<le> 0xFFFF"
  shows "acc_length [ucast (drop_bit 8 n), ucast (n AND 0xFF)] 0 = n"
proof -
  have u: "unat n < 2 ^ 16" using assms by (simp add: word_le_nat_alt)
  then have "unat (take_bit 16 n) = unat n" by (simp add: unsigned_take_bit_eq take_bit_nat_eq_self)
  then have t: "take_bit 16 n = n" by (simp add: word_unat_eq_iff)
  have b: "bit n k \<Longrightarrow> k < 16" for k using t by (metis bit_take_bit_iff)
  have 0: "drop_bit 16 n = 0"
    by (rule bit_word_eqI) (auto simp: bit_drop_bit_eq dest: b)
  have 1: "(ucast (drop_bit 8 n) :: byte) = ucast (drop_bit 8 n AND 0xFF)"
    by (rule bit_word_eqI) (auto simp: bit_unsigned_iff bit_and_iff bit_consts)
  show ?thesis
    using length_byte_step [of 8 n] length_byte_step [of 0 n] 0 by (simp add: 1)
qed

lemma length_bytes:
  assumes "ws_state P = s_length" and "unat (require P) = length bs" and "bs \<noteq> []"
  shows "ws_bytes bs (P, u) = length_read (P\<lparr>ws_length := acc_length bs (ws_length P), require := 0\<rparr>, u) \<and>
    frames_fit m bs (P, u)"
  using assms
proof (induction bs arbitrary: P)
  case (Cons b bs)
  let ?P = "P\<lparr>ws_length := push_bit 8 (ws_length P) OR ucast b, require := require P - 1\<rparr>"
  have s: "ws_byte b (P, u) = length_read (?P, u)"
    using Cons.prems(1) by (simp del: length_read.simps)
  have r: "unat (require P - 1) = length bs"
    using Cons.prems(2) by (metis diff_Suc_1 length_Cons nat.distinct(1) unat_eq_0 unat_minus_one)
  show ?case
  proof (cases bs)
    case Nil
    with r have "require P - 1 = 0" by (simp add: unat_eq_0)
    with s Nil Cons.prems(1) show ?thesis by (simp del: length_read.simps)
  next
    case (Cons c cs)
    with r have "require P - 1 \<noteq> 0" by (metis length_0_conv list.distinct(1) unat_0)
    then have "ws_byte b (P, u) = (?P, u)" using s by simp
    with Cons.IH [of ?P] r Cons Cons.prems(1) show ?thesis by (simp del: length_read.simps ws_byte.simps)
  qed
qed simp

lemma head_two_bytes:
  assumes "ws_state P = s_start" and "c < 128"
  shows "ws_bytes [frame_byte0 fl, frame_byte1 fl OR c] (P, u) =
    (let Q = P\<lparr>ws_offset := 0, ws_length := ucast c, mask_offset := 0, ws_flags := fl AND 0x3F, ws_state := s_head\<rparr>
     in if (ucast c :: size_t) \<ge> 126
        then (Q\<lparr>require := (if (ucast c :: size_t) = 127 then 8 else 2), ws_length := 0, ws_state := s_length\<rparr>, u)
        else if bit fl 5 then (Q\<lparr>ws_state := s_mask, require := 4\<rparr>, u)
        else header_event (Q, u)) \<and>
    frames_fit m [frame_byte0 fl, frame_byte1 fl OR c] (P, u)"
proof -
  have h: "has_mask Q \<longleftrightarrow> bit fl 5" if "ws_flags Q = fl AND 0x3F" for Q
    using that unfolding has_mask_def ws_bits bit_tests by (simp add: bit_and_iff bit_consts)
  define Q0 where "Q0 = P\<lparr>ws_offset := 0, ws_length := 0, mask_offset := 0, ws_flags := fl AND 0x1F, ws_state := s_head\<rparr>"
  define Q where "Q = P\<lparr>ws_offset := 0, ws_length := ucast c, mask_offset := 0, ws_flags := fl AND 0x3F, ws_state := s_head\<rparr>"
  have 0: "ws_byte (frame_byte0 fl) (P, u) = (Q0, u)"
    using assms(1) parsed_flags [of fl] by (simp add: Q0_def)
  have fl: "(if (frame_byte1 fl OR c) AND 0x80 \<noteq> 0 then ws_flags Q0 OR WS_HAS_MASK else ws_flags Q0) = fl AND 0x3F"
    unfolding second_byte(1) [OF assms(2)] using parsed_mask_flag [of fl] by (simp add: Q0_def split: if_splits)
  have Q: "Q0\<lparr>ws_length := ucast c, ws_flags := fl AND 0x3F\<rparr> = Q"
    by (cases P) (simp add: Q0_def Q_def)
  have st: "ws_state Q0 = s_head" by (simp add: Q0_def)
  have "ws_byte (frame_byte1 fl OR c) (Q0, u) =
     (if (ucast c :: size_t) \<ge> 126
      then (Q\<lparr>require := (if (ucast c :: size_t) = 127 then 8 else 2), ws_length := 0, ws_state := s_length\<rparr>, u)
      else if bit fl 5 then (Q\<lparr>ws_state := s_mask, require := 4\<rparr>, u)
      else header_event (Q, u))"
    unfolding ws_byte.simps st ws_state.case Let_def second_byte(2) [OF assms(2)] fl Q
    using h [of Q] by (simp add: Q_def del: header_event.simps)
  with 0 st assms(1) show ?thesis
    unfolding Let_def Q_def [symmetric] by (simp del: header_event.simps ws_byte.simps)
qed

text \<open>The parser after the whole header, before the mask.\<close>

definition after_head :: "u32 \<Rightarrow> size_t \<Rightarrow> websocket_parser \<Rightarrow> ws_event list \<Rightarrow> websocket_parser \<times> ws_event list" where
  "after_head fl n P u =
     (let Q = P\<lparr>ws_offset := 0, ws_length := n, mask_offset := 0, ws_flags := fl AND 0x3F\<rparr>
      in if bit fl 5 then (Q\<lparr>ws_state := s_mask, require := 4\<rparr>, u) else header_event (Q, u))"

lemma head_long_bytes:
  assumes "ws_state P = s_start" and "code = 126 \<and> length bs = 2 \<or> code = 127 \<and> length bs = 8"
    and "acc_length bs 0 = n" and "n \<noteq> 0"
  shows "ws_bytes (frame_byte0 fl # (frame_byte1 fl OR code) # bs) (P, u) = after_head fl n P u \<and>
    frames_fit m (frame_byte0 fl # (frame_byte1 fl OR code) # bs) (P, u)"
proof -
  have h: "has_mask Q \<longleftrightarrow> bit fl 5" if "ws_flags Q = fl AND 0x3F" for Q
    using that unfolding has_mask_def ws_bits bit_tests by (simp add: bit_and_iff bit_consts)
  define Q where "Q = P\<lparr>ws_offset := 0, ws_length := 0, mask_offset := 0, ws_flags := fl AND 0x3F,
    require := of_nat (length bs), ws_state := s_length\<rparr>"
  have c: "code < 128" using assms(2) by auto
  have two: "ws_bytes [frame_byte0 fl, frame_byte1 fl OR code] (P, u) = (Q, u)"
    "frames_fit m [frame_byte0 fl, frame_byte1 fl OR code] (P, u)"
    using head_two_bytes [OF assms(1) c, of fl u m] assms(2) by (cases P; auto simp: Q_def)+
  have rest: "ws_bytes bs (Q, u) = length_read (Q\<lparr>ws_length := n, require := 0\<rparr>, u)" "frames_fit m bs (Q, u)"
  proof -
    have "bs \<noteq> []" "ws_state Q = s_length" "unat (require Q) = length bs" "ws_length Q = 0"
      using assms(2) by (auto simp: Q_def)
    from length_bytes [OF this(2,3,1), of u m] this(4) assms(3)
    show "ws_bytes bs (Q, u) = length_read (Q\<lparr>ws_length := n, require := 0\<rparr>, u)" "frames_fit m bs (Q, u)"
      by (simp_all del: length_read.simps)
  qed
  have "length_read (Q\<lparr>ws_length := n, require := 0\<rparr>, u) = after_head fl n P u"
    using assms(4) h by (cases P) (simp add: Q_def after_head_def Let_def)
  with two rest frames_fit_append [of m "[frame_byte0 fl, frame_byte1 fl OR code]" bs "(P, u)"]
  show ?thesis by simp
qed

lemma head_bytes:
  assumes "ws_state P = s_start"
  shows "ws_bytes (frame_head fl n) (P, u) = after_head fl n P u \<and> frames_fit m (frame_head fl n) (P, u)"
proof -
  consider "n < 126" | "\<not> n < 126" "n \<le> 0xFFFF" | "\<not> n < 126" "\<not> n \<le> 0xFFFF" by blast
  then show ?thesis
  proof cases
    case 1
    have u: "unat n < 126" using 1 by (simp add: word_less_nat_alt)
    have c: "(ucast n :: byte) < 128" "ucast (ucast n :: byte) = n"
      using u by (simp_all add: word_less_nat_alt word_unat_eq_iff unsigned_ucast_eq
          unsigned_take_bit_eq take_bit_nat_eq_self)
    have "\<not> n \<ge> 126" using 1 by simp
    then show ?thesis
      using head_two_bytes [OF assms c(1), of fl u m] 1 unfolding c(2)
      by (cases P) (simp add: frame_head_def after_head_def Let_def)
  next
    case 2
    then have "n \<noteq> 0" by auto
    with 2 head_long_bytes [OF assms _ short_len_bytes_value [OF 2(2)], of 126 fl u m]
    show ?thesis by (simp add: frame_head_def)
  next
    case 3
    then have "n \<noteq> 0" by auto
    with 3 head_long_bytes [OF assms _ len_bytes_value [of n], of 127 fl u m]
    show ?thesis by (simp add: frame_head_def)
  qed
qed

subsection \<open>Mask and payload\<close>

lemma mask_bytes:
  assumes "ws_state P = s_mask" and "require P = 4" and "length (mask P) = 4" and "length m = 4"
  shows "ws_bytes m (P, u) = header_event (P\<lparr>mask := m, require := 0\<rparr>, u) \<and> frames_fit k m (P, u)"
proof -
  obtain a b c d where m: "m = [a, b, c, d]" using assms(4)
    by (auto simp: numeral_eq_Suc length_Suc_conv)
  obtain a' b' c' d' where m': "mask P = [a', b', c', d']" using assms(3)
    by (auto simp: numeral_eq_Suc length_Suc_conv)
  show ?thesis using assms(1,2) m' unfolding m by (cases P) simp
qed

lemma websocket_decode_involution:
  "fst (websocket_decode (fst (websocket_decode bs m mo)) m mo) = bs"
  by (rule nth_equalityI) (simp_all add: websocket_decode_def xor.assoc)

lemma body_fits:
  assumes "ws_state P = s_body" and "length bs \<le> unat (require P)" and "m + unat (require P) < 2 ^ 64"
  shows "frames_fit m bs (P, u)"
  using assms
proof (induction bs arbitrary: P u)
  case (Cons b bs)
  obtain Q v where Q: "ws_byte b (P, u) = (Q, v)" by fastforce
  show ?case
  proof (cases bs)
    case Nil
    with Cons.prems show ?thesis by simp
  next
    case bs: (Cons c cs)
    then have "1 < unat (require P)" using Cons.prems(2) by simp
    then have r: "unat (require P - 1) = unat (require P) - 1" by (metis not_less_zero unat_0 unat_minus_one)
    then have "require P - 1 \<noteq> 0" using \<open>1 < unat (require P)\<close> by (metis diff_is_0_eq not_le unat_0)
    with Q Cons.prems(1) have "ws_state Q = s_body" "require Q = require P - 1"
      by (auto split: if_splits)
    with Cons.IH [of Q v] Cons.prems r Q show ?thesis by (simp del: ws_byte.simps)
  qed
qed simp

text \<open>The bytes of a frame, as a list.\<close>

definition frame_bytes :: "u32 \<Rightarrow> byte list \<Rightarrow> byte list \<Rightarrow> byte list" where
  "frame_bytes fl m dat =
     frame_head fl (of_nat (length dat)) @ (if bit fl 5 then m @ fst (websocket_decode dat m 0) else dat)"

definition frame_events :: "u32 \<Rightarrow> byte list \<Rightarrow> ws_event list" where
  "frame_events fl dat = [EHeader (fl AND 0x3F) (of_nat (length dat))] @ map EByte dat @ [EEnd]"

lemma payload_bytes:
  assumes "ws_state P = s_body" and "unat (require P) = length bs" and "bs \<noteq> []"
  shows "\<exists>Q. ws_bytes bs (P, u) = (Q, u @ map EByte (unmasked P bs) @ [EEnd]) \<and>
    ws_state Q = s_start \<and> mask Q = mask P"
proof -
  have r: "require P = of_nat (length bs)" by (simp add: assms(2) [symmetric])
  have "0 < length bs" "length bs \<le> unat (require P)" using assms(2,3) by simp_all
  from body_bytes [OF assms(1) this, of u] show ?thesis by (simp add: r)
qed

lemma bit5_has_mask: "ws_flags Q = fl AND 0x3F \<Longrightarrow> has_mask Q \<longleftrightarrow> bit fl 5"
  unfolding has_mask_def ws_bits bit_tests by (simp add: bit_and_iff bit_consts)

text \<open>The parser once the header is reported, and what it then makes of the payload.\<close>

lemma header_then_payload:
  assumes "ws_flags P = fl AND 0x3F" and "ws_length P = of_nat (length dat)" and "length dat < 2 ^ 64"
    and "mask_offset P = 0" and "length (mask P) = 4" and "k + length dat < 2 ^ 64"
    and "bs = (if bit fl 5 then fst (websocket_decode dat (mask P) 0) else dat)"
  shows "\<exists>Q. ws_bytes bs (header_event (P, u)) = (Q, u @ frame_events fl dat) \<and>
    ws_state Q = s_start \<and> length (mask Q) = 4 \<and> frames_fit k bs (header_event (P, u))"
proof (cases "dat = []")
  case True
  then have "bs = []" using assms(7) by (simp add: websocket_decode_def)
  with True assms show ?thesis by (simp add: frame_events_def)
next
  case False
  define Q where "Q = P\<lparr>ws_state := s_body, require := ws_length P\<rparr>"
  have n: "(of_nat (length dat) :: size_t) \<noteq> 0" "unat (of_nat (length dat) :: size_t) = length dat"
    using False assms(3) by (simp_all add: of_nat_word_eq_0_iff)
  have h: "header_event (P, u) = (Q, u @ [EHeader (fl AND 0x3F) (of_nat (length dat))])"
    using n assms(1,2) by (simp add: Q_def)
  have l: "length bs = length dat" using assms(7) by (simp add: websocket_decode_def)
  then have bs: "bs \<noteq> []" using False by auto
  have q: "ws_state Q = s_body" "unat (require Q) = length bs" "mask Q = mask P" "mask_offset Q = 0"
    using n l assms(2,4) by (simp_all add: Q_def)
  have "has_mask Q \<longleftrightarrow> bit fl 5" by (rule bit5_has_mask) (simp add: Q_def assms(1))
  then have "unmasked Q bs = dat"
    using assms(7) q(3,4) websocket_decode_involution [of dat "mask P" 0]
    by (simp add: unmasked_def websocket_parser_decode_def websocket_decode_def)
  with payload_bytes [OF q(1,2) bs, of "u @ [EHeader (fl AND 0x3F) (of_nat (length dat))]"] q(3) assms(5)
    body_fits [OF q(1), of bs k] q(2) l assms(6) show ?thesis
    unfolding h by (auto simp: frame_events_def)
qed

lemma frame_parsed:
  assumes "ws_state P = s_start" and "length (mask P) = 4" and "length m = 4"
    and "length dat < 2 ^ 64" and "k + length dat < 2 ^ 64"
  shows "\<exists>Q. ws_bytes (frame_bytes fl m dat) (P, u) = (Q, u @ frame_events fl dat) \<and>
    ws_state Q = s_start \<and> length (mask Q) = 4 \<and> frames_fit k (frame_bytes fl m dat) (P, u)"
proof -
  let ?n = "of_nat (length dat) :: size_t"
  define Q where "Q = P\<lparr>ws_offset := 0, ws_length := ?n, mask_offset := 0, ws_flags := fl AND 0x3F\<rparr>"
  note h = head_bytes [OF assms(1), of fl ?n u k]
  show ?thesis
  proof (cases "bit fl 5")
    case True
    let ?bs = "fst (websocket_decode dat m 0)"
    have a: "after_head fl ?n P u = (Q\<lparr>ws_state := s_mask, require := 4\<rparr>, u)"
      using True by (simp add: after_head_def Q_def Let_def)
    have mb: "ws_bytes m (Q\<lparr>ws_state := s_mask, require := 4\<rparr>, u)
        = header_event (Q\<lparr>ws_state := s_mask, mask := m, require := 0\<rparr>, u)"
      "frames_fit k m (Q\<lparr>ws_state := s_mask, require := 4\<rparr>, u)"
      using mask_bytes [of "Q\<lparr>ws_state := s_mask, require := 4\<rparr>" m u k] assms(2,3)
      by (cases Q; simp add: Q_def del: header_event.simps)+
    have "\<exists>R. ws_bytes ?bs (header_event (Q\<lparr>ws_state := s_mask, mask := m, require := 0\<rparr>, u)) = (R, u @ frame_events fl dat) \<and>
      ws_state R = s_start \<and> length (mask R) = 4 \<and>
      frames_fit k ?bs (header_event (Q\<lparr>ws_state := s_mask, mask := m, require := 0\<rparr>, u))"
      by (rule header_then_payload) (use assms True in \<open>simp_all add: Q_def\<close>)
    with True h mb a show ?thesis
      by (auto simp: frame_bytes_def frames_fit_append simp del: header_event.simps)
  next
    case False
    have a: "after_head fl ?n P u = header_event (Q, u)"
      using False by (simp add: after_head_def Q_def Let_def del: header_event.simps)
    have "\<exists>R. ws_bytes dat (header_event (Q, u)) = (R, u @ frame_events fl dat) \<and>
      ws_state R = s_start \<and> length (mask R) = 4 \<and> frames_fit k dat (header_event (Q, u))"
      by (rule header_then_payload) (use assms False in \<open>simp_all add: Q_def\<close>)
    with False h a show ?thesis
      by (auto simp: frame_bytes_def frames_fit_append simp del: header_event.simps)
  qed
qed

text \<open>A stream of frames.\<close>

lemma frames_parsed:
  assumes "\<forall>(fl, m, dat) \<in> set fs. length m = 4 \<and> k + length dat < 2 ^ 64"
    and "ws_state P = s_start" and "length (mask P) = 4"
  shows "\<exists>Q. ws_bytes (concat (map (\<lambda>(fl, m, dat). frame_bytes fl m dat) fs)) (P, u)
      = (Q, u @ concat (map (\<lambda>(fl, m, dat). frame_events fl dat) fs)) \<and>
    ws_state Q = s_start \<and> frames_fit k (concat (map (\<lambda>(fl, m, dat). frame_bytes fl m dat) fs)) (P, u)"
  using assms
proof (induction fs arbitrary: P u)
  case (Cons f fs)
  obtain fl m dat where f: "f = (fl, m, dat)" by (cases f)
  with Cons.prems(1) have d: "length m = 4" "k + length dat < 2 ^ 64" "length dat < 2 ^ 64" by auto
  from frame_parsed [OF Cons.prems(2,3) d(1,3,2), of fl u] obtain Q where
    Q: "ws_bytes (frame_bytes fl m dat) (P, u) = (Q, u @ frame_events fl dat)"
      "ws_state Q = s_start" "length (mask Q) = 4" "frames_fit k (frame_bytes fl m dat) (P, u)" by blast
  have "\<forall>(fl, m, dat) \<in> set fs. length m = 4 \<and> k + length dat < 2 ^ 64" using Cons.prems(1) by simp
  from Cons.IH [OF this Q(2,3), of "u @ frame_events fl dat"] Q(1,4) show ?case
    by (auto simp: f frames_fit_append)
qed simp

section \<open>The builder\<close>

lemma store_prefix:
  assumes "length pre = i" and "length bs \<le> length mem"
  shows "store (pre @ mem) i bs = Some ((pre @ bs) @ drop (length bs) mem)"
  using assms by (simp add: store_def)

lemma build_frame_bytes:
  assumes "length m = 4" and "length (frame_bytes fl m dat) \<le> length frame"
  shows "websocket_build_frame frame fl (Some m) dat
    = Some (frame_bytes fl m dat @ drop (length (frame_bytes fl m dat)) frame,
            of_nat (length (frame_bytes fl m dat)))"
proof -
  define h where "h = frame_head fl (of_nat (length dat))"
  have w: "length (fst (websocket_decode dat m 0)) = length dat" by (simp add: websocket_decode_def)
  have m: "fl AND WS_HAS_MASK \<noteq> 0 \<longleftrightarrow> bit fl 5" unfolding ws_bits bit_tests ..
  have s1: "store frame 0 h = Some (h @ drop (length h) frame)"
    using store_prefix [of "[]" 0 h frame] assms(2) by (simp add: h_def frame_bytes_def)
  show ?thesis
  proof (cases "bit fl 5")
    case True
    then have l: "length h + 4 + length dat \<le> length frame"
      using assms w by (simp add: h_def frame_bytes_def)
    have s2: "store (h @ drop (length h) frame) (length h) m = Some ((h @ m) @ drop (length h + 4) frame)"
      using store_prefix [of h "length h" m "drop (length h) frame"] l assms(1) by (simp add: add.commute)
    have s3: "store ((h @ m) @ drop (length h + 4) frame) (length h + 4) (fst (websocket_decode dat m 0))
        = Some (((h @ m) @ fst (websocket_decode dat m 0)) @ drop (length h + 4 + length dat) frame)"
      using store_prefix [of "h @ m" "length h + 4" "fst (websocket_decode dat m 0)" "drop (length h + 4) frame"]
        l assms(1) w by (simp add: add.commute)
    show ?thesis
      using s1 s2 s3 l assms(1) w True
      by (simp add: websocket_build_frame_def m frame_bytes_def h_def [symmetric] add.assoc Let_def)
  next
    case False
    then have l: "length h + length dat \<le> length frame"
      using assms w by (simp add: h_def frame_bytes_def)
    have "store (h @ drop (length h) frame) (length h) dat = Some ((h @ dat) @ drop (length h + length dat) frame)"
      using store_prefix [of h "length h" dat "drop (length h) frame"] l by (simp add: add.commute)
    with s1 l False show ?thesis
      by (simp add: websocket_build_frame_def m frame_bytes_def h_def [symmetric] Let_def)
  qed
qed

lemma calc_frame_size_bytes:
  assumes "length m = 4" and "length dat < 2 ^ 63"
  shows "unat (websocket_calc_frame_size fl (of_nat (length dat))) = length (frame_bytes fl m dat)"
proof -
  let ?n = "of_nat (length dat) :: size_t"
  have n: "unat ?n = length dat" using assms(2) by simp
  have m: "fl AND WS_HAS_MASK \<noteq> 0 \<longleftrightarrow> bit fl 5" unfolding ws_bits bit_tests ..
  have h: "length (frame_head fl ?n) = 2 + (if ?n \<ge> 126 then (if ?n > 0xFFFF then 8 else 2) else 0)"
    by (auto simp: frame_head_def not_less not_le)
  have e: "websocket_calc_frame_size fl ?n
      = of_nat (length dat + length (frame_head fl ?n) + (if bit fl 5 then 4 else 0))"
    unfolding websocket_calc_frame_size_def Let_def m h by simp
  have "length (frame_head fl ?n) \<le> 10" using h by auto
  then have "length dat + length (frame_head fl ?n) + (if bit fl 5 then 4 else 0) < 2 ^ LENGTH(64)"
    using assms(2) by (auto split: if_splits)
  from unat_of_nat_small [OF this] show ?thesis
    using assms(1) unfolding e by (simp add: frame_bytes_def websocket_decode_def)
qed

section \<open>Properties\<close>

text \<open>C30. The parser is the byte-by-byte machine: unless an announced length wraps the address
  arithmetic, \<open>websocket_parser_execute\<close> consumes all of its input, keeps the parser
  well-formed, and reports what the reference machine reports.\<close>

theorem ws_execute_refines:
  assumes "ws_wf P" and "frames_fit (unat addr + length dat) dat (forget P, u)"
  shows "\<exists>P' u'. websocket_parser_execute recorder addr dat P u = Some (of_nat (length dat), P', u') \<and>
    ws_wf P' \<and> ws_bytes dat (forget P, u) = (forget P', u')"
  using ws_loop_reads [of 0 dat P addr u 0] assms by (simp add: websocket_parser_execute_def)

theorem ws_execute_refines_witness:
  "\<exists>P' u'. websocket_parser_execute recorder 4096 [0x81, 2, 72] websocket_parser_init [] = Some (3, P', u') \<and>
    ws_wf P' \<and> ws_bytes [0x81, 2, 72] (forget websocket_parser_init, []) = (forget P', u')"
  using ws_execute_refines [of websocket_parser_init 4096 "[0x81, 2, 72]" "[]"]
  by (simp add: ws_wf_def websocket_parser_init_def forget_def ws_bits has_mask_def)

text \<open>Feeding a list of chunks, each at its own address.\<close>

fun ws_feed :: "(size_t \<times> byte list) list \<Rightarrow> websocket_parser \<Rightarrow> ws_event list
    \<Rightarrow> (websocket_parser \<times> ws_event list) option" where
  "ws_feed [] P u = Some (P, u)"
| "ws_feed ((addr, c) # cs) P u =
     (case websocket_parser_execute recorder addr c P u of
        None \<Rightarrow> None | Some (n, P', u') \<Rightarrow> ws_feed cs P' u')"

lemma frames_fit_mono: "frames_fit m bs s \<Longrightarrow> m' \<le> m \<Longrightarrow> frames_fit m' bs s"
  by (induction bs arbitrary: s) auto

lemma ws_feed_bytes:
  assumes "ws_wf P" and "\<forall>(a, c) \<in> set cs. unat a + length c \<le> 2 ^ 63"
    and "frames_fit (2 ^ 63) (concat (map snd cs)) (forget P, u)"
  shows "\<exists>P' u'. ws_feed cs P u = Some (P', u') \<and> ws_bytes (concat (map snd cs)) (forget P, u) = (forget P', u')"
  using assms
proof (induction cs arbitrary: P u)
  case (Cons x cs)
  obtain a c where x: "x = (a, c)" by (cases x)
  have "frames_fit (2 ^ 63) c (forget P, u)" and r: "frames_fit (2 ^ 63) (concat (map snd cs)) (ws_bytes c (forget P, u))"
    using Cons.prems(3) by (simp_all add: x frames_fit_append)
  moreover have "unat a + length c \<le> 2 ^ 63" using Cons.prems(2) by (simp add: x)
  ultimately have f: "frames_fit (unat a + length c) c (forget P, u)" by (blast intro: frames_fit_mono)
  from ws_loop_reads [of 0 c P a u 0] Cons.prems(1) f obtain P' u' where
    e: "websocket_parser_execute recorder a c P u = Some (of_nat (length c), P', u')" "ws_wf P'"
       "ws_bytes c (forget P, u) = (forget P', u')"
    by (auto simp: websocket_parser_execute_def)
  with Cons.IH [of P' u'] Cons.prems(2) r show ?case by (auto simp: x)
qed simp

text \<open>A stream of frames that is cut into arbitrary chunks.\<close>

lemma ws_feed_frames:
  assumes "\<forall>(fl, m, dat) \<in> set fs. length m = 4 \<and> length dat < 2 ^ 63"
    and c: "concat (map snd cs) = concat (map (\<lambda>(fl, m, dat). frame_bytes fl m dat) fs)"
    and "\<forall>(a, c) \<in> set cs. unat a + length c \<le> 2 ^ 63"
  shows "\<exists>P. ws_feed cs websocket_parser_init [] = Some (P, concat (map (\<lambda>(fl, m, dat). frame_events fl dat) fs)) \<and>
    ws_state P = s_start"
proof -
  have i: "ws_state websocket_parser_init = s_start" "length (mask websocket_parser_init) = 4"
    "ws_wf websocket_parser_init" "forget websocket_parser_init = websocket_parser_init"
    by (simp_all add: websocket_parser_init_def ws_wf_def forget_def)
  have "\<forall>(fl, m, dat) \<in> set fs. length m = 4 \<and> 2 ^ 63 + length dat < 2 ^ 64" using assms(1) by auto
  from frames_parsed [OF this i(1,2), of "[]"] obtain Q where
    q: "ws_bytes (concat (map snd cs)) (websocket_parser_init, [])
        = (Q, concat (map (\<lambda>(fl, m, dat). frame_events fl dat) fs))" "ws_state Q = s_start"
      "frames_fit (2 ^ 63) (concat (map snd cs)) (websocket_parser_init, [])"
    unfolding c by auto
  from ws_feed_bytes [OF i(3) assms(3), of "[]"] q i(4) show ?thesis
    by (metis (no_types, lifting) forget_simps(1) prod.inject)
qed

text \<open>C3. End to end: frames made by \<open>websocket_build_frame\<close>, sent one after the other and
  received in arbitrary chunks, are delivered unchanged and in order, each with its header,
  its unmasked payload and its end.\<close>

theorem ws_build_parse:
  assumes "\<forall>(fl, m, dat) \<in> set fs. length m = 4 \<and> length dat < 2 ^ 63"
    and "\<forall>(fl, m, dat) \<in> set fs. length (buf (fl, m, dat)) = unat (websocket_calc_frame_size fl (of_nat (length dat)))"
    and "concat (map snd cs) =
      concat (map (\<lambda>(fl, m, dat). fst (the (websocket_build_frame (buf (fl, m, dat)) fl (Some m) dat))) fs)"
    and "\<forall>(a, c) \<in> set cs. unat a + length c \<le> 2 ^ 63"
  shows "\<exists>P. ws_feed cs websocket_parser_init [] = Some (P, concat (map (\<lambda>(fl, m, dat). frame_events fl dat) fs)) \<and>
    ws_state P = s_start"
proof -
  have "fst (the (websocket_build_frame (buf (fl, m, dat)) fl (Some m) dat)) = frame_bytes fl m dat"
    if "(fl, m, dat) \<in> set fs" for fl m dat
  proof -
    have "length m = 4" "length dat < 2 ^ 63" using assms(1) that by auto
    moreover have "length (buf (fl, m, dat)) = length (frame_bytes fl m dat)"
      using assms(2) that calc_frame_size_bytes [of m dat fl] calculation by auto
    ultimately show ?thesis using build_frame_bytes [of m fl dat "buf (fl, m, dat)"] by simp
  qed
  then have c: "concat (map snd cs) = concat (map (\<lambda>(fl, m, dat). frame_bytes fl m dat) fs)"
    unfolding assms(3) by (intro arg_cong [of _ _ concat] map_cong) auto
  from ws_feed_frames [OF assms(1) c assms(4)] show ?thesis .
qed

definition example_frame :: "u32 \<times> byte list \<times> byte list" where
  "example_frame = (0x31, [1, 2, 3, 4], [72])"

lemma example_frame_built:
  "websocket_build_frame (replicate 7 0) 0x31 (Some [1, 2, 3, 4]) [72] = Some ([0x81, 0x81, 1, 2, 3, 4, 73], 7)"
  by code_simp

lemma example_frame_size: "websocket_calc_frame_size 0x31 1 = 7"
  by (simp add: websocket_calc_frame_size_def ws_bits word_le_nat_alt)

theorem ws_build_parse_witness:
  "\<exists>P. ws_feed [(4096, [0x81]), (8192, [0x81, 1, 2, 3, 4, 73])] websocket_parser_init []
      = Some (P, frame_events 0x31 [72]) \<and> ws_state P = s_start"
  using ws_build_parse [of "[example_frame]" "\<lambda>_. replicate 7 0"
      "[(4096, [0x81]), (8192, [0x81, 1, 2, 3, 4, 73])]"]
  by (simp add: example_frame_def example_frame_built example_frame_size)

text \<open>A buffer of exactly \<open>websocket_calc_frame_size\<close> bytes holds the frame: the builder
  never writes outside it and returns that size.\<close>

theorem ws_build_fits:
  assumes "length m = 4" and "length dat < 2 ^ 63"
    and "length frame = unat (websocket_calc_frame_size fl (of_nat (length dat)))"
  shows "\<exists>f. websocket_build_frame frame fl (Some m) dat
      = Some (f, websocket_calc_frame_size fl (of_nat (length dat))) \<and> length f = length frame"
proof -
  note c = calc_frame_size_bytes [OF assms(1,2), of fl]
  then have "of_nat (length (frame_bytes fl m dat)) = websocket_calc_frame_size fl (of_nat (length dat))"
    by (simp only: c [symmetric] of_nat_unat ucast_id)
  with build_frame_bytes [OF assms(1), of fl dat frame] assms(3) c show ?thesis by simp
qed

theorem ws_build_fits_witness:
  "\<exists>f. websocket_build_frame (replicate 7 0) 0x31 (Some [1, 2, 3, 4]) [72] = Some (f, 7) \<and> length f = 7"
  using ws_build_fits [where m = "[1, 2, 3, 4]" and dat = "[72]" and frame = "replicate 7 0" and fl = "0x31"]
  by (simp add: example_frame_size)

text \<open>The fit test of the body wraps: for an announced length of \<open>2^64 - 1\<close> it compares
  an address below the body with the end of the input, and the body callback is handed that
  many bytes although the input ends.\<close>

theorem ws_huge_length_overreads:
  assumes "dat = [0x82, 0x7F] @ replicate 8 0xFF @ x # xs" and "unat addr + length dat < 2 ^ 64"
  shows "websocket_parser_execute recorder addr dat websocket_parser_init u = None"
proof -
  define P1 where "P1 = websocket_parser_init\<lparr>ws_flags := 0x12, ws_state := s_head\<rparr>"
  define P2 where "P2 = P1\<lparr>require := 8, ws_state := s_length\<rparr>"
  define P3 where "P3 = P2\<lparr>ws_length := - 1, require := - 1, ws_state := s_body\<rparr>"
  have l: "length dat = 11 + length xs" using assms(1) by simp
  have 1: "ws_pass recorder addr dat 0 0 websocket_parser_init u = Go 1 1 P1 u"
    by (simp add: ws_pass_def pass_start_def websocket_parser_init_def assms(1) P1_def ws_bits Let_def)
  have 2: "ws_pass recorder addr dat 1 1 P1 u = Go 2 2 P2 u"
    by (simp add: ws_pass_def pass_head_def websocket_parser_init_def assms(1) P1_def P2_def ws_bits Let_def)
  have 3: "ws_pass recorder addr dat 2 2 P2 u = Go 10 10 P3 (u @ [EHeader 0x12 (- 1)])"
  proof -
    have d: "drop 2 dat = [0xFF, 0xFF, 0xFF, 0xFF, 0xFF, 0xFF, 0xFF, 0xFF] @ x # xs"
      using assms(1) by (simp add: eval_nat_numeral)
    have "read_length (drop 2 dat) P2 = (P2\<lparr>ws_length := - 1, require := 0\<rparr>, 8)"
      unfolding d by (simp add: P2_def P1_def websocket_parser_init_def)
    then show ?thesis
      by (simp add: ws_pass_def pass_length_def P2_def P1_def P3_def websocket_parser_init_def ws_bits
          header_done_recorder)
  qed
  have 4: "ws_pass recorder addr dat 10 10 P3 v = Overread" for v
  proof -
    have u: "unat (addr + of_nat k) = unat addr + k" if "k \<le> length dat" for k
      using that assms(2) unat_add_lem [of addr "of_nat k"] by simp
    have "addr + of_nat 9 \<le> addr + of_nat (length dat)"
      unfolding word_le_nat_alt using u [of 9] u [of "length dat"] l by simp
    then have "addr + of_nat 10 + - 1 \<le> addr + of_nat (length dat)"
      by (simp add: add.commute)
    moreover have "unat (- 1 :: size_t) = 2 ^ 64 - 1"
      by (simp add: unsigned_minus_1_eq_mask mask_eq_exp_minus_1)
    then have "length dat < 10 + unat (- 1 :: size_t)" using assms(2) by simp
    ultimately show ?thesis
      by (simp add: ws_pass_def pass_body_def P3_def P2_def P1_def del: of_nat_numeral)
  qed
  show ?thesis
    unfolding websocket_parser_execute_def
    using l 1 2 3 4 by (simp add: ws_loop.simps)
qed

theorem ws_huge_length_overreads_witness:
  "websocket_parser_execute recorder 4096
     ([0x82, 0x7F] @ replicate 8 0xFF @ [0]) websocket_parser_init [] = None"
  by (rule ws_huge_length_overreads [where xs = "[]", OF refl]) simp

end
