(* ===== verification/Readbuf.thy ===== *)
theory Readbuf
  imports Prelude
begin

text \<open>
  The read buffer of a libhv connection: \<open>hio_handle_read\<close>, \<open>hio_read_cb\<close>, the buffer
  management of \<open>src/libs/libhv/event/hevent.c\<close> and the package splitting of
  \<open>src/libs/libhv/event/unpack.c\<close>, with the varint coding of \<open>base/hmath.h\<close>. Positions in
  the buffer are natural numbers (buffers are below \<open>2^31\<close> bytes, so the \<open>int\<close>
  differences of the code are exact); the length of a package is a 32-bit word and wraps.
  The user's read callback is an observer: the packages it is handed are the list
  \<open>packets\<close>. The KCP branch is not part of the model.
\<close>

unbundle bit_operations_syntax

section \<open>Variable-length integers\<close>

text \<open>
  \<open>varint_encode\<close> writes seven bits at a time until the arithmetic shift leaves 0; the
  number of written bytes is bounded by the fuel argument and \<open>None\<close> is running out of it.
\<close>

fun varint_encode :: "nat \<Rightarrow> int \<Rightarrow> byte list option" where
  "varint_encode 0 v = None"
| "varint_encode (Suc n) v =
     (let ch = of_int (v AND 0x7F); v' = drop_bit 7 v
      in if v' = 0 then Some [ch] else map_option ((#) (ch OR 0x80)) (varint_encode n v'))"

text \<open>
  \<open>varint_decode\<close> on the available bytes: \<open>ret\<close>, \<open>bytes\<close> and \<open>bits\<close> are the loop
  variables (\<open>bits\<close> is always seven times \<open>bytes\<close>); the result is the returned number and
  the value left in \<open>*len\<close>: 0 when the bytes end too early, -1 when ten bytes do not end it.
  The caller passes a positive \<open>*len\<close>.
\<close>

fun varint_loop :: "byte list \<Rightarrow> u64 \<Rightarrow> nat \<Rightarrow> u64 \<times> int" where
  "varint_loop [] ret bytes = (0, 0)"
| "varint_loop (b # bs) ret bytes =
     (let ret' = ret OR push_bit (7 * bytes) (ucast (b AND 0x7F))
      in if b AND 0x80 = 0 then (ret', int (bytes + 1))
         else if bytes + 1 < 10 then varint_loop bs ret' (bytes + 1)
         else (ret', -1))"

definition varint_decode :: "byte list \<Rightarrow> u64 \<times> int" where
  "varint_decode bs = varint_loop bs 0 0"

section \<open>State\<close>

datatype unpack_coding = ENCODE_BY_VARINT | ENCODE_BY_LITTLE_ENDIAN | ENCODE_BY_BIG_ENDIAN

record length_field =
  body_offset :: u16
  length_field_offset :: u16
  length_field_bytes :: u16
  length_adjustment :: u16
  length_field_coding :: unpack_coding

text \<open>The mode with the fields of the union it uses.\<close>

datatype unpack_mode =
    UNPACK_MODE_NONE
  | UNPACK_BY_FIXED_LENGTH u32
  | UNPACK_BY_DELIMITER "byte list"
  | UNPACK_BY_LENGTH_FIELD length_field

record unpack_setting =
  mode :: unpack_mode
  package_max_length :: u32

record hio =
  base :: "byte list"
  head :: nat
  tail :: nat
  read_once :: bool
  read_until_length :: "nat option"
  read_until_delim :: "byte option"
  reading :: bool
  alloced_readbuf :: bool
  small_readbytes_cnt :: nat
  max_read_bufsize :: nat
  unpack_setting :: "unpack_setting option"
  over_limit :: bool
  closed :: bool
  packets :: "byte list list"

definition READ_BUFSIZE_HIGH_WATER :: nat where
  "READ_BUFSIZE_HIGH_WATER = 65536"

definition HLOOP_READ_BUFSIZE :: nat where
  "HLOOP_READ_BUFSIZE = 8192"

definition DEFAULT_PACKAGE_MAX_LENGTH :: u32 where
  "DEFAULT_PACKAGE_MAX_LENGTH = push_bit 21 1"

section \<open>Buffer management\<close>

text \<open>The bytes \<open>[p, p + n)\<close> of the buffer, and moving them to its start.\<close>

abbreviation slice :: "byte list \<Rightarrow> nat \<Rightarrow> nat \<Rightarrow> byte list" where
  "slice mem p n \<equiv> take n (drop p mem)"

definition memmove_front :: "byte list \<Rightarrow> nat \<Rightarrow> nat \<Rightarrow> byte list" where
  "memmove_front mem p n = slice mem p n @ drop n mem"

definition hio_read_cb :: "hio \<Rightarrow> nat \<Rightarrow> nat \<Rightarrow> hio" where
  "hio_read_cb io p len =
     (let io1 = (if read_once io then io\<lparr>read_once := False, reading := False\<rparr> else io);
          io2 = io1\<lparr>packets := packets io1 @ [slice (base io1) p len]\<rparr>
      in if alloced_readbuf io2 \<and> length (base io2) > READ_BUFSIZE_HIGH_WATER
         then io2\<lparr>small_readbytes_cnt :=
                   (if len < length (base io2) div 2 then small_readbytes_cnt io2 + 1 else 0)\<rparr>
         else io2)"

text \<open>\<open>hv_realloc\<close> keeps the common prefix and zeroes the new bytes.\<close>

definition hv_realloc :: "byte list \<Rightarrow> nat \<Rightarrow> byte list" where
  "hv_realloc mem n = take n mem @ replicate (n - length mem) 0"

definition hio_alloc_readbuf :: "hio \<Rightarrow> nat \<Rightarrow> hio" where
  "hio_alloc_readbuf io len =
     (if len > max_read_bufsize io then io\<lparr>over_limit := True, closed := True\<rparr>
      else io\<lparr>base := (if alloced_readbuf io then hv_realloc (base io) len else replicate len 0),
              alloced_readbuf := True, small_readbytes_cnt := 0\<rparr>)"

definition hio_memmove_readbuf :: "hio \<Rightarrow> hio" where
  "hio_memmove_readbuf io =
     (if tail io = head io then io\<lparr>head := 0, tail := 0\<rparr>
      else if tail io > head io then
        io\<lparr>base := memmove_front (base io) (head io) (tail io - head io),
           head := 0, tail := tail io - head io\<rparr>
      else io)"

section \<open>Splitting into packages\<close>

text \<open>
  The three loops. Each keeps a position \<open>p\<close> and the end \<open>ep\<close>; \<open>None\<close> is a loop that
  never ends.
\<close>

partial_function (option) fixed_loop :: "nat \<Rightarrow> nat \<Rightarrow> nat \<Rightarrow> nat \<Rightarrow> hio \<Rightarrow> (nat \<times> nat \<times> hio) option" where
  "fixed_loop fixed_length ep p handled io =
     (if ep - p \<ge> fixed_length
      then fixed_loop fixed_length ep (p + fixed_length) (handled + fixed_length)
             (hio_read_cb io p fixed_length)
      else Some (p, handled, io))"

text \<open>The shared ending: keep the bytes \<open>[p, ep)\<close> at the start of the buffer.\<close>

definition keep_rest :: "hio \<Rightarrow> nat \<Rightarrow> nat \<Rightarrow> hio" where
  "keep_rest io p ep =
     io\<lparr>head := 0, tail := ep - p,
        base := (if ep - p \<noteq> 0 \<and> p \<noteq> 0 then memmove_front (base io) p (ep - p) else base io)\<rparr>"

text \<open>The result is the number of handled bytes, -1 after an error.\<close>

definition hio_unpack_by_fixed_length :: "nat \<Rightarrow> hio \<Rightarrow> nat \<Rightarrow> nat \<Rightarrow> (int \<times> hio) option" where
  "hio_unpack_by_fixed_length fixed_length io buf readbytes =
     (let ep = buf + readbytes
      in map_option (\<lambda>(p, handled, io'). (int handled, keep_rest io' p ep))
           (fixed_loop fixed_length ep (head io) 0 io))"

partial_function (option) delim_loop ::
  "byte list \<Rightarrow> nat \<Rightarrow> nat \<Rightarrow> nat \<Rightarrow> nat \<Rightarrow> hio \<Rightarrow> (nat \<times> nat \<times> hio) option" where
  "delim_loop delimiter ep sp p handled io =
     (if ep - p \<ge> length delimiter
      then if slice (base io) p (length delimiter) = delimiter
           then let p' = p + length delimiter
                in delim_loop delimiter ep p' p' (handled + (p' - sp)) (hio_read_cb io sp (p' - sp))
           else delim_loop delimiter ep sp (p + 1) handled io
      else Some (sp, handled, io))"

definition hio_unpack_by_delimiter :: "byte list \<Rightarrow> nat \<Rightarrow> hio \<Rightarrow> nat \<Rightarrow> nat \<Rightarrow> (int \<times> hio) option" where
  "hio_unpack_by_delimiter delimiter max_length io buf readbytes =
     (let sp = head io; ep = buf + readbytes;
          p = max sp (buf + 1 - length delimiter)
      in map_option (\<lambda>(sp', handled, io1).
           let io2 = keep_rest io1 sp' ep; len = length (base io2)
           in if tail io2 \<noteq> 0 \<and> tail io2 = len then
                if len \<ge> max_length then (-1, io2\<lparr>over_limit := True, closed := True\<rparr>)
                else (int handled, hio_alloc_readbuf io2 (min (len * 2) max_length))
              else (int handled, io2))
           (delim_loop delimiter ep sp p 0 io))"

text \<open>Reading the length field of the package that starts with \<open>bs\<close>.\<close>

definition be_length :: "byte list \<Rightarrow> u32" where
  "be_length bs = fold (\<lambda>b l. push_bit 8 l OR ucast b) bs 0"

definition le_length :: "byte list \<Rightarrow> u32" where
  "le_length bs = fold (\<lambda>(i, b) l. l OR push_bit (i * 8) (ucast b)) (enumerate 0 bs) 0"

text \<open>
  \<open>Announced head_len package_len\<close>, or the two ways out of the loop for varints. Here
  \<open>old_head\<close> is \<open>head_len\<close> before this package: only the varint branch assigns it.
\<close>

datatype announced = Announced u32 u32 | NeedMore | TooBig

definition read_length_field :: "length_field \<Rightarrow> u32 \<Rightarrow> byte list \<Rightarrow> announced" where
  "read_length_field s old_head bs =
     (let off = unat (length_field_offset s); n = unat (length_field_bytes s);
          adj = scast (length_adjustment s) :: u32
      in case length_field_coding s of
           ENCODE_BY_BIG_ENDIAN \<Rightarrow> Announced old_head (old_head + be_length (slice bs off n) + adj)
         | ENCODE_BY_LITTLE_ENDIAN \<Rightarrow> Announced old_head (old_head + le_length (slice bs off n) + adj)
         | ENCODE_BY_VARINT \<Rightarrow>
             (let (v, k) = varint_decode (drop off bs)
              in if k = 0 then NeedMore else if k = -1 then TooBig
                 else let h = ucast (body_offset s) + of_int k - ucast (length_field_bytes s)
                      in Announced h (h + ucast v + adj)))"

text \<open>The loop returns the position, the handled bytes, the last \<open>package_len\<close> and whether
  the varint was too big.\<close>

partial_function (option) field_loop ::
  "length_field \<Rightarrow> nat \<Rightarrow> nat \<Rightarrow> nat \<Rightarrow> u32 \<Rightarrow> u32 \<Rightarrow> hio \<Rightarrow> (nat \<times> nat \<times> u32 \<times> bool \<times> hio) option" where
  "field_loop s ep p handled head_len package_len io =
     (if ep - p \<ge> unat (body_offset s)
      then case read_length_field s head_len (slice (base io) p (ep - p)) of
             NeedMore \<Rightarrow> Some (p, handled, package_len, False, io)
           | TooBig \<Rightarrow> Some (p, handled, package_len, True, io)
           | Announced h n \<Rightarrow>
               if (of_nat (ep - p) :: u32) \<ge> n
               then field_loop s ep (p + unat n) (handled + unat n) h n (hio_read_cb io p (unat n))
               else Some (p, handled, n, False, io)
      else Some (p, handled, package_len, False, io))"

definition hio_unpack_by_length_field ::
  "length_field \<Rightarrow> nat \<Rightarrow> hio \<Rightarrow> nat \<Rightarrow> nat \<Rightarrow> (int \<times> hio) option" where
  "hio_unpack_by_length_field s max_length io buf readbytes =
     (let ep = buf + readbytes; h = ucast (body_offset s)
      in map_option (\<lambda>(p, handled, package_len, too_big, io1).
           if too_big then (-1, io1\<lparr>over_limit := True, closed := True\<rparr>)
           else let io2 = keep_rest io1 p ep; len = length (base io2); n = unat package_len
                in if tail io2 \<noteq> 0 \<and> n > len then
                     if n > max_length then (-1, io2\<lparr>over_limit := True, closed := True\<rparr>)
                     else (int handled, hio_alloc_readbuf io2
                             (if len * 2 < n then n else if len * 2 > max_length then max_length else len * 2))
                   else (int handled, io2))
           (field_loop s ep (head io) 0 h h io))"

definition hio_unpack :: "unpack_setting \<Rightarrow> hio \<Rightarrow> nat \<Rightarrow> nat \<Rightarrow> (int \<times> hio) option" where
  "hio_unpack S io buf readbytes =
     (case mode S of
        UNPACK_BY_FIXED_LENGTH n \<Rightarrow> hio_unpack_by_fixed_length (unat n) io buf readbytes
      | UNPACK_BY_DELIMITER d \<Rightarrow> hio_unpack_by_delimiter d (unat (package_max_length S)) io buf readbytes
      | UNPACK_BY_LENGTH_FIELD s \<Rightarrow>
          hio_unpack_by_length_field s (unat (package_max_length S)) io buf readbytes
      | UNPACK_MODE_NONE \<Rightarrow> Some (int readbytes, hio_read_cb io buf readbytes))"

section \<open>Setting up\<close>

text \<open>
  \<open>hio_set_unpack\<close>: the default limit, the checks that are assertions in the code (\<open>None\<close>
  is an abort), and a buffer of the connection's own. A delimiter given without its length
  ends at the first zero byte of the eight-byte array; here the delimiter is a list already.
\<close>

definition hio_free_readbuf :: "byte list \<Rightarrow> hio \<Rightarrow> hio" where
  "hio_free_readbuf loop_buf io =
     (if alloced_readbuf io then io\<lparr>alloced_readbuf := False, base := loop_buf\<rparr> else io)"

definition hio_unset_unpack :: "byte list \<Rightarrow> hio \<Rightarrow> hio" where
  "hio_unset_unpack loop_buf io =
     (if unpack_setting io \<noteq> None then hio_free_readbuf loop_buf (io\<lparr>unpack_setting := None\<rparr>) else io)"

definition setting_ok :: "unpack_setting \<Rightarrow> bool" where
  "setting_ok S =
     (case mode S of
        UNPACK_BY_FIXED_LENGTH n \<Rightarrow> n \<noteq> 0 \<and> n \<le> package_max_length S
      | UNPACK_BY_LENGTH_FIELD s \<Rightarrow>
          unat (body_offset s) \<ge> unat (length_field_offset s) + unat (length_field_bytes s)
      | _ \<Rightarrow> True)"

definition hio_set_unpack :: "byte list \<Rightarrow> hio \<Rightarrow> unpack_setting option \<Rightarrow> hio option" where
  "hio_set_unpack loop_buf io setting =
     (let io1 = hio_unset_unpack loop_buf io
      in case setting of
           None \<Rightarrow> Some io1
         | Some S0 \<Rightarrow>
             (let S = (if package_max_length S0 = 0
                       then S0\<lparr>package_max_length := DEFAULT_PACKAGE_MAX_LENGTH\<rparr> else S0);
                  len = (case mode S of UNPACK_BY_FIXED_LENGTH n \<Rightarrow> unat n
                         | _ \<Rightarrow> min HLOOP_READ_BUFSIZE (unat (package_max_length S)))
              in if \<not> setting_ok S then None
                 else Some (hio_alloc_readbuf
                        (io1\<lparr>unpack_setting := Some S, max_read_bufsize := unat (package_max_length S)\<rparr>) len)))"

section \<open>Handling what was read\<close>

text \<open>Where the first byte equal to \<open>d\<close> is among the \<open>n\<close> bytes from position \<open>buf\<close>.\<close>

definition find_delim :: "byte list \<Rightarrow> nat \<Rightarrow> nat \<Rightarrow> byte \<Rightarrow> nat option" where
  "find_delim mem buf n d =
     (case find (\<lambda>i. mem ! (buf + i) = d) [0..<n] of None \<Rightarrow> None | Some i \<Rightarrow> Some (buf + i))"

text \<open>\<open>readbuf.head += len\<close>, starting over when nothing is left.\<close>

definition advance_head :: "hio \<Rightarrow> nat \<Rightarrow> hio" where
  "advance_head io len =
     (if head io + len = tail io then io\<lparr>head := 0, tail := 0\<rparr> else io\<lparr>head := head io + len\<rparr>)"

text \<open>The tail of \<open>hio_handle_read\<close>: an empty buffer starts over, a full one grows or is
  compacted, and a large one that is little used shrinks.\<close>

definition readbuf_autosize :: "hio \<Rightarrow> hio" where
  "readbuf_autosize io0 =
     (let io = (if head io0 = tail io0 then io0\<lparr>head := 0, tail := 0\<rparr> else io0)
      in if tail io = length (base io) then
           if head io = 0 then hio_alloc_readbuf io (length (base io) * 2) else hio_memmove_readbuf io
         else let small_size = length (base io) div 2
              in if tail io < small_size \<and> small_readbytes_cnt io \<ge> 3
                 then hio_alloc_readbuf io small_size else io)"

definition hio_handle_read :: "hio \<Rightarrow> nat \<Rightarrow> nat \<Rightarrow> hio option" where
  "hio_handle_read io buf readbytes =
     (let sp = head io; ep = buf + readbytes
      in case unpack_setting io of
           Some S \<Rightarrow> map_option (\<lambda>(r, io'). readbuf_autosize io') (hio_unpack S io buf readbytes)
         | None \<Rightarrow>
             (case read_until_length io of
                Some n \<Rightarrow>
                  Some (readbuf_autosize
                    (if ep - sp \<ge> n
                     then hio_read_cb ((advance_head io n)\<lparr>read_until_length := None\<rparr>) sp n else io))
              | None \<Rightarrow>
                  (case read_until_delim io of
                     Some d \<Rightarrow>
                       (case find_delim (base io) buf readbytes d of
                          Some p \<Rightarrow>
                            Some (hio_read_cb ((advance_head io (p - sp + 1))\<lparr>read_until_delim := None\<rparr>)
                                    sp (p - sp + 1))
                        | None \<Rightarrow> Some (readbuf_autosize io))
                   | None \<Rightarrow>
                       Some (readbuf_autosize
                         (hio_read_cb (io\<lparr>head := 0, tail := 0\<rparr>) sp (ep - sp))))))"

text \<open>
  \<open>nio_read\<close> after the system call delivered \<open>chunk\<close>: it asks for at most the free space
  (or for what \<open>read_until_length\<close> misses), the bytes land behind the tail with a zero byte
  behind them when there is room, and the read is handled.
\<close>

definition read_room :: "hio \<Rightarrow> nat" where
  "read_room io =
     (case read_until_length io of
        Some n \<Rightarrow> n - (tail io - head io) | None \<Rightarrow> length (base io) - tail io)"

definition nio_read :: "hio \<Rightarrow> byte list \<Rightarrow> hio option" where
  "nio_read io chunk =
     (let buf = tail io; n = length chunk;
          landed = chunk @ (if n < read_room io then [0] else []);
          mem = take buf (base io) @ landed @ drop (buf + length landed) (base io)
      in hio_handle_read (io\<lparr>base := mem, tail := buf + n\<rparr>) buf n)"


section \<open>Reference: splitting a byte sequence\<close>

text \<open>
  \<open>pl bs\<close> is the length of the package that starts with \<open>bs\<close>, if \<open>bs\<close> determines it.
  The complete packages are cut off one after the other.
\<close>

function split_by :: "(byte list \<Rightarrow> nat option) \<Rightarrow> byte list \<Rightarrow> byte list list \<times> byte list" where
  "split_by pl xs =
     (case pl xs of
        Some n \<Rightarrow> if 0 < n \<and> n \<le> length xs
                  then let (ps, r) = split_by pl (drop n xs) in (take n xs # ps, r)
                  else ([], xs)
      | None \<Rightarrow> ([], xs))"
  by pat_completeness auto
termination by (relation "measure (\<lambda>(pl, xs). length xs)") auto

declare split_by.simps [simp del]

text \<open>Delivery of a sequence of chunks to a buffer that holds \<open>r\<close>.\<close>

fun deliver :: "(byte list \<Rightarrow> nat option) \<Rightarrow> byte list \<Rightarrow> byte list list \<Rightarrow> byte list list \<times> byte list" where
  "deliver pl r [] = ([], r)"
| "deliver pl r (c # cs) =
     (let (ps, r1) = split_by pl (r @ c); (qs, r2) = deliver pl r1 cs in (ps @ qs, r2))"

text \<open>
  The contract of a framing: more data never changes the length of a package, and a package
  has at least one byte. Then the packages do not depend on how the data was cut.
\<close>

locale framing =
  fixes pl :: "byte list \<Rightarrow> nat option"
  assumes pl_prefix: "pl xs = Some n \<Longrightarrow> pl (xs @ ys) = Some n"
    and pl_pos: "pl xs = Some n \<Longrightarrow> 0 < n"
begin

lemma split_step:
  "pl xs = Some n \<Longrightarrow> n \<le> length xs \<Longrightarrow>
   split_by pl xs = (take n xs # fst (split_by pl (drop n xs)), snd (split_by pl (drop n xs)))"
  by (subst split_by.simps) (simp add: pl_pos split: prod.splits)

lemma split_stop:
  "(\<And>n. pl xs = Some n \<Longrightarrow> length xs < n) \<Longrightarrow> split_by pl xs = ([], xs)"
  by (subst split_by.simps) (auto split: option.splits)

lemma split_concat: "concat (fst (split_by pl xs)) @ snd (split_by pl xs) = xs"
proof (induction "length xs" arbitrary: xs rule: less_induct)
  case less
  show ?case
  proof (cases "\<exists>n. pl xs = Some n \<and> n \<le> length xs")
    case True
    then obtain n where n: "pl xs = Some n" "n \<le> length xs" by blast
    have "length (drop n xs) < length xs" using n pl_pos [OF n(1)] by simp
    from less [OF this] show ?thesis unfolding split_step [OF n] by simp
  next
    case False
    then have "split_by pl xs = ([], xs)" by (intro split_stop) (auto simp: not_le)
    then show ?thesis by simp
  qed
qed

lemma split_append:
  "split_by pl (xs @ ys) =
     (fst (split_by pl xs) @ fst (split_by pl (snd (split_by pl xs) @ ys)),
      snd (split_by pl (snd (split_by pl xs) @ ys)))"
proof (induction "length xs" arbitrary: xs rule: less_induct)
  case less
  show ?case
  proof (cases "\<exists>n. pl xs = Some n \<and> n \<le> length xs")
    case True
    then obtain n where n: "pl xs = Some n" "n \<le> length xs" by blast
    have m: "pl (xs @ ys) = Some n" "n \<le> length (xs @ ys)" using pl_prefix n by simp_all
    have "length (drop n xs) < length xs" using n pl_pos [OF n(1)] by simp
    from less [OF this] n(2) show ?thesis unfolding split_step [OF n] split_step [OF m] by simp
  next
    case False
    then have "split_by pl xs = ([], xs)" by (intro split_stop) (auto simp: not_le)
    then show ?thesis by simp
  qed
qed

lemma split_rest: "split_by pl (snd (split_by pl xs)) = ([], snd (split_by pl xs))"
  using split_append [of xs "[]"]
  by (cases "split_by pl xs"; cases "split_by pl (snd (split_by pl xs))") auto

lemma deliver_split:
  "split_by pl r = ([], r) \<Longrightarrow> deliver pl r cs = split_by pl (r @ concat cs)"
proof (induction cs arbitrary: r)
  case (Cons c cs)
  have "deliver pl (snd (split_by pl (r @ c))) cs = split_by pl (snd (split_by pl (r @ c)) @ concat cs)"
    by (rule Cons.IH) (rule split_rest)
  then show ?case using split_append [of "r @ c" "concat cs"] by (simp add: case_prod_beta)
qed simp

end

section \<open>The loops deliver the reference packages\<close>

text \<open>What a read callback leaves alone.\<close>

definition same_buf :: "hio \<Rightarrow> hio \<Rightarrow> bool" where
  "same_buf io io' \<longleftrightarrow> base io' = base io \<and> alloced_readbuf io' = alloced_readbuf io \<and>
     max_read_bufsize io' = max_read_bufsize io \<and> unpack_setting io' = unpack_setting io \<and>
     read_until_length io' = read_until_length io \<and> closed io' = closed io"

lemma same_buf_trans: "same_buf a b \<Longrightarrow> same_buf b c \<Longrightarrow> same_buf a c"
  by (simp add: same_buf_def)

lemma same_buf_refl [simp]: "same_buf io io"
  by (simp add: same_buf_def)

lemma hio_read_cb_same: "same_buf io (hio_read_cb io p n)"
  by (simp add: same_buf_def hio_read_cb_def Let_def)

lemma hio_read_cb_packets [simp]: "packets (hio_read_cb io p n) = packets io @ [slice (base io) p n]"
  by (simp add: hio_read_cb_def Let_def)

lemma hio_read_cb_base [simp]: "base (hio_read_cb io p n) = base io"
  by (simp add: hio_read_cb_def Let_def)

text \<open>From \<open>p\<close> to \<open>p'\<close> the packages of \<open>[p, ep)\<close> were delivered, and only they.\<close>

definition delivered :: "(byte list \<Rightarrow> nat option) \<Rightarrow> nat \<Rightarrow> nat \<Rightarrow> hio \<Rightarrow> nat \<Rightarrow> hio \<Rightarrow> bool" where
  "delivered pl ep p io p' io' \<longleftrightarrow> p \<le> p' \<and> p' \<le> ep \<and> same_buf io io' \<and>
     (\<exists>ps. split_by pl (slice (base io) p (ep - p)) = (ps, slice (base io) p' (ep - p')) \<and>
           packets io' = packets io @ ps)"

context framing
begin

lemma delivered_none:
  assumes "\<And>n. pl (slice (base io) p (ep - p)) = Some n \<Longrightarrow> ep - p < n" and "p \<le> ep"
  shows "delivered pl ep p io p io"
proof -
  have "split_by pl (slice (base io) p (ep - p)) = ([], slice (base io) p (ep - p))"
    by (rule split_stop) (use assms in \<open>fastforce\<close>)
  with assms(2) show ?thesis by (simp add: delivered_def)
qed

lemma delivered_one:
  assumes "pl (slice (base io) p (ep - p)) = Some n" and "p + n \<le> ep" and "ep \<le> length (base io)"
    and "delivered pl ep (p + n) (hio_read_cb io p n) p' io'"
  shows "delivered pl ep p io p' io'"
proof -
  let ?xs = "slice (base io) p (ep - p)"
  have l: "n \<le> length ?xs" using assms(2,3) by simp
  have d: "drop n ?xs = slice (base io) (p + n) (ep - (p + n))" "take n ?xs = slice (base io) p n"
    using assms(2) by (simp_all add: drop_take min_def add.commute)
  obtain ps where ps: "split_by pl (slice (base io) (p + n) (ep - (p + n))) = (ps, slice (base io) p' (ep - p'))"
    "packets io' = packets io @ [slice (base io) p n] @ ps"
    using assms(4) by (auto simp: delivered_def)
  have "split_by pl ?xs = (slice (base io) p n # ps, slice (base io) p' (ep - p'))"
    unfolding split_step [OF assms(1) l] d ps by simp
  moreover have "same_buf io io'"
    using assms(4) by (auto simp: delivered_def intro: same_buf_trans [OF hio_read_cb_same])
  ultimately show ?thesis using assms(2,4) ps(2) by (simp add: delivered_def)
qed

end

subsection \<open>Fixed length\<close>

definition pl_fixed :: "nat \<Rightarrow> byte list \<Rightarrow> nat option" where
  "pl_fixed n xs = (if n = 0 then None else Some n)"

interpretation fixed: framing "pl_fixed n" for n
  by unfold_locales (simp_all add: pl_fixed_def split: if_splits)

lemma fixed_loop_delivers:
  assumes "0 < n" and "p \<le> ep" and "ep \<le> length (base io)"
  shows "\<exists>p' h' io'. fixed_loop n ep p h io = Some (p', h', io') \<and> delivered (pl_fixed n) ep p io p' io'"
  using assms
proof (induction "ep - p" arbitrary: p h io rule: less_induct)
  case less
  show ?case
  proof (cases "n \<le> ep - p")
    case True
    have le: "ep - (p + n) < ep - p" "p + n \<le> ep" using True less.prems by linarith+
    from less.hyps [OF le(1), of "hio_read_cb io p n" "h + n"] less.prems le(2)
    obtain p' h' io' where r: "fixed_loop n ep (p + n) (h + n) (hio_read_cb io p n) = Some (p', h', io')"
      "delivered (pl_fixed n) ep (p + n) (hio_read_cb io p n) p' io'" by auto
    have "delivered (pl_fixed n) ep p io p' io'"
      by (rule fixed.delivered_one [OF _ _ less.prems(3) r(2)])
        (use True less.prems in \<open>simp_all add: pl_fixed_def\<close>)
    with r True show ?thesis by (subst fixed_loop.simps) simp
  next
    case False
    have "delivered (pl_fixed n) ep p io p io"
      by (rule fixed.delivered_none)
        (use False less.prems in \<open>simp_all add: pl_fixed_def\<close>)
    with False show ?thesis by (subst fixed_loop.simps) simp
  qed
qed

subsection \<open>Delimiter\<close>

text \<open>The end of the first occurrence of the delimiter.\<close>

definition pl_delim :: "byte list \<Rightarrow> byte list \<Rightarrow> nat option" where
  "pl_delim d xs = (if d = [] then None else
     map_option (\<lambda>i. i + length d) (find (\<lambda>i. slice xs i (length d) = d) [0..<Suc (length xs) - length d]))"

lemma pl_delim_Some:
  "pl_delim d xs = Some n \<longleftrightarrow> d \<noteq> [] \<and>
     (\<exists>i. n = i + length d \<and> n \<le> length xs \<and> slice xs i (length d) = d \<and>
          (\<forall>j < i. slice xs j (length d) \<noteq> d))"
proof -
  have *: "find P [0..<m] = Some i \<longleftrightarrow> i < m \<and> P i \<and> (\<forall>j < i. \<not> P j)" for P m and i :: nat
    by (auto simp: find_Some_iff)
  show ?thesis by (auto simp: pl_delim_def *)
qed

lemma pl_delim_None:
  "d \<noteq> [] \<Longrightarrow> pl_delim d xs = None \<longleftrightarrow> (\<forall>i. i + length d \<le> length xs \<longrightarrow> slice xs i (length d) \<noteq> d)"
  by (auto simp: pl_delim_def find_None_iff)

interpretation delim: framing "pl_delim d" for d
proof
  fix xs ys n
  assume "pl_delim d xs = Some n"
  then obtain i where i: "n = i + length d" "n \<le> length xs" "slice xs i (length d) = d"
    "\<forall>j < i. slice xs j (length d) \<noteq> d" "d \<noteq> []" by (auto simp: pl_delim_Some)
  have "slice (xs @ ys) j (length d) = slice xs j (length d)" if "j \<le> i" for j
    using that i(1,2) by simp
  with i show "pl_delim d (xs @ ys) = Some n" by (auto simp: pl_delim_Some)
next
  fix xs n
  assume "pl_delim d xs = Some n"
  then show "0 < n" by (auto simp: pl_delim_Some)
qed

lemma slice_slice:
  "i + k \<le> n \<Longrightarrow> slice (slice mem p n) i k = slice mem (p + i) k"
  by (simp add: drop_take min_def add.commute)

lemma delim_loop_delivers:
  assumes "d \<noteq> []" and "sp \<le> p" and "sp \<le> ep" and "ep \<le> length (base io)"
    and "\<And>i. sp \<le> i \<Longrightarrow> i < p \<Longrightarrow> i + length d \<le> ep \<Longrightarrow> slice (base io) i (length d) \<noteq> d"
  shows "\<exists>p' h' io'. delim_loop d ep sp p h io = Some (p', h', io') \<and> delivered (pl_delim d) ep sp io p' io'"
  using assms
proof (induction "Suc ep - p" arbitrary: sp p h io rule: less_induct)
  case less
  let ?xs = "slice (base io) sp (ep - sp)"
  show ?case
  proof (cases "length d \<le> ep - p")
    case go: True
    have "0 < length d" using less.prems(1) by simp
    with go have lp: "p + length d \<le> ep" "0 < length d" by linarith+
    show ?thesis
    proof (cases "slice (base io) p (length d) = d")
      case True
      let ?q = "p + length d" and ?io = "hio_read_cb io sp (p + length d - sp)"
      have pl: "pl_delim d ?xs = Some (?q - sp)"
      proof -
        have "slice ?xs (p - sp) (length d) = d"
          using True lp less.prems(2) slice_slice [of "p - sp" "length d" "ep - sp" sp "base io"] by simp
        moreover have "slice ?xs j (length d) \<noteq> d" if "j < p - sp" for j
          using that lp less.prems(2) less.prems(5) [of "sp + j"] slice_slice [of j "length d" "ep - sp" sp "base io"]
          by simp
        ultimately show ?thesis using lp less.prems(1,2,4)
          unfolding pl_delim_Some by (intro conjI exI [of _ "p - sp"]) auto
      qed
      have "\<exists>p' h' io'. delim_loop d ep ?q ?q (h + (?q - sp)) ?io = Some (p', h', io') \<and>
          delivered (pl_delim d) ep ?q ?io p' io'"
      proof (rule less.hyps)
        show "Suc ep - ?q < Suc ep - p" using lp by linarith
      qed (use lp less.prems in auto)
      then obtain p' h' io' where r: "delim_loop d ep ?q ?q (h + (?q - sp)) ?io = Some (p', h', io')"
        "delivered (pl_delim d) ep ?q ?io p' io'" by blast
      have q: "sp + (?q - sp) = ?q" using less.prems(2) by simp
      have "delivered (pl_delim d) ep sp io p' io'"
        by (rule delim.delivered_one [OF pl _ less.prems(4)]) (use r(2) q lp in simp_all)
      with r True go show ?thesis by (subst delim_loop.simps) (simp add: Let_def)
    next
      case False
      have "\<exists>p' h' io'. delim_loop d ep sp (p + 1) h io = Some (p', h', io') \<and>
          delivered (pl_delim d) ep sp io p' io'"
      proof (rule less.hyps)
        show "Suc ep - (p + 1) < Suc ep - p" using lp by linarith
      qed (use lp less.prems False in \<open>auto simp: less_Suc_eq\<close>)
      with go False show ?thesis by (subst delim_loop.simps) simp
    qed
  next
    case False
    have "pl_delim d ?xs = None"
      unfolding pl_delim_None [OF less.prems(1)]
    proof (intro allI impI)
      fix i assume "i + length d \<le> length ?xs"
      then have "sp + i < p" "sp + i + length d \<le> ep" "i + length d \<le> ep - sp"
        using False less.prems(2,3,4) by auto
      then show "slice ?xs i (length d) \<noteq> d"
        using less.prems(5) [of "sp + i"] slice_slice [of i "length d" "ep - sp" sp "base io"] by simp
    qed
    then have "delivered (pl_delim d) ep sp io sp io"
      by (intro delim.delivered_none less.prems(3)) simp
    with False show ?thesis by (subst delim_loop.simps) simp
  qed
qed

subsection \<open>Length field\<close>

text \<open>The announced length once the fixed part of the header is there; 0 does not count.\<close>

definition announced :: "length_field \<Rightarrow> byte list \<Rightarrow> announced" where
  "announced s xs =
     (if unat (body_offset s) \<le> length xs then read_length_field s (ucast (body_offset s)) xs else NeedMore)"

abbreviation field_wf :: "length_field \<Rightarrow> bool" where
  "field_wf s \<equiv> unat (length_field_offset s) + unat (length_field_bytes s) \<le> unat (body_offset s)"

definition pl_field :: "length_field \<Rightarrow> byte list \<Rightarrow> nat option" where
  "pl_field s xs =
     (case announced s xs of
        Announced h n \<Rightarrow> if field_wf s \<and> n \<noteq> 0 then Some (unat n) else None | _ \<Rightarrow> None)"

text \<open>Data in which no package announces the length 0, wherever it starts.\<close>

definition no_empty_package :: "length_field \<Rightarrow> byte list \<Rightarrow> bool" where
  "no_empty_package s xs \<longleftrightarrow> (\<forall>k \<le> length xs. \<forall>h. announced s (drop k xs) \<noteq> Announced h 0)"

lemma varint_loop_append:
  "varint_loop xs ret k = (v, n) \<Longrightarrow> n \<noteq> 0 \<Longrightarrow> varint_loop (xs @ ys) ret k = (v, n)"
  by (induction xs ret k rule: varint_loop.induct) (auto simp: Let_def split: if_splits)

lemma announced_append:
  assumes "field_wf s" and "announced s xs = Announced h n"
  shows "announced s (xs @ ys) = Announced h n"
proof -
  let ?o = "unat (length_field_offset s)" and ?n = "unat (length_field_bytes s)"
  have l: "unat (body_offset s) \<le> length xs" using assms(2) by (simp add: announced_def split: if_splits)
  have s: "slice (xs @ ys) ?o ?n = slice xs ?o ?n" using l assms(1) by simp
  obtain v k where v: "varint_decode (drop ?o xs) = (v, k)" by fastforce
  have "varint_decode (drop ?o (xs @ ys)) = (v, k)" if "k \<noteq> 0"
    using varint_loop_append [of "drop ?o xs" 0 0 v k "drop (?o - length xs) ys"] v that
    by (simp add: varint_decode_def)
  with assms(2) l s v show ?thesis
    by (cases "length_field_coding s"; cases "k = 0")
      (auto simp: announced_def read_length_field_def Let_def split: if_splits)
qed

interpretation field: framing "pl_field s" for s
proof
  fix xs ys n
  assume "pl_field s xs = Some n"
  then obtain h m where "announced s xs = Announced h m" "m \<noteq> 0" "n = unat m" "field_wf s"
    by (auto simp: pl_field_def split: announced.splits if_splits)
  with announced_append [of s xs h m ys] show "pl_field s (xs @ ys) = Some n"
    by (simp add: pl_field_def)
next
  fix xs n
  assume "pl_field s xs = Some n"
  then show "0 < n" by (auto simp: pl_field_def unat_gt_0 split: announced.splits if_splits)
qed

lemma no_empty_package_part:
  assumes "field_wf s" and "no_empty_package s (as @ bs @ cs)"
  shows "no_empty_package s bs"
  unfolding no_empty_package_def
proof (intro allI impI notI)
  fix k h assume k: "k \<le> length bs" "announced s (drop k bs) = Announced h 0"
  have "announced s (drop k bs @ cs) = Announced h 0" by (rule announced_append [OF assms(1) k(2)])
  moreover have "drop (length as + k) (as @ bs @ cs) = drop k bs @ cs" using k(1) by simp
  moreover have "announced s (drop (length as + k) (as @ bs @ cs)) \<noteq> Announced h 0"
    using assms(2) k(1) by (simp add: no_empty_package_def del: drop_append)
  ultimately show False by simp
qed

text \<open>The head length the loop carries is the constant one, except for varints, where it is
  not used.\<close>

lemma read_length_field_head:
  "length_field_coding s \<noteq> ENCODE_BY_VARINT \<longrightarrow> h = ucast (body_offset s) \<Longrightarrow>
   read_length_field s h xs = read_length_field s (ucast (body_offset s)) xs"
  by (cases "length_field_coding s") (simp_all add: read_length_field_def Let_def)

lemma read_length_field_keeps_head:
  "length_field_coding s \<noteq> ENCODE_BY_VARINT \<Longrightarrow>
   read_length_field s (ucast (body_offset s)) xs = Announced h n \<Longrightarrow> h = ucast (body_offset s)"
  by (cases "length_field_coding s") (auto simp: read_length_field_def Let_def)

text \<open>How the loop ended on the bytes \<open>rest\<close> with the last package length \<open>n\<close>.\<close>

definition field_end :: "length_field \<Rightarrow> u32 \<Rightarrow> nat \<Rightarrow> u32 \<Rightarrow> bool \<Rightarrow> byte list \<Rightarrow> bool" where
  "field_end s l ep n big rest \<longleftrightarrow>
     (if big then announced s rest = TooBig
      else (\<exists>g. announced s rest = Announced g n) \<or> unat n \<le> ep \<or> n = l \<and> announced s rest = NeedMore)"

lemma field_loop_delivers:
  assumes "field_wf s" and "p \<le> ep" and "ep \<le> length (base io)" and "ep < 2 ^ 32"
    and "length_field_coding s \<noteq> ENCODE_BY_VARINT \<longrightarrow> h = ucast (body_offset s)"
    and "no_empty_package s (slice (base io) p (ep - p))"
  shows "\<exists>p' k n big io'. field_loop s ep p hn h l io = Some (p', k, n, big, io') \<and>
    delivered (pl_field s) ep p io p' io' \<and> field_end s l ep n big (slice (base io) p' (ep - p'))"
  using assms
proof (induction "ep - p" arbitrary: p hn h l io rule: less_induct)
  case less
  let ?xs = "slice (base io) p (ep - p)"
  have lx: "length ?xs = ep - p" using less.prems(3) by simp
  have rd: "read_length_field s h ?xs = read_length_field s (ucast (body_offset s)) ?xs"
    by (rule read_length_field_head [OF less.prems(5)])
  have ok: "announced s ?xs \<noteq> Announced g 0" for g
    using less.prems(6) unfolding no_empty_package_def by (metis drop0 le0)
  show ?case
  proof (cases "\<exists>g n. announced s ?xs = Announced g n \<and> unat n \<le> ep - p")
    case True
    then obtain g n where n: "announced s ?xs = Announced g n" "unat n \<le> ep - p" by blast
    with ok have n0: "n \<noteq> 0" by auto
    then have u0: "0 < unat n" by (simp add: unat_gt_0)
    let ?io = "hio_read_cb io p (unat n)"
    have b: "unat (body_offset s) \<le> ep - p" and r: "read_length_field s h ?xs = Announced g n"
      using n(1) lx rd by (auto simp: announced_def split: if_splits)
    have g: "length_field_coding s \<noteq> ENCODE_BY_VARINT \<longrightarrow> g = ucast (body_offset s)"
      using r rd read_length_field_keeps_head by metis
    have cmp: "n \<le> (of_nat (ep - p) :: u32)" using n(2) less.prems(4) by (simp add: word_le_nat_alt)
    have sl: "slice (base io) (p + unat n) (ep - (p + unat n)) = drop (unat n) ?xs"
      by (simp add: drop_take add.commute)
    have ne: "no_empty_package s (slice (base ?io) (p + unat n) (ep - (p + unat n)))"
      unfolding hio_read_cb_base sl
      by (rule no_empty_package_part [OF less.prems(1), where as = "take (unat n) ?xs" and cs = "[]"])
        (use less.prems(6) in \<open>simp only: append_Nil2 append_take_drop_id\<close>)
    have "\<exists>p' k m big io'. field_loop s ep (p + unat n) (hn + unat n) g n ?io = Some (p', k, m, big, io') \<and>
        delivered (pl_field s) ep (p + unat n) ?io p' io' \<and>
        field_end s n ep m big (slice (base ?io) p' (ep - p'))"
      by (rule less.hyps [OF _ less.prems(1) _ _ less.prems(4) g ne])
        (use n(2) u0 less.prems(2,3) in simp_all)
    then obtain p' k m big io' where f: "field_loop s ep (p + unat n) (hn + unat n) g n ?io = Some (p', k, m, big, io')"
      "delivered (pl_field s) ep (p + unat n) ?io p' io'"
      "field_end s n ep m big (slice (base io) p' (ep - p'))" by auto
    have "field_end s l ep m big (slice (base io) p' (ep - p'))"
      using f(3) n(2) by (auto simp: field_end_def split: if_splits)
    moreover have "delivered (pl_field s) ep p io p' io'"
      by (rule field.delivered_one [OF _ _ less.prems(3) f(2)])
        (use n n0 less.prems(1,2) in \<open>simp_all add: pl_field_def\<close>)
    ultimately show ?thesis using f(1) b r cmp by (subst field_loop.simps) simp
  next
    case False
    have "delivered (pl_field s) ep p io p io"
      by (rule field.delivered_none [OF _ less.prems(2)])
        (use False in \<open>auto simp: pl_field_def not_le split: announced.splits if_splits\<close>)
    moreover have "\<exists>k n big. field_loop s ep p hn h l io = Some (p, k, n, big, io) \<and> field_end s l ep n big ?xs"
    proof (cases "unat (body_offset s) \<le> ep - p")
      case b: True
      then have r: "read_length_field s h ?xs = announced s ?xs" using rd lx by (simp add: announced_def)
      show ?thesis
      proof (cases "announced s ?xs")
        case (Announced g n)
        with False have "\<not> unat n \<le> ep - p" by blast
        then have "\<not> n \<le> (of_nat (ep - p) :: u32)" using less.prems(4) by (simp add: word_le_nat_alt)
        with Announced b r have "field_loop s ep p hn h l io = Some (p, hn, n, False, io)"
          by (subst field_loop.simps) simp
        with Announced show ?thesis by (auto simp: field_end_def)
      next
        case NeedMore
        with b r have "field_loop s ep p hn h l io = Some (p, hn, l, False, io)"
          by (subst field_loop.simps) simp
        with NeedMore show ?thesis by (auto simp: field_end_def)
      next
        case TooBig
        with b r have "field_loop s ep p hn h l io = Some (p, hn, l, True, io)"
          by (subst field_loop.simps) simp
        with TooBig show ?thesis by (auto simp: field_end_def)
      qed
    next
      case b: False
      then have "field_loop s ep p hn h l io = Some (p, hn, l, False, io)"
        by (subst field_loop.simps) simp
      moreover have "announced s ?xs = NeedMore" using b lx by (simp add: announced_def)
      ultimately show ?thesis by (auto simp: field_end_def)
    qed
    ultimately show ?thesis by blast
  qed
qed

section \<open>Every mode is a framing of the stream\<close>

text \<open>
  What handling a read promises: the complete packages of the buffered bytes were handed on
  and the rest is at the start of the buffer.
\<close>

definition unpacked :: "(byte list \<Rightarrow> nat option) \<Rightarrow> hio \<Rightarrow> hio \<Rightarrow> bool" where
  "unpacked pl io io' \<longleftrightarrow>
     (let (ps, rest) = split_by pl (take (tail io) (base io))
      in head io' = 0 \<and> tail io' = length rest \<and> tail io' \<le> length (base io') \<and>
         take (tail io') (base io') = rest \<and> packets io' = packets io @ ps) \<and>
     alloced_readbuf io' = alloced_readbuf io \<and> unpack_setting io' = unpack_setting io \<and>
     read_until_length io' = read_until_length io \<and> length (base io) \<le> length (base io') \<and>
     max_read_bufsize io' = max_read_bufsize io \<and> closed io' = closed io \<and>
     (length (base io) \<le> max_read_bufsize io \<longrightarrow> length (base io') \<le> max_read_bufsize io)"

lemma keep_rest_unpacked:
  assumes "delivered pl ep 0 io p io1" and "tail io = ep" and "ep \<le> length (base io)"
  shows "unpacked pl io (keep_rest io1 p ep)"
proof -
  obtain ps where ps: "split_by pl (take ep (base io)) = (ps, slice (base io) p (ep - p))"
    "packets io1 = packets io @ ps" "p \<le> ep" "same_buf io io1"
    using assms(1) by (auto simp: delivered_def)
  have b: "base io1 = base io" using ps(4) by (simp add: same_buf_def)
  have "take (ep - p) (base (keep_rest io1 p ep)) = slice (base io) p (ep - p)"
    using assms(3) ps(3) b by (auto simp: keep_rest_def memmove_front_def)
  moreover have "ep - p \<le> length (base (keep_rest io1 p ep))"
    using assms(3) ps(3) b by (auto simp: keep_rest_def memmove_front_def)
  moreover have "length (base (keep_rest io1 p ep)) = length (base io)"
    using assms(3) ps(3) b by (auto simp: keep_rest_def memmove_front_def)
  ultimately show ?thesis
    using ps assms(2,3) unfolding unpacked_def
    by (simp add: keep_rest_def same_buf_def)
qed

lemma hv_realloc_simps [simp]:
  "length (hv_realloc mem n) = n"
  "k \<le> n \<Longrightarrow> k \<le> length mem \<Longrightarrow> take k (hv_realloc mem n) = take k mem"
  by (auto simp: hv_realloc_def min_def)

lemma alloc_unpacked:
  assumes "unpacked pl io io1" and "alloced_readbuf io" and "length (base io1) \<le> n"
    and "n \<le> max_read_bufsize io"
  shows "unpacked pl io (hio_alloc_readbuf io1 n)"
proof -
  have "take (tail io1) (hv_realloc (base io1) n) = take (tail io1) (base io1)"
    if "tail io1 \<le> length (base io1)"
    using that assms(3) by simp
  with assms show ?thesis
    by (auto simp: unpacked_def hio_alloc_readbuf_def Let_def split: prod.splits)
qed

lemma autosize_closed: "closed io \<Longrightarrow> closed (readbuf_autosize io)"
  by (simp add: readbuf_autosize_def hio_alloc_readbuf_def hio_memmove_readbuf_def Let_def)

text \<open>A sequence of reads into a connection: \<open>None\<close> if a chunk exceeds the free space, if the
  buffer is too large, or if handling a read does not end. A closed connection reads no more.\<close>

fun nio_reads :: "hio \<Rightarrow> byte list list \<Rightarrow> hio option" where
  "nio_reads io [] = Some io"
| "nio_reads io (c # cs) =
     (if closed io then Some io
      else if length c \<le> read_room io \<and> length (base io) < 2 ^ 32
      then (case nio_read io c of Some io1 \<Rightarrow> nio_reads io1 cs | None \<Rightarrow> None) else None)"

lemma nio_reads_closed: "nio_reads io cs = Some io' \<Longrightarrow> closed io \<Longrightarrow> closed io'"
  by (cases cs) auto

locale unpacker = framing +
  fixes S :: unpack_setting and good over :: "byte list \<Rightarrow> bool"
  assumes good_part: "good (as @ bs @ cs) \<Longrightarrow> good bs"
    and unpacks: "\<lbrakk>head io = 0; tail io = buf + n; tail io \<le> length (base io); tail io < 2 ^ 32;
      alloced_readbuf io; split_by pl (take buf (base io)) = ([], take buf (base io));
      good (take (tail io) (base io)); max_read_bufsize io = unat (package_max_length S); \<not> closed io\<rbrakk>
      \<Longrightarrow> \<exists>r io'. hio_unpack S io buf n = Some (r, io') \<and>
            (if closed io' then over (snd (split_by pl (take (tail io) (base io)))) else unpacked pl io io')"
begin

text \<open>A connection that waits for data with \<open>rest\<close> buffered.\<close>

definition waiting :: "hio \<Rightarrow> byte list \<Rightarrow> bool" where
  "waiting io rest \<longleftrightarrow> unpack_setting io = Some S \<and> read_until_length io = None \<and> alloced_readbuf io \<and>
     head io = 0 \<and> tail io = length rest \<and> length rest < length (base io) \<and> \<not> closed io \<and>
     max_read_bufsize io = unat (package_max_length S) \<and> length (base io) \<le> max_read_bufsize io \<and>
     take (length rest) (base io) = rest \<and> split_by pl rest = ([], rest)"

lemma autosize_waiting:
  assumes "unpacked pl io io'" and "alloced_readbuf io" and "unpack_setting io = Some S"
    and "read_until_length io = None" and "base io' \<noteq> []"
    and "split_by pl (take (tail io) (base io)) = (ps, rest)"
    and "max_read_bufsize io = unat (package_max_length S)" and "\<not> closed io"
    and "length (base io) \<le> max_read_bufsize io"
  shows "if closed (readbuf_autosize io') then unat (package_max_length S) < 2 * length rest
    else waiting (readbuf_autosize io') rest \<and> packets (readbuf_autosize io') = packets io @ ps"
proof -
  have r: "split_by pl rest = ([], rest)" using split_rest [of "take (tail io) (base io)"] assms(6) by simp
  have u: "head io' = 0" "tail io' = length rest" "length rest \<le> length (base io')"
    "take (length rest) (base io') = rest" "packets io' = packets io @ ps"
    "alloced_readbuf io'" "unpack_setting io' = Some S" "read_until_length io' = None"
    "max_read_bufsize io' = unat (package_max_length S)" "\<not> closed io'"
    "length (base io') \<le> max_read_bufsize io'"
    using assms by (auto simp: unpacked_def)
  have pos: "0 < length (base io')" using assms(5) by simp
  have e: "(if head io' = tail io' then io'\<lparr>head := 0, tail := 0\<rparr> else io') = io'"
    using u(1,2) by simp
  have same: "waiting (hio_alloc_readbuf io' n) rest \<and> packets (hio_alloc_readbuf io' n) = packets io @ ps"
    if "n \<le> max_read_bufsize io'" "length rest < n" for n
    using u r that by (simp add: waiting_def hio_alloc_readbuf_def)
  show ?thesis
  proof (cases "length rest = length (base io')")
    case True
    have a: "readbuf_autosize io' = hio_alloc_readbuf io' (length (base io') * 2)"
      unfolding readbuf_autosize_def e Let_def using True u(1,2) by simp
    show ?thesis
    proof (cases "length (base io') * 2 \<le> max_read_bufsize io'")
      case le: True
      then have "waiting (readbuf_autosize io') rest \<and> packets (readbuf_autosize io') = packets io @ ps"
        unfolding a using True pos by (intro same) simp_all
      then show ?thesis by (simp add: waiting_def)
    next
      case False
      then show ?thesis unfolding a using True u(9) by (simp add: hio_alloc_readbuf_def)
    qed
  next
    case False
    then have lt: "length rest < length (base io')" using u(3) by simp
    show ?thesis
    proof (cases "tail io' < length (base io') div 2 \<and> small_readbytes_cnt io' \<ge> 3")
      case small: True
      have a: "readbuf_autosize io' = hio_alloc_readbuf io' (length (base io') div 2)"
        unfolding readbuf_autosize_def e Let_def using False small u(2) by simp
      have "waiting (readbuf_autosize io') rest \<and> packets (readbuf_autosize io') = packets io @ ps"
        unfolding a using small u(2,11) by (intro same) simp_all
      then show ?thesis by (simp add: waiting_def)
    next
      case False': False
      have a: "readbuf_autosize io' = io'"
        unfolding readbuf_autosize_def e Let_def using False False' u(2) by auto
      have "waiting io' rest" using u r lt by (simp add: waiting_def)
      then show ?thesis unfolding a using u(5,10) by simp
    qed
  qed
qed

lemma nio_read_step:
  assumes "waiting io rest" and "length chunk \<le> read_room io" and "length (base io) < 2 ^ 32"
    and "good (rest @ chunk)" and "split_by pl (rest @ chunk) = (ps, rest')"
  shows "\<exists>io'. nio_read io chunk = Some io' \<and>
    (if closed io' then over rest' \<or> unat (package_max_length S) < 2 * length rest'
     else waiting io' rest' \<and> packets io' = packets io @ ps)"
proof -
  define landed where "landed = chunk @ (if length chunk < read_room io then [0] else [])"
  define mem where "mem = take (tail io) (base io) @ landed @ drop (tail io + length landed) (base io)"
  define io1 where "io1 = io\<lparr>base := mem, tail := tail io + length chunk\<rparr>"
  have w: "unpack_setting io = Some S" "read_until_length io = None" "alloced_readbuf io" "head io = 0"
    "tail io = length rest" "length rest < length (base io)" "take (length rest) (base io) = rest"
    "split_by pl rest = ([], rest)" "max_read_bufsize io = unat (package_max_length S)" "\<not> closed io"
    "length (base io) \<le> max_read_bufsize io"
    using assms(1) by (auto simp: waiting_def)
  have room: "read_room io = length (base io) - length rest" using w by (simp add: read_room_def)
  have ll: "length rest + length landed \<le> length (base io)"
    using assms(2) w(6) by (auto simp: landed_def room)
  have m: "length mem = length (base io)" using ll w(5) by (simp add: mem_def)
  have t: "take (length rest) mem = rest" "take (length rest + length chunk) mem = rest @ chunk"
    using w(5-7) by (simp_all add: mem_def landed_def)
  have n: "nio_read io chunk = hio_handle_read io1 (length rest) (length chunk)"
    by (simp add: nio_read_def Let_def io1_def mem_def landed_def w(5))
  have sp: "split_by pl (take (tail io1) (base io1)) = (ps, rest')"
    using t(2) assms(5) w(5) by (simp add: io1_def)
  have "\<exists>r io'. hio_unpack S io1 (length rest) (length chunk) = Some (r, io') \<and>
      (if closed io' then over (snd (split_by pl (take (tail io1) (base io1)))) else unpacked pl io1 io')"
  proof (rule unpacks)
    show "tail io1 \<le> length (base io1)" using ll m w(5) by (simp add: io1_def landed_def split: if_splits)
    then show "tail io1 < 2 ^ 32" using assms(3) m by (simp add: io1_def)
  qed (use w t assms(4) in \<open>simp_all add: io1_def\<close>)
  then obtain r io' where u: "hio_unpack S io1 (length rest) (length chunk) = Some (r, io')"
    "if closed io' then over rest' else unpacked pl io1 io'" unfolding sp snd_conv by blast
  have h: "nio_read io chunk = Some (readbuf_autosize io')"
    using u(1) w(1) unfolding n by (simp add: hio_handle_read_def io1_def Let_def)
  show ?thesis
  proof (cases "closed io'")
    case True
    then show ?thesis using h u(2) autosize_closed by simp
  next
    case False
    with u(2) have up: "unpacked pl io1 io'" by simp
    have "base io' \<noteq> []" using up w(6) m by (auto simp: unpacked_def io1_def)
    then have "if closed (readbuf_autosize io') then unat (package_max_length S) < 2 * length rest'
        else waiting (readbuf_autosize io') rest' \<and> packets (readbuf_autosize io') = packets io1 @ ps"
      by (intro autosize_waiting [OF up _ _ _ _ sp]) (use w m in \<open>simp_all add: io1_def\<close>)
    then show ?thesis using h by (simp add: io1_def split: if_splits)
  qed
qed

lemma nio_reads_deliver:
  assumes "waiting io rest" and "good (rest @ concat cs)"
    and "nio_reads io cs = Some io'" and "\<not> closed io'"
  shows "waiting io' (snd (deliver pl rest cs)) \<and> packets io' = packets io @ fst (deliver pl rest cs)"
  using assms
proof (induction cs arbitrary: io rest)
  case (Cons c cs)
  obtain io1 where 1: "length c \<le> read_room io" "length (base io) < 2 ^ 32" "nio_read io c = Some io1"
    "\<not> closed io1" "nio_reads io1 cs = Some io'"
    using Cons.prems(3,4) nio_reads_closed by (fastforce split: if_splits option.splits)
  have g: "good (rest @ c)" using Cons.prems(2) good_part [of "[]" "rest @ c" "concat cs"] by simp
  obtain ps r where s: "split_by pl (rest @ c) = (ps, r)" by fastforce
  have w: "waiting io1 r" "packets io1 = packets io @ ps"
    using nio_read_step [OF Cons.prems(1) 1(1,2) g s] 1(3,4) by auto
  have "concat ps @ r = rest @ c" using split_concat [of "rest @ c"] s by simp
  then have "good (concat ps @ (r @ concat cs) @ [])" using Cons.prems(2) by (metis append.assoc append_Nil2 concat.simps(2))
  then have "good (r @ concat cs)" by (rule good_part)
  with Cons.IH [OF w(1) _ 1(5) Cons.prems(4)] w(2) s show ?case by (simp add: case_prod_beta)
qed simp

end

subsection \<open>The modes\<close>

definition pl_of :: "unpack_setting \<Rightarrow> byte list \<Rightarrow> nat option" where
  "pl_of S xs =
     (case mode S of
        UNPACK_BY_FIXED_LENGTH n \<Rightarrow> pl_fixed (unat n) xs
      | UNPACK_BY_DELIMITER d \<Rightarrow> pl_delim d xs
      | UNPACK_BY_LENGTH_FIELD s \<Rightarrow> pl_field s xs
      | UNPACK_MODE_NONE \<Rightarrow> None)"

text \<open>Settings and data the mode can split: a delimiter that is not empty, a length field that
  never announces an empty package.\<close>

definition good_for :: "unpack_setting \<Rightarrow> byte list \<Rightarrow> bool" where
  "good_for S xs =
     (case mode S of
        UNPACK_BY_FIXED_LENGTH n \<Rightarrow> n \<noteq> 0
      | UNPACK_BY_DELIMITER d \<Rightarrow> d \<noteq> []
      | UNPACK_BY_LENGTH_FIELD s \<Rightarrow> field_wf s \<and> no_empty_package s xs
      | UNPACK_MODE_NONE \<Rightarrow> False)"

text \<open>When a connection may be closed: the bytes \<open>rest\<close> that stay behind exceed the limit or
  announce a package that does.\<close>

definition over_for :: "unpack_setting \<Rightarrow> byte list \<Rightarrow> bool" where
  "over_for S rest =
     (let m = unat (package_max_length S)
      in case mode S of
           UNPACK_BY_DELIMITER d \<Rightarrow> m \<le> length rest
         | UNPACK_BY_LENGTH_FIELD s \<Rightarrow>
             (case announced s rest of
                Announced h n \<Rightarrow> m < unat n | TooBig \<Rightarrow> True | NeedMore \<Rightarrow> m < unat (body_offset s))
         | _ \<Rightarrow> False)"

lemma fixed_unpacks:
  assumes "head io = 0" "tail io = buf + n" "tail io \<le> length (base io)" "k \<noteq> 0" "\<not> closed io"
  shows "\<exists>r io'. hio_unpack_by_fixed_length k io buf n = Some (r, io') \<and> \<not> closed io' \<and> unpacked (pl_fixed k) io io'"
proof -
  obtain p h io1 where r: "fixed_loop k (tail io) 0 0 io = Some (p, h, io1)"
    "delivered (pl_fixed k) (tail io) 0 io p io1"
    using fixed_loop_delivers [of k 0 "tail io" io 0] assms(3,4) by auto
  have u: "unpacked (pl_fixed k) io (keep_rest io1 p (tail io))"
    by (rule keep_rest_unpacked [OF r(2) refl assms(3)])
  then have "\<not> closed (keep_rest io1 p (tail io))" using assms(5) by (simp add: unpacked_def)
  with u r(1) assms(1,2) show ?thesis by (simp add: hio_unpack_by_fixed_length_def)
qed

lemma delim_unpacks:
  assumes "head io = 0" "tail io = buf + n" "tail io \<le> length (base io)" "d \<noteq> []" "\<not> closed io"
    "alloced_readbuf io" "split_by (pl_delim d) (take buf (base io)) = ([], take buf (base io))"
    "max_read_bufsize io = m"
  shows "\<exists>r io'. hio_unpack_by_delimiter d m io buf n = Some (r, io') \<and>
    (if closed io' then m \<le> length (snd (split_by (pl_delim d) (take (tail io) (base io))))
     else unpacked (pl_delim d) io io')"
proof -
  let ?p = "max 0 (buf + 1 - length d)"
  have none: "pl_delim d (take buf (base io)) = None"
    using assms(7) delim.split_step [of d "take buf (base io)"]
    by (cases "pl_delim d (take buf (base io))") (auto simp: pl_delim_Some)
  have "slice (base io) i (length d) \<noteq> d" if "i < ?p" for i
  proof -
    have "i + length d \<le> length (take buf (base io))" using that assms(2,3) by auto
    then have "slice (take buf (base io)) i (length d) \<noteq> d"
      using none pl_delim_None [OF assms(4)] by blast
    then show ?thesis using slice_slice [of i "length d" buf 0 "base io"] that by simp
  qed
  then obtain p h io1 where r: "delim_loop d (tail io) 0 ?p 0 io = Some (p, h, io1)"
    "delivered (pl_delim d) (tail io) 0 io p io1"
    using delim_loop_delivers [of d 0 ?p "tail io" io 0] assms(3,4) by auto
  define io2 where "io2 = keep_rest io1 p (tail io)"
  have u: "unpacked (pl_delim d) io io2"
    unfolding io2_def by (rule keep_rest_unpacked [OF r(2) refl assms(3)])
  then have c: "\<not> closed io2" "max_read_bufsize io2 = m"
    "tail io2 = length (snd (split_by (pl_delim d) (take (tail io) (base io))))"
    using assms(5,8) by (auto simp: unpacked_def)
  define res where "res = (if tail io2 \<noteq> 0 \<and> tail io2 = length (base io2) then
      if length (base io2) \<ge> m then (-1, io2\<lparr>over_limit := True, closed := True\<rparr>)
      else (int h, hio_alloc_readbuf io2 (min (length (base io2) * 2) m))
    else (int h, io2))"
  have e: "hio_unpack_by_delimiter d m io buf n = Some res"
    by (simp only: hio_unpack_by_delimiter_def Let_def assms(1) assms(2) [symmetric] r(1) option.map
        prod.case io2_def [symmetric] res_def)
  have "unpacked (pl_delim d) io (hio_alloc_readbuf io2 (min (length (base io2) * 2) m))"
    if "\<not> length (base io2) \<ge> m"
    by (rule alloc_unpacked [OF u assms(6)]) (use that assms(8) in auto)
  moreover from this have "\<not> closed (hio_alloc_readbuf io2 (min (length (base io2) * 2) m))"
    if "\<not> length (base io2) \<ge> m"
    using that assms(5) by (simp add: unpacked_def)
  ultimately have "if closed (snd res) then m \<le> length (snd (split_by (pl_delim d) (take (tail io) (base io))))
     else unpacked (pl_delim d) io (snd res)"
    using u c by (simp add: res_def)
  with e show ?thesis by (metis prod.collapse)
qed

lemma field_unpacks:
  assumes "head io = 0" "tail io = buf + k" "tail io \<le> length (base io)" "tail io < 2 ^ 32" "field_wf s"
    "no_empty_package s (take (tail io) (base io))" "\<not> closed io" "alloced_readbuf io" "max_read_bufsize io = m"
  shows "\<exists>r io'. hio_unpack_by_length_field s m io buf k = Some (r, io') \<and>
    (if closed io'
     then (case announced s (snd (split_by (pl_field s) (take (tail io) (base io)))) of
             Announced h n \<Rightarrow> m < unat n | TooBig \<Rightarrow> True | NeedMore \<Rightarrow> m < unat (body_offset s))
     else unpacked (pl_field s) io io')"
proof -
  let ?h = "ucast (body_offset s) :: u32"
  let ?rest = "snd (split_by (pl_field s) (take (tail io) (base io)))"
  have "\<exists>p' j n big io'. field_loop s (tail io) 0 0 ?h ?h io = Some (p', j, n, big, io') \<and>
      delivered (pl_field s) (tail io) 0 io p' io' \<and>
      field_end s ?h (tail io) n big (slice (base io) p' (tail io - p'))"
    by (rule field_loop_delivers) (use assms in simp_all)
  then obtain p j n big io1 where r: "field_loop s (tail io) 0 0 ?h ?h io = Some (p, j, n, big, io1)"
    "delivered (pl_field s) (tail io) 0 io p io1"
    "field_end s ?h (tail io) n big (slice (base io) p (tail io - p))" by blast
  have rest: "slice (base io) p (tail io - p) = ?rest" using r(2) by (auto simp: delivered_def)
  define io2 where "io2 = keep_rest io1 p (tail io)"
  have u: "unpacked (pl_field s) io io2"
    unfolding io2_def by (rule keep_rest_unpacked [OF r(2) refl assms(3)])
  then have c: "\<not> closed io2" "max_read_bufsize io2 = m" "length (base io) \<le> length (base io2)"
    using assms(7,9) by (auto simp: unpacked_def)
  define size where "size = (let len = length (base io2) in
    if len * 2 < unat n then unat n else if len * 2 > m then m else len * 2)"
  define res where "res = (if big then (-1, io1\<lparr>over_limit := True, closed := True\<rparr>)
    else if tail io2 \<noteq> 0 \<and> unat n > length (base io2) then
      if unat n > m then (-1, io2\<lparr>over_limit := True, closed := True\<rparr>)
      else (int j, hio_alloc_readbuf io2 size)
    else (int j, io2))"
  have e: "hio_unpack_by_length_field s m io buf k = Some res"
    by (simp only: hio_unpack_by_length_field_def Let_def assms(1) assms(2) [symmetric] r(1) option.map
        prod.case io2_def [symmetric] res_def size_def)
  have grown: "unpacked (pl_field s) io (hio_alloc_readbuf io2 size)"
    if "unat n > length (base io2)" "\<not> unat n > m"
    by (rule alloc_unpacked [OF u assms(8)]) (use that assms(9) in \<open>auto simp: size_def Let_def\<close>)
  then have "\<not> closed (hio_alloc_readbuf io2 size)"
    if "unat n > length (base io2)" "\<not> unat n > m"
    using that assms(7) by (simp add: unpacked_def)
  moreover have "case announced s ?rest of
      Announced h n \<Rightarrow> m < unat n | TooBig \<Rightarrow> True | NeedMore \<Rightarrow> m < unat (body_offset s)"
    if "big \<or> unat n > length (base io2) \<and> unat n > m"
  proof -
    have "\<not> unat n \<le> tail io" if "\<not> big"
      using that \<open>big \<or> _\<close> c(3) assms(3) by linarith
    moreover have "unat ?h = unat (body_offset s)" by (rule unat_ucast_up) simp
    ultimately show ?thesis
      using r(3) that unfolding rest field_end_def
      by (cases big) (auto split: announced.splits)
  qed
  ultimately have "if closed (snd res)
     then (case announced s ?rest of
             Announced h n \<Rightarrow> m < unat n | TooBig \<Rightarrow> True | NeedMore \<Rightarrow> m < unat (body_offset s))
     else unpacked (pl_field s) io (snd res)"
    using u c(1) grown by (simp add: res_def)
  with e show ?thesis by (metis prod.collapse)
qed

interpretation unpack: unpacker "pl_of S" S "good_for S" "over_for S" for S
proof
  fix xs ys and n :: nat
  assume "pl_of S xs = Some n"
  then show "pl_of S (xs @ ys) = Some n"
    by (cases "mode S") (simp_all add: pl_of_def fixed.pl_prefix delim.pl_prefix field.pl_prefix)
next
  fix xs and n :: nat
  assume "pl_of S xs = Some n"
  then show "0 < n"
    by (cases "mode S") (auto simp: pl_of_def dest: fixed.pl_pos delim.pl_pos field.pl_pos)
next
  fix as bs cs
  assume "good_for S (as @ bs @ cs)"
  then show "good_for S bs"
    by (cases "mode S") (auto simp: good_for_def intro: no_empty_package_part)
next
  fix io :: hio and buf n :: nat
  assume a: "head io = 0" "tail io = buf + n" "tail io \<le> length (base io)" "tail io < 2 ^ 32"
    "alloced_readbuf io" "split_by (pl_of S) (take buf (base io)) = ([], take buf (base io))"
    "good_for S (take (tail io) (base io))" "max_read_bufsize io = unat (package_max_length S)" "\<not> closed io"
  show "\<exists>r io'. hio_unpack S io buf n = Some (r, io') \<and>
      (if closed io' then over_for S (snd (split_by (pl_of S) (take (tail io) (base io))))
       else unpacked (pl_of S) io io')"
  proof (cases "mode S")
    case UNPACK_MODE_NONE
    with a(7) show ?thesis by (simp add: good_for_def)
  next
    case (UNPACK_BY_FIXED_LENGTH k)
    have pl: "pl_of S = pl_fixed (unat k)" by (rule ext) (simp add: pl_of_def UNPACK_BY_FIXED_LENGTH)
    from fixed_unpacks [OF a(1-3) _ a(9), of "unat k"] a(7) UNPACK_BY_FIXED_LENGTH show ?thesis
      unfolding pl by (force simp: good_for_def hio_unpack_def unat_eq_0)
  next
    case (UNPACK_BY_DELIMITER d)
    have pl: "pl_of S = pl_delim d" by (rule ext) (simp add: pl_of_def UNPACK_BY_DELIMITER)
    have "d \<noteq> []" using a(7) by (simp add: good_for_def UNPACK_BY_DELIMITER)
    note d = delim_unpacks [OF a(1-3) this a(9,5) a(6) [unfolded pl] a(8)]
    have "hio_unpack S io buf n = hio_unpack_by_delimiter d (unat (package_max_length S)) io buf n"
      "over_for S r = (unat (package_max_length S) \<le> length r)" for r
      by (simp_all add: hio_unpack_def over_for_def UNPACK_BY_DELIMITER)
    then show ?thesis using d unfolding pl by (simp only:)
  next
    case (UNPACK_BY_LENGTH_FIELD s)
    have pl: "pl_of S = pl_field s" by (rule ext) (simp add: pl_of_def UNPACK_BY_LENGTH_FIELD)
    have g: "field_wf s" "no_empty_package s (take (tail io) (base io))"
      using a(7) by (simp_all add: good_for_def UNPACK_BY_LENGTH_FIELD)
    note f = field_unpacks [OF a(1-4) g a(9,5,8)]
    have "hio_unpack S io buf n = hio_unpack_by_length_field s (unat (package_max_length S)) io buf n"
      "over_for S r = (case announced s r of Announced h n \<Rightarrow> unat (package_max_length S) < unat n
         | TooBig \<Rightarrow> True | NeedMore \<Rightarrow> unat (package_max_length S) < unat (body_offset s))" for r
      by (simp_all add: hio_unpack_def over_for_def UNPACK_BY_LENGTH_FIELD Let_def)
    then show ?thesis using f unfolding pl by (simp only:)
  qed
qed

section \<open>Properties\<close>

text \<open>Connections on which a package mode was set.\<close>

lemma set_unpack_waiting:
  assumes "hio_set_unpack loop_buf io (Some S) = Some io'" and "\<not> closed io" and "package_max_length S \<noteq> 0"
    and "head io = 0" and "tail io = 0" and "read_until_length io = None" and "loop_buf \<noteq> []"
    and "unpack_setting io = None \<longrightarrow> \<not> alloced_readbuf io"
  shows "unpack.waiting S io' [] \<and> packets io' = packets io"
proof -
  let ?len = "case mode S of UNPACK_BY_FIXED_LENGTH n \<Rightarrow> unat n
                         | _ \<Rightarrow> min HLOOP_READ_BUFSIZE (unat (package_max_length S))"
  have ok: "setting_ok S" using assms(1,3) by (auto simp: hio_set_unpack_def Let_def split: if_splits)
  have m: "0 < unat (package_max_length S)" using assms(3) by (simp add: unat_gt_0)
  have l: "0 < ?len" "?len \<le> unat (package_max_length S)"
    using ok m by (auto simp: setting_ok_def HLOOP_READ_BUFSIZE_def unat_gt_0 word_le_nat_alt split: unpack_mode.splits)
  have "pl_of S [] = None \<or> (\<exists>n. pl_of S [] = Some n \<and> 0 < n)"
    by (cases "pl_of S []") (auto dest: unpack.pl_pos)
  then have sp: "split_by (pl_of S) [] = ([], [])" by (subst split_by.simps) auto
  define io1 where "io1 = (hio_unset_unpack loop_buf io)
    \<lparr>unpack_setting := Some S, max_read_bufsize := unat (package_max_length S)\<rparr>"
  have al: "io' = hio_alloc_readbuf io1 ?len"
    using assms(1,3) ok by (auto simp: hio_set_unpack_def Let_def io1_def)
  have i: "\<not> closed io1" "head io1 = 0" "tail io1 = 0" "read_until_length io1 = None"
    "packets io1 = packets io" "unpack_setting io1 = Some S" "max_read_bufsize io1 = unat (package_max_length S)"
    using assms by (auto simp: io1_def hio_unset_unpack_def hio_free_readbuf_def)
  define b where "b = (if alloced_readbuf io1 then hv_realloc (base io1) ?len else replicate ?len 0)"
  have "io' = io1\<lparr>base := b, alloced_readbuf := True, small_readbytes_cnt := 0\<rparr>"
    unfolding al hio_alloc_readbuf_def b_def using l(2) i(7) by (simp only: not_le [symmetric] if_False simp_thms)
  moreover have "length b = ?len" by (simp add: b_def)
  ultimately show ?thesis
    using l i sp unfolding unpack.waiting_def by (auto simp del: length_greater_0_conv)
qed

text \<open>C4. Package splitting does not depend on how the stream is cut into reads: after any
  sequence of reads on a connection with fixed-length, delimiter or length-field packages, the
  packages handed to the callback are the packages of the whole stream and the buffer holds
  the incomplete rest, unless the connection was closed.\<close>

theorem unpack_stream:
  assumes "hio_set_unpack loop_buf io (Some S) = Some io0" and "\<not> closed io" and "package_max_length S \<noteq> 0"
    and "head io = 0" and "tail io = 0" and "read_until_length io = None" and "loop_buf \<noteq> []"
    and "unpack_setting io = None \<longrightarrow> \<not> alloced_readbuf io" and "packets io = []"
    and "good_for S (concat chunks)" and "nio_reads io0 chunks = Some io'" and "\<not> closed io'"
  shows "packets io' = fst (split_by (pl_of S) (concat chunks)) \<and>
    take (tail io') (base io') = snd (split_by (pl_of S) (concat chunks)) \<and>
    concat (packets io') @ take (tail io') (base io') = concat chunks"
proof -
  have w: "unpack.waiting S io0 []" "packets io0 = []"
    using set_unpack_waiting [OF assms(1-8)] assms(9) by simp_all
  have "split_by (pl_of S) [] = ([], [])" using w(1) by (simp add: unpack.waiting_def)
  then have d: "deliver (pl_of S) [] chunks = split_by (pl_of S) (concat chunks)"
    using unpack.deliver_split [of S "[]" chunks] by simp
  have "good_for S ([] @ concat chunks)" using assms(10) by simp
  from unpack.nio_reads_deliver [OF w(1) this assms(11,12)] d w(2)
  have r: "unpack.waiting S io' (snd (split_by (pl_of S) (concat chunks)))"
    "packets io' = fst (split_by (pl_of S) (concat chunks))" by simp_all
  then have "take (tail io') (base io') = snd (split_by (pl_of S) (concat chunks))"
    by (simp add: unpack.waiting_def)
  with r(2) unpack.split_concat [of S "concat chunks"] show ?thesis by simp
qed

definition example_setting :: unpack_setting where
  "example_setting = \<lparr>mode = UNPACK_BY_DELIMITER [13, 10], package_max_length = 16\<rparr>"

definition example_hio :: hio where
  "example_hio = \<lparr>base = replicate 8 0, head = 0, tail = 0, read_once = False, read_until_length = None,
     read_until_delim = None, reading = True, alloced_readbuf = False, small_readbytes_cnt = 0,
     max_read_bufsize = 16, unpack_setting = None, over_limit = False, closed = False, packets = []\<rparr>"

definition example_waiting :: hio where
  "example_waiting = example_hio\<lparr>base := replicate 16 0, alloced_readbuf := True, unpack_setting := Some example_setting\<rparr>"

lemma example_set: "hio_set_unpack [0] example_hio (Some example_setting) = Some example_waiting"
  by (simp add: hio_set_unpack_def example_setting_def example_hio_def example_waiting_def hio_unset_unpack_def
      setting_ok_def HLOOP_READ_BUFSIZE_def hio_alloc_readbuf_def)

text \<open>Every read on such a connection is handled to the end, and the connection is closed
  only when the bytes left over exceed half of the limit or announce a package beyond it.\<close>

theorem unpack_read_returns:
  assumes "hio_set_unpack loop_buf io (Some S) = Some io0" and "\<not> closed io" and "package_max_length S \<noteq> 0"
    and "head io = 0" and "tail io = 0" and "read_until_length io = None" and "loop_buf \<noteq> []"
    and "unpack_setting io = None \<longrightarrow> \<not> alloced_readbuf io"
    and "good_for S (concat chunks @ chunk)" and "nio_reads io0 chunks = Some io1" and "\<not> closed io1"
    and "length chunk \<le> read_room io1" and "length (base io1) < 2 ^ 32"
  shows "\<exists>io2. nio_read io1 chunk = Some io2 \<and>
    (let rest = snd (split_by (pl_of S) (concat chunks @ chunk))
     in closed io2 \<longrightarrow> over_for S rest \<or> unat (package_max_length S) < 2 * length rest)"
proof -
  have w: "unpack.waiting S io0 []" using set_unpack_waiting [OF assms(1-8)] by simp
  have "split_by (pl_of S) [] = ([], [])" using w(1) by (simp add: unpack.waiting_def)
  then have d: "deliver (pl_of S) [] chunks = split_by (pl_of S) (concat chunks)"
    using unpack.deliver_split [of S "[]" chunks] by simp
  let ?r = "snd (split_by (pl_of S) (concat chunks))"
  have "good_for S ([] @ concat chunks)"
    using assms(9) unpack.good_part [of S "[]" "concat chunks" chunk] by simp
  from unpack.nio_reads_deliver [OF w this assms(10,11)] d
  have r: "unpack.waiting S io1 ?r" by simp
  have "good_for S (concat (fst (split_by (pl_of S) (concat chunks))) @ (?r @ chunk) @ [])"
    using assms(9) unpack.split_concat [of S "concat chunks"] by (simp only: append_assoc [symmetric] append_Nil2)
  then have g: "good_for S (?r @ chunk)" by (rule unpack.good_part)
  obtain ps rest where sp: "split_by (pl_of S) (?r @ chunk) = (ps, rest)" by fastforce
  from unpack.nio_read_step [OF r assms(12,13) g sp] unpack.split_append [of S "concat chunks" chunk] sp
  show ?thesis by (auto simp: Let_def)
qed

theorem unpack_read_returns_witness:
  "\<exists>io2. nio_read example_waiting [72, 105, 13, 10, 72] = Some io2"
  using unpack_read_returns [OF example_set, of "[]" "[72, 105, 13, 10, 72]" example_waiting]
  by (auto simp: example_hio_def example_waiting_def example_setting_def good_for_def read_room_def)

lemma example_step:
  assumes "unpack.waiting example_setting io rest" and "length chunk \<le> length (base io) - tail io"
    and "split_by (pl_of example_setting) (rest @ chunk) = (ps, rest')" and "length rest' < 8"
  shows "\<exists>io'. nio_read io chunk = Some io' \<and> \<not> closed io' \<and> unpack.waiting example_setting io' rest'"
proof -
  have "read_until_length io = None" "length (base io) \<le> 16"
    using assms(1) by (auto simp: unpack.waiting_def example_setting_def)
  with unpack.nio_read_step [OF assms(1) _ _ _ assms(3)] assms(2,4) show ?thesis
    by (auto simp: read_room_def good_for_def over_for_def example_setting_def split: if_splits)
qed

lemma example_reads:
  "\<exists>io'. nio_reads example_waiting [[72, 105, 13], [10]] = Some io' \<and> \<not> closed io'"
proof -
  note sp = split_by.simps pl_of_def pl_delim_def example_setting_def upt_rec
  have w: "unpack.waiting example_setting example_waiting []"
    using set_unpack_waiting [OF example_set] by (simp add: example_hio_def example_setting_def)
  have "split_by (pl_of example_setting) ([] @ [72, 105, 13]) = ([], [72, 105, 13])" by (simp add: sp)
  from example_step [OF w _ this] obtain io1 where 1: "nio_read example_waiting [72, 105, 13] = Some io1"
    "\<not> closed io1" "unpack.waiting example_setting io1 [72, 105, 13]"
    by (auto simp: example_waiting_def example_hio_def)
  have "split_by (pl_of example_setting) ([72, 105, 13] @ [10]) = ([[72, 105, 13, 10]], [])" by (simp add: sp)
  moreover have r: "read_until_length io1 = None" "tail io1 = 3" "3 < length (base io1)" "length (base io1) \<le> 16"
    using 1(3) by (auto simp: unpack.waiting_def example_setting_def)
  moreover have "Suc 0 \<le> length (base io1) - 3" using r(3) by simp
  ultimately obtain io2 where "nio_read io1 [10] = Some io2" "\<not> closed io2"
    using example_step [OF 1(3), of "[10]" "[[72, 105, 13, 10]]" "[]"] by auto
  with 1 r show ?thesis by (simp add: read_room_def example_waiting_def example_hio_def)
qed

theorem unpack_stream_witness:
  "\<exists>io'. nio_reads example_waiting [[72, 105, 13], [10]] = Some io' \<and> packets io' = [[72, 105, 13, 10]]"
proof -
  have s: "split_by (pl_of example_setting) [72, 105, 13, 10] = ([[72, 105, 13, 10]], [])"
    by (simp add: split_by.simps pl_of_def pl_delim_def example_setting_def upt_rec)
  obtain io' where io: "nio_reads example_waiting [[72, 105, 13], [10]] = Some io'" "\<not> closed io'"
    using example_reads by blast
  with unpack_stream [OF example_set, of "[[72, 105, 13], [10]]" io'] s show ?thesis
    by (auto simp: example_hio_def example_setting_def good_for_def)
qed

text \<open>The setting the header file recommends.\<close>

definition recommended :: length_field where
  "recommended = \<lparr>body_offset = 5, length_field_offset = 1, length_field_bytes = 4, length_adjustment = 0,
     length_field_coding = ENCODE_BY_BIG_ENDIAN\<rparr>"

lemma stuck_header:
  "read_length_field recommended 5 (x # 0xFF # 0xFF # 0xFF # 0xFB # bs) = Announced 5 0"
  by (simp add: read_length_field_def recommended_def be_length_def)

definition stuck :: "length_field \<Rightarrow> nat \<Rightarrow> nat \<Rightarrow> u32 \<Rightarrow> hio \<Rightarrow> bool" where
  "stuck s ep p h io \<longleftrightarrow> s = recommended \<and> h = 5 \<and> 5 \<le> ep - p \<and>
    (\<exists>x bs. slice (base io) p (ep - p) = x # 0xFF # 0xFF # 0xFF # 0xFB # bs)"

lemma field_loop_stuck:
  assumes "field_loop s ep p k h l io = Some r"
  shows "\<not> stuck s ep p h io"
proof (rule field_loop.raw_induct [where P = "\<lambda>s ep p k h l io r. \<not> stuck s ep p h io", OF _ assms], goal_cases)
  case (1 f s ep p k h l io r)
  show ?case
  proof
    assume a: "stuck s ep p h io"
    then obtain x bs where sl: "slice (base io) p (ep - p) = x # 0xFF # 0xFF # 0xFF # 0xFB # bs"
      by (auto simp: stuck_def)
    have "f recommended ep p k 5 0 (hio_read_cb io p 0) = Some r"
      using 1(2) a sl stuck_header [of x bs] by (simp add: stuck_def recommended_def)
    from 1(1) [OF this] a show False by (simp add: stuck_def)
  qed
qed

text \<open>C40. With the recommended five-byte header a peer can hang the event loop: a length field
  of \<open>0xFFFFFFFB\<close> makes \<open>package_len\<close> wrap to 0, and the loop then delivers empty
  packages for ever.\<close>

theorem unpack_zero_length_hangs:
  assumes "head io = 0" and "5 \<le> buf + n" and "buf + n \<le> length (base io)"
    and "take 5 (base io) = [x, 0xFF, 0xFF, 0xFF, 0xFB]"
  shows "hio_unpack_by_length_field recommended m io buf n = None"
proof -
  have "take (buf + n) (base io) = take 5 (base io) @ slice (base io) 5 (buf + n - 5)"
    using assms(2) by (metis le_add_diff_inverse take_add)
  then have s: "slice (base io) 0 (buf + n - 0) = x # 0xFF # 0xFF # 0xFF # 0xFB # slice (base io) 5 (buf + n - 5)"
    using assms(4) by simp
  have "field_loop recommended (buf + n) 0 0 5 5 io = None"
  proof (cases "field_loop recommended (buf + n) 0 0 5 5 io")
    case (Some r)
    from field_loop_stuck [OF this] assms(2) s show ?thesis by (simp add: stuck_def)
  qed
  then show ?thesis using assms(1)
    by (simp add: hio_unpack_by_length_field_def recommended_def Let_def)
qed

theorem unpack_zero_length_hangs_witness:
  "hio_unpack_by_length_field recommended 2097152 (example_hio\<lparr>base := [7, 0xFF, 0xFF, 0xFF, 0xFB]\<rparr>) 0 5 = None"
  by (rule unpack_zero_length_hangs [where x = 7]) (simp_all add: example_hio_def)

section \<open>Varints\<close>

declare bit_numeral_word_iff [simp del]

lemma and_127: "v AND 0x7F = take_bit 7 v" for v :: int
  by (simp add: take_bit_eq_mask mask_eq_exp_minus_1)

lemma low_bits: "bit (of_int (v AND 0x7F) :: byte) n \<longleftrightarrow> n < 7 \<and> bit v n" for v :: int
  unfolding and_127 by (auto simp: bit_word_of_int_iff bit_take_bit_iff)

lemma varint_byte:
  fixes v :: int
  defines "ch \<equiv> of_int (v AND 0x7F) :: byte"
  shows "ch AND 0x80 = 0" "(ch OR 0x80) AND 0x80 \<noteq> 0" "(ch OR 0x80) AND 0x7F = ch" "ch AND 0x7F = ch"
proof -
  have "\<not> ch AND 0x80 \<noteq> 0" unfolding bit_tests ch_def low_bits by simp
  then show "ch AND 0x80 = 0" by simp
  show "(ch OR 0x80) AND 0x80 \<noteq> 0" unfolding bit_tests by (simp add: bit_or_iff bit_consts)
  show "(ch OR 0x80) AND 0x7F = ch" "ch AND 0x7F = ch"
    by (rule bit_word_eqI; auto simp: ch_def bit_and_iff bit_or_iff bit_consts low_bits)+
qed

lemma varint_join:
  "push_bit k (ucast (of_int (v AND 0x7F) :: byte)) OR push_bit (k + 7) (of_int (drop_bit 7 v))
    = push_bit k (of_int v :: u64)"
proof (rule bit_word_eqI)
  fix n assume n: "n < LENGTH(64)"
  show "bit (push_bit k (ucast (of_int (v AND 0x7F) :: byte)) OR push_bit (k + 7) (of_int (drop_bit 7 v)) :: u64) n
      = bit (push_bit k (of_int v :: u64)) n"
    unfolding and_127
  proof (cases "n < k + 7")
    case True
    with n show "bit (push_bit k (ucast (of_int (take_bit 7 v) :: byte)) OR push_bit (k + 7) (of_int (drop_bit 7 v)) :: u64) n
      = bit (push_bit k (of_int v :: u64)) n"
      by (auto simp: bit_or_iff bit_push_bit_iff bit_ucast_iff bit_take_bit_iff bit_word_of_int_iff)
  next
    case False
    then have "7 + (n - (k + 7)) = n - k" by simp
    with False n show "bit (push_bit k (ucast (of_int (take_bit 7 v) :: byte)) OR push_bit (k + 7) (of_int (drop_bit 7 v)) :: u64) n
      = bit (push_bit k (of_int v :: u64)) n"
      by (auto simp: bit_or_iff bit_push_bit_iff bit_ucast_iff bit_take_bit_iff bit_word_of_int_iff bit_drop_bit_eq)
  qed
qed

lemma varint_encode_loop:
  "varint_encode n v = Some bs \<Longrightarrow> k + n \<le> 10 \<Longrightarrow>
   varint_loop (bs @ rest) ret k = (ret OR push_bit (7 * k) (of_int v), int (k + length bs)) \<and> length bs \<le> n"
proof (induction n arbitrary: v bs k ret)
  case (Suc n)
  define ch where "ch = (of_int (v AND 0x7F) :: byte)"
  note b = varint_byte [of v, folded ch_def]
  have j: "push_bit (7 * k) (ucast ch) OR push_bit (7 * (k + 1)) (of_int (drop_bit 7 v)) = push_bit (7 * k) (of_int v :: u64)"
    using varint_join [of "7 * k" v] by (simp add: ch_def algebra_simps)
  show ?case
  proof (cases "drop_bit 7 v = 0")
    case True
    then have "bs = [ch]" using Suc.prems(1) by (simp add: ch_def Let_def)
    with True b j show ?thesis by simp
  next
    case False
    then obtain cs where cs: "varint_encode n (drop_bit 7 v) = Some cs" "bs = (ch OR 0x80) # cs"
      using Suc.prems(1) by (auto simp: ch_def Let_def)
    then have "0 < n" by (cases n) auto
    then have k: "k + 1 < 10" using Suc.prems(2) by simp
    have ih: "varint_loop (cs @ rest) r (k + 1) =
        (r OR push_bit (7 * (k + 1)) (of_int (drop_bit 7 v)), int (k + 1 + length cs)) \<and> length cs \<le> n" for r
      by (rule Suc.IH [OF cs(1)]) (use Suc.prems(2) in simp)
    have "varint_loop (bs @ rest) ret k
        = varint_loop (cs @ rest) (ret OR push_bit (7 * k) (ucast ch)) (k + 1)"
      using b k by (simp add: cs(2) Let_def)
    with ih [of "ret OR push_bit (7 * k) (ucast ch)"] j cs(2) show ?thesis
      by (simp add: or.assoc)
  qed
qed simp

lemma varint_encode_ends:
  "0 \<le> v \<Longrightarrow> v < 2 ^ (7 * n) \<Longrightarrow> 0 < n \<Longrightarrow> \<exists>bs. varint_encode n v = Some bs"
proof (induction n arbitrary: v)
  case (Suc n)
  have d: "drop_bit 7 v = v div 128" by (simp add: drop_bit_eq_div)
  show ?case
  proof (cases "v div 128 = 0")
    case True
    then show ?thesis by (simp add: d Let_def)
  next
    case False
    have lt: "v div 128 < 2 ^ (7 * n)"
      using Suc.prems(1,2) by (simp add: power_add div_less_iff_less_mult)
    have "0 < n" using False lt Suc.prems(1) by (cases n) auto
    moreover have "0 \<le> v div 128" using Suc.prems(1) by (simp add: pos_imp_zdiv_nonneg_iff)
    ultimately obtain bs where "varint_encode n (v div 128) = Some bs"
      using Suc.IH [of "v div 128"] lt by blast
    then show ?thesis by (simp add: d Let_def)
  qed
qed simp

lemma varint_negative: "v < 0 \<Longrightarrow> varint_encode n v = None"
proof (induction n arbitrary: v)
  case (Suc n)
  have d: "drop_bit 7 v = v div 128" by (simp add: drop_bit_eq_div)
  have l: "v div 128 < 0" using Suc.prems by (simp add: div_neg_pos_less0)
  then have "v div 128 \<noteq> 0" by linarith
  with Suc.IH [OF l] show ?case by (simp only: varint_encode.simps Let_def d if_False option.map)
qed simp

text \<open>Varints: a non-negative number below \<open>2^63\<close> is written in at most ten bytes and read
  back together with its size, whatever follows it; for a negative number
  \<open>varint_encode\<close> never stops writing.\<close>

theorem varint_roundtrip:
  "(0 \<le> v \<and> v < 2 ^ 63 \<longrightarrow>
      (\<exists>bs. varint_encode 10 v = Some bs \<and> length bs \<le> 10 \<and>
            varint_decode (bs @ rest) = (of_int v, int (length bs)))) \<and>
   (v < 0 \<longrightarrow> varint_encode fuel v = None)"
proof (intro conjI impI)
  assume v: "0 \<le> v \<and> v < 2 ^ 63"
  then obtain bs where "varint_encode 10 v = Some bs" using varint_encode_ends [of v 10] by auto
  with varint_encode_loop [OF this, of 0 rest 0]
  show "\<exists>bs. varint_encode 10 v = Some bs \<and> length bs \<le> 10 \<and> varint_decode (bs @ rest) = (of_int v, int (length bs))"
    by (simp add: varint_decode_def)
qed (rule varint_negative)

theorem varint_roundtrip_witness:
  "(\<exists>bs. varint_encode 10 300 = Some bs \<and> varint_decode (bs @ [1]) = (300, int (length bs))) \<and>
   varint_encode 50 (-1) = None"
  using varint_roundtrip [of 300 "[1]" 0] varint_roundtrip [of "-1" "[]" 50] by auto

end
