(* ===== verification/Multipart.thy ===== *)
theory Multipart
  imports Fs_Types "HOL-Library.Sublist"
begin

text \<open>
  \<open>src/libs/libhv/http/multipart_parser.c\<close>: the incremental parser of
  \<open>multipart/form-data\<close> bodies. The callbacks are functions of a user state \<open>'u\<close> that answer
  a number and the new user state. Positions in the input are natural numbers (an input is
  shorter than \<open>2^64\<close>; where the code writes \<open>i--\<close> at position 0 the loop's \<open>++i\<close> brings the
  wrapped value back). Reads behind the boundary's terminating zero and writes behind the
  look-behind buffer are the outcome \<open>MOverrun\<close>.
\<close>

section \<open>Parser and settings\<close>

datatype mp_state =
    s_uninitialized | s_start | s_start_boundary | s_header_field_start | s_header_field
  | s_headers_almost_done | s_header_value_start | s_header_value | s_header_value_almost_done
  | s_part_data_start | s_part_data | s_part_data_almost_boundary | s_part_data_boundary
  | s_part_data_almost_end | s_part_data_end | s_part_data_final_hyphen | s_end

record multipart_parser =
  mp_index :: nat
  mp_state :: mp_state
  lookbehind :: string
  multipart_boundary :: string

type_synonym 'u multipart_notify_cb = "'u \<Rightarrow> int \<times> 'u"
type_synonym 'u multipart_data_cb = "string \<Rightarrow> 'u \<Rightarrow> int \<times> 'u"

record 'u multipart_parser_settings =
  on_header_field :: "'u multipart_data_cb option"
  on_header_value :: "'u multipart_data_cb option"
  on_part_data :: "'u multipart_data_cb option"
  on_part_data_begin :: "'u multipart_notify_cb option"
  on_headers_complete :: "'u multipart_notify_cb option"
  on_part_data_end :: "'u multipart_notify_cb option"
  on_body_end :: "'u multipart_notify_cb option"

abbreviation CR :: char where "CR \<equiv> CHR 0x0D"
abbreviation LF :: char where "LF \<equiv> CHR 0x0A"

text \<open>
  The boundary is a C string; \<open>mem\<close> are the bytes the allocation leaves behind it, which has
  room for the boundary and nine more.
\<close>

definition multipart_parser_init :: "string \<Rightarrow> (nat \<Rightarrow> char) \<Rightarrow> multipart_parser" where
  "multipart_parser_init boundary mem =
     \<lparr> mp_index = 0, mp_state = s_start, lookbehind = map mem [0..<length boundary + 9],
       multipart_boundary = boundary \<rparr>"

definition mp_notify :: "'u multipart_notify_cb option \<Rightarrow> 'u \<Rightarrow> bool \<times> 'u" where
  "mp_notify cb u = (case cb of None \<Rightarrow> (True, u) | Some f \<Rightarrow> (let (r, u') = f u in (r = 0, u')))"

definition mp_emit :: "'u multipart_data_cb option \<Rightarrow> string \<Rightarrow> 'u \<Rightarrow> bool \<times> 'u" where
  "mp_emit cb s u = (case cb of None \<Rightarrow> (True, u) | Some f \<Rightarrow> (let (r, u') = f s u in (r = 0, u')))"

section \<open>One pass of the loop\<close>

text \<open>Go on at a position with \<open>mark\<close>, return a count, or leave the allocated memory.\<close>

datatype 'u mp_pass =
    MGo nat nat multipart_parser 'u
  | MReturn nat multipart_parser 'u
  | MOverrun

text \<open>\<open>buf + mark\<close> with length \<open>n - mark\<close>.\<close>

definition mark_slice :: "string \<Rightarrow> nat \<Rightarrow> nat \<Rightarrow> string" where
  "mark_slice buf mark n = take (n - mark) (drop mark buf)"

definition boundary_at :: "multipart_parser \<Rightarrow> char option" where
  "boundary_at p = (let b = multipart_boundary p in
     if mp_index p < length b then Some (b ! mp_index p)
     else if mp_index p = length b then Some (CHR 0x00) else None)"

definition pass_start_boundary ::
  "'u multipart_parser_settings \<Rightarrow> char \<Rightarrow> nat \<Rightarrow> nat \<Rightarrow> multipart_parser \<Rightarrow> 'u \<Rightarrow> 'u mp_pass" where
  "pass_start_boundary S c i mark p u =
     (let len = length (multipart_boundary p) in
      if mp_index p = len then
        (if c \<noteq> CR then MReturn i p u else MGo (i + 1) mark (p\<lparr>mp_index := mp_index p + 1\<rparr>) u)
      else if mp_index p = len + 1 then
        (if c \<noteq> LF then MReturn i p u
         else (let p1 = p\<lparr>mp_index := 0\<rparr>; (ok, u1) = mp_notify (on_part_data_begin S) u
               in if ok then MGo (i + 1) mark (p1\<lparr>mp_state := s_header_field_start\<rparr>) u1
                  else MReturn i p1 u1))
      else (case boundary_at p of
              None \<Rightarrow> MOverrun
            | Some bc \<Rightarrow> if c \<noteq> bc then MReturn i p u
                         else MGo (i + 1) mark (p\<lparr>mp_index := mp_index p + 1\<rparr>) u))"

text \<open>\<open>if (is_last) EMIT_DATA_CB(...)\<close> and on to the next character.\<close>

definition emit_if_last ::
  "'u multipart_data_cb option \<Rightarrow> string \<Rightarrow> nat \<Rightarrow> nat \<Rightarrow> multipart_parser \<Rightarrow> 'u \<Rightarrow> 'u mp_pass" where
  "emit_if_last cb buf i mark p u =
     (if i = length buf - 1
      then (let (ok, u1) = mp_emit cb (mark_slice buf mark (i + 1)) u
            in if ok then MGo (i + 1) mark p u1 else MReturn i p u1)
      else MGo (i + 1) mark p u)"

definition field_char :: "char \<Rightarrow> bool" where
  "field_char c \<longleftrightarrow> c = CHR ''-'' \<or> 97 \<le> (of_char (to_lower c) :: nat) \<and> (of_char (to_lower c) :: nat) \<le> 122"

definition pass_header_field ::
  "'u multipart_parser_settings \<Rightarrow> string \<Rightarrow> char \<Rightarrow> nat \<Rightarrow> nat \<Rightarrow> multipart_parser \<Rightarrow> 'u \<Rightarrow> 'u mp_pass" where
  "pass_header_field S buf c i mark p u =
     (if c = CR then MGo (i + 1) mark (p\<lparr>mp_state := s_headers_almost_done\<rparr>) u
      else if c = CHR '':'' then
        (let (ok, u1) = mp_emit (on_header_field S) (mark_slice buf mark i) u
         in if ok then MGo (i + 1) mark (p\<lparr>mp_state := s_header_value_start\<rparr>) u1 else MReturn i p u1)
      else if \<not> field_char c then MReturn i p u
      else emit_if_last (on_header_field S) buf i mark p u)"

definition pass_header_value ::
  "'u multipart_parser_settings \<Rightarrow> string \<Rightarrow> char \<Rightarrow> nat \<Rightarrow> nat \<Rightarrow> multipart_parser \<Rightarrow> 'u \<Rightarrow> 'u mp_pass" where
  "pass_header_value S buf c i mark p u =
     (if c = CR then
        (let (ok, u1) = mp_emit (on_header_value S) (mark_slice buf mark i) u
         in if ok then MGo (i + 1) mark (p\<lparr>mp_state := s_header_value_almost_done\<rparr>) u1 else MReturn i p u1)
      else emit_if_last (on_header_value S) buf i mark p u)"

definition pass_part_data ::
  "'u multipart_parser_settings \<Rightarrow> string \<Rightarrow> char \<Rightarrow> nat \<Rightarrow> nat \<Rightarrow> multipart_parser \<Rightarrow> 'u \<Rightarrow> 'u mp_pass" where
  "pass_part_data S buf c i mark p u =
     (if c = CR then
        (let (ok, u1) = mp_emit (on_part_data S) (mark_slice buf mark i) u
         in if ok then MGo (i + 1) i (p\<lparr>mp_state := s_part_data_almost_boundary, lookbehind := (lookbehind p)[0 := CR]\<rparr>) u1
            else MReturn i p u1)
      else emit_if_last (on_part_data S) buf i mark p u)"

text \<open>Give the look-behind back as data and read the character again: \<open>mark = i --\<close>.\<close>

definition pass_unread ::
  "'u multipart_parser_settings \<Rightarrow> nat \<Rightarrow> nat \<Rightarrow> multipart_parser \<Rightarrow> 'u \<Rightarrow> 'u mp_pass" where
  "pass_unread S n i p u =
     (let (ok, u1) = mp_emit (on_part_data S) (take n (lookbehind p)) u
      in if ok then MGo i i (p\<lparr>mp_state := s_part_data\<rparr>) u1 else MReturn i p u1)"

definition pass_boundary ::
  "'u multipart_parser_settings \<Rightarrow> char \<Rightarrow> nat \<Rightarrow> nat \<Rightarrow> multipart_parser \<Rightarrow> 'u \<Rightarrow> 'u mp_pass" where
  "pass_boundary S c i mark p u =
     (case boundary_at p of
        None \<Rightarrow> MOverrun
      | Some bc \<Rightarrow>
          if bc \<noteq> c then pass_unread S (2 + mp_index p) i p u
          else if 2 + mp_index p \<ge> length (lookbehind p) then MOverrun
          else (let p1 = p\<lparr>lookbehind := (lookbehind p)[2 + mp_index p := c], mp_index := mp_index p + 1\<rparr>
                in if mp_index p1 = length (multipart_boundary p)
                   then (let (ok, u1) = mp_notify (on_part_data_end S) u
                         in if ok then MGo (i + 1) mark (p1\<lparr>mp_state := s_part_data_almost_end\<rparr>) u1
                            else MReturn i p1 u1)
                   else MGo (i + 1) mark p1 u))"

definition mp_goto :: "nat \<Rightarrow> nat \<Rightarrow> multipart_parser \<Rightarrow> mp_state \<Rightarrow> 'u \<Rightarrow> 'u mp_pass" where
  "mp_goto i mark p st u = MGo (i + 1) mark (p\<lparr>mp_state := st\<rparr>) u"

definition mp_pass ::
  "'u multipart_parser_settings \<Rightarrow> string \<Rightarrow> nat \<Rightarrow> nat \<Rightarrow> multipart_parser \<Rightarrow> 'u \<Rightarrow> 'u mp_pass" where
  "mp_pass S buf i mark p u =
     (let c = buf ! i in
      case mp_state p of
        s_start \<Rightarrow> pass_start_boundary S c i mark (p\<lparr>mp_index := 0, mp_state := s_start_boundary\<rparr>) u
      | s_start_boundary \<Rightarrow> pass_start_boundary S c i mark p u
      | s_header_field_start \<Rightarrow> pass_header_field S buf c i i (p\<lparr>mp_state := s_header_field\<rparr>) u
      | s_header_field \<Rightarrow> pass_header_field S buf c i mark p u
      | s_headers_almost_done \<Rightarrow>
          if c \<noteq> LF then MReturn i p u else mp_goto i mark p s_part_data_start u
      | s_header_value_start \<Rightarrow>
          if c = CHR '' '' then MGo (i + 1) mark p u
          else pass_header_value S buf c i i (p\<lparr>mp_state := s_header_value\<rparr>) u
      | s_header_value \<Rightarrow> pass_header_value S buf c i mark p u
      | s_header_value_almost_done \<Rightarrow>
          if c \<noteq> LF then MReturn i p u else mp_goto i mark p s_header_field_start u
      | s_part_data_start \<Rightarrow>
          (let (ok, u1) = mp_notify (on_headers_complete S) u
           in if ok then pass_part_data S buf c i i (p\<lparr>mp_state := s_part_data\<rparr>) u1 else MReturn i p u1)
      | s_part_data \<Rightarrow> pass_part_data S buf c i mark p u
      | s_part_data_almost_boundary \<Rightarrow>
          if c = LF then MGo (i + 1) mark
            (p\<lparr>mp_state := s_part_data_boundary, lookbehind := (lookbehind p)[1 := LF], mp_index := 0\<rparr>) u
          else pass_unread S 1 i p u
      | s_part_data_boundary \<Rightarrow> pass_boundary S c i mark p u
      | s_part_data_almost_end \<Rightarrow>
          if c = CHR ''-'' then mp_goto i mark p s_part_data_final_hyphen u
          else if c = CR then mp_goto i mark p s_part_data_end u
          else MReturn i p u
      | s_part_data_final_hyphen \<Rightarrow>
          if c = CHR ''-'' then
            (let (ok, u1) = mp_notify (on_body_end S) u
             in if ok then mp_goto i mark p s_end u1 else MReturn i p u1)
          else MReturn i p u
      | s_part_data_end \<Rightarrow>
          if c = LF then
            (let p1 = p\<lparr>mp_state := s_header_field_start\<rparr>; (ok, u1) = mp_notify (on_part_data_begin S) u
             in if ok then MGo (i + 1) mark p1 u1 else MReturn i p1 u1)
          else MReturn i p u
      | s_end \<Rightarrow> MGo (i + 1) mark p u
      | s_uninitialized \<Rightarrow> MReturn 0 p u)"

text \<open>A pass advances, or gives a character back by leaving the two look-behind states.\<close>

definition mp_rank :: "mp_state \<Rightarrow> nat" where
  "mp_rank s = (if s = s_part_data_almost_boundary \<or> s = s_part_data_boundary then 1 else 0)"

lemmas mp_pass_defs = mp_pass_def pass_start_boundary_def pass_header_field_def pass_header_value_def
  pass_part_data_def pass_unread_def pass_boundary_def mp_goto_def emit_if_last_def

lemma mp_pass_advances:
  assumes "mp_pass S buf i mark p u = MGo i' mark' p' u'"
  shows "i < i' \<or> i' = i \<and> mp_rank (mp_state p') < mp_rank (mp_state p)"
  using assms
  by (cases "mp_state p")
    (auto simp: mp_pass_defs Let_def mp_rank_def split: if_splits option.splits prod.splits)

text \<open>The loop; \<open>None\<close> is an overrun.\<close>

function mp_loop ::
  "'u multipart_parser_settings \<Rightarrow> string \<Rightarrow> nat \<Rightarrow> nat \<Rightarrow> multipart_parser \<Rightarrow> 'u
     \<Rightarrow> (nat \<times> multipart_parser \<times> 'u) option" where
  "mp_loop S buf i mark p u =
     (if i < length buf then
        (case mp_pass S buf i mark p u of
           MGo i' mark' p' u' \<Rightarrow> mp_loop S buf i' mark' p' u'
         | MReturn r p' u' \<Rightarrow> Some (r, p', u')
         | MOverrun \<Rightarrow> None)
      else Some (length buf, p, u))"
  by pat_completeness auto
termination
  by (relation "measures [\<lambda>(S, buf, i, mark, p, u). length buf - i,
                          \<lambda>(S, buf, i, mark, p, u). mp_rank (mp_state p)]")
    (auto dest!: mp_pass_advances)

declare mp_loop.simps [simp del]

definition multipart_parser_execute ::
  "'u multipart_parser_settings \<Rightarrow> string \<Rightarrow> multipart_parser \<Rightarrow> 'u
     \<Rightarrow> (nat \<times> multipart_parser \<times> 'u) option" where
  "multipart_parser_execute S buf p u = mp_loop S buf 0 0 p u"

section \<open>A reference parser\<close>

text \<open>
  What the callbacks hear, character by character, and a parser that takes one character at a
  time and keeps only its state and the number of boundary characters seen. It has no
  buffers, marks or chunks. \<open>None\<close>: the input is not well formed. (The code accepts a header
  line without a colon, and then tells the callback only the part of it that lay in earlier
  chunks; here such a line is not well formed.)
\<close>

datatype mp_event = EField char | EValue char | EData char | EBegin | EHeaders | EEnd | EBodyEnd

definition recorder :: "mp_event list multipart_parser_settings" where
  "recorder = \<lparr> on_header_field = Some (\<lambda>s u. (0, u @ map EField s)),
     on_header_value = Some (\<lambda>s u. (0, u @ map EValue s)),
     on_part_data = Some (\<lambda>s u. (0, u @ map EData s)),
     on_part_data_begin = Some (\<lambda>u. (0, u @ [EBegin])),
     on_headers_complete = Some (\<lambda>u. (0, u @ [EHeaders])),
     on_part_data_end = Some (\<lambda>u. (0, u @ [EEnd])),
     on_body_end = Some (\<lambda>u. (0, u @ [EBodyEnd])) \<rparr>"

type_synonym mp_ref = "mp_state \<times> nat"

definition ref_field :: "char \<Rightarrow> (mp_ref \<times> mp_event list) option" where
  "ref_field c = (if c = CHR '':'' then Some ((s_header_value_start, 0), [])
     else if c \<noteq> CR \<and> field_char c then Some ((s_header_field, 0), [EField c]) else None)"

definition ref_value :: "char \<Rightarrow> mp_ref \<times> mp_event list" where
  "ref_value c = (if c = CR then ((s_header_value_almost_done, 0), []) else ((s_header_value, 0), [EValue c]))"

definition ref_data :: "mp_event list \<Rightarrow> char \<Rightarrow> mp_ref \<times> mp_event list" where
  "ref_data evs c = (if c = CR then ((s_part_data_almost_boundary, 0), evs)
     else ((s_part_data, 0), evs @ [EData c]))"

definition ref_start :: "string \<Rightarrow> char \<Rightarrow> nat \<Rightarrow> (mp_ref \<times> mp_event list) option" where
  "ref_start b c k =
     (if k = length b then (if c = CR then Some ((s_start_boundary, k + 1), []) else None)
      else if k = length b + 1 then (if c = LF then Some ((s_header_field_start, 0), [EBegin]) else None)
      else if k < length b \<and> c = b ! k then Some ((s_start_boundary, k + 1), []) else None)"

fun ref_char :: "string \<Rightarrow> char \<Rightarrow> mp_ref \<Rightarrow> (mp_ref \<times> mp_event list) option" where
  "ref_char b c (st, k) =
     (case st of
        s_start \<Rightarrow> ref_start b c 0
      | s_start_boundary \<Rightarrow> ref_start b c k
      | s_header_field_start \<Rightarrow> if c = CR then Some ((s_headers_almost_done, 0), []) else ref_field c
      | s_header_field \<Rightarrow> ref_field c
      | s_headers_almost_done \<Rightarrow> if c = LF then Some ((s_part_data_start, 0), []) else None
      | s_header_value_start \<Rightarrow> if c = CHR '' '' then Some ((st, 0), []) else Some (ref_value c)
      | s_header_value \<Rightarrow> Some (ref_value c)
      | s_header_value_almost_done \<Rightarrow> if c = LF then Some ((s_header_field_start, 0), []) else None
      | s_part_data_start \<Rightarrow> Some (ref_data [EHeaders] c)
      | s_part_data \<Rightarrow> Some (ref_data [] c)
      | s_part_data_almost_boundary \<Rightarrow>
          if c = LF then Some ((s_part_data_boundary, 0), []) else Some (ref_data [EData CR] c)
      | s_part_data_boundary \<Rightarrow>
          if c = b ! k
          then (if k + 1 = length b then Some ((s_part_data_almost_end, 0), [EEnd])
                else Some ((s_part_data_boundary, k + 1), []))
          else Some (ref_data (map EData (CR # LF # take k b)) c)
      | s_part_data_almost_end \<Rightarrow>
          if c = CHR ''-'' then Some ((s_part_data_final_hyphen, 0), [])
          else if c = CR then Some ((s_part_data_end, 0), []) else None
      | s_part_data_final_hyphen \<Rightarrow> if c = CHR ''-'' then Some ((s_end, 0), [EBodyEnd]) else None
      | s_part_data_end \<Rightarrow> if c = LF then Some ((s_header_field_start, 0), [EBegin]) else None
      | s_end \<Rightarrow> Some ((s_end, 0), [])
      | s_uninitialized \<Rightarrow> None)"

fun ref_run :: "string \<Rightarrow> string \<Rightarrow> mp_ref \<Rightarrow> (mp_ref \<times> mp_event list) option" where
  "ref_run b [] r = Some (r, [])"
| "ref_run b (c # cs) r =
     (case ref_char b c r of
        None \<Rightarrow> None
      | Some (r1, e1) \<Rightarrow> (case ref_run b cs r1 of None \<Rightarrow> None | Some (r2, e2) \<Rightarrow> Some (r2, e1 @ e2)))"

lemma ref_run_append:
  "ref_run b (xs @ ys) r =
     (case ref_run b xs r of None \<Rightarrow> None
      | Some (r1, e1) \<Rightarrow> (case ref_run b ys r1 of None \<Rightarrow> None | Some (r2, e2) \<Rightarrow> Some (r2, e1 @ e2)))"
  by (induction xs arbitrary: r) (auto split: option.splits)

section \<open>The parser refines the reference\<close>

definition mp_rel :: "string \<Rightarrow> multipart_parser \<Rightarrow> mp_ref \<Rightarrow> bool" where
  "mp_rel b p r \<longleftrightarrow> (case r of (st, k) \<Rightarrow>
     mp_state p = st \<and> multipart_boundary p = b \<and> length (lookbehind p) = length b + 9 \<and>
     (st = s_start_boundary \<longrightarrow> mp_index p = k \<and> k \<le> length b + 1) \<and>
     (st = s_part_data_almost_boundary \<longrightarrow> take 1 (lookbehind p) = [CR]) \<and>
     (st = s_part_data_boundary \<longrightarrow> mp_index p = k \<and> k < length b \<and>
        take (2 + k) (lookbehind p) = CR # LF # take k b))"

text \<open>What has been read since \<open>mark\<close> and not yet been passed on.\<close>

definition pending :: "mp_state \<Rightarrow> string \<Rightarrow> nat \<Rightarrow> nat \<Rightarrow> mp_event list" where
  "pending st buf mark i =
     (if i < length buf then
        (case st of s_header_field \<Rightarrow> map EField (mark_slice buf mark i)
         | s_header_value \<Rightarrow> map EValue (mark_slice buf mark i)
         | s_part_data \<Rightarrow> map EData (mark_slice buf mark i)
         | _ \<Rightarrow> [])
      else [])"

lemma mp_recorder [simp]:
  "mp_emit (on_header_field recorder) x u = (True, u @ map EField x)"
  "mp_emit (on_header_value recorder) x u = (True, u @ map EValue x)"
  "mp_emit (on_part_data recorder) x u = (True, u @ map EData x)"
  "mp_notify (on_part_data_begin recorder) u = (True, u @ [EBegin])"
  "mp_notify (on_headers_complete recorder) u = (True, u @ [EHeaders])"
  "mp_notify (on_part_data_end recorder) u = (True, u @ [EEnd])"
  "mp_notify (on_body_end recorder) u = (True, u @ [EBodyEnd])"
  by (simp_all add: mp_emit_def mp_notify_def recorder_def)

lemma mark_slice_self [simp]: "mark_slice buf i i = []"
  by (simp add: mark_slice_def)

lemma mark_slice_Suc: "mark \<le> i \<Longrightarrow> i < length buf \<Longrightarrow> mark_slice buf mark (Suc i) = mark_slice buf mark i @ [buf ! i]"
  by (simp add: mark_slice_def Suc_diff_le take_Suc_conv_app_nth)

text \<open>One pass either consumes the character as the reference does, or gives it back as data.\<close>

definition mp_consumes ::
  "string \<Rightarrow> string \<Rightarrow> nat \<Rightarrow> mp_ref \<Rightarrow> mp_event list \<Rightarrow> mp_event list mp_pass \<Rightarrow> bool" where
  "mp_consumes b buf i r heard m \<longleftrightarrow>
     (\<exists>mark' p' u'. m = MGo (i + 1) mark' p' u' \<and> mp_rel b p' r \<and> mark' \<le> i + 1 \<and>
        u' @ pending (fst r) buf mark' (i + 1) = heard)"

definition mp_sim ::
  "string \<Rightarrow> string \<Rightarrow> nat \<Rightarrow> mp_event list \<Rightarrow> mp_event list \<Rightarrow> mp_ref \<Rightarrow> mp_event list
     \<Rightarrow> mp_event list mp_pass \<Rightarrow> bool" where
  "mp_sim b buf i u pd r ev m \<longleftrightarrow>
     mp_consumes b buf i r (u @ pd @ ev) m \<or>
     (\<exists>p' back ev2. m = MGo i i p' (u @ back) \<and> mp_rel b p' (s_part_data, 0) \<and> pd = [] \<and> ev = back @ ev2 \<and>
        ref_char b (buf ! i) (s_part_data, 0) = Some (r, ev2))"

lemma emit_if_last_sim:
  assumes "mp_rel b p (st, k)" and "mark \<le> i" and "i < length buf"
    and "\<And>n. n < length buf \<Longrightarrow> pending st buf mark n = map ev (mark_slice buf mark n)"
    and "\<And>x u. mp_emit cb x u = (True, u @ map ev x)"
  shows "mp_consumes b buf i (st, k) (u @ map ev (mark_slice buf mark i) @ [ev (buf ! i)]) (emit_if_last cb buf i mark p u)"
proof (cases "i = length buf - 1")
  case True
  then show ?thesis using assms mark_slice_Suc [of mark i buf]
    unfolding mp_consumes_def emit_if_last_def by (auto simp: pending_def)
next
  case False
  then have "Suc i < length buf" using assms(3) by simp
  then show ?thesis using assms False mark_slice_Suc [of mark i buf]
    unfolding mp_consumes_def emit_if_last_def by auto
qed

lemma mp_consumes_sim: "mp_consumes b buf i r (u @ pd @ ev) m \<Longrightarrow> mp_sim b buf i u pd r ev m"
  by (simp add: mp_sim_def)

lemma pending_others [simp]:
  "st \<noteq> s_header_field \<Longrightarrow> st \<noteq> s_header_value \<Longrightarrow> st \<noteq> s_part_data \<Longrightarrow> pending st buf mark i = []"
  by (cases st) (simp_all add: pending_def)

lemma pass_start_boundary_sim:
  assumes "mp_rel b p (s_start_boundary, k)" and "ref_start b (buf ! i) k = Some (r, ev)" and "mark \<le> i"
  shows "mp_consumes b buf i r (u @ ev) (pass_start_boundary recorder (buf ! i) i mark p u)"
  using assms
  by (auto simp: ref_start_def mp_rel_def pass_start_boundary_def boundary_at_def mp_consumes_def split: if_splits)

lemma pass_header_field_sim:
  assumes "mp_rel b p (s_header_field, k)" and "ref_field (buf ! i) = Some (r, ev)"
    and "mark \<le> i" and "i < length buf"
  shows "mp_consumes b buf i r (u @ map EField (mark_slice buf mark i) @ ev) (pass_header_field recorder buf (buf ! i) i mark p u)"
proof (cases "buf ! i = CHR '':''")
  case True
  with assms show ?thesis
    by (auto simp: ref_field_def mp_rel_def pass_header_field_def mp_consumes_def)
next
  case False
  have "mp_rel b p (s_header_field, 0)" using assms(1) by (simp add: mp_rel_def)
  with False assms(2-4) show ?thesis
    by (auto simp: ref_field_def pass_header_field_def pending_def split: if_splits intro!: emit_if_last_sim)
qed

lemma pass_header_value_sim:
  assumes "mp_rel b p (s_header_value, k)" and "ref_value (buf ! i) = (r, ev)"
    and "mark \<le> i" and "i < length buf"
  shows "mp_consumes b buf i r (u @ map EValue (mark_slice buf mark i) @ ev) (pass_header_value recorder buf (buf ! i) i mark p u)"
proof (cases "buf ! i = CR")
  case True
  with assms show ?thesis
    by (auto simp: ref_value_def mp_rel_def pass_header_value_def mp_consumes_def)
next
  case False
  have "mp_rel b p (s_header_value, 0)" using assms(1) by (simp add: mp_rel_def)
  with False assms(2-4) show ?thesis
    by (auto simp: ref_value_def pass_header_value_def pending_def intro!: emit_if_last_sim)
qed

lemma pass_part_data_sim:
  assumes "mp_rel b p (s_part_data, k)" and "ref_data evs (buf ! i) = (r, ev)"
    and "mark \<le> i" and "i < length buf" and "u1 @ map EData (mark_slice buf mark i) = v @ evs"
  shows "mp_consumes b buf i r (v @ ev) (pass_part_data recorder buf (buf ! i) i mark p u1)"
proof (cases "buf ! i = CR")
  case True
  have "take (Suc 0) ((lookbehind p)[0 := CR]) = [CR]"
    using assms(1) by (cases "lookbehind p") (auto simp: mp_rel_def)
  with True assms show ?thesis
    by (auto simp: ref_data_def mp_rel_def pass_part_data_def mp_consumes_def)
next
  case False
  have "mp_rel b p (s_part_data, 0)" using assms(1) by (simp add: mp_rel_def)
  with assms(3,4) have "mp_consumes b buf i (s_part_data, 0) (u1 @ map EData (mark_slice buf mark i) @ [EData (buf ! i)])
      (emit_if_last (on_part_data recorder) buf i mark p u1)"
    by (intro emit_if_last_sim) (auto simp: pending_def)
  moreover have "u1 @ map EData (mark_slice buf mark i) @ [EData (buf ! i)] = v @ ev"
    using False assms(2,5) by (auto simp: ref_data_def simp flip: append_assoc)
  ultimately show ?thesis using False assms(2) by (auto simp: ref_data_def pass_part_data_def)
qed

lemma pass_unread_sim:
  assumes "mp_rel b p (st, k)" and "ref_data (map EData (take n (lookbehind p))) (buf ! i) = (r, ev)"
  shows "mp_sim b buf i u [] r ev (pass_unread recorder n i p u)"
proof -
  have "mp_rel b (p\<lparr>mp_state := s_part_data\<rparr>) (s_part_data, 0)" using assms(1) by (simp add: mp_rel_def)
  moreover obtain ev2 where "ev = map EData (take n (lookbehind p)) @ ev2" "ref_data [] (buf ! i) = (r, ev2)"
    using assms(2) by (auto simp: ref_data_def split: if_splits)
  ultimately show ?thesis
    unfolding mp_sim_def by (intro disjI2) (auto simp: pass_unread_def)
qed

lemma take_list_update_Suc:
  "n < length xs \<Longrightarrow> take (Suc n) (xs[n := c]) = take n xs @ [c]"
  by (simp add: take_Suc_conv_app_nth)

lemma pass_boundary_sim:
  assumes rel: "mp_rel b p (s_part_data_boundary, k)" and "mark \<le> i"
    and ref: "ref_char b (buf ! i) (s_part_data_boundary, k) = Some (r, ev)"
  shows "mp_sim b buf i u [] r ev (pass_boundary recorder (buf ! i) i mark p u)"
proof (cases "buf ! i = b ! k")
  case False
  with rel ref have "ref_data (map EData (take (2 + k) (lookbehind p))) (buf ! i) = (r, ev)"
    by (simp add: mp_rel_def)
  from pass_unread_sim [OF rel this] False rel show ?thesis
    by (simp add: pass_boundary_def boundary_at_def mp_rel_def)
next
  case True
  have k: "mp_index p = k" "k < length b" "length (lookbehind p) = length b + 9"
    "take (2 + k) (lookbehind p) = CR # LF # take k b" using rel by (simp_all add: mp_rel_def)
  then have "take (Suc (Suc (Suc k))) ((lookbehind p)[Suc (Suc k) := b ! k]) = CR # LF # take (Suc k) b"
    using take_list_update_Suc [of "Suc (Suc k)" "lookbehind p" "b ! k"] by (simp add: take_Suc_conv_app_nth)
  with True k rel ref assms(2) have "mp_consumes b buf i r (u @ [] @ ev) (pass_boundary recorder (buf ! i) i mark p u)"
    by (auto simp: mp_rel_def pass_boundary_def boundary_at_def mp_consumes_def split: if_splits)
  then show ?thesis by (rule mp_consumes_sim)
qed

lemma mp_rel_goto:
  "mp_rel b p (st, k) \<Longrightarrow> st' \<noteq> s_start_boundary \<Longrightarrow> st' \<noteq> s_part_data_almost_boundary
     \<Longrightarrow> st' \<noteq> s_part_data_boundary \<Longrightarrow> mp_rel b (p\<lparr>mp_state := st'\<rparr>) (st', 0)"
  by (simp add: mp_rel_def)

lemma mp_goto_sim:
  "mp_rel b p (st, k) \<Longrightarrow> mark \<le> i \<Longrightarrow> st' \<noteq> s_start_boundary \<Longrightarrow> st' \<noteq> s_part_data_almost_boundary
     \<Longrightarrow> st' \<noteq> s_part_data_boundary \<Longrightarrow> st' \<noteq> s_header_field \<Longrightarrow> st' \<noteq> s_header_value \<Longrightarrow> st' \<noteq> s_part_data
     \<Longrightarrow> mp_consumes b buf i (st', 0) u (MGo (Suc i) mark (p\<lparr>mp_state := st'\<rparr>) u)"
  by (auto simp: mp_consumes_def dest: mp_rel_goto)

lemma mp_pass_sim:
  assumes boundary_nonempty: "b \<noteq> []" and rel: "mp_rel b p (st, k)" and m: "mark \<le> i" and i: "i < length buf"
    and ref: "ref_char b (buf ! i) (st, k) = Some (r, ev)"
  shows "mp_sim b buf i u (pending st buf mark i) r ev (mp_pass recorder buf i mark p u)"
proof -
  have st: "mp_state p = st" using rel by (simp add: mp_rel_def)
  have start: "mp_rel b (p\<lparr>mp_index := 0, mp_state := s_start_boundary\<rparr>) (s_start_boundary, 0)"
    using rel by (simp add: mp_rel_def)
  note goto = mp_rel_goto [OF rel]
  show ?thesis
  proof (cases st)
    case s_start
    then show ?thesis using ref pass_start_boundary_sim [OF start, of buf i r ev mark u] m st
      by (intro mp_consumes_sim) (simp add: mp_pass_def)
  next
    case s_start_boundary
    then show ?thesis using ref pass_start_boundary_sim [of b p k buf i r ev mark u] rel m st
      by (intro mp_consumes_sim) (simp add: mp_pass_def)
  next
    case s_header_field_start
    then show ?thesis using ref st m i goto
        pass_header_field_sim [OF goto [of s_header_field], of buf i r ev i u]
      by (intro mp_consumes_sim)
        (auto simp: mp_pass_def pass_header_field_def mp_consumes_def mp_rel_def split: if_splits)
  next
    case s_header_field
    then show ?thesis using ref st m i rel pass_header_field_sim [of b p k buf i r ev mark u]
      by (intro mp_consumes_sim) (simp add: mp_pass_def pending_def)
  next
    case s_headers_almost_done
    then show ?thesis using ref st m mp_goto_sim [OF rel m]
      by (intro mp_consumes_sim) (auto simp: mp_pass_def mp_goto_def split: if_splits)
  next
    case s_header_value_start
    have "mp_consumes b buf i (s_header_value_start, 0) u (MGo (Suc i) mark p u)"
      using rel m s_header_value_start by (auto simp: mp_consumes_def mp_rel_def)
    then show ?thesis using s_header_value_start ref st m i
        pass_header_value_sim [OF goto [of s_header_value], of buf i r ev i u]
      by (intro mp_consumes_sim) (auto simp: mp_pass_def split: if_splits)
  next
    case s_header_value
    then show ?thesis using ref st m i rel pass_header_value_sim [of b p k buf i r ev mark u]
      by (intro mp_consumes_sim) (simp add: mp_pass_def pending_def)
  next
    case s_header_value_almost_done
    then show ?thesis using ref st m mp_goto_sim [OF rel m]
      by (intro mp_consumes_sim) (auto simp: mp_pass_def mp_goto_def split: if_splits)
  next
    case s_part_data_start
    then show ?thesis using ref st m i
        pass_part_data_sim [OF goto [of s_part_data], of "[EHeaders]" buf i r ev i "u @ [EHeaders]" u]
      by (intro mp_consumes_sim) (simp add: mp_pass_def)
  next
    case s_part_data
    then show ?thesis using ref st m i rel
        pass_part_data_sim [of b p k "[]" buf i r ev mark u "u @ map EData (mark_slice buf mark i)"]
      by (intro mp_consumes_sim) (simp add: mp_pass_def pending_def)
  next
    case s_part_data_almost_boundary
    have t: "take 1 (lookbehind p) = [CR]" and l: "length (lookbehind p) = length b + 9"
      using rel s_part_data_almost_boundary by (simp_all add: mp_rel_def)
    show ?thesis
    proof (cases "buf ! i = LF")
      case True
      have "take (Suc (Suc 0)) ((lookbehind p)[Suc 0 := LF]) = [CR, LF]"
        using t l take_list_update_Suc [of 1 "lookbehind p" LF] by simp
      then show ?thesis using True s_part_data_almost_boundary ref st m rel boundary_nonempty
        by (intro mp_consumes_sim) (auto simp: mp_pass_def mp_consumes_def mp_rel_def)
    next
      case False
      then show ?thesis using s_part_data_almost_boundary ref st t pass_unread_sim [OF rel, of 1 buf i r ev u]
        by (simp add: mp_pass_def)
    qed
  next
    case s_part_data_boundary
    then show ?thesis using pass_boundary_sim [of b p k mark i buf r ev u] rel m ref st
      by (simp add: mp_pass_def)
  next
    case s_part_data_almost_end
    then show ?thesis using ref st m mp_goto_sim [OF rel m]
      by (intro mp_consumes_sim) (auto simp: mp_pass_def mp_goto_def split: if_splits)
  next
    case s_part_data_final_hyphen
    then show ?thesis using ref st m mp_goto_sim [OF rel m]
      by (intro mp_consumes_sim) (auto simp: mp_pass_def mp_goto_def split: if_splits)
  next
    case s_part_data_end
    then show ?thesis using ref st m mp_goto_sim [OF rel m]
      by (intro mp_consumes_sim) (auto simp: mp_pass_def split: if_splits)
  next
    case s_end
    then show ?thesis using ref st m rel
      by (intro mp_consumes_sim) (auto simp: mp_pass_def mp_consumes_def mp_rel_def)
  next
    case s_uninitialized
    then show ?thesis using ref by simp
  qed
qed

lemma mp_loop_sim:
  assumes "b \<noteq> []" and "mp_rel b p (st, k)" and "mark \<le> i" and "i \<le> length buf"
    and "ref_run b (drop i buf) (st, k) = Some (r, ev)"
  shows "\<exists>p' u'. mp_loop recorder buf i mark p u = Some (length buf, p', u') \<and> mp_rel b p' r \<and>
     u' = u @ pending st buf mark i @ ev"
  using assms(2-)
proof (induction recorder buf i mark p u arbitrary: st k ev rule: mp_loop.induct)
  case (1 buf i mark p u)
  note IH = "1.hyps" and prems = "1.prems"
  show ?case
  proof (cases "i < length buf")
    case False
    with prems show ?thesis by (auto simp: mp_loop.simps pending_def)
  next
    case True
    then have d: "drop i buf = buf ! i # drop (Suc i) buf" by (simp add: Cons_nth_drop_Suc)
    obtain r1 e1 e2 where c: "ref_char b (buf ! i) (st, k) = Some (r1, e1)"
      and rest: "ref_run b (drop (Suc i) buf) r1 = Some (r, e2)" and ev: "ev = e1 @ e2"
      using prems(4) unfolding d ref_run.simps by (auto split: option.splits)
    obtain st1 k1 where r1: "r1 = (st1, k1)" by (cases r1)
    from mp_pass_sim [OF assms(1) prems(1,2) True c, of u]
    consider mark' p' u' where "mp_pass recorder buf i mark p u = MGo (Suc i) mark' p' u'" "mp_rel b p' r1"
        "mark' \<le> Suc i" "u' @ pending (fst r1) buf mark' (Suc i) = u @ pending st buf mark i @ e1"
      | p' bk ev2 where "mp_pass recorder buf i mark p u = MGo i i p' (u @ bk)" "mp_rel b p' (s_part_data, 0)"
        "pending st buf mark i = []" "e1 = bk @ ev2" "ref_char b (buf ! i) (s_part_data, 0) = Some (r1, ev2)"
      by (auto simp: mp_sim_def mp_consumes_def)
    then show ?thesis
    proof cases
      case 1
      from IH [OF True 1(1), of st1 k1 e2] True rest 1 r1 obtain p2 where
        "mp_loop recorder buf (Suc i) mark' p' u' = Some (length buf, p2, u' @ pending st1 buf mark' (Suc i) @ e2)"
        "mp_rel b p2 r" by auto
      moreover have "u' @ pending st1 buf mark' (Suc i) @ e2 = u @ pending st buf mark i @ ev"
        using 1(4) r1 ev by (simp flip: append_assoc)
      ultimately show ?thesis using True 1(1) by (subst mp_loop.simps) simp
    next
      case 2
      have "ref_run b (drop i buf) (s_part_data, 0) = Some (r, ev2 @ e2)"
        unfolding d using 2(5) rest by simp
      from IH [OF True 2(1), of s_part_data 0 "ev2 @ e2"] this True 2 obtain p2 where
        "mp_loop recorder buf i i p' (u @ bk) = Some (length buf, p2, (u @ bk) @ pending s_part_data buf i i @ ev2 @ e2)"
        "mp_rel b p2 r" by auto
      then show ?thesis using True 2 ev by (subst mp_loop.simps) (simp add: pending_def)
    qed
  qed
qed

section \<open>Bodies\<close>

text \<open>
  A body as a client sends it: parts with header lines and data, separated by the boundary
  (which includes its leading hyphens), and what a parser should report for it.
\<close>

type_synonym part = "(string \<times> string) list \<times> string"

definition header_text :: "string \<times> string \<Rightarrow> string" where
  "header_text h = fst h @ '': '' @ snd h @ [CR, LF]"

definition part_text :: "string \<Rightarrow> part \<Rightarrow> string" where
  "part_text b part = concat (map header_text (fst part)) @ [CR, LF] @ snd part @ [CR, LF] @ b"

fun parts_text :: "string \<Rightarrow> part list \<Rightarrow> string" where
  "parts_text b [] = ''--''"
| "parts_text b (part # ps) = [CR, LF] @ part_text b part @ parts_text b ps"

definition body_text :: "string \<Rightarrow> part list \<Rightarrow> string" where
  "body_text b ps = b @ parts_text b ps"

definition part_events :: "part \<Rightarrow> mp_event list" where
  "part_events part = [EBegin] @ concat (map (\<lambda>(n, v). map EField n @ map EValue v) (fst part))
     @ [EHeaders] @ map EData (snd part) @ [EEnd]"

definition header_ok :: "string \<times> string \<Rightarrow> bool" where
  "header_ok h \<longleftrightarrow> fst h \<noteq> [] \<and> (\<forall>c \<in> set (fst h). field_char c) \<and> CR \<notin> set (snd h) \<and>
     (snd h = [] \<or> hd (snd h) \<noteq> CHR '' '')"

definition part_ok :: "string \<Rightarrow> part \<Rightarrow> bool" where
  "part_ok b part \<longleftrightarrow> (\<forall>h \<in> set (fst part). header_ok h) \<and> \<not> sublist ([CR, LF] @ b) (snd part)"

lemma field_char_not [simp]: "field_char c \<Longrightarrow> c \<noteq> CR" "field_char c \<Longrightarrow> c \<noteq> CHR '':''"
  by (auto simp: field_char_def to_lower_def)

lemma ref_run_field:
  "\<forall>c \<in> set n. field_char c \<Longrightarrow>
     ref_run b (n @ '':'') (s_header_field, 0) = Some ((s_header_value_start, 0), map EField n)"
proof (induction n)
  case (Cons c n)
  then have "field_char c" by simp
  with Cons show ?case using field_char_not [of c] by (simp add: ref_field_def)
qed (simp add: ref_field_def)

lemma ref_run_field_start:
  assumes "n \<noteq> []" "\<forall>c \<in> set n. field_char c"
  shows "ref_run b (n @ '':'') (s_header_field_start, 0) = Some ((s_header_value_start, 0), map EField n)"
proof (cases n)
  case (Cons c m)
  with assms have c: "field_char c" and m: "\<forall>c \<in> set m. field_char c" by auto
  show ?thesis using ref_run_field [OF m, of b] c field_char_not [OF c] by (simp add: Cons ref_field_def)
qed (use assms in simp)

lemma ref_run_value:
  "CR \<notin> set v \<Longrightarrow> ref_run b (v @ [CR, LF]) (s_header_value, 0) = Some ((s_header_field_start, 0), map EValue v)"
  by (induction v) (auto simp: ref_value_def)

lemma ref_run_value_start:
  assumes "CR \<notin> set v" "v = [] \<or> hd v \<noteq> CHR '' ''"
  shows "ref_run b (v @ [CR, LF]) (s_header_value_start, 0) = Some ((s_header_field_start, 0), map EValue v)"
proof (cases v)
  case (Cons c w)
  with assms show ?thesis using ref_run_value [of w b] by (auto simp: ref_value_def)
qed (simp add: ref_value_def)

lemma ref_run_header:
  assumes "header_ok h"
  shows "ref_run b (header_text h) (s_header_field_start, 0)
    = Some ((s_header_field_start, 0), map EField (fst h) @ map EValue (snd h))"
proof -
  have "header_text h = (fst h @ '':'') @ '' '' @ snd h @ [CR, LF]" by (simp add: header_text_def)
  with assms show ?thesis
    using ref_run_field_start [of "fst h" b] ref_run_value_start [of "snd h" b]
    by (simp only: ref_run_append) (simp add: header_ok_def)
qed

lemma ref_run_headers:
  "\<forall>h \<in> set hs. header_ok h \<Longrightarrow> ref_run b (concat (map header_text hs)) (s_header_field_start, 0)
     = Some ((s_header_field_start, 0), concat (map (\<lambda>(n, v). map EField n @ map EValue v) hs))"
  by (induction hs) (auto simp: ref_run_append ref_run_header)

text \<open>The state after \<open>j\<close> characters of the delimiter \<open>CR LF boundary\<close>.\<close>

definition delim_state :: "nat \<Rightarrow> mp_ref" where
  "delim_state j = (if j = 0 then (s_part_data, 0)
     else if j = 1 then (s_part_data_almost_boundary, 0) else (s_part_data_boundary, j - 2))"

lemma ref_char_delim:
  assumes "j < length D" and "D = [CR, LF] @ b" and "b \<noteq> []"
  shows "ref_char b c (delim_state j) =
    (if c = D ! j then (if j + 1 = length D then Some ((s_part_data_almost_end, 0), [EEnd])
                        else Some (delim_state (j + 1), []))
     else Some (ref_data (map EData (take j D)) c))"
proof -
  consider "j = 0" | "j = 1" | k where "j = Suc (Suc k)" "k < length b"
    using assms(1,2) by (cases j; cases "j - 1") auto
  then show ?thesis using assms(2,3)
    by cases (auto simp: delim_state_def ref_data_def)
qed

lemma delim_nth: "D = [CR, LF] @ b \<Longrightarrow> CR \<notin> set b \<Longrightarrow> 0 < k \<Longrightarrow> k < length D \<Longrightarrow> D ! k \<noteq> CR"
  by (cases k; cases "k - 1") (auto simp: in_set_conv_nth)

text \<open>A copy of the delimiter cannot begin inside another one.\<close>

lemma delim_no_overlap:
  assumes D: "D = [CR, LF] @ b" "CR \<notin> set b" and "q @ xs = d @ D" and "q = take j D" and "j \<le> length D"
  shows "d = [] \<or> length q \<le> length d"
proof (rule ccontr)
  assume "\<not> ?thesis"
  then have n: "0 < length d" "length d < length q" by auto
  then have "(d @ D) ! length d = D ! length d"
    unfolding assms(3) [symmetric] using assms(4,5) by (simp add: nth_append)
  then show False using delim_nth [OF D, of "length d"] n assms(4,5) D(1) by simp
qed

lemma ref_run_data:
  assumes D: "D = [CR, LF] @ b" "CR \<notin> set b" "b \<noteq> []"
  shows "j < length D \<Longrightarrow> take j D @ xs = d @ D \<Longrightarrow> \<not> sublist D d
    \<Longrightarrow> ref_run b xs (delim_state j) = Some ((s_part_data_almost_end, 0), map EData d @ [EEnd])"
proof (induction xs arbitrary: j d)
  case Nil
  then have "length (take j D) = length (d @ D)" by simp
  with Nil.prems(1) show ?case by simp
next
  case (Cons x xs)
  note step = ref_char_delim [OF Cons.prems(1) D(1,3)]
  show ?case
  proof (cases "x = D ! j")
    case True
    then have t: "take (Suc j) D @ xs = d @ D"
      using Cons.prems(1,2) by (simp add: take_Suc_conv_app_nth)
    show ?thesis
    proof (cases "Suc j = length D")
      case last: True
      have "d = [] \<or> length D \<le> length d"
        using delim_no_overlap [OF D(1,2) t, of "Suc j"] last by simp
      moreover have "\<not> length D \<le> length d"
      proof
        assume l: "length D \<le> length d"
        have "D @ xs = d @ D" using t last by simp
        then have "prefix D (d @ D)" by (metis prefixI)
        then have "prefix D d" by (rule prefix_length_prefix) (use l in simp_all)
        then show False using Cons.prems(3) by (simp add: prefix_imp_sublist)
      qed
      ultimately have "d = []" "xs = []" using t last by auto
      with step True last show ?thesis by simp
    next
      case False
      with Cons.IH [OF _ t Cons.prems(3)] Cons.prems(1) step True show ?thesis by simp
    qed
  next
    case False
    have "length (take j D) \<le> length d"
      using delim_no_overlap [OF D(1,2) Cons.prems(2) refl] Cons.prems(1,2) False
      by (cases d) (auto simp: append_eq_conv_conj simp flip: Cons_nth_drop_Suc)
    moreover have "prefix (take j D) (d @ D)" using Cons.prems(2) [symmetric] by simp
    moreover have "prefix d (d @ D)" by simp
    ultimately have "prefix (take j D) d" using prefix_length_prefix by blast
    then obtain d' where d1: "d = take j D @ d'" by (rule prefixE)
    with Cons.prems(2) have d: "d = take j D @ d'" "x # xs = d' @ D" by simp_all
    have ns: "\<not> sublist D d'"
    proof
      assume "sublist D d'"
      then obtain ps ss where "d' = ps @ D @ ss" by (auto simp: sublist_def)
      then have "d = (take j D @ ps) @ D @ ss" using d(1) by simp
      then show False using Cons.prems(3) by (metis sublist_appendI)
    qed
    show ?thesis
    proof (cases "x = CR")
      case True
      then have "take 1 D @ xs = d' @ D" using d(2) D(1) by simp
      then have "ref_run b xs (delim_state 1) = Some ((s_part_data_almost_end, 0), map EData d' @ [EEnd])"
        using Cons.IH [of 1 d'] ns D(1) by simp
      with step False True d(1) show ?thesis by (simp add: ref_data_def delim_state_def)
    next
      case cr: False
      with d(2) D(1) obtain d2 where d2: "d' = x # d2" "xs = d2 @ D" by (cases d') auto
      have "\<not> sublist D d2" using ns d2(1) by (simp add: sublist_Cons_right)
      with Cons.IH [of 0 d2] d2(2) D(1)
      have "ref_run b xs (delim_state 0) = Some ((s_part_data_almost_end, 0), map EData d2 @ [EEnd])" by simp
      with step False cr d(1) d2(1) show ?thesis by (simp add: ref_data_def delim_state_def)
    qed
  qed
qed

lemma ref_run_data_start:
  assumes "xs \<noteq> []" and "ref_run b xs (s_part_data, 0) = Some (r, ev)"
  shows "ref_run b xs (s_part_data_start, 0) = Some (r, EHeaders # ev)"
  using assms by (cases xs) (auto simp: ref_data_def split: if_splits option.splits)

lemma ref_run_part:
  assumes "part_ok b part" and "b \<noteq> []" and "CR \<notin> set b"
  shows "ref_run b (part_text b part) (s_header_field_start, 0) = Some ((s_part_data_almost_end, 0), tl (part_events part))"
proof -
  have "ref_run b (snd part @ [CR, LF] @ b) (s_part_data, 0)
      = Some ((s_part_data_almost_end, 0), map EData (snd part) @ [EEnd])"
    using ref_run_data [OF refl assms(3,2), of 0 "snd part @ [CR, LF] @ b" "snd part"] assms(1)
    by (simp add: delim_state_def part_ok_def)
  then have d: "ref_run b (snd part @ [CR, LF] @ b) (s_part_data_start, 0)
      = Some ((s_part_data_almost_end, 0), EHeaders # map EData (snd part) @ [EEnd])"
    by (intro ref_run_data_start) auto
  have "ref_run b [CR, LF] (s_header_field_start, 0) = Some ((s_part_data_start, 0), [])" by simp
  with d show ?thesis
    using ref_run_headers [of "fst part" b] assms(1)
    unfolding part_text_def part_events_def by (simp only: ref_run_append) (simp add: part_ok_def)
qed

lemma ref_run_parts:
  assumes "b \<noteq> []" and "CR \<notin> set b"
  shows "\<forall>part \<in> set ps. part_ok b part \<Longrightarrow> ref_run b (parts_text b ps) (s_part_data_almost_end, 0)
    = Some ((s_end, 0), concat (map part_events ps) @ [EBodyEnd])"
proof (induction ps)
  case (Cons part ps)
  have e: "part_events part = EBegin # tl (part_events part)" by (simp add: part_events_def)
  have "ref_run b [CR, LF] (s_part_data_almost_end, 0) = Some ((s_header_field_start, 0), [EBegin])" by simp
  with Cons ref_run_part [of b part] assms show ?case
    unfolding parts_text.simps ref_run_append by (simp add: e [symmetric])
qed simp

lemma ref_run_boundary:
  "j \<le> length b \<Longrightarrow> ref_run b (drop j b) (s_start_boundary, j) = Some ((s_start_boundary, length b), [])"
proof (induction "length b - j" arbitrary: j)
  case (Suc n)
  then have "j < length b" by simp
  then have "drop j b = b ! j # drop (Suc j) b" by (simp add: Cons_nth_drop_Suc)
  with Suc show ?case by (simp add: ref_start_def)
qed simp

text \<open>The first boundary leads to the first part, the later ones to the next.\<close>

lemma ref_run_body:
  assumes "b \<noteq> []" and "CR \<notin> set b" and "ps \<noteq> []" and "\<forall>part \<in> set ps. part_ok b part"
  shows "ref_run b (body_text b ps) (s_start, 0) = Some ((s_end, 0), concat (map part_events ps) @ [EBodyEnd])"
proof -
  obtain part qs where ps: "ps = part # qs" using assms(3) by (cases ps) auto
  have s: "ref_run b b (s_start, 0) = ref_run b b (s_start_boundary, 0)"
    using assms(1) by (cases b) auto
  have b: "ref_run b b (s_start, 0) = Some ((s_start_boundary, length b), [])"
    unfolding s using ref_run_boundary [of 0 b] by simp
  have "ref_run b [CR, LF] (s_start_boundary, length b) = Some ((s_header_field_start, 0), [EBegin])"
    by (simp add: ref_start_def)
  moreover have "part_events part = EBegin # tl (part_events part)" by (simp add: part_events_def)
  ultimately show ?thesis
    using b ref_run_part [of b part] ref_run_parts [of b qs] assms
    unfolding body_text_def ps parts_text.simps ref_run_append by (simp add: ref_run_append)
qed

section \<open>Properties\<close>

text \<open>Feeding the chunks of a body in turn; the caller stops when one is not taken whole.\<close>

fun mp_feed :: "string list \<Rightarrow> multipart_parser \<Rightarrow> mp_event list \<Rightarrow> (multipart_parser \<times> mp_event list) option" where
  "mp_feed [] p u = Some (p, u)"
| "mp_feed (c # cs) p u =
     (case multipart_parser_execute recorder c p u of
        None \<Rightarrow> None
      | Some (n, p', u') \<Rightarrow> if n = length c then mp_feed cs p' u' else None)"

lemma mp_rel_init: "mp_rel b (multipart_parser_init b mem) (s_start, 0)"
  by (simp add: mp_rel_def multipart_parser_init_def)

lemma mp_feed_sim:
  assumes "b \<noteq> []"
  shows "mp_rel b p r \<Longrightarrow> ref_run b (concat cs) r = Some (r', ev)
    \<Longrightarrow> \<exists>p'. mp_feed cs p u = Some (p', u @ ev) \<and> mp_rel b p' r'"
proof (induction cs arbitrary: p r u ev)
  case (Cons c cs)
  obtain st k where r: "r = (st, k)" by (cases r)
  obtain r1 e1 e2 where c: "ref_run b c r = Some (r1, e1)" and cs: "ref_run b (concat cs) r1 = Some (r', e2)"
    and ev: "ev = e1 @ e2"
    using Cons.prems(2) by (auto simp: ref_run_append split: option.splits)
  from mp_loop_sim [OF assms, of p st k 0 0 c r1 e1 u] Cons.prems(1) c r obtain p1 where
    "multipart_parser_execute recorder c p u = Some (length c, p1, u @ e1)" "mp_rel b p1 r1"
    by (auto simp: multipart_parser_execute_def pending_def split: mp_state.splits)
  with Cons.IH [OF this(2) cs, of "u @ e1"] ev show ?case by simp
qed simp



text \<open>C2. A body of well-formed parts, received in arbitrary chunks, is reported part by part:
  the beginning, the header names and values, the end of the headers, exactly the data and the
  end of each part, then the end of the body. The data may hold anything but the delimiter,
  line breaks and beginnings of the delimiter included.\<close>

theorem multipart_parses_body:
  assumes "b \<noteq> []" and "CR \<notin> set b" and "ps \<noteq> []" and "\<forall>part \<in> set ps. part_ok b part"
    and "concat cs = body_text b ps"
  shows "\<exists>p. mp_feed cs (multipart_parser_init b mem) [] = Some (p, concat (map part_events ps) @ [EBodyEnd])
     \<and> mp_state p = s_end"
proof -
  have "ref_run b (concat cs) (s_start, 0) = Some ((s_end, 0), concat (map part_events ps) @ [EBodyEnd])"
    unfolding assms(5) by (rule ref_run_body [OF assms(1-4)])
  from mp_feed_sim [OF assms(1) mp_rel_init this, where u = "[]"] show ?thesis
    by (auto simp: mp_rel_def)
qed

definition example_part :: part where
  "example_part = ([(''Name'', ''f'')], [CHR ''a'', CR, LF, CHR ''-''])"

theorem multipart_parses_body_witness:
  "\<exists>p. mp_feed (map (\<lambda>c. [c]) (body_text ''--x'' [example_part])) (multipart_parser_init ''--x'' (\<lambda>_. CHR ''?'')) []
       = Some (p, part_events example_part @ [EBodyEnd]) \<and> mp_state p = s_end"
proof -
  have "part_ok ''--x'' example_part"
    by (simp add: part_ok_def example_part_def header_ok_def field_char_def to_lower_def sublist_Cons_right)
  moreover have "concat (map (\<lambda>c. [c]) xs) = xs" for xs :: string by (induction xs) auto
  ultimately show ?thesis
    using multipart_parses_body [of "''--x''" "[example_part]"
        "map (\<lambda>c. [c]) (body_text ''--x'' [example_part])" "\<lambda>_. CHR ''?''"] by simp
qed

end
