(* ===== verification/Timer_Heap.thy ===== *)
theory Timer_Heap
  imports Prelude "HOL-Library.Multiset"
begin

text \<open>
  The intrusive binary heap of \<open>src/libs/libhv/base/heap.h\<close>, which holds the timers of an event
  loop. Nodes are addresses; each field of \<open>struct heap_node\<close> is a function from addresses, so
  that every store of the code is one function update; the comparison that
  \<open>heap_init\<close> stores is an argument of the operations. \<open>None\<close> as a result is a null pointer
  that is followed, an assertion that fails, or a loop that does not end.

  \<open>shape xs h\<close> says that the nodes \<open>xs\<close> are linked as the complete binary tree whose node number
  \<open>i\<close> is \<open>xs ! i\<close>. Every operation on the links refines an operation on the list, and those keep
  the order of a heap.
\<close>

section \<open>The structure and its operations\<close>

type_synonym addr = nat

record heap =
  root :: "addr option"
  nelts :: nat
  hparent :: "addr \<Rightarrow> addr option"
  hleft :: "addr \<Rightarrow> addr option"
  hright :: "addr \<Rightarrow> addr option"

text \<open>Stores to a field of a node that may be null: \<open>if (s) s->parent = r\<close>.\<close>

definition set_parent :: "addr option \<Rightarrow> addr option \<Rightarrow> heap \<Rightarrow> heap" where
  "set_parent s r h = (case s of None \<Rightarrow> h | Some a \<Rightarrow> h\<lparr>hparent := (hparent h)(a := r)\<rparr>)"

definition set_left :: "addr \<Rightarrow> addr option \<Rightarrow> heap \<Rightarrow> heap" where
  "set_left a r h = h\<lparr>hleft := (hleft h)(a := r)\<rparr>"

definition set_right :: "addr \<Rightarrow> addr option \<Rightarrow> heap \<Rightarrow> heap" where
  "set_right a r h = h\<lparr>hright := (hright h)(a := r)\<rparr>"

definition heap_init :: "heap \<Rightarrow> heap" where
  "heap_init h = h\<lparr>root := None, nelts := 0\<rparr>"

text \<open>The pointer that leads to \<open>s\<close>, in its parent or the root, is set to \<open>r\<close>.\<close>

definition relink :: "addr option \<Rightarrow> addr \<Rightarrow> addr option \<Rightarrow> heap \<Rightarrow> heap" where
  "relink par s r h =
     (case par of
        None \<Rightarrow> h\<lparr>root := r\<rparr>
      | Some p \<Rightarrow> if hleft h p = Some s then set_left p r h
                 else if hright h p = Some s then set_right p r h else h)"

definition heap_replace :: "heap \<Rightarrow> addr \<Rightarrow> addr option \<Rightarrow> heap" where
  "heap_replace h s r =
     (let h1 = relink (hparent h s) s r h;
          h2 = set_parent (hleft h1 s) r h1;
          h3 = set_parent (hright h2 s) r h2
      in case r of
           None \<Rightarrow> h3
         | Some a \<Rightarrow>
             (let h4 = set_parent r (hparent h3 s) h3;
                  h5 = set_left a (hleft h4 s) h4
              in set_right a (hright h5 s) h5))"

definition heap_swap :: "heap \<Rightarrow> addr \<Rightarrow> addr \<Rightarrow> heap option" where
  "heap_swap h p c =
     (if \<not> (hparent h c = Some p \<and> (hleft h p = Some c \<or> hright h p = Some c)) then None
      else
      (let pparent = hparent h p; lchild = hleft h c; rchild = hright h c;
           h1 = relink pparent p (Some c) h;
           h2 = set_parent rchild (Some p) (set_parent lchild (Some p) h1);
           h3 = set_parent (Some c) pparent h2;
           (sibling, h4) =
             (if hleft h3 p = Some c
              then (hright h3 p, set_right c (hright h3 p) (set_left c (Some p) h3))
              else (hleft h3 p, set_right c (Some p) (set_left c (hleft h3 p) h3)));
           h5 = set_parent sibling (Some c) h4;
           h6 = set_parent (Some p) (Some c) h5
       in Some (set_right p rchild (set_left p lchild h6))))"

text \<open>
  The path to node number \<open>n\<close> (the root is 1): its bits below the leading one, the first step in
  the lowest bit, and their number.
\<close>

fun heap_path :: "nat \<Rightarrow> nat \<Rightarrow> nat \<Rightarrow> nat \<times> nat" where
  "heap_path n path d = (if 2 \<le> n then heap_path (n div 2) (2 * path + n mod 2) (d + 1) else (path, d))"

text \<open>\<open>while (d > 1)\<close>: down from the root. The outer \<open>None\<close> is a null pointer that is followed.\<close>

fun heap_descend :: "heap \<Rightarrow> nat \<Rightarrow> nat \<Rightarrow> addr option \<Rightarrow> (addr option \<times> nat) option" where
  "heap_descend h d path p =
     (if 1 < d then
        (case p of
           None \<Rightarrow> None
         | Some a \<Rightarrow> heap_descend h (d - 1) (path div 2) (if odd path then hright h a else hleft h a))
      else Some (p, path))"

partial_function (option) heap_sift_up :: "(addr \<Rightarrow> addr \<Rightarrow> bool) \<Rightarrow> heap \<Rightarrow> addr \<Rightarrow> heap option" where
  "heap_sift_up cmp h node =
     (case hparent h node of
        None \<Rightarrow> Some h
      | Some p \<Rightarrow>
          if cmp node p
          then (case heap_swap h p node of None \<Rightarrow> None | Some h' \<Rightarrow> heap_sift_up cmp h' node)
          else Some h)"

text \<open>The stores of an insertion: \<open>node\<close> becomes a child of \<open>par\<close>, on the side of the last bit, or the root.\<close>

definition link_last :: "heap \<Rightarrow> addr option \<Rightarrow> nat \<Rightarrow> addr \<Rightarrow> heap" where
  "link_last h par path node =
     (let h1 = set_parent (Some node) par h
      in case par of None \<Rightarrow> h1\<lparr>root := Some node\<rparr>
         | Some p \<Rightarrow> if odd path then set_right p (Some node) h1 else set_left p (Some node) h1)"

definition heap_insert :: "(addr \<Rightarrow> addr \<Rightarrow> bool) option \<Rightarrow> heap \<Rightarrow> addr \<Rightarrow> heap option" where
  "heap_insert cmp h0 node =
     (let h = h0\<lparr>nelts := nelts h0 + 1\<rparr>; (path, d) = heap_path (nelts h) 0 0
      in case heap_descend h d path (root h) of
           None \<Rightarrow> None
         | Some (par, path') \<Rightarrow>
             (let h2 = link_last h par path' node
              in case cmp of None \<Rightarrow> Some h2 | Some c \<Rightarrow> heap_sift_up c h2 node))"

text \<open>The child that should stand above \<open>v\<close>, or \<open>v\<close> itself.\<close>

definition heap_est :: "(addr \<Rightarrow> addr \<Rightarrow> bool) \<Rightarrow> heap \<Rightarrow> addr \<Rightarrow> addr" where
  "heap_est cmp h v =
     (let e1 = (case hleft h v of None \<Rightarrow> v | Some l \<Rightarrow> if cmp v l then v else l)
      in case hright h v of None \<Rightarrow> e1 | Some r \<Rightarrow> if cmp e1 r then e1 else r)"

partial_function (option) heap_sift_down :: "(addr \<Rightarrow> addr \<Rightarrow> bool) \<Rightarrow> heap \<Rightarrow> addr \<Rightarrow> heap option" where
  "heap_sift_down cmp h v =
     (if heap_est cmp h v = v then Some h
      else case heap_swap h v (heap_est cmp h v) of None \<Rightarrow> None | Some h' \<Rightarrow> heap_sift_down cmp h' v)"

definition clear_node :: "addr \<Rightarrow> heap \<Rightarrow> heap" where
  "clear_node a h = set_parent (Some a) None (set_left a None (set_right a None h))"

definition heap_remove :: "(addr \<Rightarrow> addr \<Rightarrow> bool) option \<Rightarrow> heap \<Rightarrow> addr option \<Rightarrow> heap option" where
  "heap_remove cmp h0 onode =
     (if nelts h0 = 0 then Some h0
      else
      (let (path, d) = heap_path (nelts h0) 0 0; h = h0\<lparr>nelts := nelts h0 - 1\<rparr>
       in case heap_descend h d path (root h) of
            None \<Rightarrow> None
          | Some (None, path') \<Rightarrow> Some h
          | Some (Some p, path') \<Rightarrow>
              (let (last, h1) = (if odd path' then (hright h p, set_right p None h) else (hleft h p, set_left p None h))
               in case last of
                    None \<Rightarrow> Some (if root h1 = onode then h1\<lparr>root := None\<rparr> else h1)
                  | Some v \<Rightarrow>
                      (case onode of
                         None \<Rightarrow> None
                       | Some node \<Rightarrow>
                           (let h2 = clear_node node (heap_replace h1 node (Some v))
                            in case cmp of
                                 None \<Rightarrow> Some h2
                               | Some c \<Rightarrow> (case heap_sift_down c h2 v of None \<Rightarrow> None | Some h3 \<Rightarrow> heap_sift_up c h3 v))))))"

definition heap_dequeue :: "(addr \<Rightarrow> addr \<Rightarrow> bool) option \<Rightarrow> heap \<Rightarrow> heap option" where
  "heap_dequeue cmp h = heap_remove cmp h (root h)"

declare heap_path.simps [simp del] heap_descend.simps [simp del]

section \<open>The list view\<close>

definition node_at :: "addr list \<Rightarrow> nat \<Rightarrow> addr option" where
  "node_at xs i = (if i < length xs then Some (xs ! i) else None)"

definition parent_at :: "addr list \<Rightarrow> nat \<Rightarrow> addr option" where
  "parent_at xs i = (if i = 0 then None else Some (xs ! ((i - 1) div 2)))"

definition linked :: "addr list \<Rightarrow> heap \<Rightarrow> bool" where
  "linked xs h \<longleftrightarrow> (\<forall>i < length xs. hparent h (xs ! i) = parent_at xs i \<and>
     hleft h (xs ! i) = node_at xs (2 * i + 1) \<and> hright h (xs ! i) = node_at xs (2 * i + 2))"

definition shape :: "addr list \<Rightarrow> heap \<Rightarrow> bool" where
  "shape xs h \<longleftrightarrow> distinct xs \<and> nelts h = length xs \<and> root h = node_at xs 0 \<and> linked xs h"

lemma shapeD:
  assumes "shape xs h" and "i < length xs"
  shows "hparent h (xs ! i) = parent_at xs i" "hleft h (xs ! i) = node_at xs (2 * i + 1)" "hright h (xs ! i) = node_at xs (2 * i + 2)"
  using assms by (auto simp: shape_def linked_def)

lemma node_at_eq_iff:
  assumes "distinct xs" and "i < length xs"
  shows "node_at xs j = Some (xs ! i) \<longleftrightarrow> j = i" "Some (xs ! i) = node_at xs j \<longleftrightarrow> j = i"
  using assms by (auto simp: node_at_def nth_eq_iff_index_eq)

definition swap :: "addr list \<Rightarrow> nat \<Rightarrow> nat \<Rightarrow> addr list" where
  "swap xs i j = xs[i := xs ! j, j := xs ! i]"

lemma swap_simps [simp]: "length (swap xs i j) = length xs"
  by (simp add: swap_def)

lemma swap_nth:
  assumes "i < length xs" and "j < length xs" and "k < length xs"
  shows "swap xs i j ! k = (if k = i then xs ! j else if k = j then xs ! i else xs ! k)"
  using assms by (auto simp: swap_def nth_list_update)

lemma swap_mset: "i < length xs \<Longrightarrow> j < length xs \<Longrightarrow> mset (swap xs i j) = mset xs"
  unfolding swap_def by (rule mset_swap)

lemma swap_distinct: "i < length xs \<Longrightarrow> j < length xs \<Longrightarrow> distinct (swap xs i j) = distinct xs"
  unfolding swap_def by (rule distinct_swap)

lemma node_at_swap:
  assumes "i < length xs" and "j < length xs"
  shows "node_at (swap xs i j) k = (if k = i then Some (xs ! j) else if k = j then Some (xs ! i) else node_at xs k)"
  using assms by (auto simp: node_at_def swap_nth)

text \<open>Numbers of parents and children.\<close>

lemma parent_number: "0 < i \<Longrightarrow> i = 2 * ((i - 1) div 2) + 1 \<or> i = 2 * ((i - 1) div 2) + 2" for i :: nat
  by presburger

lemma child_parent [simp]: "(2 * i + 1 - 1) div 2 = i" "(2 * i + 2 - 1) div 2 = i" "(2 * i) div 2 = i" "Suc (2 * i) div 2 = i" for i :: nat
  by simp_all

section \<open>Swapping a node with its parent\<close>

lemma set_fields [simp]:
  "root (set_parent s r h) = root h" "nelts (set_parent s r h) = nelts h" "hleft (set_parent s r h) = hleft h"
  "hright (set_parent s r h) = hright h" "hparent (set_parent s r h) = (\<lambda>a. if Some a = s then r else hparent h a)"
  "root (set_left b r h) = root h" "nelts (set_left b r h) = nelts h" "hleft (set_left b r h) = (hleft h)(b := r)"
  "hright (set_left b r h) = hright h" "hparent (set_left b r h) = hparent h"
  "root (set_right b r h) = root h" "nelts (set_right b r h) = nelts h" "hright (set_right b r h) = (hright h)(b := r)"
  "hleft (set_right b r h) = hleft h" "hparent (set_right b r h) = hparent h"
  by (auto simp: set_parent_def set_left_def set_right_def split: option.split)

text \<open>The fields after a swap, in terms of the heap after the first store.\<close>

lemma heap_swap_stores:
  assumes "hparent h c = Some p" and "hleft h p = Some c \<or> hright h p = Some c" and "h1 = relink (hparent h p) p (Some c) h"
  shows "\<exists>h'. heap_swap h p c = Some h' \<and> nelts h' = nelts h1 \<and> root h' = root h1 \<and>
    hleft h' = (hleft h1)(c := (if hleft h1 p = Some c then Some p else hleft h1 p), p := hleft h c) \<and>
    hright h' = (hright h1)(c := (if hleft h1 p = Some c then hright h1 p else Some p), p := hright h c) \<and>
    hparent h' = (\<lambda>a. if a = p then Some c else if Some a = (if hleft h1 p = Some c then hright h1 p else hleft h1 p) then Some c
       else if a = c then hparent h p else if Some a = hright h c \<or> Some a = hleft h c then Some p else hparent h1 a)"
  using assms by (simp add: heap_swap_def Let_def fun_eq_iff)

lemma relink_shape:
  assumes sh: "shape xs h" and pl: "p < length xs" and g: "g = (p - 1) div 2" and h1: "h1 = relink (hparent h (xs ! p)) (xs ! p) r h"
  shows "root h1 = (if p = 0 then r else root h)" "nelts h1 = nelts h" "hparent h1 = hparent h"
    "hleft h1 = (if p = 2 * g + 1 then (hleft h)(xs ! g := r) else hleft h)"
    "hright h1 = (if p = 2 * g + 2 then (hright h)(xs ! g := r) else hright h)"
proof -
  have d: "distinct xs" using sh by (simp add: shape_def)
  have gp: "p = 0 \<or> (g < length xs \<and> (p = 2 * g + 1 \<or> p = 2 * g + 2))" using parent_number [of p] pl g by auto
  have e: "h1 = (if p = 0 then h\<lparr>root := r\<rparr> else if p = 2 * g + 1 then set_left (xs ! g) r h else set_right (xs ! g) r h)"
  proof (cases "p = 0")
    case False
    have "hparent h (xs ! p) = Some (xs ! g)" using False shapeD(1) [OF sh pl] by (simp add: parent_at_def g)
    moreover have "hleft h (xs ! g) = Some (xs ! p) \<longleftrightarrow> p = 2 * g + 1" "hright h (xs ! g) = Some (xs ! p) \<longleftrightarrow> p = 2 * g + 2"
      unfolding shapeD(2,3) [OF sh conjunct1 [OF gp [simplified False simp_thms]]] node_at_eq_iff(1) [OF d pl] by auto
    ultimately show ?thesis using gp False by (auto simp: h1 relink_def)
  next
    case True
    then have "hparent h (xs ! p) = None" using shapeD(1) [OF sh pl] by (simp add: parent_at_def)
    then show ?thesis using True by (simp add: h1 relink_def)
  qed
  show "root h1 = (if p = 0 then r else root h)" "nelts h1 = nelts h" "hparent h1 = hparent h" by (simp_all add: e)
  show "hleft h1 = (if p = 2 * g + 1 then (hleft h)(xs ! g := r) else hleft h)" by (simp add: e)
  show "hright h1 = (if p = 2 * g + 2 then (hright h)(xs ! g := r) else hright h)" using gp by (auto simp: e)
qed

lemma heap_swap_fields:
  assumes sh: "shape xs h" and i: "0 < i" "i < length xs" and p: "p = (i - 1) div 2"
  defines "P \<equiv> xs ! p" and "C \<equiv> xs ! i" and "g \<equiv> (p - 1) div 2"
  shows "\<exists>h'. heap_swap h P C = Some h' \<and> nelts h' = nelts h \<and> root h' = (if p = 0 then Some C else root h) \<and>
    hleft h' = (\<lambda>a. if a = P then node_at xs (2 * i + 1) else if a = C then (if i = 2 * p + 1 then Some P else node_at xs (2 * p + 1))
       else if p = 2 * g + 1 \<and> a = xs ! g then Some C else hleft h a) \<and>
    hright h' = (\<lambda>a. if a = P then node_at xs (2 * i + 2) else if a = C then (if i = 2 * p + 1 then node_at xs (2 * p + 2) else Some P)
       else if p = 2 * g + 2 \<and> a = xs ! g then Some C else hright h a) \<and>
    hparent h' = (\<lambda>a. if a = P then Some C else if Some a = node_at xs (if i = 2 * p + 1 then 2 * p + 2 else 2 * p + 1) then Some C
       else if a = C then parent_at xs p else if Some a = node_at xs (2 * i + 1) \<or> Some a = node_at xs (2 * i + 2) then Some P else hparent h a)"
proof -
  have d: "distinct xs" and pl: "p < length xs" "p < i" using sh i p by (auto simp: shape_def)
  have ip: "i = 2 * p + 1 \<or> i = 2 * p + 2" using parent_number [OF i(1)] p by simp
  have PC: "P \<noteq> C" using d pl i by (simp add: P_def C_def nth_eq_iff_index_eq)
  have fC: "hparent h C = Some P" "hleft h C = node_at xs (2 * i + 1)" "hright h C = node_at xs (2 * i + 2)"
    using shapeD [OF sh i(2)] i p by (simp_all add: C_def P_def parent_at_def)
  have fP: "hparent h P = parent_at xs p" "hleft h P = node_at xs (2 * p + 1)" "hright h P = node_at xs (2 * p + 2)"
    using shapeD [OF sh pl(1)] by (simp_all add: P_def)
  have sides: "hleft h P = Some C \<longleftrightarrow> i = 2 * p + 1" "hright h P = Some C \<longleftrightarrow> i = 2 * p + 2"
    using fP node_at_eq_iff [OF d i(2)] by (auto simp: C_def)
  have gp: "p = 0 \<or> (g < length xs \<and> g < p \<and> (p = 2 * g + 1 \<or> p = 2 * g + 2))"
    using parent_number [of p] pl by (auto simp: g_def)
  define h1 where "h1 = relink (hparent h P) P (Some C) h"
  note h1 = relink_shape [OF sh pl(1) meta_eq_to_obj_eq [OF g_def] h1_def [unfolded P_def]]
  have gP: "p \<noteq> 0 \<Longrightarrow> xs ! g \<noteq> P \<and> xs ! g \<noteq> C" using gp d pl i by (auto simp: P_def C_def nth_eq_iff_index_eq)
  have k: "hleft h1 P = hleft h P" "hright h1 P = hright h P" "hleft h1 C = hleft h C" "hright h1 C = hright h C"
    using h1 gP by auto
  have asrt: "hparent h C = Some P \<and> (hleft h P = Some C \<or> hright h P = Some C)" using fC sides ip by auto
  obtain h' where h': "heap_swap h P C = Some h'" "nelts h' = nelts h1" "root h' = root h1"
    "hleft h' = (hleft h1)(C := (if hleft h1 P = Some C then Some P else hleft h1 P), P := hleft h C)"
    "hright h' = (hright h1)(C := (if hleft h1 P = Some C then hright h1 P else Some P), P := hright h C)"
    "hparent h' = (\<lambda>a. if a = P then Some C else if Some a = (if hleft h1 P = Some C then hright h1 P else hleft h1 P) then Some C
       else if a = C then hparent h P else if Some a = hright h C \<or> Some a = hleft h C then Some P else hparent h1 a)"
    using heap_swap_stores [of h C P h1] asrt h1_def by blast
  have cnd: "(hleft h1 P = Some C) = (i = 2 * p + 1)" using k sides by simp
  have l: "hleft h' = (\<lambda>a. if a = P then node_at xs (2 * i + 1) else if a = C then (if i = 2 * p + 1 then Some P else node_at xs (2 * p + 1))
       else if p = 2 * g + 1 \<and> a = xs ! g then Some C else hleft h a)"
    unfolding h'(4) cnd unfolding k fC fP unfolding h1(4) using PC by (auto simp: fun_eq_iff)
  have r: "hright h' = (\<lambda>a. if a = P then node_at xs (2 * i + 2) else if a = C then (if i = 2 * p + 1 then node_at xs (2 * p + 2) else Some P)
       else if p = 2 * g + 2 \<and> a = xs ! g then Some C else hright h a)"
    unfolding h'(5) cnd unfolding k fC fP unfolding h1(5) using PC by (auto simp: fun_eq_iff)
  have q: "hparent h' = (\<lambda>a. if a = P then Some C else if Some a = node_at xs (if i = 2 * p + 1 then 2 * p + 2 else 2 * p + 1) then Some C
       else if a = C then parent_at xs p else if Some a = node_at xs (2 * i + 1) \<or> Some a = node_at xs (2 * i + 2) then Some P else hparent h a)"
    unfolding h'(6) cnd unfolding k fC fP h1(3) by (auto simp: fun_eq_iff)
  show ?thesis using h'(1,2,3) h1(1,2) l r q by auto
qed

lemma parent_at_swap:
  assumes "p < length xs" and "i < length xs" and "j < length xs"
  shows "parent_at (swap xs p i) j = (if j = 0 then None else if (j - 1) div 2 = p then Some (xs ! i)
     else if (j - 1) div 2 = i then Some (xs ! p) else parent_at xs j)"
  using assms by (auto simp: parent_at_def swap_nth)

lemma heap_swap_shape:
  assumes sh: "shape xs h" and i: "0 < i" "i < length xs" and p: "p = (i - 1) div 2"
  shows "\<exists>h'. heap_swap h (xs ! p) (xs ! i) = Some h' \<and> shape (swap xs p i) h'"
proof -
  define g where "g = (p - 1) div 2"
  define P where "P = xs ! p"
  define C where "C = xs ! i"
  obtain h' where h': "heap_swap h P C = Some h'" "nelts h' = nelts h" "root h' = (if p = 0 then Some C else root h)"
    "hleft h' = (\<lambda>a. if a = P then node_at xs (2 * i + 1) else if a = C then (if i = 2 * p + 1 then Some P else node_at xs (2 * p + 1))
       else if p = 2 * g + 1 \<and> a = xs ! g then Some C else hleft h a)"
    "hright h' = (\<lambda>a. if a = P then node_at xs (2 * i + 2) else if a = C then (if i = 2 * p + 1 then node_at xs (2 * p + 2) else Some P)
       else if p = 2 * g + 2 \<and> a = xs ! g then Some C else hright h a)"
    "hparent h' = (\<lambda>a. if a = P then Some C else if Some a = node_at xs (if i = 2 * p + 1 then 2 * p + 2 else 2 * p + 1) then Some C
       else if a = C then parent_at xs p else if Some a = node_at xs (2 * i + 1) \<or> Some a = node_at xs (2 * i + 2) then Some P else hparent h a)"
    using heap_swap_fields [OF sh i p] unfolding P_def [symmetric] C_def [symmetric] g_def [symmetric] by blast
  let ?ys = "swap xs p i"
  have d: "distinct xs" and pl: "p < length xs" "p < i" using sh i p by (auto simp: shape_def)
  have ip: "i = 2 * p + 1 \<or> i = 2 * p + 2" using parent_number [OF i(1)] p by simp
  have eq: "xs ! j = P \<longleftrightarrow> j = p" "xs ! j = C \<longleftrightarrow> j = i" "p = 2 * g + 1 \<or> p = 2 * g + 2 \<Longrightarrow> xs ! j = xs ! g \<longleftrightarrow> j = g" if "j < length xs" for j
    using d pl i that by (auto simp: P_def C_def nth_eq_iff_index_eq)
  have na: "node_at ?ys k = (if k = p then Some C else if k = i then Some P else node_at xs k)" for k
    using node_at_swap [OF pl(1) i(2)] by (simp add: P_def C_def)
  have pa: "parent_at ?ys j = (if j = 0 then None else if (j - 1) div 2 = p then Some C else if (j - 1) div 2 = i then Some P else parent_at xs j)"
    if "j < length xs" for j using parent_at_swap [OF pl(1) i(2) that] by (simp add: P_def C_def)
  have PC: "P \<noteq> C" using eq [OF pl(1)] pl(2) by (simp add: P_def)
  have "hleft h' (?ys ! j) = node_at ?ys (2 * j + 1) \<and> hright h' (?ys ! j) = node_at ?ys (2 * j + 2) \<and> hparent h' (?ys ! j) = parent_at ?ys j"
    if j: "j < length xs" for j
  proof -
    consider "j = p" | "j = i" | "j \<noteq> p" "j \<noteq> i" by blast
    then show ?thesis
    proof cases
      case 1
      have y: "?ys ! j = C" using 1 j pl i by (simp add: swap_nth C_def)
      have "hparent h' C = parent_at xs p"
        unfolding h'(6) using PC node_at_eq_iff(2) [OF d i(2)] ip by (auto simp: C_def)
      moreover have "parent_at ?ys p = parent_at xs p"
        using pa [OF pl(1)] pl ip by (auto simp: parent_at_def)
      moreover have "hleft h' C = node_at ?ys (2 * p + 1)" using PC [symmetric] by (simp add: h'(4) na eq_commute [of _ i])
      moreover have "hright h' C = node_at ?ys (2 * p + 2)" using PC [symmetric] ip by (auto simp add: h'(5) na)
      ultimately show ?thesis using y 1 by simp
    next
      case 2
      have y: "?ys ! j = P" using 2 j pl i by (simp add: swap_nth P_def)
      have "parent_at ?ys i = Some C" using pa [OF i(2)] i p by simp
      moreover have "hleft h' P = node_at ?ys (2 * i + 1)" "hright h' P = node_at ?ys (2 * i + 2)" "hparent h' P = Some C"
        using pl(2) by (simp_all add: h'(4,5,6) na)
      ultimately show ?thesis using y 2 by simp
    next
      case 3
      have y: "?ys ! j = xs ! j" using 3 j pl i by (simp add: swap_nth)
      have ne: "xs ! j \<noteq> P" "xs ! j \<noteq> C" using eq(1,2) [OF j] 3 by auto
      have g: "p = 2 * k + 1 \<or> p = 2 * k + 2 \<Longrightarrow> k = g" for k by (auto simp: g_def)
      have l: "hleft h' (xs ! j) = node_at ?ys (2 * j + 1)"
      proof (cases "p = 2 * j + 1")
        case True
        then have "j = g" using g by simp
        then show ?thesis using True ne na unfolding h'(4) by simp
      next
        case False
        then have "\<not> (p = 2 * g + 1 \<and> xs ! j = xs ! g)" using eq(3) [OF j] by auto
        moreover have "2 * j + 1 \<noteq> i" using 3(1) ip by auto
        ultimately show ?thesis using False ne na shapeD(2) [OF sh j] unfolding h'(4) by auto
      qed
      have r: "hright h' (xs ! j) = node_at ?ys (2 * j + 2)"
      proof (cases "p = 2 * j + 2")
        case True
        then have "j = g" using g by simp
        then show ?thesis using True ne na unfolding h'(5) by simp
      next
        case False
        then have "\<not> (p = 2 * g + 2 \<and> xs ! j = xs ! g)" using eq(3) [OF j] by auto
        moreover have "2 * j + 2 \<noteq> i" using 3(1) ip by auto
        ultimately show ?thesis using False ne na shapeD(3) [OF sh j] unfolding h'(5) by auto
      qed
      have "hparent h' (xs ! j) = parent_at ?ys j"
      proof -
        have n: "Some (xs ! j) = node_at xs k \<longleftrightarrow> k = j" for k using node_at_eq_iff(2) [OF d j] .
        show ?thesis
        proof (cases "j = 0")
          case True
          then show ?thesis using ne shapeD(1) [OF sh j] ip unfolding h'(6) pa [OF j] n by (simp add: parent_at_def)
        next
          case False
          define q where "q = (j - 1) div 2"
          have q: "j = 2 * q + 1 \<or> j = 2 * q + 2" using parent_number [of j] False by (simp add: q_def)
          have sib: "(if i = 2 * p + 1 then 2 * p + 2 else 2 * p + 1) = j \<longleftrightarrow> q = p"
            using q ip 3(2) by (auto split: if_splits)
          have ch: "2 * i + 1 = j \<or> 2 * i + 2 = j \<longleftrightarrow> q = i" using q by auto
          show ?thesis using ne shapeD(1) [OF sh j] False unfolding h'(6) pa [OF j] n sib ch q_def [symmetric] by simp
        qed
      qed
      with l r show ?thesis unfolding y by blast
    qed
  qed
  moreover have "root h' = node_at ?ys 0"
    using h'(3) sh na [of 0] i by (auto simp: shape_def)
  ultimately have "shape ?ys h'"
    using h'(2) sh swap_distinct [OF pl(1) i(2)] by (simp add: shape_def linked_def)
  then show ?thesis using h'(1) by (auto simp: P_def C_def)
qed

text \<open>No operation writes to a node outside the heap.\<close>

definition heap_frame :: "addr set \<Rightarrow> heap \<Rightarrow> heap \<Rightarrow> bool" where
  "heap_frame A h h' \<longleftrightarrow> (\<forall>a. a \<notin> A \<longrightarrow> hparent h' a = hparent h a \<and> hleft h' a = hleft h a \<and> hright h' a = hright h a)"

lemma frame_refl [simp]: "heap_frame A h h"
  by (simp add: heap_frame_def)

lemma frame_trans: "heap_frame A h h' \<Longrightarrow> heap_frame A h' h'' \<Longrightarrow> heap_frame A h h''"
  by (simp add: heap_frame_def)

lemma frame_mono: "heap_frame A h h' \<Longrightarrow> A \<subseteq> B \<Longrightarrow> heap_frame B h h'"
  by (auto simp: heap_frame_def)

lemma heap_swap_frame:
  assumes sh: "shape xs h" and i: "0 < i" "i < length xs" and p: "p = (i - 1) div 2" and sw: "heap_swap h (xs ! p) (xs ! i) = Some h'"
  shows "heap_frame (set xs) h h'"
proof -
  have g: "p = 2 * ((p - 1) div 2) + 1 \<or> p = 2 * ((p - 1) div 2) + 2 \<Longrightarrow> (p - 1) div 2 < length xs" using i p by auto
  have "a \<noteq> xs ! p \<and> a \<noteq> xs ! i \<and> Some a \<noteq> node_at xs j \<and> (j < length xs \<longrightarrow> a \<noteq> xs ! j)" if "a \<notin> set xs" for a j
    using that i p by (auto simp: node_at_def)
  then show ?thesis using heap_swap_fields [OF sh i p] sw g unfolding heap_frame_def by auto
qed

section \<open>The path to the last node\<close>

lemma heap_path_descend:
  assumes "linked xs h" and "root h = node_at xs 0"
  shows "1 \<le> n \<Longrightarrow> n \<le> length xs \<Longrightarrow> 1 \<le> d \<Longrightarrow> heap_path n path d = (q, e) \<Longrightarrow>
    heap_descend h e q (root h) = heap_descend h d path (Some (xs ! (n - 1)))"
proof (induction n path d arbitrary: q e rule: heap_path.induct)
  case (1 n path d)
  show ?case
  proof (cases "2 \<le> n")
    case True
    let ?m = "n div 2 - 1"
    have m: "?m < length xs" "2 * ?m + 2 = (if odd n then n - 1 else n)" using True 1(3) by (auto elim: oddE evenE)
    have "heap_path (n div 2) (2 * path + n mod 2) (d + 1) = (q, e)" using 1(5) True by (subst (asm) heap_path.simps) simp
    then have "heap_descend h e q (root h) = heap_descend h (d + 1) (2 * path + n mod 2) (Some (xs ! ?m))"
      using 1(1) [OF True] True 1(3,4) by simp
    also have "\<dots> = heap_descend h d path (if odd n then hright h (xs ! ?m) else hleft h (xs ! ?m))"
      using 1(4) by (subst heap_descend.simps) (simp add: odd_iff_mod_2_eq_one even_iff_mod_2_eq_zero)
    also have "(if odd n then hright h (xs ! ?m) else hleft h (xs ! ?m)) = Some (xs ! (n - 1))"
    proof -
      have "hright h (xs ! ?m) = node_at xs (2 * ?m + 2)" "hleft h (xs ! ?m) = node_at xs (2 * ?m + 1)"
        using assms(1) m(1) by (auto simp: linked_def)
      moreover have "2 * ?m + 1 = (if odd n then n - 2 else n - 1)" using m(2) True by (auto split: if_splits)
      ultimately show ?thesis using m(2) True 1(3) by (auto simp: node_at_def)
    qed
    finally show ?thesis .
  next
    case False
    then have "n = 1" "q = path" "e = d" using 1(2,5) by (auto simp: heap_path.simps [of n])
    then show ?thesis using assms(2) 1(3) by (cases xs) (simp_all add: node_at_def)
  qed
qed

text \<open>The descent to the parent of node number \<open>n\<close>.\<close>

lemma descend_parent:
  assumes "linked xs h" and "root h = node_at xs 0" and n: "2 \<le> n" "n div 2 \<le> length xs" and hp: "heap_path n 0 0 = (q, e)"
  shows "heap_descend h e q (root h) = Some (Some (xs ! (n div 2 - 1)), n mod 2)"
proof -
  have "heap_path (n div 2) (n mod 2) 1 = (q, e)" using hp n by (subst (asm) heap_path.simps) simp
  from heap_path_descend [OF assms(1,2) _ n(2) _ this] n(1) show ?thesis by (simp add: heap_descend.simps [of h "Suc 0"])
qed

lemma descend_first: "n \<le> 1 \<Longrightarrow> heap_path n 0 0 = (0, 0)" "heap_descend h 0 0 r = Some (r, 0)"
  by (simp_all add: heap_path.simps [of n] heap_descend.simps [of h 0])

section \<open>Linking and unlinking\<close>

definition detached :: "heap \<Rightarrow> addr \<Rightarrow> bool" where
  "detached h a \<longleftrightarrow> hleft h a = None \<and> hright h a = None"

lemma shape_append:
  assumes sh: "shape xs h0" and node: "node \<notin> set xs" "detached h0 node" and n: "n = length xs + 1"
    and par: "par = (if n = 1 then None else Some (xs ! (n div 2 - 1)))" and h: "h = h0\<lparr>nelts := n\<rparr>"
  shows "shape (xs @ [node]) (link_last h par (n mod 2) node)" "heap_frame (set (xs @ [node])) h0 (link_last h par (n mod 2) node)"
proof -
  let ?ys = "xs @ [node]" and ?h' = "link_last h par (n mod 2) node"
  have d: "distinct ?ys" and lk: "linked xs h" and rt: "root h = node_at xs 0" using sh node h by (auto simp: shape_def linked_def)
  have dn: "hleft h node = None" "hright h node = None" using node(2) h by (auto simp: detached_def)
  have "n \<noteq> 1 \<Longrightarrow> xs ! (n div 2 - 1) \<in> set xs" using n by (intro nth_mem) linarith
  then show "heap_frame (set ?ys) h0 ?h'" using par h by (cases "n = 1") (auto simp: heap_frame_def link_last_def Let_def)
  show "shape ?ys ?h'"
  proof (cases "n = 1")
    case True
    then show ?thesis using n par d h dn by (simp add: shape_def linked_def node_at_def parent_at_def link_last_def)
  next
    case False
    define p where "p = n div 2 - 1"
    have p: "p < length xs" "odd n \<longleftrightarrow> length xs = 2 * p + 2" "even n \<longleftrightarrow> length xs = 2 * p + 1" "(length xs - 1) div 2 = p"
      using False n unfolding p_def by presburger+
    have e: "?h' = (if odd n then set_right (xs ! p) (Some node) else set_left (xs ! p) (Some node)) (set_parent (Some node) (Some (xs ! p)) h)"
      using False par by (simp add: link_last_def Let_def p_def odd_iff_mod_2_eq_one even_iff_mod_2_eq_zero)
    have "hparent ?h' (?ys ! j) = parent_at ?ys j \<and> hleft ?h' (?ys ! j) = node_at ?ys (2 * j + 1) \<and> hright ?h' (?ys ! j) = node_at ?ys (2 * j + 2)"
      if j: "j < length ?ys" for j
    proof (cases "j = length xs")
      case True
      then show ?thesis using e dn p False n node by (auto simp: node_at_def parent_at_def nth_append)
    next
      case jl: False
      then have jx: "j < length xs" using j by simp
      have y: "?ys ! j = xs ! j" using jx by (simp add: nth_append)
      have nn: "xs ! j \<noteq> node" using node(1) jx by auto
      have f: "hparent h (xs ! j) = parent_at xs j" "hleft h (xs ! j) = node_at xs (2 * j + 1)" "hright h (xs ! j) = node_at xs (2 * j + 2)"
        using lk jx by (auto simp: linked_def)
      have jp: "xs ! j = xs ! p \<longleftrightarrow> j = p" using d jx p by (simp add: nth_eq_iff_index_eq)
      have na: "node_at ?ys k = (if k = length xs then Some node else node_at xs k)" for k
        by (auto simp: node_at_def nth_append)
      have pa: "parent_at ?ys j = parent_at xs j" using jx by (auto simp: parent_at_def nth_append)
      have c: "(2 * j + 1 = length xs) = (even n \<and> j = p)" "(2 * j + 2 = length xs) = (odd n \<and> j = p)"
        using p(2,3) by (cases "even n"; simp; presburger)+
      show ?thesis unfolding y na c pa e using f nn jp by (cases "odd n"; cases "j = p") simp_all
    qed
    moreover have "root ?h' = node_at ?ys 0" "nelts ?h' = length ?ys"
      unfolding e using rt h n p(1) by (auto simp: node_at_def nth_append)
    ultimately show ?thesis using d by (simp add: shape_def linked_def)
  qed
qed

lemma heap_insert_link:
  assumes sh: "shape xs h0" and node: "node \<notin> set xs" "detached h0 node"
  shows "\<exists>h2. heap_insert cmp h0 node = (case cmp of None \<Rightarrow> Some h2 | Some c \<Rightarrow> heap_sift_up c h2 node) \<and>
    shape (xs @ [node]) h2 \<and> heap_frame (set (xs @ [node])) h0 h2"
proof -
  define n where "n = length xs + 1"
  define h where "h = h0\<lparr>nelts := n\<rparr>"
  define par where "par = (if n = 1 then None else Some (xs ! (n div 2 - 1)))"
  define pth where "pth = (if n = 1 then 0 else n mod 2)"
  obtain q e where hp: "heap_path n 0 0 = (q, e)" by fastforce
  have h: "linked xs h" "root h = node_at xs 0" "nelts h0 + 1 = n" "nelts h = n" using sh by (auto simp: shape_def linked_def h_def n_def)
  have "heap_descend h e q (root h) = Some (par, pth)"
  proof (cases "n = 1")
    case True
    then show ?thesis using descend_first(1) [of n] descend_first(2) [of h] hp h(2) by (simp add: par_def pth_def n_def node_at_def)
  next
    case False
    then have "2 \<le> n" "n div 2 \<le> length xs" unfolding n_def by linarith+
    from descend_parent [OF h(1,2) this hp] show ?thesis using False by (simp add: par_def pth_def)
  qed
  then have "heap_insert cmp h0 node = (let h2 = link_last h par pth node in case cmp of None \<Rightarrow> Some h2 | Some c \<Rightarrow> heap_sift_up c h2 node)"
    using h(3,4) hp by (simp add: heap_insert_def h_def [symmetric])
  moreover have "link_last h par pth node = link_last h par (n mod 2) node"
    by (simp add: par_def pth_def link_last_def Let_def)
  ultimately show ?thesis using shape_append [OF sh node n_def par_def h_def] by (auto simp: Let_def)
qed

text \<open>The last node is cut off.\<close>

lemma shape_butlast:
  assumes sh: "shape xs h0" and n: "n = length xs" "2 \<le> n" and p: "p = n div 2 - 1"
    and h1: "h1 = (if odd n then set_right (xs ! p) None else set_left (xs ! p) None) (h0\<lparr>nelts := n - 1\<rparr>)"
  shows "shape (butlast xs) h1" "detached h1 (last xs)" "(if odd n then hright else hleft) h0 (xs ! p) = Some (last xs)"
    "heap_frame (set xs) h0 h1" "hparent h1 (last xs) = Some (butlast xs ! p)"
proof -
  have d: "distinct xs" and ne: "xs \<noteq> []" using sh n by (auto simp: shape_def)
  have pl: "p < n - 1" "odd n \<longleftrightarrow> n - 1 = 2 * p + 2" "even n \<longleftrightarrow> n - 1 = 2 * p + 1" "(n - 1 - 1) div 2 = p" using n(2) p by presburger+
  have l: "last xs = xs ! (n - 1)" using n ne by (simp add: last_conv_nth)
  have f: "hparent h0 (xs ! j) = parent_at xs j" "hleft h0 (xs ! j) = node_at xs (2 * j + 1)" "hright h0 (xs ! j) = node_at xs (2 * j + 2)" if "j < n" for j
    using shapeD [OF sh] that n by auto
  have pn: "p < n" "n - 1 < n" using pl n by auto
  have jp: "xs ! j = xs ! p \<longleftrightarrow> j = p" if "j < n" for j using d that pn n by (simp add: nth_eq_iff_index_eq)
  show "(if odd n then hright else hleft) h0 (xs ! p) = Some (last xs)"
  proof (cases "odd n")
    case True
    from f(3) [OF pn(1)] iffD1 [OF pl(2) True, symmetric] have "hright h0 (xs ! p) = node_at xs (n - 1)" by (simp only:)
    then show ?thesis using True l pn n(1) by (simp add: node_at_def)
  next
    case False
    then have "even n" by simp
    from f(2) [OF pn(1)] iffD1 [OF pl(3) this, symmetric] have "hleft h0 (xs ! p) = node_at xs (n - 1)" by (simp only:)
    then show ?thesis using False l pn n(1) by (simp add: node_at_def)
  qed
  show "hparent h1 (last xs) = Some (butlast xs ! p)"
    using f(1) [OF pn(2)] pl(1,4) n l by (cases "odd n") (simp_all add: h1 parent_at_def nth_butlast)
  show "heap_frame (set xs) h0 h1" using pn n by (auto simp: heap_frame_def h1)
  show "detached h1 (last xs)"
    using f(2,3) [OF pn(2)] n by (auto simp: detached_def h1 l node_at_def)
  have na: "node_at (butlast xs) k = (if k = n - 1 then None else node_at xs k)" for k using n by (auto simp: node_at_def nth_butlast)
  have "hparent h1 (butlast xs ! j) = parent_at (butlast xs) j \<and> hleft h1 (butlast xs ! j) = node_at (butlast xs) (2 * j + 1) \<and>
      hright h1 (butlast xs ! j) = node_at (butlast xs) (2 * j + 2)" if j: "j < n - 1" for j
  proof -
    have jn: "j < n" and y: "butlast xs ! j = xs ! j" using j n by (auto simp: nth_butlast)
    have pa: "parent_at (butlast xs) j = parent_at xs j" using j n by (auto simp: parent_at_def nth_butlast)
    have c: "(2 * j + 1 = n - 1) = (even n \<and> j = p)" "(2 * j + 2 = n - 1) = (odd n \<and> j = p)"
      using pl(2,3) by (cases "even n"; simp; presburger)+
    show ?thesis unfolding y na c pa h1 using f [OF jn] jp [OF jn] by (cases "odd n"; cases "j = p") simp_all
  qed
  moreover have "root h1 = node_at (butlast xs) 0" "nelts h1 = n - 1" using sh na [of 0] n by (auto simp: h1 shape_def)
  ultimately show "shape (butlast xs) h1" using d n by (simp add: shape_def linked_def distinct_butlast)
qed

text \<open>A node takes the place of another.\<close>

lemma heap_replace_stores:
  assumes "h1 = relink (hparent h s) s (Some v) h" and "v \<noteq> s" and "Some s \<noteq> hleft h1 s" and "Some s \<noteq> hright h1 s"
    and "h' = clear_node s (heap_replace h s (Some v))"
  shows "root h' = root h1" "nelts h' = nelts h1" "hleft h' = (hleft h1)(v := hleft h1 s, s := None)" "hright h' = (hright h1)(v := hright h1 s, s := None)"
    "hparent h' = (\<lambda>a. if a = s then None else if a = v then hparent h1 s
       else if Some a = hright h1 s \<or> Some a = hleft h1 s then Some v else hparent h1 a)"
  using assms(2,3,4) unfolding assms(5) clear_node_def heap_replace_def assms(1) [symmetric] by (simp_all add: Let_def fun_eq_iff)

lemma heap_replace_shape:
  assumes sh: "shape xs h" and k: "k < length xs" and v: "v \<notin> set xs"
  shows "shape (xs[k := v]) (clear_node (xs ! k) (heap_replace h (xs ! k) (Some v)))"
    "heap_frame (insert v (set xs)) h (clear_node (xs ! k) (heap_replace h (xs ! k) (Some v)))"
    "detached (clear_node (xs ! k) (heap_replace h (xs ! k) (Some v))) (xs ! k)"
proof -
  define g where "g = (k - 1) div 2"
  define s where "s = xs ! k"
  define h1 where "h1 = relink (hparent h s) s (Some v) h"
  define h' where "h' = clear_node s (heap_replace h s (Some v))"
  let ?ys = "xs[k := v]"
  note h1 = relink_shape [OF sh k g_def h1_def [unfolded s_def]]
  have d: "distinct xs" and vs: "v \<noteq> s" using sh k v by (auto simp: shape_def s_def)
  have gk: "k = 2 * j + 1 \<or> k = 2 * j + 2 \<longleftrightarrow> k \<noteq> 0 \<and> j = g" for j using parent_number [of k] by (auto simp: g_def)
  have g: "g < length xs" "k \<noteq> 0 \<Longrightarrow> g < k" using k by (auto simp: g_def)
  have gs: "k \<noteq> 0 \<Longrightarrow> xs ! g \<noteq> s" using d k g by (auto simp: s_def nth_eq_iff_index_eq)
  have ks: "hleft h1 s = node_at xs (2 * k + 1)" "hright h1 s = node_at xs (2 * k + 2)" "hparent h1 s = parent_at xs k"
    using h1 gs shapeD [OF sh k] by (auto simp: s_def [symmetric])
  have kk: "Some s \<noteq> node_at xs (2 * k + 1)" "Some s \<noteq> node_at xs (2 * k + 2)"
    unfolding s_def node_at_eq_iff(2) [OF d k] by auto
  have h': "root h' = root h1" "nelts h' = nelts h1"
    "hleft h' = (\<lambda>a. if a = s then None else if a = v then node_at xs (2 * k + 1) else hleft h1 a)"
    "hright h' = (\<lambda>a. if a = s then None else if a = v then node_at xs (2 * k + 2) else hright h1 a)"
    "hparent h' = (\<lambda>a. if a = s then None else if a = v then parent_at xs k
       else if Some a = node_at xs (2 * k + 1) \<or> Some a = node_at xs (2 * k + 2) then Some v else hparent h a)"
    using heap_replace_stores [OF h1_def vs _ _ h'_def] kk unfolding ks unfolding h1(3) by (simp_all add: fun_eq_iff)
  show "detached (clear_node (xs ! k) (heap_replace h (xs ! k) (Some v))) (xs ! k)"
    using h'(3,4) by (simp add: detached_def h'_def [symmetric] s_def [symmetric])
  have "a \<noteq> s \<and> a \<noteq> v \<and> Some a \<noteq> node_at xs j \<and> a \<noteq> xs ! g" if "a \<notin> insert v (set xs)" for a j
    using that k g by (auto simp: node_at_def s_def)
  then show "heap_frame (insert v (set xs)) h (clear_node (xs ! k) (heap_replace h (xs ! k) (Some v)))"
    unfolding s_def [symmetric] h'_def [symmetric] heap_frame_def h'(3,4,5) h1(4,5) by auto
  have na: "node_at ?ys j = (if j = k then Some v else node_at xs j)" for j using k by (auto simp: node_at_def)
  have "hparent h' (?ys ! j) = parent_at ?ys j \<and> hleft h' (?ys ! j) = node_at ?ys (2 * j + 1) \<and> hright h' (?ys ! j) = node_at ?ys (2 * j + 2)"
    if j: "j < length xs" for j
  proof (cases "j = k")
    case True
    then show ?thesis using j vs unfolding na h'(3,4,5) by (simp add: parent_at_def nth_list_update)
  next
    case False
    have y: "?ys ! j = xs ! j" using False by simp
    have ne: "xs ! j \<noteq> s" "xs ! j \<noteq> v" using d j k v False by (auto simp: s_def nth_eq_iff_index_eq)
    have jg: "xs ! j = xs ! g \<longleftrightarrow> j = g" using d j g(1) by (simp add: nth_eq_iff_index_eq)
    have pa: "parent_at ?ys j = (if j \<noteq> 0 \<and> (j - 1) div 2 = k then Some v else parent_at xs j)" using j k by (auto simp: parent_at_def nth_list_update)
    have c: "(2 * k + 1 = j \<or> 2 * k + 2 = j) = (j \<noteq> 0 \<and> (j - 1) div 2 = k)" using parent_number [of j] by auto
    have "hparent h' (xs ! j) = parent_at ?ys j"
      using ne shapeD(1) [OF sh j] unfolding h'(5) node_at_eq_iff(2) [OF d j] c pa by auto
    moreover have "hleft h' (xs ! j) = node_at ?ys (2 * j + 1)"
      using ne shapeD(2) [OF sh j] gk [of j] jg unfolding h'(3) h1(4) na by auto
    moreover have "hright h' (xs ! j) = node_at ?ys (2 * j + 2)"
      using ne shapeD(3) [OF sh j] gk [of j] jg unfolding h'(4) h1(5) na by auto
    ultimately show ?thesis unfolding y by blast
  qed
  moreover have "root h' = node_at ?ys 0" "nelts h' = length xs" using h'(1,2) h1(1,2) sh na [of 0] k by (auto simp: shape_def)
  moreover have "distinct ?ys" using d v by (simp add: distinct_list_update)
  ultimately show "shape ?ys (clear_node (xs ! k) (heap_replace h (xs ! k) (Some v)))"
    by (simp add: shape_def linked_def h'_def [symmetric] s_def [symmetric])
qed

text \<open>Removal before the loops: the last node takes the place of the removed one, which may be itself.\<close>

lemma replace_self:
  assumes "hparent h v = Some p" and "hleft h p \<noteq> Some v" and "hright h p \<noteq> Some v" and "detached h v"
  shows "clear_node v (heap_replace h v (Some v)) = clear_node v h"
  using assms by (simp add: heap_replace_def relink_def detached_def Let_def clear_node_def set_parent_def set_left_def set_right_def fun_upd_idem)

lemma clear_other:
  assumes "shape xs h" and "a \<notin> set xs"
  shows "shape xs (clear_node a h)"
proof -
  have "xs ! i \<noteq> a" if "i < length xs" for i using that assms(2) by auto
  then show ?thesis using assms(1) by (simp add: shape_def linked_def clear_node_def)
qed

lemma remove_link:
  assumes sh: "shape xs h0" and k: "k < length xs" and n: "2 \<le> length xs" and v: "v = last xs"
    and h1: "shape (butlast xs) h1" "detached h1 v" "heap_frame (set xs) h0 h1" "hparent h1 v = Some (butlast xs ! p)" and p: "p < length (butlast xs)"
  defines "h2 \<equiv> clear_node (xs ! k) (heap_replace h1 (xs ! k) (Some v))"
  shows "shape (butlast (xs[k := v])) h2 \<and> heap_frame (set xs) h0 h2 \<and> detached h2 (xs ! k)"
proof -
  have d: "distinct xs" and ne: "xs \<noteq> []" using sh n by (auto simp: shape_def)
  have vs: "v \<notin> set (butlast xs)" "v \<in> set xs" "set xs = insert v (set (butlast xs))"
    using d ne v by (metis append_butlast_last_id distinct_append disjoint_iff list.set_intros(1), simp, metis append_butlast_last_id list.set(1,2) set_append Un_insert_right Un_empty_right)
  show ?thesis
  proof (cases "k = length xs - 1")
    case True
    then have s: "xs ! k = v" "xs[k := v] = xs" using v ne by (simp_all add: last_conv_nth list_update_same_conv)
    have q: "Some v \<noteq> node_at (butlast xs) j" for j using vs(1) by (auto simp: node_at_def)
    have "h2 = clear_node v h1" unfolding h2_def s
      using shapeD(2,3) [OF h1(1) p] q by (intro replace_self [OF h1(4) _ _ h1(2)]) (metis, metis)
    then show ?thesis using clear_other [OF h1(1) vs(1)] h1(3) s vs(2) by (auto simp: heap_frame_def clear_node_def detached_def)
  next
    case False
    then have kb: "k < length (butlast xs)" and s: "xs ! k = butlast xs ! k" and u: "butlast (xs[k := v]) = (butlast xs)[k := v]"
      using k n by (auto simp: nth_butlast butlast_list_update)
    show ?thesis using heap_replace_shape [OF h1(1) kb vs(1)] frame_trans [OF h1(3)] vs(3) unfolding h2_def u s by auto
  qed
qed

lemma heap_remove_link:
  assumes sh: "shape xs h0" and k: "k < length xs" and n: "2 \<le> length xs"
  shows "\<exists>h2. heap_remove cmp h0 (Some (xs ! k)) =
      (case cmp of None \<Rightarrow> Some h2 | Some c \<Rightarrow> (case heap_sift_down c h2 (last xs) of None \<Rightarrow> None | Some h3 \<Rightarrow> heap_sift_up c h3 (last xs))) \<and>
    shape (butlast (xs[k := last xs])) h2 \<and> heap_frame (set xs) h0 h2 \<and> detached h2 (xs ! k) \<and> hparent h2 (xs ! k) = None"
proof -
  define m where "m = length xs"
  define p where "p = m div 2 - 1"
  define h where "h = h0\<lparr>nelts := m - 1\<rparr>"
  define h1 where "h1 = (if odd m then set_right (xs ! p) None else set_left (xs ! p) None) h"
  define h2 where "h2 = clear_node (xs ! k) (heap_replace h1 (xs ! k) (Some (last xs)))"
  obtain q e where hp: "heap_path m 0 0 = (q, e)" by fastforce
  have m: "2 \<le> m" "nelts h0 = m" "linked xs h" "root h = node_at xs 0" using n sh by (auto simp: m_def h_def shape_def linked_def)
  have hm: "h0\<lparr>nelts := nelts h0 - 1\<rparr> = h" using m(2) by (simp add: h_def)
  note b = shape_butlast [OF sh m_def m(1) p_def h1_def [unfolded h_def]]
  have p: "p < length (butlast xs)" using m(1) unfolding p_def m_def length_butlast by linarith
  have "heap_descend h e q (root h) = Some (Some (xs ! p), m mod 2)"
    using descend_parent [OF m(3,4,1) _ hp] by (simp add: p_def m_def)
  moreover have "hleft h = hleft h0" "hright h = hright h0" by (simp_all add: h_def)
  ultimately have "heap_remove cmp h0 (Some (xs ! k)) = (case cmp of None \<Rightarrow> Some h2
      | Some c \<Rightarrow> (case heap_sift_down c h2 (last xs) of None \<Rightarrow> None | Some h3 \<Rightarrow> heap_sift_up c h3 (last xs)))"
    using m(1,2) hp b(3) unfolding heap_remove_def hm by (cases "odd m") (simp_all add: h1_def h2_def Let_def even_iff_mod_2_eq_zero odd_iff_mod_2_eq_one cong: option.case_cong)
  moreover have "hparent h2 (xs ! k) = None" by (simp add: h2_def clear_node_def)
  ultimately show ?thesis
    using remove_link [OF sh k n refl b(1,2,4,5) p] by (auto simp: h2_def [symmetric])
qed

lemma heap_remove_only:
  assumes sh: "shape [a] h0"
  shows "\<exists>h2. heap_remove cmp h0 (Some a) = Some h2 \<and> shape [] h2 \<and> heap_frame {a} h0 h2 \<and> detached h2 a \<and> hparent h2 a = None"
  using sh descend_first by (auto simp: heap_remove_def shape_def linked_def node_at_def parent_at_def heap_frame_def detached_def)

section \<open>The order of the heap\<close>

definition heap_ordered :: "(addr \<Rightarrow> 'k::linorder) \<Rightarrow> addr list \<Rightarrow> bool" where
  "heap_ordered key xs \<longleftrightarrow> (\<forall>j < length xs. 0 < j \<longrightarrow> key (xs ! ((j - 1) div 2)) \<le> key (xs ! j))"

text \<open>Ordered but at node \<open>i\<close>, towards its parent and its children; its parent is below its children.\<close>

definition hole_ok :: "(addr \<Rightarrow> 'k::linorder) \<Rightarrow> addr list \<Rightarrow> nat \<Rightarrow> bool" where
  "hole_ok key xs i \<longleftrightarrow>
     (\<forall>j < length xs. 0 < j \<and> j \<noteq> i \<and> (j - 1) div 2 \<noteq> i \<longrightarrow> key (xs ! ((j - 1) div 2)) \<le> key (xs ! j)) \<and>
     (\<forall>j < length xs. 0 < j \<and> 0 < i \<and> (j - 1) div 2 = i \<longrightarrow> key (xs ! ((i - 1) div 2)) \<le> key (xs ! j))"

definition children_ok :: "(addr \<Rightarrow> 'k::linorder) \<Rightarrow> addr list \<Rightarrow> nat \<Rightarrow> bool" where
  "children_ok key xs i \<longleftrightarrow> (\<forall>j < length xs. 0 < j \<and> (j - 1) div 2 = i \<longrightarrow> key (xs ! i) \<le> key (xs ! j))"

lemma heap_ordered_root:
  assumes "heap_ordered key xs"
  shows "i < length xs \<Longrightarrow> key (xs ! 0) \<le> key (xs ! i)"
proof (induction i rule: less_induct)
  case (less i)
  show ?case
  proof (cases "i = 0")
    case False
    then have "(i - 1) div 2 < i" by linarith
    with less False assms show ?thesis unfolding heap_ordered_def by (meson less_trans order_trans neq0_conv)
  qed simp
qed

lemma hole_ordered:
  assumes "hole_ok key xs i" and "children_ok key xs i" and "0 < i \<Longrightarrow> key (xs ! ((i - 1) div 2)) \<le> key (xs ! i)"
  shows "heap_ordered key xs"
  using assms unfolding heap_ordered_def hole_ok_def children_ok_def by metis

text \<open>A step up keeps the invariant.\<close>

lemma hole_up:
  assumes ok: "hole_ok key xs i" "children_ok key xs i" and i: "0 < i" "i < length xs" and p: "p = (i - 1) div 2" and lt: "key (xs ! i) < key (xs ! p)"
  shows "hole_ok key (swap xs p i) p" "children_ok key (swap xs p i) p"
proof -
  have pl: "p < i" "p < length xs" using i p by auto
  have o: "key (xs ! ((j - 1) div 2)) \<le> key (xs ! j)" if "j < length xs" "0 < j" "j \<noteq> i" for j
    using ok that unfolding hole_ok_def children_ok_def by metis
  have ch: "key (xs ! p) \<le> key (xs ! j)" if "j < length xs" "0 < j" "(j - 1) div 2 = i" for j
    using ok(1) that i p unfolding hole_ok_def by auto
  have nth: "swap xs p i ! j = (if j = p then xs ! i else if j = i then xs ! p else xs ! j)" if "j < length xs" for j
    using swap_nth [OF pl(2) i(2) that] .
  have par: "(j - 1) div 2 < length xs" "0 < j \<Longrightarrow> (j - 1) div 2 < j" if "j < length xs" for j using that by linarith+
  have sib: "key (xs ! i) \<le> key (xs ! j)" if "j < length xs" "0 < j" "(j - 1) div 2 = p" for j
    using o [of j] that lt by (cases "j = i") auto
  show "children_ok key (swap xs p i) p"
    unfolding children_ok_def using nth pl i sib p par lt by (auto simp: less_imp_le)
  show "hole_ok key (swap xs p i) p" unfolding hole_ok_def
  proof (intro conjI allI impI)
    fix j assume "j < length (swap xs p i)" and "0 < j \<and> j \<noteq> p \<and> (j - 1) div 2 \<noteq> p"
    then have j: "j < length xs" "0 < j" "j \<noteq> p" "(j - 1) div 2 \<noteq> p" by auto
    then have "j \<noteq> i" using p by auto
    then show "key (swap xs p i ! ((j - 1) div 2)) \<le> key (swap xs p i ! j)"
      using j o [OF j(1,2)] ch [OF j(1,2)] par [OF j(1)] nth by (cases "(j - 1) div 2 = i") auto
  next
    fix j assume "j < length (swap xs p i)" and "0 < j \<and> 0 < p \<and> (j - 1) div 2 = p"
    then have j: "j < length xs" "0 < j" "0 < p" "(j - 1) div 2 = p" by auto
    define g where "g = (p - 1) div 2"
    have g: "g < p" "key (xs ! g) \<le> key (xs ! p)" using o [OF pl(2) j(3)] pl(1) j(3) by (auto simp: g_def)
    have e: "swap xs p i ! g = xs ! g" "swap xs p i ! j = (if j = i then xs ! p else xs ! j)"
      using nth [of g] nth [OF j(1)] par(2) [OF j(1,2)] g(1) pl j(4) by auto
    have "key (xs ! g) \<le> key (if j = i then xs ! p else xs ! j)"
      using o [OF j(1,2)] g(2) j(4) by (cases "j = i") simp_all
    then show "key (swap xs p i ! ((p - 1) div 2)) \<le> key (swap xs p i ! j)"
      unfolding g_def [symmetric] e .
  qed
qed

text \<open>A step down to the least child keeps it too.\<close>

lemma hole_down:
  assumes ok: "hole_ok key xs i" and e: "0 < e" "e < length xs" and i: "i = (e - 1) div 2"
    and least: "\<And>j. j < length xs \<Longrightarrow> 0 < j \<Longrightarrow> (j - 1) div 2 = i \<Longrightarrow> key (xs ! e) \<le> key (xs ! j)"
  shows "hole_ok key (swap xs i e) e"
proof -
  have il: "i < e" "i < length xs" using e i by auto
  have nth: "swap xs i e ! j = (if j = i then xs ! e else if j = e then xs ! i else xs ! j)" if "j < length xs" for j
    using swap_nth [OF il(2) e(2) that] .
  have o: "key (xs ! ((j - 1) div 2)) \<le> key (xs ! j)" if "j < length xs" "0 < j" "j \<noteq> i" "(j - 1) div 2 \<noteq> i" for j
    using ok that unfolding hole_ok_def by blast
  have up: "key (xs ! ((i - 1) div 2)) \<le> key (xs ! e)" if "0 < i" using ok that e i unfolding hole_ok_def by auto
  have par: "(j - 1) div 2 < length xs" "0 < j \<Longrightarrow> (j - 1) div 2 < j" if "j < length xs" for j using that by linarith+
  show ?thesis unfolding hole_ok_def
  proof (intro conjI allI impI)
    fix j assume "j < length (swap xs i e)" and "0 < j \<and> j \<noteq> e \<and> (j - 1) div 2 \<noteq> e"
    then have j: "j < length xs" "0 < j" "j \<noteq> e" "(j - 1) div 2 \<noteq> e" by auto
    have s: "swap xs i e ! ((j - 1) div 2) = (if (j - 1) div 2 = i then xs ! e else xs ! ((j - 1) div 2))"
      "swap xs i e ! j = (if j = i then xs ! e else xs ! j)" using nth [OF par(1) [OF j(1)]] nth [OF j(1)] j(3,4) by auto
    show "key (swap xs i e ! ((j - 1) div 2)) \<le> key (swap xs i e ! j)"
      unfolding s using o [OF j(1,2)] up least [OF j(1,2)] par(2) [OF j(1,2)] j(2) by auto
  next
    fix j assume "j < length (swap xs i e)" and "0 < j \<and> 0 < e \<and> (j - 1) div 2 = e"
    then have j: "j < length xs" "0 < j" "(j - 1) div 2 = e" by auto
    have "e < j" using par(2) [OF j(1,2)] j(3) by simp
    then have "swap xs i e ! j = xs ! j" "swap xs i e ! i = xs ! e" using nth [OF j(1)] nth [OF il(2)] il(1) by auto
    then show "key (swap xs i e ! ((e - 1) div 2)) \<le> key (swap xs i e ! j)"
      using o [OF j(1,2)] j(3) \<open>e < j\<close> il(1) unfolding i [symmetric] by simp
  qed
qed

lemma heap_est_least:
  fixes key :: "addr \<Rightarrow> 'k::linorder"
  assumes sh: "shape xs h" and i: "i < length xs"
  shows "\<exists>e < length xs. heap_est (\<lambda>a b. key a < key b) h (xs ! i) = xs ! e \<and>
    (\<forall>j < length xs. 0 < j \<and> (j - 1) div 2 = i \<longrightarrow> key (xs ! e) \<le> key (xs ! j)) \<and> (e = i \<or> (0 < e \<and> (e - 1) div 2 = i))"
proof -
  have c: "0 < j \<and> (j - 1) div 2 = i \<longleftrightarrow> j = 2 * i + 1 \<or> j = 2 * i + 2" for j using parent_number [of j] by auto
  let ?l = "2 * i + 1" and ?r = "2 * i + 2"
  define e where "e = (let e1 = (if ?l < length xs \<and> \<not> key (xs ! i) < key (xs ! ?l) then ?l else i)
    in if ?r < length xs \<and> \<not> key (xs ! e1) < key (xs ! ?r) then ?r else e1)"
  have "heap_est (\<lambda>a b. key a < key b) h (xs ! i) = xs ! e"
    unfolding heap_est_def shapeD(2,3) [OF sh i] by (simp add: node_at_def e_def Let_def)
  moreover have "e < length xs" "e = i \<or> e = ?l \<or> e = ?r" using i by (auto simp: e_def Let_def)
  moreover have "?l < length xs \<Longrightarrow> key (xs ! e) \<le> key (xs ! ?l)" "?r < length xs \<Longrightarrow> key (xs ! e) \<le> key (xs ! ?r)"
    by (auto simp: e_def Let_def not_less)
  ultimately show ?thesis using c by metis
qed

section \<open>The loops\<close>

text \<open>Both loops return, and what they return is a heap of the same nodes.\<close>

lemma heap_sift_up_heap:
  fixes key :: "addr \<Rightarrow> 'k::linorder"
  shows "shape xs h \<Longrightarrow> i < length xs \<Longrightarrow> hole_ok key xs i \<Longrightarrow> children_ok key xs i \<Longrightarrow>
    \<exists>ys h'. heap_sift_up (\<lambda>a b. key a < key b) h (xs ! i) = Some h' \<and> shape ys h' \<and> heap_ordered key ys \<and> set ys = set xs \<and> heap_frame (set xs) h h'"
proof (induction i arbitrary: xs h rule: less_induct)
  case (less i)
  define p where "p = (i - 1) div 2"
  have up: "hparent h (xs ! i) = (if i = 0 then None else Some (xs ! p))"
    using shapeD(1) [OF less.prems(1,2)] by (simp add: parent_at_def p_def)
  show ?case
  proof (cases "0 < i \<and> key (xs ! i) < key (xs ! p)")
    case True
    then have i: "0 < i" and pi: "p < i" "p < length xs" using less.prems(2) by (auto simp: p_def)
    obtain h' where sw: "heap_swap h (xs ! p) (xs ! i) = Some h'" and sh': "shape (swap xs p i) h'"
      using heap_swap_shape [OF less.prems(1) i less.prems(2) p_def] by blast
    note fr = heap_swap_frame [OF less.prems(1) i less.prems(2) p_def sw]
    have nd: "swap xs p i ! p = xs ! i" and set: "set (swap xs p i) = set xs"
      using swap_nth [OF pi(2) less.prems(2) pi(2)] swap_mset [OF pi(2) less.prems(2)] by (simp, metis set_mset_mset)
    have "heap_sift_up (\<lambda>a b. key a < key b) h (xs ! i) = heap_sift_up (\<lambda>a b. key a < key b) h' (xs ! i)"
      using True up sw by (subst heap_sift_up.simps) simp
    moreover obtain ys h'' where "heap_sift_up (\<lambda>a b. key a < key b) h' (swap xs p i ! p) = Some h''" "shape ys h''" "heap_ordered key ys"
        "set ys = set xs" "heap_frame (set xs) h' h''"
      using less.IH [OF pi(1) sh'] hole_up [OF less.prems(3,4) i less.prems(2) p_def] True pi(2) set by auto
    ultimately show ?thesis using frame_trans [OF fr] nd by auto
  next
    case False
    then have "heap_sift_up (\<lambda>a b. key a < key b) h (xs ! i) = Some h" using up by (subst heap_sift_up.simps) auto
    moreover have "heap_ordered key xs" using hole_ordered [OF less.prems(3,4)] False by (auto simp: p_def not_less)
    ultimately show ?thesis using less.prems(1) by auto
  qed
qed

lemma heap_sift_down_hole:
  fixes key :: "addr \<Rightarrow> 'k::linorder"
  shows "shape xs h \<Longrightarrow> i < length xs \<Longrightarrow> hole_ok key xs i \<Longrightarrow>
    \<exists>ys h' k. heap_sift_down (\<lambda>a b. key a < key b) h (xs ! i) = Some h' \<and> shape ys h' \<and> k < length ys \<and> ys ! k = xs ! i \<and>
      hole_ok key ys k \<and> children_ok key ys k \<and> set ys = set xs \<and> heap_frame (set xs) h h'"
proof (induction "length xs - i" arbitrary: xs h i rule: less_induct)
  case less
  let ?c = "\<lambda>a b. key a < key b"
  obtain e where e: "e < length xs" "heap_est ?c h (xs ! i) = xs ! e" "\<And>j. j < length xs \<Longrightarrow> 0 < j \<Longrightarrow> (j - 1) div 2 = i \<Longrightarrow> key (xs ! e) \<le> key (xs ! j)"
      "e = i \<or> 0 < e \<and> (e - 1) div 2 = i"
    using heap_est_least [OF less.prems(1,2), of key] by auto
  have d: "distinct xs" using less.prems(1) by (simp add: shape_def)
  show ?case
  proof (cases "e = i")
    case True
    then have "heap_sift_down ?c h (xs ! i) = Some h" using e(2) by (subst heap_sift_down.simps) simp
    moreover have "children_ok key xs i" using e(3) True by (simp add: children_ok_def)
    ultimately show ?thesis using less.prems frame_refl by blast
  next
    case False
    then have e0: "0 < e" "i = (e - 1) div 2" "i < e" using e(4) by auto
    obtain h' where sw: "heap_swap h (xs ! i) (xs ! e) = Some h'" and sh': "shape (swap xs i e) h'"
      using heap_swap_shape [OF less.prems(1) e0(1) e(1) e0(2)] by blast
    note fr = heap_swap_frame [OF less.prems(1) e0(1) e(1) e0(2) sw]
    have nd: "swap xs i e ! e = xs ! i" and set: "set (swap xs i e) = set xs"
      using swap_nth [OF less.prems(2) e(1,1)] swap_mset [OF less.prems(2) e(1)] False by (simp, metis set_mset_mset)
    have "xs ! e \<noteq> xs ! i" using d e(1) less.prems(2) False by (simp add: nth_eq_iff_index_eq)
    then have "heap_sift_down ?c h (xs ! i) = heap_sift_down ?c h' (xs ! i)"
      using e(2) sw by (subst heap_sift_down.simps) simp
    moreover have dec: "length (swap xs i e) - e < length xs - i" using e0(3) e(1) by simp
    moreover obtain ys h'' k where "heap_sift_down ?c h' (swap xs i e ! e) = Some h''" "shape ys h''" "k < length ys" "ys ! k = swap xs i e ! e"
        "hole_ok key ys k" "children_ok key ys k" "set ys = set xs" "heap_frame (set xs) h' h''"
      using less.hyps [OF dec sh' _ hole_down [OF less.prems(3) e0(1) e(1) e0(2) e(3)]] e(1) set by auto
    ultimately show ?thesis using frame_trans [OF fr] nd by auto
  qed
qed

section \<open>What the operations promise\<close>

text \<open>\<open>h\<close> is a heap of the nodes \<open>S\<close>, ordered by their keys.\<close>

definition is_heap :: "(addr \<Rightarrow> 'k::linorder) \<Rightarrow> addr set \<Rightarrow> heap \<Rightarrow> bool" where
  "is_heap key S h \<longleftrightarrow> (\<exists>xs. shape xs h \<and> heap_ordered key xs \<and> set xs = S)"

lemma is_heap_init: "is_heap key {} (heap_init h)"
  unfolding is_heap_def by (rule exI [of _ "[]"]) (simp add: shape_def linked_def heap_init_def heap_ordered_def node_at_def)

lemma is_heap_nelts: "is_heap key S h \<Longrightarrow> nelts h = card S"
  unfolding is_heap_def by (auto simp: shape_def distinct_card)

lemma is_heap_cong: "is_heap key S h \<Longrightarrow> (\<And>a. a \<in> S \<Longrightarrow> key a = key' a) \<Longrightarrow> is_heap key' S h"
proof -
  assume "is_heap key S h" and e: "\<And>a. a \<in> S \<Longrightarrow> key a = key' a"
  then obtain xs where xs: "shape xs h" "heap_ordered key xs" "set xs = S" by (auto simp: is_heap_def)
  have "key (xs ! i) = key' (xs ! i)" if "i < length xs" for i using that e xs(3) by auto
  then have "heap_ordered key' xs" using xs(2) unfolding heap_ordered_def by (metis div_le_dividend diff_le_self le_less_trans)
  then show ?thesis using xs by (auto simp: is_heap_def)
qed

lemma is_heap_root:
  assumes "is_heap key S h"
  shows "case root h of None \<Rightarrow> S = {} | Some a \<Rightarrow> a \<in> S \<and> (\<forall>b\<in>S. key a \<le> key b)"
proof -
  obtain xs where xs: "shape xs h" "heap_ordered key xs" "set xs = S" using assms by (auto simp: is_heap_def)
  have "key (xs ! 0) \<le> key b" if "b \<in> set xs" for b using heap_ordered_root [OF xs(2)] that by (auto simp: in_set_conv_nth)
  then show ?thesis using xs(1,3) by (cases xs) (auto simp: shape_def node_at_def)
qed

lemma heap_insert_heap:
  fixes key :: "addr \<Rightarrow> 'k::linorder"
  assumes "is_heap key S h" and "a \<notin> S" and "detached h a"
  shows "\<exists>h'. heap_insert (Some (\<lambda>a b. key a < key b)) h a = Some h' \<and> is_heap key (insert a S) h' \<and> heap_frame (insert a S) h h'"
proof -
  obtain xs where xs: "shape xs h" "heap_ordered key xs" "set xs = S" using assms by (auto simp: is_heap_def)
  let ?ys = "xs @ [a]" and ?i = "length xs"
  obtain h2 where h2: "heap_insert (Some (\<lambda>a b. key a < key b)) h a = heap_sift_up (\<lambda>a b. key a < key b) h2 a" "shape ?ys h2" "heap_frame (set ?ys) h h2"
    using heap_insert_link [OF xs(1), of a "Some (\<lambda>a b. key a < key b)"] assms xs(3) by auto
  have no: "\<not> (0 < j \<and> (j - 1) div 2 = ?i)" if "j < length ?ys" for j using that by auto
  then have "hole_ok key ?ys ?i" "children_ok key ?ys ?i"
    using xs(2) by (auto simp: hole_ok_def children_ok_def heap_ordered_def nth_append)
  from heap_sift_up_heap [OF h2(2) _ this] obtain ys h' where "heap_sift_up (\<lambda>a b. key a < key b) h2 a = Some h'" "shape ys h'" "heap_ordered key ys"
      "set ys = insert a S" "heap_frame (insert a S) h2 h'" using xs(3) by auto
  then show ?thesis using h2 xs(3) frame_trans [of "insert a S" h h2 h'] by (auto simp: is_heap_def)
qed

text \<open>The removed node is last, or its place is the one where the order may not hold.\<close>

lemma remove_hole:
  assumes o: "heap_ordered key xs" and k: "k < length xs - 1"
  shows "hole_ok key (butlast (xs[k := last xs])) k"
proof -
  let ?ys = "butlast (xs[k := last xs])"
  have nth: "?ys ! j = (if j = k then last xs else xs ! j)" if "j < length xs - 1" for j using that k by (simp add: nth_butlast nth_list_update)
  have par: "(j - 1) div 2 < length xs - 1" "0 < j \<Longrightarrow> (j - 1) div 2 < j" if "j < length xs - 1" for j using that by linarith+
  have o': "key (xs ! ((j - 1) div 2)) \<le> key (xs ! j)" if "j < length xs - 1" "0 < j" for j using o that by (simp add: heap_ordered_def)
  have "key (xs ! ((k - 1) div 2)) \<le> key (xs ! j)" if "j < length xs - 1" "0 < j" "0 < k" "(j - 1) div 2 = k" for j
    using o' [OF k that(3)] o' [OF that(1,2)] that(4) by simp
  moreover have "(k - 1) div 2 \<noteq> k" if "0 < k" using par(2) [OF k that] by simp
  ultimately show ?thesis unfolding hole_ok_def using nth par o' k by auto
qed

lemma last_index: "k < length xs \<Longrightarrow> k = length xs - 1 \<Longrightarrow> xs ! k = last xs \<and> xs[k := last xs] = xs"
  by (cases xs rule: rev_cases) (auto simp: list_update_append)

lemma remove_set:
  assumes "distinct xs" and "k < length xs"
  shows "set (butlast (xs[k := last xs])) = set xs - {xs ! k}"
proof -
  obtain ys v where e: "xs = ys @ [v]" using assms(2) by (cases xs rule: rev_cases) auto
  show ?thesis
  proof (cases "k = length ys")
    case True
    then show ?thesis using e assms(1) by (simp add: list_update_append)
  next
    case False
    then have k: "k < length ys" using e assms(2) by simp
    have "set (ys[k := v]) = insert v (set ys - {ys ! k})" using assms(1) e k by (simp add: set_update_distinct)
    then show ?thesis using e k assms(1) by (auto simp: nth_append list_update_append)
  qed
qed

lemma heap_remove_heap:
  fixes key :: "addr \<Rightarrow> 'k::linorder"
  assumes "is_heap key S h" and "a \<in> S"
  shows "\<exists>h'. heap_remove (Some (\<lambda>a b. key a < key b)) h (Some a) = Some h' \<and> is_heap key (S - {a}) h' \<and> heap_frame S h h' \<and> detached h' a"
proof -
  let ?c = "\<lambda>a b. key a < key b"
  obtain xs where xs: "shape xs h" "heap_ordered key xs" "set xs = S" using assms by (auto simp: is_heap_def)
  obtain k where k: "k < length xs" "a = xs ! k" using assms(2) xs(3) by (auto simp: in_set_conv_nth)
  have d: "distinct xs" using xs(1) by (simp add: shape_def)
  show ?thesis
  proof (cases "length xs = 1")
    case True
    then obtain b where "xs = [b]" by (auto simp: length_Suc_conv)
    then have "xs = [a]" using k by simp
    moreover have "heap_ordered key []" by (simp add: heap_ordered_def)
    ultimately show ?thesis using heap_remove_only [of a h "Some ?c"] xs by (auto simp: is_heap_def)
  next
    case False
    let ?ys = "butlast (xs[k := last xs])"
    have n: "2 \<le> length xs" using False k(1) by linarith
    obtain h2 where h2: "heap_remove (Some ?c) h (Some a) = (case heap_sift_down ?c h2 (last xs) of None \<Rightarrow> None | Some h3 \<Rightarrow> heap_sift_up ?c h3 (last xs))"
        "shape ?ys h2" "heap_frame S h h2" "detached h2 a" "hparent h2 a = None"
      using heap_remove_link [OF xs(1) k(1) n, of "Some ?c"] k(2) xs(3) by auto
    have set: "set ?ys = S - {a}" using remove_set [OF d k(1)] k(2) xs(3) by simp
    show ?thesis
    proof (cases "k = length xs - 1")
      case True
      then have a: "last xs = a" "?ys = butlast xs" using last_index [OF k(1)] k(2) by simp_all
      have "heap_sift_down ?c h2 a = Some h2" "heap_sift_up ?c h2 a = Some h2"
        using h2(4,5) by (subst heap_sift_down.simps heap_sift_up.simps, simp add: heap_est_def detached_def)+
      moreover have "heap_ordered key ?ys" unfolding a(2) using xs(2) by (auto simp: heap_ordered_def nth_butlast)
      ultimately show ?thesis using h2 set a(1) by (auto simp: is_heap_def)
    next
      case False
      then have kl: "k < length xs - 1" using k(1) by simp
      then have yk: "?ys ! k = last xs" "k < length ?ys" by (simp_all add: nth_butlast)
      obtain zs h3 m where h3: "heap_sift_down ?c h2 (last xs) = Some h3" "shape zs h3" "m < length zs" "zs ! m = last xs" "hole_ok key zs m" "children_ok key zs m"
          "set zs = S - {a}" "heap_frame (S - {a}) h2 h3"
        using heap_sift_down_hole [OF h2(2) yk(2) remove_hole [OF xs(2) kl]] yk(1) set by auto
      obtain ws h4 where h4: "heap_sift_up ?c h3 (last xs) = Some h4" "shape ws h4" "heap_ordered key ws" "set ws = S - {a}" "heap_frame (S - {a}) h3 h4"
        using heap_sift_up_heap [OF h3(2,3,5,6)] h3(4,7) by auto
      have f: "heap_frame (S - {a}) h2 h4" by (rule frame_trans [OF h3(8) h4(5)])
      then have "heap_frame S h h4" using frame_trans [OF h2(3) frame_mono [OF f]] by blast
      moreover have "detached h4 a" using f h2(4) by (simp add: heap_frame_def detached_def)
      ultimately show ?thesis using h2(1) h3(1) h4 by (auto simp: is_heap_def)
    qed
  qed
qed

text \<open>
  The interface the event loop relies on: a queue of elements by key, from which the least can be
  taken. \<open>valid key S s\<close> says that \<open>s\<close> holds the elements \<open>S\<close>; \<open>loose s a\<close> that \<open>a\<close> can be
  inserted.
\<close>

locale timer_queue =
  fixes ins rem :: "('a \<Rightarrow> 'k::linorder) \<Rightarrow> 's \<Rightarrow> 'a \<Rightarrow> 's option"
    and top :: "'s \<Rightarrow> 'a option" and valid :: "('a \<Rightarrow> 'k) \<Rightarrow> 'a set \<Rightarrow> 's \<Rightarrow> bool" and loose :: "'s \<Rightarrow> 'a \<Rightarrow> bool"
  assumes top_least: "valid key S s \<Longrightarrow> case top s of None \<Rightarrow> S = {} | Some a \<Rightarrow> a \<in> S \<and> (\<forall>b\<in>S. key a \<le> key b)"
    and ins_valid: "valid key S s \<Longrightarrow> a \<notin> S \<Longrightarrow> loose s a \<Longrightarrow>
      \<exists>s'. ins key s a = Some s' \<and> valid key (insert a S) s' \<and> (\<forall>b. b \<notin> insert a S \<longrightarrow> loose s' b = loose s b)"
    and rem_valid: "valid key S s \<Longrightarrow> a \<in> S \<Longrightarrow>
      \<exists>s'. rem key s a = Some s' \<and> valid key (S - {a}) s' \<and> loose s' a \<and> (\<forall>b. b \<notin> S \<longrightarrow> loose s' b = loose s b)"
    and valid_cong: "valid key S s \<Longrightarrow> (\<And>a. a \<in> S \<Longrightarrow> key a = key' a) \<Longrightarrow> valid key' S s"
begin

lemma top_none: "valid key S s \<Longrightarrow> top s = None \<Longrightarrow> S = {}"
  using top_least by fastforce

lemma top_member: "valid key S s \<Longrightarrow> top s = Some a \<Longrightarrow> a \<in> S \<and> (\<forall>b\<in>S. key a \<le> key b)"
  using top_least by fastforce

text \<open>When the least is not due nothing is.\<close>

lemma none_due: "valid key S s \<Longrightarrow> top s = Some a \<Longrightarrow> t < key a \<Longrightarrow> b \<in> S \<Longrightarrow> t < key b"
  using top_member by fastforce

text \<open>An element is taken out, its key changes, and it is put back.\<close>

lemma rekey:
  assumes v: "valid key S s" and a: "a \<in> S"
  shows "\<exists>s1 s2. rem key s a = Some s1 \<and> ins (key(a := t)) s1 a = Some s2 \<and> valid (key(a := t)) S s2 \<and> (\<forall>b. b \<notin> S \<longrightarrow> loose s2 b = loose s b)"
proof -
  obtain s1 where s1: "rem key s a = Some s1" "valid key (S - {a}) s1" "loose s1 a" "\<forall>b. b \<notin> S \<longrightarrow> loose s1 b = loose s b"
    using rem_valid [OF v a] by blast
  have "valid (key(a := t)) (S - {a}) s1" by (rule valid_cong [OF s1(2)]) auto
  from ins_valid [OF this _ s1(3)] obtain s2 where "ins (key(a := t)) s1 a = Some s2" "valid (key(a := t)) (insert a (S - {a})) s2"
    "\<forall>b. b \<notin> insert a (S - {a}) \<longrightarrow> loose s2 b = loose s1 b" by blast
  then show ?thesis using s1 a by (auto simp: insert_absorb)
qed

end

lemma frame_detached: "heap_frame A h h' \<Longrightarrow> b \<notin> A \<Longrightarrow> detached h' b = detached h b"
  by (simp add: heap_frame_def detached_def)

interpretation th: timer_queue "\<lambda>key h a. heap_insert (Some (\<lambda>a b. key a < key b)) h a"
    "\<lambda>key h a. heap_remove (Some (\<lambda>a b. key a < key b)) h (Some a)" root is_heap detached
proof
  show "is_heap key S h \<Longrightarrow> case root h of None \<Rightarrow> S = {} | Some a \<Rightarrow> a \<in> S \<and> (\<forall>b\<in>S. key a \<le> key b)"
    for key :: "addr \<Rightarrow> 'k::linorder" and S h by (rule is_heap_root)
  show "is_heap key S h \<Longrightarrow> a \<notin> S \<Longrightarrow> detached h a \<Longrightarrow>
      \<exists>h'. heap_insert (Some (\<lambda>a b. key a < key b)) h a = Some h' \<and> is_heap key (insert a S) h' \<and> (\<forall>b. b \<notin> insert a S \<longrightarrow> detached h' b = detached h b)"
    for key :: "addr \<Rightarrow> 'k::linorder" and S h a using heap_insert_heap [of key S h a] frame_detached [of "insert a S" h] by blast
  show "is_heap key S h \<Longrightarrow> a \<in> S \<Longrightarrow>
      \<exists>h'. heap_remove (Some (\<lambda>a b. key a < key b)) h (Some a) = Some h' \<and> is_heap key (S - {a}) h' \<and> detached h' a \<and> (\<forall>b. b \<notin> S \<longrightarrow> detached h' b = detached h b)"
    for key :: "addr \<Rightarrow> 'k::linorder" and S h a using heap_remove_heap [of key S h a] frame_detached [of S h] by blast
  show "is_heap key S h \<Longrightarrow> (\<And>a. a \<in> S \<Longrightarrow> key a = key' a) \<Longrightarrow> is_heap key' S h"
    for key key' :: "addr \<Rightarrow> 'k::linorder" and S h by (rule is_heap_cong)
qed

text \<open>A heap for the witnesses: five nodes, the third about to leave.\<close>

definition demo_key :: "addr \<Rightarrow> nat" where
  "demo_key a = [0, 4, 9, 2, 7, 5] ! a"

definition demo_heap :: "heap" where
  "demo_heap = \<lparr>root = Some 3, nelts = 4, hparent = (\<lambda>_. None)(1 := Some 3, 4 := Some 3, 2 := Some 1),
     hleft = (\<lambda>_. None)(3 := Some 1, 1 := Some 2), hright = (\<lambda>_. None)(3 := Some 4)\<rparr>"

lemma demo_is_heap: "is_heap demo_key {1, 2, 3, 4} demo_heap"
  unfolding is_heap_def
  by (rule exI [of _ "[3, 1, 4, 2]"]) (auto simp: shape_def linked_def heap_ordered_def demo_heap_def demo_key_def node_at_def parent_at_def less_Suc_eq numeral_nat)

section \<open>Properties\<close>

text \<open>C34. Exchanging a node with its parent keeps the tree: the assertion of \<open>heap_swap\<close> holds for
  every node but the root, every link afterwards is the one of the complete tree in which the two
  have changed places, and no node outside the heap is written to.\<close>

theorem heap_swap_keeps_tree:
  assumes "shape xs h" and "0 < i" and "i < length xs" and "p = (i - 1) div 2"
  shows "\<exists>h'. heap_swap h (xs ! p) (xs ! i) = Some h' \<and> shape (swap xs p i) h' \<and> heap_frame (set xs) h h'"
  using heap_swap_shape [OF assms] heap_swap_frame [OF assms] by blast

theorem heap_swap_keeps_tree_witness:
  "\<exists>h'. heap_swap demo_heap 3 1 = Some h' \<and> shape [1, 3, 4, 2] h' \<and> heap_frame {1, 2, 3, 4} demo_heap h'"
proof -
  have "shape [3, 1, 4, 2] demo_heap"
    by (auto simp: shape_def linked_def demo_heap_def node_at_def parent_at_def less_Suc_eq numeral_nat)
  from heap_swap_keeps_tree [OF this, of 1 0] show ?thesis by (simp add: swap_def insert_commute)
qed

text \<open>Inserting a timer that is in no heap returns, and what it returns is a heap of the old nodes
  and the new one, whatever the number of nodes; nodes outside keep their links.\<close>

theorem heap_insert_keeps_heap:
  fixes key :: "addr \<Rightarrow> 'k::linorder"
  assumes "is_heap key S h" and "a \<notin> S" and "detached h a"
  shows "\<exists>h'. heap_insert (Some (\<lambda>a b. key a < key b)) h a = Some h' \<and> is_heap key (insert a S) h' \<and> heap_frame (insert a S) h h' \<and> nelts h' = card (insert a S)"
  using heap_insert_heap [OF assms] is_heap_nelts by blast

theorem heap_insert_keeps_heap_witness:
  "\<exists>h'. heap_insert (Some (\<lambda>a b. demo_key a < demo_key b)) demo_heap 5 = Some h' \<and> is_heap demo_key {1, 2, 3, 4, 5} h' \<and>
     heap_frame {1, 2, 3, 4, 5} demo_heap h' \<and> nelts h' = 5"
proof -
  have d: "detached demo_heap 5" by (simp add: detached_def demo_heap_def)
  have c: "insert 5 {1, 2, 3, 4} = {1, 2, 3, 4, 5 :: addr}" "card {1, 2, 3, 4, 5 :: addr} = 5" by auto
  show ?thesis using heap_insert_keeps_heap [OF demo_is_heap _ d, unfolded c] by simp
qed

text \<open>C14. Removing any node of a heap returns a heap of the others: the last node takes its place and
  sinks or rises from there. The removed node is left without links, so that it can be inserted
  again.\<close>

theorem heap_remove_keeps_heap:
  fixes key :: "addr \<Rightarrow> 'k::linorder"
  assumes "is_heap key S h" and "a \<in> S"
  shows "\<exists>h'. heap_remove (Some (\<lambda>a b. key a < key b)) h (Some a) = Some h' \<and> is_heap key (S - {a}) h' \<and> heap_frame S h h' \<and> detached h' a"
  by (rule heap_remove_heap [OF assms])

theorem heap_remove_keeps_heap_witness:
  "\<exists>h'. heap_remove (Some (\<lambda>a b. demo_key a < demo_key b)) demo_heap (Some 1) = Some h' \<and> is_heap demo_key ({1, 2, 3, 4} - {1}) h' \<and>
     heap_frame {1, 2, 3, 4} demo_heap h' \<and> detached h' 1"
  using heap_remove_keeps_heap [OF demo_is_heap, of 1] by simp

text \<open>Dequeuing takes a node of the least key, and leaves a heap of the rest.\<close>

theorem heap_dequeue_least:
  fixes key :: "addr \<Rightarrow> 'k::linorder"
  assumes "is_heap key S h" and "S \<noteq> {}"
  shows "\<exists>a h'. root h = Some a \<and> a \<in> S \<and> (\<forall>b\<in>S. key a \<le> key b) \<and> heap_dequeue (Some (\<lambda>a b. key a < key b)) h = Some h' \<and> is_heap key (S - {a}) h'"
proof -
  obtain a where a: "root h = Some a" using th.top_none [OF assms(1)] assms(2) by fastforce
  with th.top_member [OF assms(1)] th.rem_valid [OF assms(1)] show ?thesis unfolding heap_dequeue_def by force
qed

theorem heap_dequeue_least_witness:
  "\<exists>a h'. root demo_heap = Some a \<and> a \<in> {1, 2, 3, 4} \<and> (\<forall>b\<in>{1, 2, 3, 4}. demo_key a \<le> demo_key b) \<and>
     heap_dequeue (Some (\<lambda>a b. demo_key a < demo_key b)) demo_heap = Some h' \<and> is_heap demo_key ({1, 2, 3, 4} - {a}) h'"
  by (rule heap_dequeue_least [OF demo_is_heap]) simp

end
