(* ===== verification/Htime.thy ===== *)
theory Htime
  imports Fs_Types
begin

text \<open>
  The calendar of \<open>src/libs/libhv/base/htime.c\<close>: the length of a month, a date some days later or
  earlier, and the next time a periodic timer is due.

  The day number \<open>day_no\<close> counts the days of the proleptic Gregorian calendar; the loops of
  \<open>datetime_future\<close> and \<open>datetime_past\<close> are shown to add to it and subtract from it.
  \<open>time\<close>, \<open>localtime\<close> and \<open>mktime\<close> are the answers of the C library, arguments of
  \<open>cron_next_timeout\<close>.
\<close>

section \<open>Dates\<close>

record datetime_t =
  year :: int
  month :: int
  day :: int
  hour :: int
  minutes :: int
  sec :: int
  ms :: int

text \<open>The remainders of C and of HOL agree on whether they are zero, for negative years too.\<close>

definition IS_LEAP_YEAR :: "int \<Rightarrow> bool" where
  "IS_LEAP_YEAR y \<longleftrightarrow> (y mod 4 = 0 \<and> y mod 100 \<noteq> 0) \<or> y mod 400 = 0"

definition s_days :: "int list" where
  "s_days = [31, 28, 31, 30, 31, 30, 31, 31, 30, 31, 30, 31]"

definition days_of_month :: "int \<Rightarrow> int \<Rightarrow> int" where
  "days_of_month m y =
     (if m < 1 \<or> 12 < m then 0
      else let days = s_days ! nat (m - 1) in if m = 2 \<and> IS_LEAP_YEAR y then days + 1 else days)"

text \<open>The loop of \<open>datetime_past\<close>, on the days still to go back.\<close>

partial_function (option) past_loop :: "datetime_t \<Rightarrow> int \<Rightarrow> datetime_t option" where
  "past_loop dt sub =
     (if sub = 0 then Some dt
      else if sub < day dt then Some (dt\<lparr>day := day dt - sub\<rparr>)
      else
      (let dt1 = dt\<lparr>month := month dt - 1\<rparr>;
           dt2 = (if month dt1 = 0 then dt1\<lparr>month := 12, year := year dt1 - 1\<rparr> else dt1)
       in past_loop (dt2\<lparr>day := days_of_month (month dt2) (year dt2)\<rparr>) (sub - day dt)))"

text \<open>\<open>None\<close> is the assertion \<open>days >= 0\<close> that fails, or a loop that does not end.\<close>

definition datetime_past :: "datetime_t \<Rightarrow> int \<Rightarrow> datetime_t option" where
  "datetime_past dt days = (if days < 0 then None else past_loop dt days)"

text \<open>In \<open>dt->day + sub\<close> a sum above \<open>INT_MAX\<close> is undefined: it is \<open>None\<close> here.\<close>

partial_function (option) future_loop :: "datetime_t \<Rightarrow> int \<Rightarrow> datetime_t option" where
  "future_loop dt sub =
     (if sub = 0 then Some dt
      else
      (let mdays = days_of_month (month dt) (year dt)
       in if 2 ^ 31 \<le> day dt + sub then None
          else if day dt + sub \<le> mdays then Some (dt\<lparr>day := day dt + sub\<rparr>)
          else
          (let sub' = sub - (mdays - day dt + 1);
               dt1 = dt\<lparr>month := month dt + 1\<rparr>;
               dt2 = (if 12 < month dt1 then dt1\<lparr>month := 1, year := year dt1 + 1\<rparr> else dt1)
           in future_loop (dt2\<lparr>day := 1\<rparr>) sub')))"

definition datetime_future :: "datetime_t \<Rightarrow> int \<Rightarrow> datetime_t option" where
  "datetime_future dt days = (if days < 0 then None else future_loop dt days)"

section \<open>Names of months and weekdays\<close>

definition s_weekdays :: "string list" where
  "s_weekdays = [''Sunday'', ''Monday'', ''Tuesday'', ''Wednesday'', ''Thursday'', ''Friday'', ''Saturday'']"

definition s_months :: "string list" where
  "s_months = [''January'', ''February'', ''March'', ''April'', ''May'', ''June'',
     ''July'', ''August'', ''September'', ''October'', ''November'', ''December'']"

text \<open>\<open>strnicmp(a, b, strlen(a)) == 0\<close>: \<open>b\<close> starts with \<open>a\<close>, whatever the case.\<close>

definition name_matches :: "string \<Rightarrow> string \<Rightarrow> bool" where
  "name_matches a b \<longleftrightarrow> map to_lower a = take (length a) (map to_lower b)"

fun name_index :: "string \<Rightarrow> string list \<Rightarrow> nat \<Rightarrow> nat option" where
  "name_index a [] i = None"
| "name_index a (b # bs) i = (if name_matches a b then Some i else name_index a bs (i + 1))"

definition month_atoi :: "string \<Rightarrow> int" where
  "month_atoi s = (case name_index s s_months 0 of Some i \<Rightarrow> int i + 1 | None \<Rightarrow> 0)"

text \<open>\<open>None\<close> is the assertion that fails.\<close>

definition month_itoa :: "int \<Rightarrow> string option" where
  "month_itoa m = (if 1 \<le> m \<and> m \<le> 12 then Some (s_months ! nat (m - 1)) else None)"

definition weekday_atoi :: "string \<Rightarrow> int" where
  "weekday_atoi s = (case name_index s s_weekdays 0 of Some i \<Rightarrow> int i | None \<Rightarrow> 0)"

definition weekday_itoa :: "int \<Rightarrow> string option" where
  "weekday_itoa w = (if 0 \<le> w \<and> w \<le> 7 then Some (s_weekdays ! nat (if w = 7 then 0 else w)) else None)"

section \<open>Periodic timers\<close>

record tm =
  tm_sec :: int
  tm_min :: int
  tm_hour :: int
  tm_mday :: int
  tm_mon :: int
  tm_year :: int
  tm_wday :: int
  tm_isdst :: int

datatype period_type = MINUTELY | HOURLY | DAILY | WEEKLY | MONTHLY | YEARLY

text \<open>The kind of period, and the broken-down time with the fields that are given filled in.\<close>

definition cron_fields :: "tm \<Rightarrow> int \<Rightarrow> int \<Rightarrow> int \<Rightarrow> int \<Rightarrow> int \<Rightarrow> period_type \<times> tm" where
  "cron_fields lt c_min c_hour c_day c_week c_month =
     (let t0 = lt\<lparr>tm_sec := 0\<rparr>;
          (p1, t1) = (if 0 \<le> c_min then (HOURLY, t0\<lparr>tm_min := c_min\<rparr>) else (MINUTELY, t0));
          (p2, t2) = (if 0 \<le> c_hour then (DAILY, t1\<lparr>tm_hour := c_hour\<rparr>) else (p1, t1))
      in if 0 \<le> c_week then (WEEKLY, t2)
         else if 0 < c_day then
           (if 0 < c_month then (YEARLY, t2\<lparr>tm_mday := c_day, tm_mon := c_month - 1\<rparr>) else (MONTHLY, t2\<lparr>tm_mday := c_day\<rparr>))
         else (p2, t2))"

text \<open>
  \<open>tt\<close> is the answer of \<open>time\<close>, \<open>lt\<close> of \<open>localtime\<close>; \<open>mktime\<close> returns the time and the
  broken-down time with every field in its range.
\<close>

definition cron_next_timeout :: "int \<Rightarrow> tm \<Rightarrow> (tm \<Rightarrow> int \<times> tm) \<Rightarrow> int \<Rightarrow> int \<Rightarrow> int \<Rightarrow> int \<Rightarrow> int \<Rightarrow> int" where
  "cron_next_timeout tt lt mktime c_min c_hour c_day c_week c_month =
     (let (p, t) = cron_fields lt c_min c_hour c_day c_week c_month;
          (r0, t') = mktime t;
          r = (if 0 \<le> c_week then r0 + (c_week - tm_wday t') * 86400 else r0)
      in if tt < r then r
         else case p of
             MINUTELY \<Rightarrow> r + 60
           | HOURLY \<Rightarrow> r + 3600
           | DAILY \<Rightarrow> r + 86400
           | WEEKLY \<Rightarrow> r + 604800
           | MONTHLY \<Rightarrow> fst (mktime (if tm_mon t' + 1 = 12 then t'\<lparr>tm_mon := 0, tm_year := tm_year t' + 1\<rparr>
                                     else t'\<lparr>tm_mon := tm_mon t' + 1\<rparr>))
           | YEARLY \<Rightarrow> fst (mktime (t'\<lparr>tm_year := tm_year t' + 1\<rparr>)))"

section \<open>Day numbers\<close>

text \<open>Days before a year, and before a month of it.\<close>

definition year_days :: "int \<Rightarrow> int" where
  "year_days y = 365 * y + (y - 1) div 4 - (y - 1) div 100 + (y - 1) div 400"

definition month_days :: "int \<Rightarrow> int \<Rightarrow> int" where
  "month_days y m = (\<Sum>k \<leftarrow> [1 .. m - 1]. days_of_month k y)"

definition day_no :: "datetime_t \<Rightarrow> int" where
  "day_no dt = year_days (year dt) + month_days (year dt) (month dt) + day dt"

definition valid_date :: "datetime_t \<Rightarrow> bool" where
  "valid_date dt \<longleftrightarrow> 1 \<le> month dt \<and> month dt \<le> 12 \<and> 1 \<le> day dt \<and> day dt \<le> days_of_month (month dt) (year dt)"

text \<open>The fields the loops leave alone.\<close>

definition time_of_day :: "datetime_t \<Rightarrow> int \<times> int \<times> int \<times> int" where
  "time_of_day dt = (hour dt, minutes dt, sec dt, ms dt)"

lemma months: "1 \<le> m \<Longrightarrow> m \<le> 12 \<Longrightarrow> m \<in> {1, 2, 3, 4, 5, 6, 7, 8, 9, 10, 11, 12}" for m :: int
  by simp presburger

lemma days_of_month_bounds: "1 \<le> m \<Longrightarrow> m \<le> 12 \<Longrightarrow> 28 \<le> days_of_month m y \<and> days_of_month m y \<le> 31"
  by (drule (1) months) (auto simp: days_of_month_def s_days_def Let_def)

lemma month_days_step: "1 \<le> m \<Longrightarrow> month_days y (m + 1) = month_days y m + days_of_month m y"
  by (simp add: month_days_def upto_rec2 [of 1 m])

lemma month_days_1 [simp]: "month_days y 1 = 0"
  by (simp add: month_days_def)

lemma month_days_year: "month_days y 13 = (if IS_LEAP_YEAR y then 366 else 365)"
  by (simp add: month_days_def upto.simps days_of_month_def s_days_def Let_def)

lemma div_step: "0 < k \<Longrightarrow> y div k = (y - 1) div k + (if k dvd y then 1 else 0)" for y k :: int
proof (cases "k dvd y")
  case True
  assume k: "0 < k"
  obtain q where q: "y = k * q" using True by (auto elim: dvdE)
  have "(y - 1) div k = q - 1" by (rule int_div_pos_eq [of _ _ _ "k - 1"]) (use k q in \<open>auto simp: algebra_simps\<close>)
  then show ?thesis using True q k by simp
next
  case False
  assume k: "0 < k"
  have "0 < y mod k" "y mod k < k" using False k pos_mod_sign [OF k, of y] pos_mod_bound [OF k, of y] by (auto simp: dvd_eq_mod_eq_0 order_less_le)
  then have "(y - 1) div k = y div k" by (intro int_div_pos_eq [of _ _ _ "y mod k - 1"]) auto
  then show ?thesis using False by simp
qed

lemma year_days_step: "year_days (y + 1) = year_days y + (if IS_LEAP_YEAR y then 366 else 365)"
proof -
  have "400 dvd y \<Longrightarrow> 100 dvd y" "100 dvd y \<Longrightarrow> 4 dvd y" using dvd_trans [of 100 400 y] dvd_trans [of 4 100 y] by simp_all
  moreover have "IS_LEAP_YEAR y \<longleftrightarrow> (4 dvd y \<and> \<not> 100 dvd y) \<or> 400 dvd y" by (simp only: IS_LEAP_YEAR_def dvd_eq_mod_eq_0)
  ultimately have c: "(if 4 dvd y then 1 else 0) - (if 100 dvd y then 1 else 0) + (if 400 dvd y then 1 else 0) = (if IS_LEAP_YEAR y then 1 else 0 :: int)"
    by (auto simp only: if_True if_False split: if_split)
  have "year_days (y + 1) = 365 * y + 365 + y div 4 - y div 100 + y div 400" by (simp add: year_days_def)
  also have "\<dots> = year_days y + 365 + ((if 4 dvd y then 1 else 0) - (if 100 dvd y then 1 else 0) + (if 400 dvd y then 1 else 0))"
    by (simp only: div_step [of 4 y, simplified] div_step [of 100 y, simplified] div_step [of 400 y, simplified] year_days_def algebra_simps)
  finally show ?thesis unfolding c by simp
qed

text \<open>The first day of the next month follows the last day of this one.\<close>

definition next_month :: "datetime_t \<Rightarrow> datetime_t" where
  "next_month dt = (if 12 < month dt + 1 then dt\<lparr>month := 1, year := year dt + 1\<rparr> else dt\<lparr>month := month dt + 1\<rparr>)"

definition prev_month :: "datetime_t \<Rightarrow> datetime_t" where
  "prev_month dt = (if month dt - 1 = 0 then dt\<lparr>month := 12, year := year dt - 1\<rparr> else dt\<lparr>month := month dt - 1\<rparr>)"

lemma next_month_start:
  assumes "1 \<le> month dt" and "month dt \<le> 12"
  shows "year_days (year (next_month dt)) + month_days (year (next_month dt)) (month (next_month dt)) =
     year_days (year dt) + month_days (year dt) (month dt) + days_of_month (month dt) (year dt)"
    "1 \<le> month (next_month dt)" "month (next_month dt) \<le> 12" "day (next_month dt) = day dt"
  using assms month_days_step [of "month dt" "year dt"] month_days_year [of "year dt"] year_days_step [of "year dt"]
  by (auto simp: next_month_def split: if_splits)

lemma prev_month_start:
  assumes "1 \<le> month dt" and "month dt \<le> 12"
  shows "year_days (year (prev_month dt)) + month_days (year (prev_month dt)) (month (prev_month dt)) + days_of_month (month (prev_month dt)) (year (prev_month dt)) =
     year_days (year dt) + month_days (year dt) (month dt)"
    "1 \<le> month (prev_month dt)" "month (prev_month dt) \<le> 12" "day (prev_month dt) = day dt"
  using assms month_days_step [of "month dt - 1" "year dt"] month_days_step [of 12 "year dt - 1"] month_days_year [of "year dt - 1"] year_days_step [of "year dt - 1"]
  by (auto simp: prev_month_def split: if_splits)

lemma future_loop_day_no:
  "valid_date dt \<Longrightarrow> 0 \<le> sub \<Longrightarrow> day dt + sub < 2 ^ 31 \<Longrightarrow> \<exists>dt'. future_loop dt sub = Some dt' \<and> valid_date dt' \<and> day_no dt' = day_no dt + sub \<and> time_of_day dt' = time_of_day dt"
proof (induction "nat sub" arbitrary: dt sub rule: less_induct)
  case less
  let ?m = "days_of_month (month dt) (year dt)"
  show ?case
  proof (cases "sub = 0 \<or> day dt + sub \<le> ?m")
    case True
    then show ?thesis using less.prems by (subst future_loop.simps) (auto simp: Let_def valid_date_def day_no_def time_of_day_def)
  next
    case False
    define d where "d = (next_month dt)\<lparr>day := 1\<rparr>"
    define sub' where "sub' = sub - (?m - day dt + 1)"
    have v: "1 \<le> month dt" "month dt \<le> 12" "1 \<le> day dt" "day dt \<le> ?m" using less.prems(1) by (auto simp: valid_date_def)
    note n = next_month_start [OF v(1,2)]
    have s': "0 \<le> sub'" "nat sub' < nat sub" using False v less.prems(2) by (auto simp: sub'_def)
    have vd: "valid_date d" using n days_of_month_bounds [OF n(2,3), of "year (next_month dt)"] by (simp add: valid_date_def d_def)
    have "future_loop dt sub = future_loop d sub'"
      using False less.prems(3) by (subst future_loop.simps) (simp add: Let_def d_def next_month_def sub'_def)
    moreover have "day d + sub' < 2 ^ 31" using less.prems v by (simp add: d_def sub'_def)
    moreover have "day_no d + sub' = day_no dt + sub" using n(1) by (simp add: day_no_def d_def sub'_def)
    moreover have "time_of_day d = time_of_day dt" by (simp add: d_def next_month_def time_of_day_def)
    ultimately show ?thesis using less.hyps [OF s'(2) vd s'(1)] by auto
  qed
qed

lemma past_loop_day_no:
  "valid_date dt \<Longrightarrow> 0 \<le> sub \<Longrightarrow> \<exists>dt'. past_loop dt sub = Some dt' \<and> valid_date dt' \<and> day_no dt' = day_no dt - sub \<and> time_of_day dt' = time_of_day dt"
proof (induction "nat sub" arbitrary: dt sub rule: less_induct)
  case less
  show ?case
  proof (cases "sub = 0 \<or> sub < day dt")
    case True
    then show ?thesis using less.prems by (subst past_loop.simps) (auto simp: valid_date_def day_no_def time_of_day_def)
  next
    case False
    define d where "d = (prev_month dt)\<lparr>day := days_of_month (month (prev_month dt)) (year (prev_month dt))\<rparr>"
    have v: "1 \<le> month dt" "month dt \<le> 12" "1 \<le> day dt" using less.prems(1) by (auto simp: valid_date_def)
    note n = prev_month_start [OF v(1,2)]
    have s': "0 \<le> sub - day dt" "nat (sub - day dt) < nat sub" using False v by auto
    have vd: "valid_date d" using n days_of_month_bounds [OF n(2,3), of "year (prev_month dt)"] by (simp add: valid_date_def d_def)
    have "past_loop dt sub = past_loop d (sub - day dt)"
      using False by (subst past_loop.simps) (simp add: Let_def d_def prev_month_def)
    moreover have "day_no d - (sub - day dt) = day_no dt - sub" using n(1) by (simp add: day_no_def d_def)
    moreover have "time_of_day d = time_of_day dt" by (simp add: d_def prev_month_def time_of_day_def)
    ultimately show ?thesis using less.hyps [OF s'(2) vd s'(1)] by auto
  qed
qed

text \<open>A date is determined by its day number: months are intervals of day numbers, in order.\<close>

definition month_start :: "int \<Rightarrow> int" where
  "month_start k = year_days (k div 12) + month_days (k div 12) (k mod 12 + 1)"

lemma month_start_step: "month_start (k + 1) = month_start k + days_of_month (k mod 12 + 1) (k div 12)"
proof (cases "k mod 12 = 11")
  case True
  define q where "q = k div 12"
  have "k = 12 * q + 11" using True mult_div_mod_eq [of 12 k] unfolding q_def by metis
  then have "(k + 1) div 12 = k div 12 + 1" "(k + 1) mod 12 = 0" by simp_all
  then show ?thesis using True month_days_step [of 12 "k div 12"] month_days_year [of "k div 12"] year_days_step [of "k div 12"]
    by (simp add: month_start_def)
next
  case False
  moreover have "k mod 12 < 12" "0 \<le> k mod 12" by simp_all
  ultimately have b: "k + 1 = 12 * (k div 12) + (k mod 12 + 1)" "0 \<le> k mod 12 + 1" "k mod 12 + 1 < 12" using mult_div_mod_eq [of 12 k] by linarith+
  have "(k + 1) div 12 = k div 12" "(k + 1) mod 12 = k mod 12 + 1" by (rule int_div_pos_eq [OF b] int_mod_pos_eq [OF b])+
  then show ?thesis using month_days_step [of "k mod 12 + 1" "k div 12"] by (simp add: month_start_def)
qed

lemma month_start_mono: "k \<le> l \<Longrightarrow> month_start k \<le> month_start l"
proof (induction l rule: int_ge_induct)
  case (step l)
  have "1 \<le> l mod 12 + 1" "l mod 12 + 1 \<le> 12" using pos_mod_bound [of 12 l] pos_mod_sign [of 12 l] by linarith+
  from days_of_month_bounds [OF this, of "l div 12"] show ?case using step month_start_step [of l] by linarith
qed simp

lemma day_no_month:
  assumes "valid_date dt" and k: "k = 12 * year dt + month dt - 1"
  shows "month_start k < day_no dt" "day_no dt \<le> month_start (k + 1)" "day_no dt = month_start k + day dt"
proof -
  have b: "k = 12 * year dt + (month dt - 1)" "0 \<le> month dt - 1" "month dt - 1 < 12" using assms by (auto simp: valid_date_def)
  have m: "k div 12 = year dt" "k mod 12 + 1 = month dt" using int_div_pos_eq [OF b] int_mod_pos_eq [OF b] by simp_all
  show "month_start k < day_no dt" "day_no dt \<le> month_start (k + 1)" "day_no dt = month_start k + day dt"
    unfolding month_start_step unfolding month_start_def m using assms(1) by (auto simp: day_no_def valid_date_def)
qed

lemma day_no_inj:
  assumes "valid_date d" and "valid_date e" and "day_no d = day_no e"
  shows "year d = year e" "month d = month e" "day d = day e"
proof -
  define k l where "k = 12 * year d + month d - 1" and "l = 12 * year e + month e - 1"
  note d = day_no_month [OF assms(1) k_def] and e = day_no_month [OF assms(2) l_def]
  have "\<not> k < l" using month_start_mono [of "k + 1" l] d e assms(3) by linarith
  moreover have "\<not> l < k" using month_start_mono [of "l + 1" k] d e assms(3) by linarith
  ultimately have "k = l" by simp
  moreover have "1 \<le> month d" "month d \<le> 12" "1 \<le> month e" "month e \<le> 12" using assms by (simp_all add: valid_date_def)
  ultimately have y: "year d = year e" unfolding k_def l_def by presburger
  with \<open>k = l\<close> show "month d = month e" "day d = day e" using assms(3) d(3) e(3) by (simp_all add: k_def l_def)
  show "year d = year e" by (rule y)
qed

lemma date_eqI:
  assumes "valid_date d" and "valid_date e" and "day_no d = day_no e" and "time_of_day d = time_of_day e"
  shows "d = e"
  using day_no_inj [OF assms(1-3)] assms(4) by (simp add: time_of_day_def)

text \<open>The names of weekdays are read back as the numbers they were printed for; 7 is Sunday too.\<close>

lemma weekday_names_all: "list_all (\<lambda>w. case weekday_itoa w of None \<Rightarrow> False | Some s \<Rightarrow> weekday_atoi s = w mod 7) [0 .. 7]"
  by code_simp

lemma weekday_names: "0 \<le> w \<Longrightarrow> w \<le> 7 \<Longrightarrow> \<exists>s. weekday_itoa w = Some s \<and> weekday_atoi s = w mod 7"
  using weekday_names_all by (fastforce simp: list_all_iff split: option.splits)

section \<open>The period of a timer\<close>

text \<open>
  What the C library documents of \<open>localtime\<close> and \<open>mktime\<close>, for a day on which the clock is not
  changed: \<open>lt\<close> is the local time at \<open>tt\<close>, and another time of that day lies as many seconds
  away as the clock says.
\<close>

definition local_day :: "int \<Rightarrow> tm \<Rightarrow> (tm \<Rightarrow> int \<times> tm) \<Rightarrow> bool" where
  "local_day tt lt mktime \<longleftrightarrow>
     0 \<le> tm_sec lt \<and> tm_sec lt < 60 \<and> 0 \<le> tm_min lt \<and> tm_min lt < 60 \<and> 0 \<le> tm_hour lt \<and> tm_hour lt < 24 \<and>
     0 \<le> tm_wday lt \<and> tm_wday lt < 7 \<and>
     (\<forall>m\<in>{0..59}. \<forall>h\<in>{0..23}. fst (mktime (lt\<lparr>tm_sec := 0, tm_min := m, tm_hour := h\<rparr>)) =
          tt - tm_sec lt + 60 * (m - tm_min lt) + 3600 * (h - tm_hour lt) \<and>
        tm_wday (snd (mktime (lt\<lparr>tm_sec := 0, tm_min := m, tm_hour := h\<rparr>))) = tm_wday lt)"

definition cron_period :: "int \<Rightarrow> int \<Rightarrow> int \<Rightarrow> int" where
  "cron_period m h w = (if 0 \<le> w then 604800 else if 0 \<le> h then 86400 else if 0 \<le> m then 3600 else 60)"

lemma cron_fields_day:
  assumes "c_day \<le> 0"
  shows "cron_fields lt m h c_day w mo =
     (if 0 \<le> w then WEEKLY else if 0 \<le> h then DAILY else if 0 \<le> m then HOURLY else MINUTELY,
      lt\<lparr>tm_sec := 0, tm_min := if 0 \<le> m then m else tm_min lt, tm_hour := if 0 \<le> h then h else tm_hour lt\<rparr>)"
  using assms by (simp add: cron_fields_def)

lemma cron_day:
  fixes w :: int
  assumes ld: "local_day tt lt mktime" and f: "m < 60" "h < 24" "c_day \<le> 0"
  defines "m' \<equiv> if 0 \<le> m then m else tm_min lt" and "h' \<equiv> if 0 \<le> h then h else tm_hour lt"
  defines "r \<equiv> tt - tm_sec lt + 60 * (m' - tm_min lt) + 3600 * (h' - tm_hour lt) + (if 0 \<le> w then 86400 * (w - tm_wday lt) else 0)"
  shows "cron_next_timeout tt lt mktime m h c_day w mo = (if tt < r then r else r + cron_period m h w)"
proof -
  have b: "m' \<in> {0..59}" "h' \<in> {0..23}" using ld f by (auto simp: m'_def h'_def local_day_def)
  obtain r0 t' where mk: "mktime (lt\<lparr>tm_sec := 0, tm_min := m', tm_hour := h'\<rparr>) = (r0, t')" by fastforce
  have "r0 = tt - tm_sec lt + 60 * (m' - tm_min lt) + 3600 * (h' - tm_hour lt)" "tm_wday t' = tm_wday lt"
    using ld b mk unfolding local_day_def by force+
  then show ?thesis using mk
    by (simp add: cron_next_timeout_def cron_fields_day [OF f(3)] m'_def [symmetric] h'_def [symmetric] r_def cron_period_def mult.commute)
qed

section \<open>Properties\<close>

text \<open>\<open>datetime_future\<close> returns, for every date and every number of days whose sum with the day
  fits an \<open>int\<close>, a date that exists, whose day number is that many days later, with the same time of day.\<close>

theorem datetime_future_adds:
  assumes "valid_date dt" and "0 \<le> days" and "day dt + days < 2 ^ 31"
  shows "\<exists>dt'. datetime_future dt days = Some dt' \<and> valid_date dt' \<and> day_no dt' = day_no dt + days \<and> time_of_day dt' = time_of_day dt"
  using future_loop_day_no [OF assms] assms(2) by (simp add: datetime_future_def)

definition demo_date :: datetime_t where
  "demo_date = \<lparr>year = 2023, month = 12, day = 31, hour = 23, minutes = 5, sec = 6, ms = 7\<rparr>"

lemma demo_date_valid: "valid_date demo_date"
  by (simp add: demo_date_def valid_date_def days_of_month_def s_days_def)

theorem datetime_future_adds_witness:
  "\<exists>dt'. datetime_future demo_date 60 = Some dt' \<and> valid_date dt' \<and> day_no dt' = day_no demo_date + 60 \<and> time_of_day dt' = time_of_day demo_date"
  by (rule datetime_future_adds [OF demo_date_valid]) (simp_all add: demo_date_def)

text \<open>Going forward and back by the same number of days returns the date itself.\<close>

theorem datetime_future_past:
  assumes "valid_date dt" and "0 \<le> days" and "day dt + days < 2 ^ 31"
  shows "\<exists>dt'. datetime_future dt days = Some dt' \<and> datetime_past dt' days = Some dt"
proof -
  obtain e where e: "future_loop dt days = Some e" "valid_date e" "day_no e = day_no dt + days" "time_of_day e = time_of_day dt"
    using future_loop_day_no [OF assms] by blast
  obtain d where d: "past_loop e days = Some d" "valid_date d" "day_no d = day_no e - days" "time_of_day d = time_of_day e"
    using past_loop_day_no [OF e(2) assms(2)] by blast
  have "d = dt" using d e by (intro date_eqI [OF d(2) assms(1)]) auto
  then show ?thesis using d e assms(2) by (simp add: datetime_future_def datetime_past_def)
qed

theorem datetime_future_past_witness:
  "\<exists>dt'. datetime_future demo_date 366 = Some dt' \<and> datetime_past dt' 366 = Some demo_date"
  by (rule datetime_future_past [OF demo_date_valid]) (simp_all add: demo_date_def)

text \<open>C35. For a minutely, hourly, daily or weekly timer, on a day on which the clock is not changed, the
  next timeout lies in the future, at most one period away, and on the minute, hour and weekday asked
  for: counted from the start of the week (Sunday, local time) it is the time asked for, up to whole
  periods.\<close>

theorem cron_next_timeout_next:
  assumes "local_day tt lt mktime" and "-1 \<le> m" and "m < 60" and "-1 \<le> h" and "h < 24" and "-1 \<le> w" and "w < 7" and "c_day \<le> 0"
    and "r = cron_next_timeout tt lt mktime m h c_day w mo" and "p = cron_period m h w"
    and "week_start = tt - tm_sec lt - 60 * tm_min lt - 3600 * tm_hour lt - 86400 * tm_wday lt"
  shows "tt < r \<and> r \<le> tt + p \<and>
    (r - week_start) mod p = (86400 * max w 0 + 3600 * (if 0 \<le> h then h else tm_hour lt) + 60 * (if 0 \<le> m then m else tm_min lt)) mod p"
proof -
  define m' where "m' = (if 0 \<le> m then m else tm_min lt)"
  define h' where "h' = (if 0 \<le> h then h else tm_hour lt)"
  define r1 where "r1 = tt - tm_sec lt + 60 * (m' - tm_min lt) + 3600 * (h' - tm_hour lt) + (if 0 \<le> w then 86400 * (w - tm_wday lt) else 0)"
  have r: "r = (if tt < r1 then r1 else r1 + p)"
    unfolding assms(9,10) using cron_day [OF assms(1,3,5,8)] by (simp add: r1_def m'_def h'_def)
  have lt: "0 \<le> tm_sec lt" "tm_sec lt < 60" "0 \<le> tm_min lt" "tm_min lt < 60" "0 \<le> tm_hour lt" "tm_hour lt < 24" "0 \<le> tm_wday lt" "tm_wday lt < 7"
    using assms(1) by (auto simp: local_day_def)
  have b: "tt - p < r1" "r1 \<le> tt + p"
    using lt assms(2-7) by (auto simp: r1_def m'_def h'_def assms(10) cron_period_def)
  have e: "r1 - week_start = 86400 * max w 0 + 3600 * h' + 60 * m' + (if 0 \<le> w then 0 else 86400 * tm_wday lt)"
    by (simp add: r1_def assms(11))
  have "0 \<le> w \<or> p dvd 86400 * tm_wday lt" by (auto simp: assms(10) cron_period_def)
  then have "(r1 - week_start) mod p = (86400 * max w 0 + 3600 * h' + 60 * m') mod p"
    unfolding e by (cases "0 \<le> w") (auto elim!: dvdE)
  moreover have "(r1 + p - week_start) mod p = (r1 - week_start) mod p"
    using mod_add_self2 [of "r1 - week_start" p] by (simp add: algebra_simps)
  ultimately show ?thesis using r b by (simp add: m'_def h'_def)
qed

text \<open>A library whose local time is UTC: \<open>mktime\<close> counts from the first of the month, so that a day the
  month does not have falls into the next one.\<close>

definition first_of_month :: "tm \<Rightarrow> datetime_t" where
  "first_of_month t = \<lparr>year = tm_year t + 1900, month = tm_mon t + 1, day = 1, hour = 0, minutes = 0, sec = 0, ms = 0\<rparr>"

definition mktime_utc :: "tm \<Rightarrow> int \<times> tm" where
  "mktime_utc t =
     (let first = first_of_month t;
          days = day_no first + tm_mday t - 1 - 719528
      in (86400 * days + 3600 * tm_hour t + 60 * tm_min t + tm_sec t,
          case datetime_future first (tm_mday t - 1) of
            None \<Rightarrow> t
          | Some d \<Rightarrow> t\<lparr>tm_mday := day d, tm_mon := month d - 1, tm_year := year d - 1900, tm_wday := (days + 4) mod 7\<rparr>))"

text \<open>Saturday, 15 April 2023, 10:30:20.\<close>

definition demo_tm :: tm where
  "demo_tm = \<lparr>tm_sec = 20, tm_min = 30, tm_hour = 10, tm_mday = 15, tm_mon = 3, tm_year = 123, tm_wday = 6, tm_isdst = 0\<rparr>"

lemmas utc_simps = mktime_utc_def first_of_month_def day_no_def year_days_def month_days_def upto.simps days_of_month_def s_days_def IS_LEAP_YEAR_def

lemma epoch: "fst (mktime_utc \<lparr>tm_sec = 0, tm_min = 0, tm_hour = 0, tm_mday = 1, tm_mon = 0, tm_year = 70, tm_wday = 0, tm_isdst = 0\<rparr>) = 0"
  by (simp add: utc_simps Let_def)

lemma demo_mktime:
  "fst (mktime_utc (demo_tm\<lparr>tm_sec := s, tm_min := m, tm_hour := h\<rparr>)) = 1681516800 + 3600 * h + 60 * m + s"
  "tm_wday (snd (mktime_utc (demo_tm\<lparr>tm_sec := s, tm_min := m, tm_hour := h\<rparr>))) = 6"
  by (simp_all add: utc_simps demo_tm_def Let_def datetime_future_def future_loop.simps [of _ 14])

lemma demo_local_day: "local_day 1681554620 demo_tm mktime_utc"
  unfolding local_day_def demo_mktime by (simp add: demo_tm_def)

theorem cron_next_timeout_next_witness:
  "1681554620 < cron_next_timeout 1681554620 demo_tm mktime_utc 30 1 0 (-1) (-1) \<and>
   cron_next_timeout 1681554620 demo_tm mktime_utc 30 1 0 (-1) (-1) \<le> 1681554620 + 86400 \<and>
   (cron_next_timeout 1681554620 demo_tm mktime_utc 30 1 0 (-1) (-1) - 1680998400) mod 86400 = 5400"
  using cron_next_timeout_next [OF demo_local_day, of 30 1 "-1" 0 _ "-1" _ 1680998400, OF _ _ _ _ _ _ _ refl refl]
  by (simp add: cron_period_def demo_tm_def)

text \<open>A monthly timer for the 31st that is armed in a month of 30 days is due on the first of the next
  month: \<open>mktime\<close> moves the day that does not exist, and the code takes its answer. (The comment of
  \<open>cron_next_timeout\<close> admits the days 1 to 31.)\<close>

theorem cron_monthly_short_month:
  "cron_next_timeout 1681554620 demo_tm mktime_utc 0 0 31 (-1) (-1) =
     fst (mktime_utc (demo_tm\<lparr>tm_sec := 0, tm_min := 0, tm_hour := 0, tm_mday := 1, tm_mon := 4\<rparr>))"
  by (simp add: cron_next_timeout_def cron_fields_def utc_simps demo_tm_def Let_def)

end
