(* ===== verification/Event_Loop.thy ===== *)
theory Event_Loop
  imports Timer_Heap Htime "HOL-Library.Monad_Syntax"
begin

text \<open>
  The event loop of \<open>src/libs/libhv/event/hloop.c\<close>: idle events, timers, the lists of pending
  events and one pass of the loop, with the macros of \<open>event/hevent.h\<close>.

  Events live in \<open>mem\<close>; an address outside its domain is memory that was freed or never
  allocated, and touching it gives \<open>None\<close>, as do the failed assertions and endless loops of the
  timer heap. The \<open>node\<close> of a timer is in the heap its type selects. The list \<open>idles\<close> is the
  doubly linked list from its head. The clocks, the calendar of the C library, the poller and the
  callbacks are arguments. \<open>called\<close> records which callbacks have been invoked, in order.
\<close>

section \<open>Events\<close>

datatype hevent_type_e = HEVENT_TYPE_NONE | HEVENT_TYPE_IO | HEVENT_TYPE_TIMEOUT | HEVENT_TYPE_PERIOD | HEVENT_TYPE_IDLE | HEVENT_TYPE_CUSTOM

datatype hloop_status_e = HLOOP_STATUS_STOP | HLOOP_STATUS_RUNNING | HLOOP_STATUS_PAUSE

record hevent =
  event_type :: hevent_type_e
  priority :: int
  repeat :: u32
  next_timeout :: u64
  timeout :: u32
  cron :: "int \<times> int \<times> int \<times> int \<times> int"
  has_cb :: bool
  destroy :: bool
  active :: bool
  pending :: bool
  pending_next :: "addr option"

record hloop =
  lstatus :: hloop_status_e
  start_ms :: u64
  start_hrtime :: u64
  cur_hrtime :: u64
  nactives :: u32
  npendings :: u32
  pendings :: "int \<Rightarrow> addr option"
  idles :: "addr list"
  nidles :: u32
  timers :: heap
  realtimers :: heap
  ntimers :: u32
  nios :: u32
  mem :: "addr \<rightharpoonup> hevent"
  called :: "addr list"

definition INFINITE :: u32 where
  "INFINITE = - 1"

definition HEVENT_PRIORITY_INDEX :: "int \<Rightarrow> int" where
  "HEVENT_PRIORITY_INDEX p = p - (- 5)"

text \<open>Memory from \<open>HV_ALLOC\<close> is zero.\<close>

definition zero_event :: hevent where
  "zero_event = \<lparr>event_type = HEVENT_TYPE_NONE, priority = 0, repeat = 0, next_timeout = 0, timeout = 0, cron = (0, 0, 0, 0, 0),
     has_cb = False, destroy = False, active = False, pending = False, pending_next = None\<rparr>"

definition put_event :: "addr \<Rightarrow> hevent \<Rightarrow> hloop \<Rightarrow> hloop" where
  "put_event a e l = l\<lparr>mem := (mem l)(a \<mapsto> e)\<rparr>"

definition EVENT_ACTIVE :: "addr \<Rightarrow> hloop \<Rightarrow> hloop option" where
  "EVENT_ACTIVE a l = do {
     e \<leftarrow> mem l a;
     Some (if active e then l else put_event a (e\<lparr>active := True\<rparr>) (l\<lparr>nactives := nactives l + 1\<rparr>)) }"

definition EVENT_INACTIVE :: "addr \<Rightarrow> hloop \<Rightarrow> hloop option" where
  "EVENT_INACTIVE a l = do {
     e \<leftarrow> mem l a;
     Some (if active e then put_event a (e\<lparr>active := False\<rparr>) (l\<lparr>nactives := nactives l - 1\<rparr>) else l) }"

definition EVENT_PENDING :: "addr \<Rightarrow> hloop \<Rightarrow> hloop option" where
  "EVENT_PENDING a l = do {
     e \<leftarrow> mem l a;
     Some (if pending e then l
           else let i = HEVENT_PRIORITY_INDEX (priority e)
                in put_event a (e\<lparr>pending := True, pending_next := pendings l i\<rparr>)
                     (l\<lparr>npendings := npendings l + 1, pendings := (pendings l)(i := Some a)\<rparr>)) }"

definition EVENT_ADD :: "addr \<Rightarrow> bool \<Rightarrow> hloop \<Rightarrow> hloop option" where
  "EVENT_ADD a cb l = do {
     e \<leftarrow> mem l a;
     EVENT_ACTIVE a (put_event a (e\<lparr>has_cb := cb\<rparr>) l) }"

definition EVENT_DEL :: "addr \<Rightarrow> hloop \<Rightarrow> hloop option" where
  "EVENT_DEL a l = do {
     l \<leftarrow> EVENT_INACTIVE a l;
     e \<leftarrow> mem l a;
     Some (if pending e then l else l\<lparr>mem := (mem l)(a := None)\<rparr>) }"

definition EVENT_RESET :: "addr \<Rightarrow> hloop \<Rightarrow> hloop option" where
  "EVENT_RESET a l = do {
     e \<leftarrow> mem l a;
     l \<leftarrow> EVENT_ACTIVE a (put_event a (e\<lparr>destroy := False\<rparr>) l);
     e \<leftarrow> mem l a;
     Some (put_event a (e\<lparr>pending := False\<rparr>) l) }"

section \<open>Time\<close>

text \<open>The answers of \<open>gethrtime_us\<close>, \<open>time\<close> and \<open>gettimeofday_ms\<close>.\<close>

record clock =
  clk_hrtime :: u64
  clk_time :: u64
  clk_ms :: u64

text \<open>What \<open>cron_next_timeout\<close> asks the C library.\<close>

record systime =
  st_time :: int
  st_local :: tm
  st_mktime :: "tm \<Rightarrow> int \<times> tm"

definition hloop_now :: "hloop \<Rightarrow> u64" where
  "hloop_now l = start_ms l div 1000 + (cur_hrtime l - start_hrtime l) div 1000000"

definition hloop_now_ms :: "hloop \<Rightarrow> u64" where
  "hloop_now_ms l = start_ms l + (cur_hrtime l - start_hrtime l) div 1000"

definition hloop_now_us :: "hloop \<Rightarrow> u64" where
  "hloop_now_us l = start_ms l * 1000 + (cur_hrtime l - start_hrtime l)"

definition hloop_update_time :: "clock \<Rightarrow> hloop \<Rightarrow> hloop" where
  "hloop_update_time c l =
     (let l1 = l\<lparr>cur_hrtime := clk_hrtime c\<rparr>
      in if hloop_now l1 \<noteq> clk_time c
         then l1\<lparr>start_ms := clk_ms c - (cur_hrtime l1 - start_hrtime l1) div 1000\<rparr>
         else l1)"

text \<open>\<open>hloop_new\<close> with \<open>hloop_init\<close>: zeroed memory, empty heaps, the start of the clocks.\<close>

definition zero_heap :: heap where
  "zero_heap = \<lparr>root = None, nelts = 0, hparent = (\<lambda>_. None), hleft = (\<lambda>_. None), hright = (\<lambda>_. None)\<rparr>"

definition hloop_new :: "clock \<Rightarrow> hloop" where
  "hloop_new c =
     \<lparr>lstatus = HLOOP_STATUS_STOP, start_ms = clk_ms c, start_hrtime = clk_hrtime c, cur_hrtime = clk_hrtime c,
      nactives = 0, npendings = 0, pendings = (\<lambda>_. None), idles = [], nidles = 0,
      timers = heap_init zero_heap, realtimers = heap_init zero_heap, ntimers = 0, nios = 0, mem = Map.empty, called = []\<rparr>"

section \<open>Idle events\<close>

definition hidle_add :: "addr \<Rightarrow> bool \<Rightarrow> u32 \<Rightarrow> hloop \<Rightarrow> (addr \<times> hloop) option" where
  "hidle_add new cb rep l = do {
     l \<leftarrow> Some (put_event new (zero_event\<lparr>event_type := HEVENT_TYPE_IDLE, priority := - 5, repeat := rep\<rparr>) (l\<lparr>idles := new # idles l\<rparr>));
     l \<leftarrow> EVENT_ADD new cb l;
     Some (new, l\<lparr>nidles := nidles l + 1\<rparr>) }"

definition hidle_unlink :: "addr \<Rightarrow> hloop \<Rightarrow> hloop option" where
  "hidle_unlink a l = do {
     e \<leftarrow> mem l a;
     Some (if destroy e then l
           else (put_event a (e\<lparr>destroy := True\<rparr>) l)\<lparr>idles := remove1 a (idles l), nidles := nidles l - 1\<rparr>) }"

definition hidle_del :: "addr \<Rightarrow> hloop \<Rightarrow> hloop option" where
  "hidle_del a l = do {
     e \<leftarrow> mem l a;
     if active e then do { l \<leftarrow> hidle_unlink a l; EVENT_DEL a l } else Some l }"

text \<open>The next node is read before the current one can be unlinked, so the loop visits the nodes of the list as it was.\<close>

fun process_idles :: "addr list \<Rightarrow> nat \<Rightarrow> hloop \<Rightarrow> (nat \<times> hloop) option" where
  "process_idles [] n l = Some (n, l)"
| "process_idles (a # rest) n l = do {
     e \<leftarrow> mem l a;
     e \<leftarrow> Some (if repeat e \<noteq> INFINITE then e\<lparr>repeat := repeat e - 1\<rparr> else e);
     l \<leftarrow> Some (put_event a e l);
     l \<leftarrow> (if repeat e = 0 then hidle_unlink a l else Some l);
     l \<leftarrow> EVENT_PENDING a l;
     process_idles rest (n + 1) l }"

definition hloop_process_idles :: "hloop \<Rightarrow> (nat \<times> hloop) option" where
  "hloop_process_idles l = process_idles (idles l) 0 l"

section \<open>Timers\<close>

definition tkey :: "hloop \<Rightarrow> addr \<Rightarrow> u64" where
  "tkey l a = (case mem l a of None \<Rightarrow> 0 | Some e \<Rightarrow> next_timeout e)"

definition timers_compare :: "hloop \<Rightarrow> addr \<Rightarrow> addr \<Rightarrow> bool" where
  "timers_compare l a b \<longleftrightarrow> tkey l a < tkey l b"

text \<open>A timeout of whole tenths of a second is due at a multiple of 100 ms.\<close>

definition timeout_after :: "u64 \<Rightarrow> u32 \<Rightarrow> u64" where
  "timeout_after now t =
     (let next = now + ucast t * 1000
      in if 1000 \<le> t \<and> t mod 100 = 0 then next div 100000 * 100000 else next)"

definition htimer_add :: "clock \<Rightarrow> addr \<Rightarrow> bool \<Rightarrow> u32 \<Rightarrow> u32 \<Rightarrow> hloop \<Rightarrow> (addr option \<times> hloop) option" where
  "htimer_add c new cb t rep l0 =
     (if t = 0 then Some (None, l0)
      else do {
        let l = hloop_update_time c l0;
        let l = put_event new (zero_event\<lparr>event_type := HEVENT_TYPE_TIMEOUT, priority := 5, repeat := rep, timeout := t,
                          next_timeout := timeout_after (cur_hrtime l) t\<rparr>) l;
        h \<leftarrow> heap_insert (Some (timers_compare l)) (clear_node new (timers l)) new;
        l \<leftarrow> EVENT_ADD new cb (l\<lparr>timers := h\<rparr>);
        Some (Some new, l\<lparr>ntimers := ntimers l + 1\<rparr>) })"

definition htimer_reset :: "addr \<Rightarrow> u32 \<Rightarrow> hloop \<Rightarrow> hloop option" where
  "htimer_reset a t l = do {
     e \<leftarrow> mem l a;
     if event_type e \<noteq> HEVENT_TYPE_TIMEOUT then Some l
     else do {
       l \<leftarrow> (if destroy e then Some (l\<lparr>ntimers := ntimers l + 1\<rparr>)
             else do { h \<leftarrow> heap_remove (Some (timers_compare l)) (timers l) (Some a); Some (l\<lparr>timers := h\<rparr>) });
       let e = e\<lparr>repeat := if repeat e = 0 then 1 else repeat e, timeout := if 0 < t then t else timeout e\<rparr>;
       let l = put_event a (e\<lparr>next_timeout := timeout_after (cur_hrtime l) (timeout e)\<rparr>) l;
       h \<leftarrow> heap_insert (Some (timers_compare l)) (timers l) a;
       EVENT_RESET a (l\<lparr>timers := h\<rparr>) } }"

definition period_next :: "systime \<Rightarrow> int \<times> int \<times> int \<times> int \<times> int \<Rightarrow> u64" where
  "period_next st c = (case c of (m, h, d, w, mo) \<Rightarrow>
     word_of_int (cron_next_timeout (st_time st) (st_local st) (st_mktime st) m h d w mo) * 1000000)"

definition htimer_add_period ::
  "systime \<Rightarrow> addr \<Rightarrow> bool \<Rightarrow> int \<times> int \<times> int \<times> int \<times> int \<Rightarrow> u32 \<Rightarrow> hloop \<Rightarrow> (addr option \<times> hloop) option" where
  "htimer_add_period st new cb c rep l0 = (case c of (m, h, d, w, mo) \<Rightarrow>
     if 59 < m \<or> 23 < h \<or> 31 < d \<or> 6 < w \<or> 12 < mo then Some (None, l0)
     else do {
       let l = put_event new (zero_event\<lparr>event_type := HEVENT_TYPE_PERIOD, priority := 3, repeat := rep, cron := c, next_timeout := period_next st c\<rparr>) l0;
       h \<leftarrow> heap_insert (Some (timers_compare l)) (clear_node new (realtimers l)) new;
       l \<leftarrow> EVENT_ADD new cb (l\<lparr>realtimers := h\<rparr>);
       Some (Some new, l\<lparr>ntimers := ntimers l + 1\<rparr>) })"

text \<open>\<open>__htimer_del\<close>\<close>

definition htimer_unlink :: "addr \<Rightarrow> hloop \<Rightarrow> hloop option" where
  "htimer_unlink a l = do {
     e \<leftarrow> mem l a;
     if destroy e then Some l
     else do {
       l \<leftarrow> (case event_type e of
              HEVENT_TYPE_TIMEOUT \<Rightarrow> do { h \<leftarrow> heap_remove (Some (timers_compare l)) (timers l) (Some a); Some (l\<lparr>timers := h\<rparr>) }
            | HEVENT_TYPE_PERIOD \<Rightarrow> do { h \<leftarrow> heap_remove (Some (timers_compare l)) (realtimers l) (Some a); Some (l\<lparr>realtimers := h\<rparr>) }
            | _ \<Rightarrow> Some l);
       Some (put_event a (e\<lparr>destroy := True\<rparr>) (l\<lparr>ntimers := ntimers l - 1\<rparr>)) } }"

definition htimer_del :: "addr \<Rightarrow> hloop \<Rightarrow> hloop option" where
  "htimer_del a l = do {
     e \<leftarrow> mem l a;
     if active e then do { l \<leftarrow> htimer_unlink a l; EVENT_DEL a l } else Some l }"

section \<open>Timers that are due\<close>

text \<open>\<open>while (timer->next_timeout <= timeout) timer->next_timeout += ...\<close>\<close>

partial_function (option) rearm :: "u64 \<Rightarrow> u64 \<Rightarrow> u64 \<Rightarrow> u64 option" where
  "rearm now step next = (if next \<le> now then rearm now step (next + step) else Some next)"

text \<open>Which heap \<open>__hloop_process_timers\<close> is given.\<close>

datatype which_heap = Timers | Realtimers

definition heap_of :: "which_heap \<Rightarrow> hloop \<Rightarrow> heap" where
  "heap_of w l = (case w of Timers \<Rightarrow> timers l | Realtimers \<Rightarrow> realtimers l)"

definition set_heap :: "which_heap \<Rightarrow> heap \<Rightarrow> hloop \<Rightarrow> hloop" where
  "set_heap w h l = (case w of Timers \<Rightarrow> l\<lparr>timers := h\<rparr> | Realtimers \<Rightarrow> l\<lparr>realtimers := h\<rparr>)"

text \<open>A timer that will fire again: out of the heap, the next timeout, back into the heap.\<close>

definition reinsert :: "which_heap \<Rightarrow> systime \<Rightarrow> u64 \<Rightarrow> addr \<Rightarrow> hloop \<Rightarrow> hloop option" where
  "reinsert w st now a l = do {
     h \<leftarrow> heap_dequeue (Some (timers_compare l)) (heap_of w l);
     e \<leftarrow> mem l a;
     next \<leftarrow> (case event_type e of
                HEVENT_TYPE_TIMEOUT \<Rightarrow> rearm now (ucast (timeout e) * 1000) (next_timeout e)
              | HEVENT_TYPE_PERIOD \<Rightarrow> Some (period_next st (cron e))
              | _ \<Rightarrow> Some (next_timeout e));
     let l = put_event a (e\<lparr>next_timeout := next\<rparr>) l;
     h \<leftarrow> heap_insert (Some (timers_compare l)) h a;
     Some (set_heap w h l) }"

text \<open>One pass of the loop for the timer \<open>a\<close> at the root.\<close>

definition fire :: "which_heap \<Rightarrow> systime \<Rightarrow> u64 \<Rightarrow> addr \<Rightarrow> hloop \<Rightarrow> hloop option" where
  "fire w st now a l = do {
     e \<leftarrow> mem l a;
     let e = (if repeat e \<noteq> INFINITE then e\<lparr>repeat := repeat e - 1\<rparr> else e);
     let l = put_event a e l;
     l \<leftarrow> (if repeat e = 0 then htimer_unlink a l else reinsert w st now a l);
     EVENT_PENDING a l }"

text \<open>\<open>__hloop_process_timers\<close>; \<open>st n\<close> is what the C library answers in pass \<open>n\<close>.\<close>

partial_function (option) process_timers :: "which_heap \<Rightarrow> (nat \<Rightarrow> systime) \<Rightarrow> u64 \<Rightarrow> nat \<Rightarrow> hloop \<Rightarrow> (nat \<times> hloop) option" where
  "process_timers w st now n l =
     (case root (heap_of w l) of
        None \<Rightarrow> Some (n, l)
      | Some a \<Rightarrow> do {
          e \<leftarrow> mem l a;
          if now < next_timeout e then Some (n, l)
          else do { l \<leftarrow> fire w (st n) now a l; process_timers w st now (n + 1) l } })"

definition hloop_process_timers :: "(nat \<Rightarrow> systime) \<Rightarrow> hloop \<Rightarrow> (nat \<times> hloop) option" where
  "hloop_process_timers st l0 = do {
     let now = hloop_now_us l0;
     (n1, l) \<leftarrow> process_timers Timers st (cur_hrtime l0) 0 l0;
     (n2, l) \<leftarrow> process_timers Realtimers st now 0 l;
     Some (n1 + n2, l) }"

section \<open>Pending events\<close>

text \<open>A callback is a function on the loop, given by the address of its event.\<close>

type_synonym callbacks = "addr \<Rightarrow> hloop \<Rightarrow> hloop option"

definition invoke :: "callbacks \<Rightarrow> addr \<Rightarrow> hloop \<Rightarrow> hloop option" where
  "invoke cbs a l = cbs a (l\<lparr>called := called l @ [a]\<rparr>)"

text \<open>The event \<open>cur\<close> of the list: its callback, and its end when it is marked.\<close>

definition handle_pending :: "callbacks \<Rightarrow> addr \<Rightarrow> nat \<Rightarrow> hloop \<Rightarrow> (nat \<times> hloop) option" where
  "handle_pending cbs a n l = do {
     e \<leftarrow> mem l a;
     if \<not> pending e then Some (n, l)
     else do {
       (n, l) \<leftarrow> (if active e \<and> has_cb e then do { l \<leftarrow> invoke cbs a l; Some (n + 1, l) } else Some (n, l));
       e \<leftarrow> mem l a;
       let l = put_event a (e\<lparr>pending := False\<rparr>) l;
       l \<leftarrow> (if destroy e then EVENT_DEL a l else Some l);
       Some (n, l) } }"

partial_function (option) walk_pendings :: "callbacks \<Rightarrow> addr option \<Rightarrow> nat \<Rightarrow> hloop \<Rightarrow> (nat \<times> hloop) option" where
  "walk_pendings cbs cur n l =
     (case cur of
        None \<Rightarrow> Some (n, l)
      | Some a \<Rightarrow> do {
          e \<leftarrow> mem l a;
          (n, l) \<leftarrow> handle_pending cbs a n l;
          walk_pendings cbs (pending_next e) n l })"

text \<open>\<open>for (int i = HEVENT_PRIORITY_SIZE-1; i >= 0; --i)\<close>\<close>

fun walk_priorities :: "callbacks \<Rightarrow> nat \<Rightarrow> nat \<Rightarrow> hloop \<Rightarrow> (nat \<times> hloop) option" where
  "walk_priorities cbs 0 n l = Some (n, l)"
| "walk_priorities cbs (Suc i) n l = do {
     (n, l) \<leftarrow> walk_pendings cbs (pendings l (int i)) n l;
     walk_priorities cbs i n (l\<lparr>pendings := (pendings l)(int i := None)\<rparr>) }"

definition hloop_process_pendings :: "callbacks \<Rightarrow> hloop \<Rightarrow> (nat \<times> hloop) option" where
  "hloop_process_pendings cbs l =
     (if npendings l = 0 then Some (0, l)
      else do { (n, l) \<leftarrow> walk_priorities cbs 11 0 l; Some (n, l\<lparr>npendings := 0\<rparr>) })"

section \<open>One pass of the loop\<close>

text \<open>
  How long the poller may block: not at all when a timer is overdue. \<open>Overflow\<close> is the product
  \<open>blocktime_ms * 1000\<close> outside the range of an \<open>int\<close>, which is undefined.
\<close>

datatype blocktime = Overflow | Overdue | Block int

definition until_root :: "hloop \<Rightarrow> heap \<Rightarrow> u64 \<Rightarrow> int \<Rightarrow> int" where
  "until_root l h now us = (case root h of None \<Rightarrow> us | Some a \<Rightarrow> min us (sint (tkey l a - now)))"

definition calc_blocktime :: "int \<Rightarrow> hloop \<Rightarrow> blocktime" where
  "calc_blocktime timeout_ms l =
     (if ntimers l = 0 then Block timeout_ms
      else if timeout_ms * 1000 < - (2 ^ 31) \<or> 2 ^ 31 \<le> timeout_ms * 1000 then Overflow
      else let us = until_root l (realtimers l) (hloop_now_us l) (until_root l (timers l) (cur_hrtime l) (timeout_ms * 1000))
           in if us < 0 then Overdue else Block (min (us div 1000 + 1) timeout_ms))"

text \<open>The events the poller found, and the status another thread may have set meanwhile.\<close>

record poll_answer =
  pa_ready :: "addr list"
  pa_clock :: clock
  pa_status :: hloop_status_e

fun mark_ready :: "addr list \<Rightarrow> hloop \<Rightarrow> hloop option" where
  "mark_ready [] l = Some l"
| "mark_ready (a # rest) l = do { l \<leftarrow> EVENT_PENDING a l; mark_ready rest l }"

definition process_after_poll :: "(nat \<Rightarrow> systime) \<Rightarrow> callbacks \<Rightarrow> hloop \<Rightarrow> (nat \<times> hloop) option" where
  "process_after_poll st cbs l = do {
     l \<leftarrow> (if ntimers l \<noteq> 0 then do { (n, l) \<leftarrow> hloop_process_timers st l; Some l } else Some l);
     l \<leftarrow> (if npendings l = 0 \<and> nidles l \<noteq> 0 then do { (n, l) \<leftarrow> hloop_process_idles l; Some l } else Some l);
     hloop_process_pendings cbs l }"

definition hloop_process_events ::
  "int \<Rightarrow> clock \<Rightarrow> poll_answer \<Rightarrow> (nat \<Rightarrow> systime) \<Rightarrow> callbacks \<Rightarrow> hloop \<Rightarrow> (nat \<times> hloop) option" where
  "hloop_process_events timeout_ms c pa st cbs l0 = do {
     let l = (if ntimers l0 = 0 then l0 else hloop_update_time c l0);
     case calc_blocktime timeout_ms l of
       Overflow \<Rightarrow> None
     | Overdue \<Rightarrow> process_after_poll st cbs l
     | Block b \<Rightarrow> do {
         l \<leftarrow> (if nios l \<noteq> 0 then mark_ready (pa_ready pa) l else Some l);
         let l = (hloop_update_time (pa_clock pa) l)\<lparr>lstatus := pa_status pa\<rparr>;
         if lstatus l = HLOOP_STATUS_STOP then Some (0, l) else process_after_poll st cbs l } }"

end
