(* ===== verification/Event_Timers.thy ===== *)
theory Event_Timers
  imports Event_Loop
begin

text \<open>
  The timers of the event loop: every operation keeps the two heaps in step with the events, and
  processing them fires each timer that is due once. The proofs rest on the interface
  \<open>timer_queue\<close> of the heap.
\<close>

section \<open>The invariant\<close>

definition armed :: "hevent_type_e \<Rightarrow> hloop \<Rightarrow> addr set" where
  "armed ty l = {a. \<exists>e. mem l a = Some e \<and> event_type e = ty \<and> \<not> destroy e}"

definition timers_ok :: "hloop \<Rightarrow> bool" where
  "timers_ok l \<longleftrightarrow>
     is_heap (tkey l) (armed HEVENT_TYPE_TIMEOUT l) (timers l) \<and> is_heap (tkey l) (armed HEVENT_TYPE_PERIOD l) (realtimers l) \<and>
     (\<forall>a e. mem l a = Some e \<and> event_type e = HEVENT_TYPE_TIMEOUT \<and> destroy e \<longrightarrow> detached (timers l) a) \<and>
     ntimers l = of_nat (card (armed HEVENT_TYPE_TIMEOUT l) + card (armed HEVENT_TYPE_PERIOD l))"

text \<open>What the invariant reads.\<close>

definition tview :: "hloop \<Rightarrow> (addr \<rightharpoonup> hevent_type_e \<times> bool \<times> u64) \<times> heap \<times> heap \<times> u32" where
  "tview l = (\<lambda>a. map_option (\<lambda>e. (event_type e, destroy e, next_timeout e)) (mem l a), timers l, realtimers l, ntimers l)"

lemma tview_mem:
  assumes "tview l = tview l'"
  shows "map_option (\<lambda>e. (event_type e, destroy e, next_timeout e)) (mem l a) = map_option (\<lambda>e. (event_type e, destroy e, next_timeout e)) (mem l' a)"
  using assms by (auto simp: tview_def dest: fun_cong)

lemma tview_armed: "tview l = tview l' \<Longrightarrow> armed ty l = armed ty l'"
proof -
  assume v: "tview l = tview l'"
  have "a \<in> armed ty l \<longleftrightarrow> a \<in> armed ty l'" for a
    using tview_mem [OF v, of a] by (cases "mem l a"; cases "mem l' a") (auto simp: armed_def)
  then show ?thesis by blast
qed

lemma tview_tkey: "tview l = tview l' \<Longrightarrow> tkey l = tkey l'"
proof
  fix a assume v: "tview l = tview l'"
  show "tkey l a = tkey l' a" using tview_mem [OF v, of a] by (cases "mem l a"; cases "mem l' a") (auto simp: tkey_def)
qed

lemma timers_ok_view: "tview l = tview l' \<Longrightarrow> timers_ok l = timers_ok l'"
proof -
  assume v: "tview l = tview l'"
  have "(\<exists>e. mem l a = Some e \<and> event_type e = HEVENT_TYPE_TIMEOUT \<and> destroy e) \<longleftrightarrow> (\<exists>e. mem l' a = Some e \<and> event_type e = HEVENT_TYPE_TIMEOUT \<and> destroy e)" for a
    using tview_mem [OF v, of a] by (cases "mem l a"; cases "mem l' a") auto
  moreover have "timers l = timers l'" "realtimers l = realtimers l'" "ntimers l = ntimers l'" using v by (simp_all add: tview_def)
  ultimately show ?thesis unfolding timers_ok_def tview_armed [OF v] tview_tkey [OF v] by auto
qed

lemma timers_compare_key: "timers_compare l = (\<lambda>a b. tkey l a < tkey l b)"
  by (simp add: fun_eq_iff timers_compare_def)

text \<open>Updates of the loop and of one event.\<close>

lemma put_simps [simp]:
  "mem (put_event a e l) = (mem l)(a \<mapsto> e)" "timers (put_event a e l) = timers l" "realtimers (put_event a e l) = realtimers l" "ntimers (put_event a e l) = ntimers l"
  "pendings (put_event a e l) = pendings l" "npendings (put_event a e l) = npendings l" "cur_hrtime (put_event a e l) = cur_hrtime l" "called (put_event a e l) = called l"
  "idles (put_event a e l) = idles l" "nidles (put_event a e l) = nidles l"
  by (simp_all add: put_event_def)

lemma armed_mem: "mem l = mem l' \<Longrightarrow> armed ty l = armed ty l'" "mem l = mem l' \<Longrightarrow> tkey l = tkey l'"
  by (simp_all add: armed_def tkey_def fun_eq_iff)

lemma armed_put: "armed ty (put_event a e l) = (if event_type e = ty \<and> \<not> destroy e then insert a (armed ty l) else armed ty l - {a})"
  by (auto simp: armed_def)

lemma tkey_put: "tkey (put_event a e l) = (tkey l)(a := next_timeout e)"
  by (auto simp: tkey_def)

lemma armed_upd [simp]:
  "armed ty (l\<lparr>timers := h\<rparr>) = armed ty l" "armed ty (l\<lparr>realtimers := h\<rparr>) = armed ty l" "armed ty (l\<lparr>ntimers := n\<rparr>) = armed ty l"
  "tkey (l\<lparr>timers := h\<rparr>) = tkey l" "tkey (l\<lparr>realtimers := h\<rparr>) = tkey l" "tkey (l\<lparr>ntimers := n\<rparr>) = tkey l"
  "tkey (l\<lparr>mem := (mem l)(a \<mapsto> e)\<rparr>) = (tkey l)(a := next_timeout e)"
  by (rule armed_mem; simp)+ (auto simp: tkey_def)

section \<open>The macros leave the timers alone\<close>

lemma EVENT_ACTIVE_view: "EVENT_ACTIVE a l = Some l' \<Longrightarrow> tview l' = tview l"
  by (auto simp: EVENT_ACTIVE_def bind_eq_Some_conv tview_def fun_eq_iff split: if_splits)

lemma EVENT_INACTIVE_view: "EVENT_INACTIVE a l = Some l' \<Longrightarrow> tview l' = tview l"
  by (auto simp: EVENT_INACTIVE_def bind_eq_Some_conv tview_def fun_eq_iff split: if_splits)

lemma EVENT_PENDING_view: "EVENT_PENDING a l = Some l' \<Longrightarrow> tview l' = tview l"
  by (auto simp: EVENT_PENDING_def bind_eq_Some_conv tview_def fun_eq_iff Let_def split: if_splits)

lemma EVENT_ADD_view: "EVENT_ADD a cb l = Some l' \<Longrightarrow> tview l' = tview l"
proof -
  assume "EVENT_ADD a cb l = Some l'"
  then obtain e where e: "mem l a = Some e" "EVENT_ACTIVE a (put_event a (e\<lparr>has_cb := cb\<rparr>) l) = Some l'"
    by (auto simp: EVENT_ADD_def bind_eq_Some_conv)
  have "tview (put_event a (e\<lparr>has_cb := cb\<rparr>) l) = tview l" using e(1) by (auto simp: tview_def fun_eq_iff)
  with EVENT_ACTIVE_view [OF e(2)] show ?thesis by simp
qed

lemma event_macros_defined:
  assumes "mem l a = Some e"
  shows "\<exists>l'. EVENT_ACTIVE a l = Some l' \<and> (\<exists>e'. mem l' a = Some e' \<and> e' = e\<lparr>active := True\<rparr>)"
    "\<exists>l'. EVENT_ADD a cb l = Some l'" "\<exists>l'. EVENT_PENDING a l = Some l'"
  using assms by (auto simp: EVENT_ACTIVE_def EVENT_ADD_def EVENT_PENDING_def Let_def)

section \<open>Operations on timers\<close>

lemma is_heap_finite: "is_heap key S h \<Longrightarrow> finite S"
  unfolding is_heap_def by (metis List.finite_set)

lemma armed_finite: "timers_ok l \<Longrightarrow> finite (armed HEVENT_TYPE_TIMEOUT l)" "timers_ok l \<Longrightarrow> finite (armed HEVENT_TYPE_PERIOD l)"
  by (auto simp: timers_ok_def dest: is_heap_finite)

lemma tkey_mem: "mem l a = Some e \<Longrightarrow> (tkey l)(a := next_timeout e) = tkey l"
  by (auto simp: tkey_def)

lemma armed_iff: "mem l a = Some e \<Longrightarrow> a \<in> armed ty l \<longleftrightarrow> event_type e = ty \<and> \<not> destroy e"
  by (simp add: armed_def)

lemma is_heap_clear:
  assumes "is_heap key S h" and "a \<notin> S"
  shows "is_heap key S (clear_node a h)" "detached (clear_node a h) a" "b \<noteq> a \<Longrightarrow> detached (clear_node a h) b = detached h b"
proof -
  show "is_heap key S (clear_node a h)" using assms clear_other by (auto simp: is_heap_def)
qed (auto simp: detached_def clear_node_def)

text \<open>The number of timers, after one more and one less.\<close>

lemma of_nat_card_insert: "finite A \<Longrightarrow> a \<notin> A \<Longrightarrow> (of_nat (card (insert a A) + n) :: u32) = of_nat (card A + n) + 1"
  by simp

lemma of_nat_card_remove: "finite A \<Longrightarrow> a \<in> A \<Longrightarrow> (of_nat (card (A - {a}) + n) :: u32) = of_nat (card A + n) - 1"
proof -
  assume "finite A" "a \<in> A"
  then have "card A = Suc (card (A - {a}))" by (rule card.remove)
  then show ?thesis by simp
qed

text \<open>The timers heap changes with one event.\<close>

lemma timers_ok_timeout:
  assumes ok: "timers_ok l" and e: "event_type e = HEVENT_TYPE_TIMEOUT" "a \<notin> armed HEVENT_TYPE_PERIOD l"
    and h: "is_heap ((tkey l)(a := next_timeout e)) (if destroy e then armed HEVENT_TYPE_TIMEOUT l - {a} else insert a (armed HEVENT_TYPE_TIMEOUT l)) h"
    and d: "\<And>b. b \<notin> insert a (armed HEVENT_TYPE_TIMEOUT l) \<Longrightarrow> detached (timers l) b \<Longrightarrow> detached h b" "destroy e \<Longrightarrow> detached h a"
    and n: "n = ntimers l + (if destroy e then 0 else 1) - (if a \<in> armed HEVENT_TYPE_TIMEOUT l then 1 else 0)"
  shows "timers_ok (put_event a e (l\<lparr>timers := h, ntimers := n\<rparr>))"
proof -
  let ?T = "armed HEVENT_TYPE_TIMEOUT l" and ?P = "armed HEVENT_TYPE_PERIOD l"
  have l: "is_heap (tkey l) ?P (realtimers l)" "ntimers l = of_nat (card ?T + card ?P)"
      "\<And>b x. mem l b = Some x \<Longrightarrow> event_type x = HEVENT_TYPE_TIMEOUT \<Longrightarrow> destroy x \<Longrightarrow> detached (timers l) b"
    using ok by (auto simp: timers_ok_def)
  have "is_heap ((tkey l)(a := next_timeout e)) ?P (realtimers l)" by (rule is_heap_cong [OF l(1)]) (use e(2) in auto)
  moreover have "detached h b" if "((mem l)(a \<mapsto> e)) b = Some x" "event_type x = HEVENT_TYPE_TIMEOUT" "destroy x" for b x
  proof (cases "b = a")
    case False
    then have "b \<notin> insert a ?T" "detached (timers l) b" using that l(3) by (auto simp: armed_def)
    then show ?thesis by (rule d(1))
  qed (use that d(2) in auto)
  moreover have "n = of_nat (card (if destroy e then ?T - {a} else insert a ?T) + card ?P)"
    using armed_finite(1) [OF ok] of_nat_card_insert [of ?T a "card ?P"] of_nat_card_remove [of ?T a "card ?P"] l(2) n
    by (auto simp: insert_absorb)
  ultimately show ?thesis
    using h e by (simp add: timers_ok_def armed_put tkey_put if_distrib [of "\<lambda>S. is_heap _ S _"] if_distrib [of card] cong: if_cong)
qed

lemma timers_ok_period:
  assumes ok: "timers_ok l" and e: "event_type e = HEVENT_TYPE_PERIOD" "a \<notin> armed HEVENT_TYPE_TIMEOUT l"
    and h: "is_heap ((tkey l)(a := next_timeout e)) (if destroy e then armed HEVENT_TYPE_PERIOD l - {a} else insert a (armed HEVENT_TYPE_PERIOD l)) h"
    and n: "n = ntimers l + (if destroy e then 0 else 1) - (if a \<in> armed HEVENT_TYPE_PERIOD l then 1 else 0)"
  shows "timers_ok (put_event a e (l\<lparr>realtimers := h, ntimers := n\<rparr>))"
proof -
  let ?T = "armed HEVENT_TYPE_TIMEOUT l" and ?P = "armed HEVENT_TYPE_PERIOD l"
  have l: "is_heap (tkey l) ?T (timers l)" "ntimers l = of_nat (card ?P + card ?T)"
      "\<And>b x. mem l b = Some x \<Longrightarrow> event_type x = HEVENT_TYPE_TIMEOUT \<Longrightarrow> destroy x \<Longrightarrow> detached (timers l) b"
    using ok by (auto simp: timers_ok_def)
  have "is_heap ((tkey l)(a := next_timeout e)) ?T (timers l)" by (rule is_heap_cong [OF l(1)]) (use e(2) in auto)
  moreover have "detached (timers l) b" if "((mem l)(a \<mapsto> e)) b = Some x" "event_type x = HEVENT_TYPE_TIMEOUT" "destroy x" for b x
    using that e(1) l(3) by (cases "b = a") auto
  moreover have "n = of_nat (card (if destroy e then ?P - {a} else insert a ?P) + card ?T)"
    using armed_finite(2) [OF ok] of_nat_card_insert [of ?P a "card ?T"] of_nat_card_remove [of ?P a "card ?T"] l(2) n
    by (auto simp: insert_absorb)
  ultimately show ?thesis
    using h e by (simp add: timers_ok_def armed_put tkey_put add.commute if_distrib [of "\<lambda>S. is_heap _ S _"] if_distrib [of card] cong: if_cong)
qed

lemma htimer_unlink_ok:
  assumes ok: "timers_ok l" and a: "mem l a = Some e" "\<not> destroy e" "event_type e = HEVENT_TYPE_TIMEOUT \<or> event_type e = HEVENT_TYPE_PERIOD"
  shows "\<exists>l'. htimer_unlink a l = Some l' \<and> timers_ok l' \<and> mem l' = (mem l)(a \<mapsto> e\<lparr>destroy := True\<rparr>) \<and> pendings l' = pendings l \<and> npendings l' = npendings l \<and> cur_hrtime l' = cur_hrtime l"
  using a(3)
proof
  let ?A = "armed HEVENT_TYPE_TIMEOUT l" and ?e = "e\<lparr>destroy := True\<rparr>"
  assume t: "event_type e = HEVENT_TYPE_TIMEOUT"
  then have m: "a \<in> ?A" "a \<notin> armed HEVENT_TYPE_PERIOD l" using a by (auto simp: armed_iff)
  have v: "is_heap (tkey l) ?A (timers l)" using ok by (simp add: timers_ok_def)
  obtain h where h: "heap_remove (Some (timers_compare l)) (timers l) (Some a) = Some h" "is_heap (tkey l) (?A - {a}) h" "detached h a"
      "\<forall>b. b \<notin> ?A \<longrightarrow> detached h b = detached (timers l) b"
    unfolding timers_compare_key using th.rem_valid [OF v m(1)] by blast
  have "timers_ok (put_event a ?e (l\<lparr>timers := h, ntimers := ntimers l - 1\<rparr>))"
    by (rule timers_ok_timeout [OF ok]) (use t m h a tkey_mem [OF a(1)] in auto)
  then show ?thesis using t a h(1) by (simp add: htimer_unlink_def)
next
  let ?A = "armed HEVENT_TYPE_PERIOD l" and ?e = "e\<lparr>destroy := True\<rparr>"
  assume t: "event_type e = HEVENT_TYPE_PERIOD"
  then have m: "a \<in> ?A" "a \<notin> armed HEVENT_TYPE_TIMEOUT l" using a by (auto simp: armed_iff)
  have v: "is_heap (tkey l) ?A (realtimers l)" using ok by (simp add: timers_ok_def)
  obtain h where h: "heap_remove (Some (timers_compare l)) (realtimers l) (Some a) = Some h" "is_heap (tkey l) (?A - {a}) h"
    unfolding timers_compare_key using th.rem_valid [OF v m(1)] by blast
  have "timers_ok (put_event a ?e (l\<lparr>realtimers := h, ntimers := ntimers l - 1\<rparr>))"
    by (rule timers_ok_period [OF ok]) (use t m h a tkey_mem [OF a(1)] in auto)
  then show ?thesis using t a h(1) by (simp add: htimer_unlink_def)
qed

lemma htimer_add_ok:
  assumes ok: "timers_ok l" and new: "mem l new = None" and t: "t \<noteq> 0"
  shows "\<exists>l' e. htimer_add c new cb t rep l = Some (Some new, l') \<and> timers_ok l' \<and> mem l' = (mem l)(new \<mapsto> e) \<and> active e \<and> has_cb e = cb \<and>
    event_type e = HEVENT_TYPE_TIMEOUT \<and> timeout e = t \<and> repeat e = rep \<and> \<not> destroy e \<and> \<not> pending e \<and> next_timeout e = timeout_after (clk_hrtime c) t"
proof -
  define l1 where "l1 = hloop_update_time c l"
  have l1: "tview l1 = tview l" "mem l1 = mem l" "cur_hrtime l1 = clk_hrtime c" by (auto simp: l1_def hloop_update_time_def tview_def Let_def)
  define e where "e = zero_event\<lparr>event_type := HEVENT_TYPE_TIMEOUT, priority := 5, repeat := rep, timeout := t, next_timeout := timeout_after (cur_hrtime l1) t\<rparr>"
  let ?l2 = "put_event new e l1" and ?A = "armed HEVENT_TYPE_TIMEOUT l1"
  have ok1: "timers_ok l1" using ok timers_ok_view [OF l1(1)] by simp
  have m: "new \<notin> armed ty l1" for ty using new l1(2) by (simp add: armed_def)
  have v: "is_heap (tkey l1) ?A (timers l1)" using ok1 by (simp add: timers_ok_def)
  have "is_heap (tkey ?l2) ?A (timers l1)" unfolding tkey_put by (rule is_heap_cong [OF v]) (use m in auto)
  note cl = is_heap_clear [OF this m]
  obtain h where h: "heap_insert (Some (timers_compare ?l2)) (clear_node new (timers l1)) new = Some h" "is_heap (tkey ?l2) (insert new ?A) h"
      "\<forall>b. b \<notin> insert new ?A \<longrightarrow> detached h b = detached (clear_node new (timers l1)) b"
    unfolding timers_compare_key using th.ins_valid [OF cl(1) m cl(2)] by blast
  have l3: "timers_ok (put_event new e (l1\<lparr>timers := h, ntimers := ntimers l1 + 1\<rparr>))"
    by (rule timers_ok_timeout [OF ok1]) (use m h cl(3) in \<open>auto simp: e_def zero_event_def tkey_put\<close>)
  define l4 where "l4 = put_event new (e\<lparr>has_cb := cb, active := True\<rparr>) (l1\<lparr>timers := h, nactives := nactives l1 + 1\<rparr>)"
  have l4: "EVENT_ADD new cb (?l2\<lparr>timers := h\<rparr>) = Some l4"
    by (simp add: EVENT_ADD_def EVENT_ACTIVE_def l4_def put_event_def e_def zero_event_def)
  have "tview (l4\<lparr>ntimers := ntimers l1 + 1\<rparr>) = tview (put_event new e (l1\<lparr>timers := h, ntimers := ntimers l1 + 1\<rparr>))"
    by (auto simp: tview_def l4_def)
  then have "timers_ok (l4\<lparr>ntimers := ntimers l1 + 1\<rparr>)" using l3 timers_ok_view by blast
  moreover have "htimer_add c new cb t rep l = Some (Some new, l4\<lparr>ntimers := ntimers l1 + 1\<rparr>)"
    unfolding htimer_add_def l1_def [symmetric] Let_def e_def [symmetric] using t h(1) l4 by (simp add: l4_def)
  ultimately show ?thesis using l1(2,3) by (auto simp: l4_def e_def zero_event_def)
qed

lemma htimer_add_period_ok:
  assumes ok: "timers_ok l" and new: "mem l new = None" and c: "c = (m, h, d, w, mo)" "m \<le> 59" "h \<le> 23" "d \<le> 31" "w \<le> 6" "mo \<le> 12"
  shows "\<exists>l' e. htimer_add_period st new cb c rep l = Some (Some new, l') \<and> timers_ok l' \<and> mem l' = (mem l)(new \<mapsto> e) \<and> active e \<and> has_cb e = cb \<and>
    event_type e = HEVENT_TYPE_PERIOD \<and> cron e = c \<and> repeat e = rep \<and> \<not> destroy e \<and> \<not> pending e \<and> next_timeout e = period_next st c"
proof -
  define e where "e = zero_event\<lparr>event_type := HEVENT_TYPE_PERIOD, priority := 3, repeat := rep, cron := c, next_timeout := period_next st c\<rparr>"
  let ?l2 = "put_event new e l" and ?A = "armed HEVENT_TYPE_PERIOD l"
  have m: "new \<notin> armed ty l" for ty using new by (simp add: armed_def)
  have v: "is_heap (tkey l) ?A (realtimers l)" using ok by (simp add: timers_ok_def)
  have "is_heap (tkey ?l2) ?A (realtimers l)" unfolding tkey_put by (rule is_heap_cong [OF v]) (use m in auto)
  note cl = is_heap_clear [OF this m]
  obtain h' where h: "heap_insert (Some (timers_compare ?l2)) (clear_node new (realtimers l)) new = Some h'" "is_heap (tkey ?l2) (insert new ?A) h'"
    unfolding timers_compare_key using th.ins_valid [OF cl(1) m cl(2)] by blast
  have l3: "timers_ok (put_event new e (l\<lparr>realtimers := h', ntimers := ntimers l + 1\<rparr>))"
    by (rule timers_ok_period [OF ok]) (use m h in \<open>auto simp: e_def zero_event_def tkey_put\<close>)
  define l4 where "l4 = put_event new (e\<lparr>has_cb := cb, active := True\<rparr>) (l\<lparr>realtimers := h', nactives := nactives l + 1\<rparr>)"
  have l4: "EVENT_ADD new cb (?l2\<lparr>realtimers := h'\<rparr>) = Some l4"
    by (simp add: EVENT_ADD_def EVENT_ACTIVE_def l4_def put_event_def e_def zero_event_def)
  have "tview (l4\<lparr>ntimers := ntimers l + 1\<rparr>) = tview (put_event new e (l\<lparr>realtimers := h', ntimers := ntimers l + 1\<rparr>))"
    by (auto simp: tview_def l4_def)
  then have "timers_ok (l4\<lparr>ntimers := ntimers l + 1\<rparr>)" using l3 timers_ok_view by blast
  moreover have "htimer_add_period st new cb c rep l = Some (Some new, l4\<lparr>ntimers := ntimers l + 1\<rparr>)"
    unfolding htimer_add_period_def Let_def e_def [symmetric] using c h(1) l4 by (simp add: l4_def)
  ultimately show ?thesis by (auto simp: l4_def e_def zero_event_def)
qed

text \<open>What a reset leaves of the event.\<close>

definition reset_event :: "u64 \<Rightarrow> u32 \<Rightarrow> hevent \<Rightarrow> hevent" where
  "reset_event now t e =
     (let t' = (if 0 < t then t else timeout e)
      in e\<lparr>repeat := if repeat e = 0 then 1 else repeat e, timeout := t', next_timeout := timeout_after now t',
           destroy := False, active := True, pending := False\<rparr>)"

lemma htimer_reset_ok:
  assumes ok: "timers_ok l" and a: "mem l a = Some e" "event_type e = HEVENT_TYPE_TIMEOUT"
  shows "\<exists>l'. htimer_reset a t l = Some l' \<and> timers_ok l' \<and> mem l' = (mem l)(a \<mapsto> reset_event (cur_hrtime l) t e)"
proof -
  let ?A = "armed HEVENT_TYPE_TIMEOUT l"
  define t' where "t' = (if 0 < t then t else timeout e)"
  define e1 where "e1 = e\<lparr>repeat := if repeat e = 0 then 1 else repeat e, timeout := t', next_timeout := timeout_after (cur_hrtime l) t'\<rparr>"
  have v: "is_heap (tkey l) ?A (timers l)" and np: "a \<notin> armed HEVENT_TYPE_PERIOD l" using ok a by (auto simp: timers_ok_def armed_iff)
  define n where "n = (if destroy e then ntimers l + 1 else ntimers l)"
  have "\<exists>h1. (if destroy e then Some (timers l) else heap_remove (Some (timers_compare l)) (timers l) (Some a)) = Some h1 \<and>
      is_heap (tkey l) (?A - {a}) h1 \<and> detached h1 a \<and> (\<forall>b. b \<notin> ?A \<longrightarrow> detached h1 b = detached (timers l) b)"
  proof (cases "destroy e")
    case True
    then have "a \<notin> ?A" "detached (timers l) a" using a ok by (auto simp: armed_iff timers_ok_def)
    then show ?thesis using True v by simp
  next
    case False
    then have "a \<in> ?A" using a by (simp add: armed_iff)
    from th.rem_valid [OF v this] show ?thesis using False unfolding timers_compare_key by auto
  qed
  then obtain h1 where h1: "(if destroy e then Some (timers l) else heap_remove (Some (timers_compare l)) (timers l) (Some a)) = Some h1"
      "is_heap (tkey l) (?A - {a}) h1" "detached h1 a" "\<forall>b. b \<notin> ?A \<longrightarrow> detached h1 b = detached (timers l) b" by blast
  define l1 where "l1 = l\<lparr>timers := h1, ntimers := n\<rparr>"
  let ?l2 = "put_event a e1 l1"
  have k2: "tkey ?l2 = (tkey l)(a := next_timeout e1)" by (simp add: tkey_put l1_def)
  have "is_heap (tkey ?l2) (?A - {a}) h1" unfolding k2 by (rule is_heap_cong [OF h1(2)]) auto
  from th.ins_valid [OF this _ h1(3)] obtain h where h: "heap_insert (Some (timers_compare ?l2)) h1 a = Some h" "is_heap (tkey ?l2) (insert a ?A) h"
      "\<forall>b. b \<notin> insert a ?A \<longrightarrow> detached h b = detached h1 b"
    unfolding timers_compare_key by auto
  have ok3: "timers_ok (put_event a (e1\<lparr>destroy := False\<rparr>) (l\<lparr>timers := h, ntimers := n\<rparr>))"
    by (rule timers_ok_timeout [OF ok _ np]) (use a h h1(4) k2 in \<open>auto simp: e1_def n_def armed_iff\<close>)
  have l1: "(if destroy e then Some (l\<lparr>ntimers := ntimers l + 1\<rparr>)
             else do { h \<leftarrow> heap_remove (Some (timers_compare l)) (timers l) (Some a); Some (l\<lparr>timers := h\<rparr>) }) = Some l1"
    using h1(1) by (auto simp: l1_def n_def split: if_splits)
  have "htimer_reset a t l = EVENT_RESET a (?l2\<lparr>timers := h\<rparr>)"
    unfolding htimer_reset_def Let_def using a h(1) l1 by (simp add: l1_def e1_def t'_def)
  also have "\<dots> = Some (put_event a (reset_event (cur_hrtime l) t e) (l\<lparr>timers := h, ntimers := n, nactives := nactives l + (if active e then 0 else 1)\<rparr>))"
    unfolding l1_def e1_def t'_def reset_event_def
    by (cases e; cases l; cases "active e") (simp_all add: EVENT_RESET_def EVENT_ACTIVE_def put_event_def Let_def)
  finally have r: "htimer_reset a t l = \<dots>" .
  have "tview (put_event a (reset_event (cur_hrtime l) t e) (l\<lparr>timers := h, ntimers := n, nactives := nactives l + (if active e then 0 else 1)\<rparr>)) =
      tview (put_event a (e1\<lparr>destroy := False\<rparr>) (l\<lparr>timers := h, ntimers := n\<rparr>))"
    by (simp add: tview_def fun_eq_iff reset_event_def e1_def t'_def Let_def)
  from timers_ok_view [OF this] ok3 r show ?thesis by simp
qed

lemma timers_ok_free:
  assumes ok: "timers_ok l" and a: "mem l a = Some e" "destroy e"
  shows "timers_ok (l\<lparr>mem := (mem l)(a := None)\<rparr>)"
proof -
  let ?l = "l\<lparr>mem := (mem l)(a := None)\<rparr>"
  have A: "armed ty ?l = armed ty l" for ty using a by (auto simp: armed_def)
  have "tkey l b = tkey ?l b" if "b \<in> armed ty l" for b ty using that a by (auto simp: armed_def tkey_def)
  then have "is_heap (tkey ?l) (armed HEVENT_TYPE_TIMEOUT l) (timers l)" "is_heap (tkey ?l) (armed HEVENT_TYPE_PERIOD l) (realtimers l)"
    using ok is_heap_cong [of "tkey l" _ _ "tkey ?l"] by (auto simp: timers_ok_def)
  then show ?thesis using ok unfolding timers_ok_def A by auto
qed

lemma EVENT_DEL_ok:
  assumes ok: "timers_ok l" and a: "mem l a = Some e" "destroy e"
  shows "\<exists>l'. EVENT_DEL a l = Some l' \<and> timers_ok l' \<and> mem l' = (mem l)(a := if pending e then Some (e\<lparr>active := False\<rparr>) else None)"
proof -
  obtain l1 where l1: "EVENT_INACTIVE a l = Some l1" "mem l1 = (mem l)(a \<mapsto> e\<lparr>active := False\<rparr>)"
    using a by (cases "active e") (auto simp: EVENT_INACTIVE_def fun_upd_idem)
  have ok1: "timers_ok l1" using EVENT_INACTIVE_view [OF l1(1)] timers_ok_view ok by blast
  have m: "mem l1 a = Some (e\<lparr>active := False\<rparr>)" by (simp add: l1(2))
  then have "timers_ok (l1\<lparr>mem := (mem l1)(a := None)\<rparr>)" using timers_ok_free [OF ok1 m] a(2) by simp
  then show ?thesis using l1 ok1 m by (auto simp: EVENT_DEL_def)
qed

lemma htimer_del_ok:
  assumes ok: "timers_ok l" and a: "mem l a = Some e" "event_type e = HEVENT_TYPE_TIMEOUT \<or> event_type e = HEVENT_TYPE_PERIOD"
  shows "\<exists>l'. htimer_del a l = Some l' \<and> timers_ok l' \<and>
    mem l' = (mem l)(a := if \<not> active e then Some e else if pending e then Some (e\<lparr>destroy := True, active := False\<rparr>) else None)"
proof (cases "active e")
  case True
  let ?e = "e\<lparr>destroy := True\<rparr>"
  obtain l1 where l1: "htimer_unlink a l = Some l1" "timers_ok l1" "mem l1 = (mem l)(a \<mapsto> ?e)"
  proof (cases "destroy e")
    case True
    then have "htimer_unlink a l = Some l" "mem l = (mem l)(a \<mapsto> ?e)" using a by (auto simp: htimer_unlink_def fun_upd_idem)
    then show ?thesis using that ok by simp
  next
    case False
    then show ?thesis using htimer_unlink_ok [OF ok a(1) False a(2)] that by blast
  qed
  have "mem l1 a = Some ?e" by (simp add: l1(3))
  from EVENT_DEL_ok [OF l1(2) this] obtain l2 where "EVENT_DEL a l1 = Some l2" "timers_ok l2"
      "mem l2 = (mem l1)(a := if pending e then Some (?e\<lparr>active := False\<rparr>) else None)" by auto
  then show ?thesis using True a l1 by (simp add: htimer_del_def)
next
  case False
  then show ?thesis using ok a by (simp add: htimer_del_def fun_upd_idem)
qed

section \<open>Firing\<close>

text \<open>The next timeout is the first of the series that lies in the future, if the clock is not at its end.\<close>

lemma rearm_ok:
  assumes s: "0 < step" and b: "unat now + unat step < 2 ^ 64"
  shows "\<exists>x k. rearm now step t0 = Some x \<and> now < x \<and> (t0 \<le> now \<longrightarrow> unat x \<le> unat now + unat step) \<and> unat x = unat t0 + k * unat step"
proof (induction "unat now - unat t0" arbitrary: t0 rule: less_induct)
  case less
  show ?case
  proof (cases "t0 \<le> now")
    case True
    have s0: "0 < unat step" using s by (simp add: word_less_nat_alt)
    have le: "unat t0 \<le> unat now" using True by (simp add: word_le_nat_alt)
    have nxt: "unat (t0 + step) = unat t0 + unat step" using le b by (simp add: unat_add_lem [THEN iffD1])
    have r: "rearm now step t0 = rearm now step (t0 + step)" using True by (subst rearm.simps) simp
    show ?thesis
    proof (cases "t0 + step \<le> now")
      case True
      then have "unat now - unat (t0 + step) < unat now - unat t0" using nxt s0 le by (simp add: word_le_nat_alt)
      from less [OF this] obtain x k where "rearm now step (t0 + step) = Some x" "now < x" "unat x \<le> unat now + unat step"
          "unat x = unat (t0 + step) + k * unat step" using True by blast
      then show ?thesis using r nxt by (intro exI [of _ x] exI [of _ "k + 1"]) simp
    next
      case False
      then have "rearm now step (t0 + step) = Some (t0 + step)" by (subst rearm.simps) simp
      then show ?thesis using r nxt le False by (intro exI [of _ "t0 + step"] exI [of _ 1]) simp
    qed
  next
    case False
    then have "rearm now step t0 = Some t0" by (subst rearm.simps) simp
    then show ?thesis using False by (intro exI [of _ "t0"] exI [of _ 0]) simp
  qed
qed

definition heap_type :: "which_heap \<Rightarrow> hevent_type_e" where
  "heap_type w = (case w of Timers \<Rightarrow> HEVENT_TYPE_TIMEOUT | Realtimers \<Rightarrow> HEVENT_TYPE_PERIOD)"

text \<open>A next timeout in the future exists: the timeout is not zero and the clock is not at its end; the
  calendar answers with a time later than now.\<close>

definition will_pass :: "which_heap \<Rightarrow> (nat \<Rightarrow> systime) \<Rightarrow> u64 \<Rightarrow> hevent \<Rightarrow> bool" where
  "will_pass w st now e \<longleftrightarrow>
     (case w of
        Timers \<Rightarrow> 0 < timeout e \<and> unat now + 1000 * unat (timeout e) < 2 ^ 64
      | Realtimers \<Rightarrow> (\<forall>n. now < period_next (st n) (cron e)))"

text \<open>What firing makes of an event.\<close>

definition fired :: "which_heap \<Rightarrow> u64 \<Rightarrow> hevent \<Rightarrow> hevent \<Rightarrow> bool" where
  "fired w now e e' \<longleftrightarrow>
     pending e' \<and> event_type e' = event_type e \<and> priority e' = priority e \<and> timeout e' = timeout e \<and> cron e' = cron e \<and>
     has_cb e' = has_cb e \<and> active e' = active e \<and>
     repeat e' = (if repeat e = INFINITE then INFINITE else repeat e - 1) \<and> destroy e' = (repeat e' = 0) \<and>
     (\<not> destroy e' \<longrightarrow> now < next_timeout e') \<and>
     (w = Timers \<and> \<not> destroy e' \<longrightarrow> unat (next_timeout e') \<le> unat now + 1000 * unat (timeout e) \<and>
        (\<exists>k. unat (next_timeout e') = unat (next_timeout e) + k * (1000 * unat (timeout e))))"

lemma EVENT_PENDING_mem:
  assumes "mem l a = Some e"
  shows "\<exists>l'. EVENT_PENDING a l = Some l' \<and> tview l' = tview l \<and> cur_hrtime l' = cur_hrtime l \<and>
    mem l' = (mem l)(a \<mapsto> e\<lparr>pending := True, pending_next := if pending e then pending_next e else pendings l (HEVENT_PRIORITY_INDEX (priority e))\<rparr>)"
proof -
  obtain l' where l': "EVENT_PENDING a l = Some l'" using event_macros_defined(3) [OF assms] by blast
  have "cur_hrtime l' = cur_hrtime l \<and> mem l' = (mem l)(a \<mapsto> e\<lparr>pending := True, pending_next := if pending e then pending_next e else pendings l (HEVENT_PRIORITY_INDEX (priority e))\<rparr>)"
    using l' assms by (cases e) (auto simp: EVENT_PENDING_def Let_def fun_upd_idem)
  then show ?thesis using l' EVENT_PENDING_view [OF l'] by blast
qed

lemma is_heap_of: "timers_ok l \<Longrightarrow> is_heap (tkey l) (armed (heap_type w) l) (heap_of w l)"
  by (cases w) (simp_all add: timers_ok_def heap_type_def heap_of_def)

lemma step_unat: "unat now + 1000 * unat (t :: u32) < 2 ^ 64 \<Longrightarrow> unat (ucast t * 1000 :: u64) = 1000 * unat t"
  by (simp add: unat_mult_lem [THEN iffD1] unat_ucast_up)

lemma next_timeout_passes:
  assumes "will_pass w st now e" and "next_timeout e \<le> now" and "event_type e = heap_type w"
  shows "\<exists>x. (case event_type e of
                HEVENT_TYPE_TIMEOUT \<Rightarrow> rearm now (ucast (timeout e) * 1000) (next_timeout e)
              | HEVENT_TYPE_PERIOD \<Rightarrow> Some (period_next (st n) (cron e))
              | _ \<Rightarrow> Some (next_timeout e)) = Some x \<and> now < x \<and>
     (w = Timers \<longrightarrow> unat x \<le> unat now + 1000 * unat (timeout e) \<and> (\<exists>k. unat x = unat (next_timeout e) + k * (1000 * unat (timeout e))))"
proof (cases w)
  case Timers
  let ?s = "ucast (timeout e) * 1000 :: u64"
  have p: "0 < timeout e" "unat now + 1000 * unat (timeout e) < 2 ^ 64" using assms(1) Timers by (auto simp: will_pass_def)
  note s = step_unat [OF p(2)]
  have "0 < ?s" "unat now + unat ?s < 2 ^ 64" using p s by (auto simp: word_less_nat_alt)
  from rearm_ok [OF this, of "next_timeout e"] show ?thesis using assms(2,3) Timers s by (auto simp: heap_type_def)
next
  case Realtimers
  then show ?thesis using assms(1,3) by (simp add: heap_type_def will_pass_def)
qed

lemma heap_of_set [simp]:
  "mem (set_heap w h l) = mem l" "cur_hrtime (set_heap w h l) = cur_hrtime l" "tkey (set_heap w h l) = tkey l" "armed ty (set_heap w h l) = armed ty l"
  by (cases w; simp add: set_heap_def)+

text \<open>The heap of an armed timer that stays armed.\<close>

lemma timers_ok_rekey:
  assumes ok: "timers_ok l" and a: "mem l a = Some e" "event_type e = heap_type w" "\<not> destroy e"
    and h: "is_heap ((tkey l)(a := x)) (armed (heap_type w) l) h" and d: "\<And>b. b \<notin> armed (heap_type w) l \<Longrightarrow> detached h b = detached (heap_of w l) b"
  shows "timers_ok (set_heap w h (put_event a (e\<lparr>next_timeout := x\<rparr>) l))"
proof -
  have m: "a \<in> armed (heap_type w) l" "\<And>ty. ty \<noteq> heap_type w \<Longrightarrow> a \<notin> armed ty l" using a by (auto simp: armed_iff)
  show ?thesis
  proof (cases w)
    case Timers
    have "timers_ok (put_event a (e\<lparr>next_timeout := x\<rparr>) (l\<lparr>timers := h, ntimers := ntimers l\<rparr>))"
      by (rule timers_ok_timeout [OF ok]) (use Timers m a h d in \<open>auto simp: heap_type_def heap_of_def insert_absorb\<close>)
    moreover have "put_event a (e\<lparr>next_timeout := x\<rparr>) (l\<lparr>timers := h, ntimers := ntimers l\<rparr>) = set_heap w h (put_event a (e\<lparr>next_timeout := x\<rparr>) l)"
      using Timers by (cases l) (simp add: set_heap_def put_event_def)
    ultimately show ?thesis by simp
  next
    case Realtimers
    have "timers_ok (put_event a (e\<lparr>next_timeout := x\<rparr>) (l\<lparr>realtimers := h, ntimers := ntimers l\<rparr>))"
      by (rule timers_ok_period [OF ok]) (use Realtimers m a h d in \<open>auto simp: heap_type_def heap_of_def insert_absorb\<close>)
    moreover have "put_event a (e\<lparr>next_timeout := x\<rparr>) (l\<lparr>realtimers := h, ntimers := ntimers l\<rparr>) = set_heap w h (put_event a (e\<lparr>next_timeout := x\<rparr>) l)"
      using Realtimers by (cases l) (simp add: set_heap_def put_event_def)
    ultimately show ?thesis by simp
  qed
qed

lemma reinsert_ok:
  assumes ok: "timers_ok l" and a: "root (heap_of w l) = Some a" "mem l a = Some e" "next_timeout e \<le> now" "will_pass w st now e"
  shows "\<exists>l' x. reinsert w (st n) now a l = Some l' \<and> timers_ok l' \<and> mem l' = (mem l)(a \<mapsto> e\<lparr>next_timeout := x\<rparr>) \<and> cur_hrtime l' = cur_hrtime l \<and> now < x \<and>
    (w = Timers \<longrightarrow> unat x \<le> unat now + 1000 * unat (timeout e) \<and> (\<exists>k. unat x = unat (next_timeout e) + k * (1000 * unat (timeout e))))"
proof -
  let ?A = "armed (heap_type w) l"
  note v = is_heap_of [OF ok, of w]
  have m: "a \<in> ?A" using th.top_member [OF v a(1)] by simp
  have t: "event_type e = heap_type w" "\<not> destroy e" using m a(2) by (auto simp: armed_iff)
  obtain x where x: "(case event_type e of HEVENT_TYPE_TIMEOUT \<Rightarrow> rearm now (ucast (timeout e) * 1000) (next_timeout e)
        | HEVENT_TYPE_PERIOD \<Rightarrow> Some (period_next (st n) (cron e)) | _ \<Rightarrow> Some (next_timeout e)) = Some x" "now < x"
      "w = Timers \<longrightarrow> unat x \<le> unat now + 1000 * unat (timeout e) \<and> (\<exists>k. unat x = unat (next_timeout e) + k * (1000 * unat (timeout e)))"
    using next_timeout_passes [OF a(4,3) t(1), of n] by blast
  obtain h1 h2 where h: "heap_remove (Some (\<lambda>a b. tkey l a < tkey l b)) (heap_of w l) (Some a) = Some h1"
      "heap_insert (Some (\<lambda>c b. ((tkey l)(a := x)) c < ((tkey l)(a := x)) b)) h1 a = Some h2" "is_heap ((tkey l)(a := x)) ?A h2"
      "\<And>b. b \<notin> ?A \<Longrightarrow> detached h2 b = detached (heap_of w l) b"
    using th.rekey [OF v m, of x] by blast
  have "heap_insert (Some (timers_compare (put_event a (e\<lparr>next_timeout := x\<rparr>) l))) h1 a = Some h2"
    using h(2) unfolding timers_compare_key tkey_put by simp
  moreover have "heap_dequeue (Some (timers_compare l)) (heap_of w l) = Some h1"
    using h(1) a(1) unfolding timers_compare_key heap_dequeue_def by simp
  ultimately have "reinsert w (st n) now a l = Some (set_heap w h2 (put_event a (e\<lparr>next_timeout := x\<rparr>) l))"
    unfolding reinsert_def using a(2) x(1) by (simp add: Let_def)
  then show ?thesis using timers_ok_rekey [OF ok a(2) t h(3,4)] x(2,3) by auto
qed

lemma fire_ok:
  assumes ok: "timers_ok l" and a: "root (heap_of w l) = Some a" "mem l a = Some e" "next_timeout e \<le> now" "will_pass w st now e"
  shows "\<exists>l' e'. fire w (st n) now a l = Some l' \<and> timers_ok l' \<and> mem l' = (mem l)(a \<mapsto> e') \<and> cur_hrtime l' = cur_hrtime l \<and> fired w now e e'"
proof -
  define e1 where "e1 = (if repeat e \<noteq> INFINITE then e\<lparr>repeat := repeat e - 1\<rparr> else e)"
  have f: "event_type e1 = event_type e" "priority e1 = priority e" "timeout e1 = timeout e" "cron e1 = cron e" "has_cb e1 = has_cb e" "active e1 = active e"
    "next_timeout e1 = next_timeout e" "repeat e1 = (if repeat e = INFINITE then INFINITE else repeat e - 1)" by (auto simp: e1_def)
  let ?l1 = "put_event a e1 l"
  have v1: "tview ?l1 = tview l" using a(2) by (auto simp: tview_def e1_def fun_eq_iff)
  have ok1: "timers_ok ?l1" using ok timers_ok_view [OF v1] by simp
  have m: "a \<in> armed (heap_type w) l" using th.top_member [OF is_heap_of [OF ok] a(1)] by simp
  have t: "event_type e1 = heap_type w" "\<not> destroy e1" using m a(2) by (auto simp: armed_iff e1_def)
  have p: "root (heap_of w ?l1) = Some a" "mem ?l1 a = Some e1" "next_timeout e1 \<le> now" "will_pass w st now e1"
    using a by (cases w; simp add: heap_of_def e1_def will_pass_def)+
  obtain l2 e2 where l2: "(if repeat e1 = 0 then htimer_unlink a ?l1 else reinsert w (st n) now a ?l1) = Some l2" "timers_ok l2"
      "mem l2 = (mem ?l1)(a \<mapsto> e2)" "cur_hrtime l2 = cur_hrtime l" and e2: "fired w now e (e2\<lparr>pending := True\<rparr>)"
  proof (cases "repeat e1 = 0")
    case True
    have ty: "event_type e1 = HEVENT_TYPE_TIMEOUT \<or> event_type e1 = HEVENT_TYPE_PERIOD" using t(1) by (cases w) (simp_all add: heap_type_def)
    obtain l' where r: "htimer_unlink a ?l1 = Some l'" "timers_ok l'" "mem l' = (mem ?l1)(a \<mapsto> e1\<lparr>destroy := True\<rparr>)" "cur_hrtime l' = cur_hrtime ?l1"
      using htimer_unlink_ok [OF ok1 p(2) t(2) ty] by blast
    show ?thesis by (rule that [of l' "e1\<lparr>destroy := True\<rparr>"]) (use r True f in \<open>auto simp: fired_def\<close>)
  next
    case False
    obtain l' x where r: "reinsert w (st n) now a ?l1 = Some l'" "timers_ok l'" "mem l' = (mem ?l1)(a \<mapsto> e1\<lparr>next_timeout := x\<rparr>)" "cur_hrtime l' = cur_hrtime ?l1" "now < x"
        "w = Timers \<longrightarrow> unat x \<le> unat now + 1000 * unat (timeout e1) \<and> (\<exists>k. unat x = unat (next_timeout e1) + k * (1000 * unat (timeout e1)))"
      using reinsert_ok [OF ok1 p, of n] by blast
    show ?thesis by (rule that [of l' "e1\<lparr>next_timeout := x\<rparr>"]) (use r False t f in \<open>auto simp: fired_def\<close>)
  qed
  have "mem l2 a = Some e2" by (simp add: l2(3))
  from EVENT_PENDING_mem [OF this] obtain l3 where l3: "EVENT_PENDING a l2 = Some l3" "tview l3 = tview l2" "cur_hrtime l3 = cur_hrtime l2"
      "\<exists>q. mem l3 = (mem l2)(a \<mapsto> e2\<lparr>pending := True, pending_next := q\<rparr>)" by blast
  then obtain q where q: "mem l3 = (mem l2)(a \<mapsto> e2\<lparr>pending := True, pending_next := q\<rparr>)" by blast
  have "fire w (st n) now a l = Some l3" unfolding fire_def using a(2) l2(1) l3(1)
    by (cases "repeat e1 = 0") (simp_all add: Let_def e1_def [symmetric])
  moreover have "timers_ok l3" using l2(2) timers_ok_view [OF l3(2)] by simp
  moreover have "fired w now e (e2\<lparr>pending := True, pending_next := q\<rparr>)" using e2 by (simp add: fired_def)
  ultimately show ?thesis using l3(3) l2(3,4) q by auto
qed

section \<open>Every timer that is due\<close>

definition due :: "which_heap \<Rightarrow> u64 \<Rightarrow> hloop \<Rightarrow> addr set" where
  "due w now l = {a \<in> armed (heap_type w) l. tkey l a \<le> now}"

lemma due_fired:
  assumes "mem l a = Some e" and "mem l' = (mem l)(a \<mapsto> e')" and "fired w now e e'"
  shows "due w now l' = due w now l - {a}"
proof -
  have "b \<in> due w now l' \<longleftrightarrow> b \<in> due w now l - {a}" for b
  proof (cases "b = a")
    case True
    have "\<not> destroy e' \<Longrightarrow> \<not> next_timeout e' \<le> now" using assms(3) by (simp add: fired_def not_le)
    then show ?thesis using True assms(2) by (auto simp: due_def armed_def tkey_def)
  qed (use assms(2) in \<open>simp add: due_def armed_def tkey_def\<close>)
  then show ?thesis by blast
qed

lemma process_timers_ok:
  "timers_ok l \<Longrightarrow> (\<And>a e. a \<in> due w now l \<Longrightarrow> mem l a = Some e \<Longrightarrow> will_pass w st now e) \<Longrightarrow>
   \<exists>l'. process_timers w st now n l = Some (n + card (due w now l), l') \<and> timers_ok l' \<and> due w now l' = {} \<and> cur_hrtime l' = cur_hrtime l \<and>
     (\<forall>a. a \<notin> due w now l \<longrightarrow> mem l' a = mem l a) \<and>
     (\<forall>a\<in>due w now l. \<exists>e e'. mem l a = Some e \<and> mem l' a = Some e' \<and> fired w now e e')"
proof (induction "card (due w now l)" arbitrary: l n rule: less_induct)
  case less
  note v = is_heap_of [OF less.prems(1), of w]
  have fin: "finite (due w now l)" using is_heap_finite [OF v] by (simp add: due_def)
  show ?case
  proof (cases "root (heap_of w l)")
    case None
    then have "due w now l = {}" using th.top_none [OF v] by (simp add: due_def)
    moreover have "process_timers w st now n l = Some (n, l)" using None by (subst process_timers.simps) simp
    ultimately show ?thesis using less.prems(1) by simp
  next
    case (Some a)
    then obtain e where e: "a \<in> armed (heap_type w) l" "mem l a = Some e" "tkey l a = next_timeout e"
      using th.top_member [OF v Some] by (auto simp: armed_def tkey_def)
    show ?thesis
    proof (cases "now < next_timeout e")
      case True
      then have "due w now l = {}" using th.none_due [OF v Some, of now] e(3) by (auto simp: due_def not_le)
      moreover have "process_timers w st now n l = Some (n, l)" using Some e True by (subst process_timers.simps) simp
      ultimately show ?thesis using less.prems(1) by simp
    next
      case False
      then have le: "next_timeout e \<le> now" by (simp add: not_less)
      then have d: "a \<in> due w now l" using e by (simp add: due_def)
      obtain l1 e1 where l1: "fire w (st n) now a l = Some l1" "timers_ok l1" "mem l1 = (mem l)(a \<mapsto> e1)" "cur_hrtime l1 = cur_hrtime l" "fired w now e e1"
        using fire_ok [OF less.prems(1) Some e(2) le less.prems(2) [OF d e(2)], of n] by blast
      have D: "due w now l1 = due w now l - {a}" by (rule due_fired [OF e(2) l1(3,5)])
      have c: "card (due w now l) = Suc (card (due w now l1))" unfolding D using fin d by (rule card.remove)
      have wp: "will_pass w st now x" if "b \<in> due w now l1" "mem l1 b = Some x" for b x
        using that less.prems(2) [of b x] l1(3) unfolding D by auto
      have lt: "card (due w now l1) < card (due w now l)" using c by simp
      have "\<exists>l'. process_timers w st now (n + 1) l1 = Some (n + 1 + card (due w now l1), l') \<and> timers_ok l' \<and> due w now l' = {} \<and> cur_hrtime l' = cur_hrtime l1 \<and>
          (\<forall>b. b \<notin> due w now l1 \<longrightarrow> mem l' b = mem l1 b) \<and> (\<forall>b\<in>due w now l1. \<exists>x x'. mem l1 b = Some x \<and> mem l' b = Some x' \<and> fired w now x x')"
        by (rule less.hyps [OF lt l1(2)]) (rule wp)
      then obtain l' where l': "process_timers w st now (n + 1) l1 = Some (n + 1 + card (due w now l1), l')" "timers_ok l'" "due w now l' = {}" "cur_hrtime l' = cur_hrtime l1"
          "\<And>b. b \<notin> due w now l1 \<Longrightarrow> mem l' b = mem l1 b" "\<And>b. b \<in> due w now l1 \<Longrightarrow> \<exists>x x'. mem l1 b = Some x \<and> mem l' b = Some x' \<and> fired w now x x'"
        by blast
      have "process_timers w st now n l = process_timers w st now (n + 1) l1"
        using Some e False l1(1) by (subst process_timers.simps) simp
      moreover have "mem l' b = mem l b" if "b \<notin> due w now l" for b using that l'(5) [of b] d l1(3) D by auto
      moreover have "\<exists>x x'. mem l b = Some x \<and> mem l' b = Some x' \<and> fired w now x x'" if "b \<in> due w now l" for b
        using that l'(5,6) [of b] l1(3,5) e(2) D by (cases "b = a") auto
      ultimately show ?thesis using l' l1(4) c by auto
    qed
  qed
qed

definition all_pass :: "which_heap \<Rightarrow> (nat \<Rightarrow> systime) \<Rightarrow> u64 \<Rightarrow> hloop \<Rightarrow> bool" where
  "all_pass w st now l \<longleftrightarrow> (\<forall>a e. a \<in> due w now l \<and> mem l a = Some e \<longrightarrow> will_pass w st now e)"

text \<open>Firing the one kind of timer does not touch the other.\<close>

lemma due_other:
  assumes "w \<noteq> v" and "\<And>a. a \<notin> due w now l \<Longrightarrow> mem l' a = mem l a"
    and "\<And>a. a \<in> due w now l \<Longrightarrow> \<exists>e e'. mem l a = Some e \<and> mem l' a = Some e' \<and> fired w now e e'"
  shows "due v t l' = due v t l" "a \<in> due v t l \<Longrightarrow> mem l' a = mem l a" "a \<in> due w now l \<Longrightarrow> a \<notin> due v t l"
proof -
  have ty: "heap_type w \<noteq> heap_type v" using assms(1) by (cases w; cases v) (simp_all add: heap_type_def)
  have dis: "b \<notin> armed (heap_type v) l \<and> b \<notin> armed (heap_type v) l'" if b: "b \<in> due w now l" for b
  proof -
    obtain e e' where e: "mem l b = Some e" "mem l' b = Some e'" "fired w now e e'" using assms(3) [OF b] by blast
    have "event_type e = heap_type w" using b e(1) by (auto simp: due_def armed_def)
    then show ?thesis using e ty by (auto simp: armed_def fired_def)
  qed
  have "b \<in> due v t l' \<longleftrightarrow> b \<in> due v t l" for b
  proof (cases "b \<in> due w now l")
    case True
    then show ?thesis using dis [OF True] by (simp add: due_def)
  next
    case False
    show ?thesis by (simp add: due_def armed_def tkey_def assms(2) [OF False])
  qed
  then show "due v t l' = due v t l" by blast
  show "a \<in> due w now l \<Longrightarrow> a \<notin> due v t l" using dis by (auto simp: due_def)
  show "a \<in> due v t l \<Longrightarrow> mem l' a = mem l a" using dis assms(2) by (auto simp: due_def)
qed

lemma hloop_process_timers_ok:
  assumes ok: "timers_ok l" and D: "D1 = due Timers (cur_hrtime l) l" "D2 = due Realtimers (hloop_now_us l) l"
    and w1: "all_pass Timers st (cur_hrtime l) l" and w2: "all_pass Realtimers st (hloop_now_us l) l"
  shows "\<exists>l1 l2. process_timers Timers st (cur_hrtime l) 0 l = Some (card D1, l1) \<and> process_timers Realtimers st (hloop_now_us l) 0 l1 = Some (card D2, l2) \<and>
    timers_ok l1 \<and> timers_ok l2 \<and> due Realtimers (hloop_now_us l) l1 = D2 \<and> all_pass Realtimers st (hloop_now_us l) l1 \<and>
    (\<forall>a. a \<notin> D1 \<union> D2 \<longrightarrow> mem l2 a = mem l a) \<and>
    (\<forall>a\<in>D1. \<exists>e e'. mem l a = Some e \<and> mem l2 a = Some e' \<and> fired Timers (cur_hrtime l) e e') \<and>
    (\<forall>a\<in>D2. \<exists>e e'. mem l a = Some e \<and> mem l2 a = Some e' \<and> fired Realtimers (hloop_now_us l) e e') \<and> D1 \<inter> D2 = {} \<and>
    due Timers (cur_hrtime l) l2 = {} \<and> due Realtimers (hloop_now_us l) l2 = {}"
proof -
  let ?t = "cur_hrtime l" and ?u = "hloop_now_us l"
  have "\<exists>l1. process_timers Timers st ?t 0 l = Some (0 + card (due Timers ?t l), l1) \<and> timers_ok l1 \<and> due Timers ?t l1 = {} \<and> cur_hrtime l1 = cur_hrtime l \<and>
     (\<forall>a. a \<notin> due Timers ?t l \<longrightarrow> mem l1 a = mem l a) \<and> (\<forall>a\<in>due Timers ?t l. \<exists>e e'. mem l a = Some e \<and> mem l1 a = Some e' \<and> fired Timers ?t e e')"
    by (rule process_timers_ok [OF ok]) (use w1 in \<open>auto simp: all_pass_def\<close>)
  then obtain l1 where l1: "process_timers Timers st ?t 0 l = Some (card D1, l1)" "timers_ok l1" "due Timers ?t l1 = {}"
      "\<And>a. a \<notin> due Timers ?t l \<Longrightarrow> mem l1 a = mem l a" "\<And>a. a \<in> due Timers ?t l \<Longrightarrow> \<exists>e e'. mem l a = Some e \<and> mem l1 a = Some e' \<and> fired Timers ?t e e'"
    using D by auto
  have ne: "Timers \<noteq> Realtimers" by simp
  note o = due_other [OF ne l1(4,5), where t = ?u]
  have w2': "will_pass Realtimers st ?u e" if "a \<in> due Realtimers ?u l1" "mem l1 a = Some e" for a e
    using that w2 o(1,2) by (auto simp: all_pass_def)
  have "\<exists>l2. process_timers Realtimers st ?u 0 l1 = Some (0 + card (due Realtimers ?u l1), l2) \<and> timers_ok l2 \<and> due Realtimers ?u l2 = {} \<and> cur_hrtime l2 = cur_hrtime l1 \<and>
     (\<forall>a. a \<notin> due Realtimers ?u l1 \<longrightarrow> mem l2 a = mem l1 a) \<and> (\<forall>a\<in>due Realtimers ?u l1. \<exists>e e'. mem l1 a = Some e \<and> mem l2 a = Some e' \<and> fired Realtimers ?u e e')"
    by (rule process_timers_ok [OF l1(2)]) (rule w2')
  then obtain l2 where l2: "process_timers Realtimers st ?u 0 l1 = Some (0 + card (due Realtimers ?u l1), l2)" "timers_ok l2" "due Realtimers ?u l2 = {}"
      "\<And>a. a \<notin> due Realtimers ?u l1 \<Longrightarrow> mem l2 a = mem l1 a"
      "\<And>a. a \<in> due Realtimers ?u l1 \<Longrightarrow> \<exists>e e'. mem l1 a = Some e \<and> mem l2 a = Some e' \<and> fired Realtimers ?u e e'"
    by blast
  note o2 = due_other [OF ne [symmetric] l2(4,5), where t = ?t]
  have "mem l2 a = mem l a" if "a \<notin> D1 \<union> D2" for a using that l1(4) [of a] l2(4) [of a] D o(1) by auto
  moreover have "\<exists>e e'. mem l a = Some e \<and> mem l2 a = Some e' \<and> fired Timers ?t e e'" if "a \<in> D1" for a
    using that l1(5) [of a] l2(4) [of a] D o(1) o(3) [of a] by auto
  moreover have "\<exists>e e'. mem l a = Some e \<and> mem l2 a = Some e' \<and> fired Realtimers ?u e e'" if "a \<in> D2" for a
    using that l2(5) [of a] D o(1) o(2) [of a] by auto
  moreover have "D1 \<inter> D2 = {}" using o(3) D by blast
  moreover have "due Timers ?t l2 = {}" using o2(1) l1(3) by simp
  moreover have "process_timers Realtimers st ?u 0 l1 = Some (card D2, l2)" using l2(1) o(1) D(2) by simp
  moreover have "due Realtimers ?u l1 = D2" using o(1) D(2) by simp
  moreover have "all_pass Realtimers st ?u l1" unfolding all_pass_def by (intro allI impI, elim conjE) (rule w2')
  ultimately show ?thesis using l1(1,2) l2(2,3) by blast
qed

section \<open>The life of a loop\<close>

text \<open>
  The calls that change a loop, in any order: those of a client, which may come from callbacks, and the
  steps of the loop itself. \<open>settle\<close> is the end of an event in \<open>hloop_process_pendings\<close>.
\<close>

definition settle :: "addr \<Rightarrow> hloop \<Rightarrow> hloop option" where
  "settle a l = do {
     e \<leftarrow> mem l a;
     let l = put_event a (e\<lparr>pending := False\<rparr>) l;
     if destroy e then EVENT_DEL a l else Some l }"

inductive loop_step :: "hloop \<Rightarrow> hloop \<Rightarrow> bool" where
  add: "mem l new = None \<Longrightarrow> htimer_add c new cb t rep l = Some (r, l') \<Longrightarrow> loop_step l l'"
| add_period: "mem l new = None \<Longrightarrow> htimer_add_period st new cb cr rep l = Some (r, l') \<Longrightarrow> loop_step l l'"
| reset: "htimer_reset a t l = Some l' \<Longrightarrow> loop_step l l'"
| del: "mem l a = Some e \<Longrightarrow> event_type e = HEVENT_TYPE_TIMEOUT \<or> event_type e = HEVENT_TYPE_PERIOD \<Longrightarrow> htimer_del a l = Some l' \<Longrightarrow> loop_step l l'"
| idle: "mem l new = None \<Longrightarrow> hidle_add new cb rep l = Some (r, l') \<Longrightarrow> loop_step l l'"
| idle_del: "mem l a = Some e \<Longrightarrow> event_type e = HEVENT_TYPE_IDLE \<Longrightarrow> hidle_del a l = Some l' \<Longrightarrow> loop_step l l'"
| update: "l' = hloop_update_time c l \<Longrightarrow> loop_step l l'"
| pend: "EVENT_PENDING a l = Some l' \<Longrightarrow> loop_step l l'"
| fire_due: "all_pass Timers st (cur_hrtime l) l \<Longrightarrow> all_pass Realtimers st (hloop_now_us l) l \<Longrightarrow>
    hloop_process_timers st l = Some (n, l') \<Longrightarrow> loop_step l l'"
| settle: "settle a l = Some l' \<Longrightarrow> loop_step l l'"

inductive_cases loop_stepE: "loop_step l l'"

inductive reachable :: "hloop \<Rightarrow> bool" where
  start: "reachable (hloop_new c)"
| step: "reachable l \<Longrightarrow> loop_step l l' \<Longrightarrow> reachable l'"

lemma timers_ok_new: "timers_ok (hloop_new c)"
  unfolding timers_ok_def by (auto simp: hloop_new_def armed_def is_heap_init)

text \<open>Events that are no timers do not matter.\<close>

lemma timers_ok_put_other:
  assumes ok: "timers_ok l" and a: "\<And>ty. ty = HEVENT_TYPE_TIMEOUT \<or> ty = HEVENT_TYPE_PERIOD \<Longrightarrow> a \<notin> armed ty l"
    and e: "event_type e \<noteq> HEVENT_TYPE_TIMEOUT" "event_type e \<noteq> HEVENT_TYPE_PERIOD"
  shows "timers_ok (put_event a e l)"
proof -
  have A: "armed ty (put_event a e l) = armed ty l" if "ty = HEVENT_TYPE_TIMEOUT \<or> ty = HEVENT_TYPE_PERIOD" for ty
    using that a [OF that] e by (auto simp: armed_put)
  have "is_heap (tkey (put_event a e l)) (armed ty l) h" if "ty = HEVENT_TYPE_TIMEOUT \<or> ty = HEVENT_TYPE_PERIOD" "is_heap (tkey l) (armed ty l) h" for ty h
    by (rule is_heap_cong [OF that(2)]) (use a [OF that(1)] in \<open>auto simp: tkey_put\<close>)
  then show ?thesis using ok e A unfolding timers_ok_def by auto
qed

lemma hidle_unlink_ok:
  assumes "timers_ok l" and a: "mem l a = Some e" "event_type e = HEVENT_TYPE_IDLE"
  shows "\<exists>l'. hidle_unlink a l = Some l' \<and> timers_ok l' \<and> mem l' = (mem l)(a \<mapsto> e\<lparr>destroy := True\<rparr>)"
proof (cases "destroy e")
  case True
  then show ?thesis using assms by (simp add: hidle_unlink_def fun_upd_idem)
next
  case False
  have "timers_ok (put_event a (e\<lparr>destroy := True\<rparr>) l)" using a by (intro timers_ok_put_other [OF assms(1)]) (auto simp: armed_def)
  moreover have "tview ((put_event a (e\<lparr>destroy := True\<rparr>) l)\<lparr>idles := remove1 a (idles l), nidles := nidles l - 1\<rparr>) = tview (put_event a (e\<lparr>destroy := True\<rparr>) l)"
    by (simp add: tview_def)
  ultimately have "timers_ok ((put_event a (e\<lparr>destroy := True\<rparr>) l)\<lparr>idles := remove1 a (idles l), nidles := nidles l - 1\<rparr>)"
    using timers_ok_view by blast
  then show ?thesis using a False by (simp add: hidle_unlink_def)
qed

lemma settle_ok:
  assumes ok: "timers_ok l" and r: "settle a l = Some l'"
  shows "timers_ok l'"
proof -
  obtain e where e: "mem l a = Some e" "(if destroy e then EVENT_DEL a (put_event a (e\<lparr>pending := False\<rparr>) l) else Some (put_event a (e\<lparr>pending := False\<rparr>) l)) = Some l'"
    using r by (auto simp: settle_def bind_eq_Some_conv Let_def)
  have v: "tview (put_event a (e\<lparr>pending := False\<rparr>) l) = tview l" using e(1) by (auto simp: tview_def)
  then have ok': "timers_ok (put_event a (e\<lparr>pending := False\<rparr>) l)" using ok timers_ok_view by blast
  show ?thesis using e(2) EVENT_DEL_ok [OF ok', of a "e\<lparr>pending := False\<rparr>"] ok' by (auto split: if_splits)
qed

lemma loop_step_ok: "loop_step l l' \<Longrightarrow> timers_ok l \<Longrightarrow> timers_ok l'"
proof (induction rule: loop_step.induct)
  case (add l new c cb t rep r l')
  then show ?case using htimer_add_ok [of l new t c cb rep] by (cases "t = 0") (auto simp: htimer_add_def)
next
  case (add_period l new st cb cr rep r l')
  obtain m h d w mo where c: "cr = (m, h, d, w, mo)" by (cases cr) auto
  then show ?case using add_period htimer_add_period_ok [OF add_period.prems add_period.hyps(1) c, of st cb rep]
    by (cases "59 < m \<or> 23 < h \<or> 31 < d \<or> 6 < w \<or> 12 < mo") (auto simp: htimer_add_period_def not_less)
next
  case (reset a t l l')
  obtain e where e: "mem l a = Some e" using reset.hyps by (auto simp: htimer_reset_def bind_eq_Some_conv)
  show ?case using htimer_reset_ok [OF reset.prems e, of t] reset e by (cases "event_type e = HEVENT_TYPE_TIMEOUT") (auto simp: htimer_reset_def)
next
  case (del l a e l')
  then show ?case using htimer_del_ok [OF del.prems del.hyps(1,2)] by auto
next
  case (idle l new cb rep r l')
  define e where "e = zero_event\<lparr>event_type := HEVENT_TYPE_IDLE, priority := - 5, repeat := rep\<rparr>"
  have "timers_ok (put_event new e l)" using idle by (intro timers_ok_put_other) (auto simp: armed_def e_def)
  moreover obtain l1 where "EVENT_ADD new cb (put_event new e (l\<lparr>idles := new # idles l\<rparr>)) = Some l1" "l' = l1\<lparr>nidles := nidles l1 + 1\<rparr>"
    using idle.hyps(2) by (auto simp: hidle_add_def e_def bind_eq_Some_conv)
  moreover have "tview (put_event new e (l\<lparr>idles := new # idles l\<rparr>)) = tview (put_event new e l)" "tview (l1\<lparr>nidles := nidles l1 + 1\<rparr>) = tview l1" for l1
    by (simp_all add: tview_def)
  ultimately show ?case using EVENT_ADD_view timers_ok_view by metis
next
  case (idle_del l a e l')
  obtain l1 where l1: "hidle_unlink a l = Some l1" "timers_ok l1" "mem l1 = (mem l)(a \<mapsto> e\<lparr>destroy := True\<rparr>)"
    using hidle_unlink_ok [OF idle_del.prems idle_del.hyps(1,2)] by blast
  have "mem l1 a = Some (e\<lparr>destroy := True\<rparr>)" by (simp add: l1(3))
  from EVENT_DEL_ok [OF l1(2) this] show ?case using idle_del l1(1) by (auto simp: hidle_del_def split: if_splits)
next
  case (update l' c l)
  then have "tview l' = tview l" by (simp add: hloop_update_time_def tview_def Let_def)
  then show ?case using update timers_ok_view by blast
next
  case (pend a l l')
  then show ?case using EVENT_PENDING_view timers_ok_view by blast
next
  case (fire_due st l n l')
  have "\<exists>l1 n1 n2. process_timers Timers st (cur_hrtime l) 0 l = Some (n1, l1) \<and> process_timers Realtimers st (hloop_now_us l) 0 l1 = Some (n2, l') \<and> timers_ok l'"
    using hloop_process_timers_ok [OF fire_due.prems refl refl fire_due.hyps(1,2)] fire_due.hyps(3)
    by (auto simp: hloop_process_timers_def Let_def)
  then show ?case by blast
next
  case (settle a l l')
  then show ?case using settle_ok by blast
qed

lemma reachable_ok: "reachable l \<Longrightarrow> timers_ok l"
  by (induction rule: reachable.induct) (auto simp: timers_ok_new intro: loop_step_ok)

section \<open>How long the poller blocks\<close>

lemma sint_diff:
  fixes x y :: u64
  assumes "unat x < 2 ^ 63" and "unat y < 2 ^ 63"
  shows "sint (x - y) = int (unat x) - int (unat y)"
proof -
  have u: "uint x < 2 ^ 63" "uint y < 2 ^ 63" "0 \<le> uint x" "0 \<le> uint y"
    using assms [folded of_nat_less_iff [where 'a = int]] by (simp_all only: of_nat_power of_nat_numeral uint_nat of_nat_0_le_iff)
  have "sint (x - y) = signed_take_bit 63 (uint (x - y))" by (simp add: sint_uint)
  also have "\<dots> = signed_take_bit 63 (uint x - uint y)"
    by (simp add: uint_word_ariths signed_take_bit_eq_iff_take_bit_eq take_bit_eq_mod mod_mod_cancel)
  also have "\<dots> = uint x - uint y"
    using u by (intro signed_take_bit_int_eq_self) linarith+
  finally show ?thesis by (simp only: uint_nat)
qed

lemma until_root_le:
  assumes "timers_ok l" and "\<And>a. a \<in> armed (heap_type w) l \<Longrightarrow> unat (tkey l a) < 2 ^ 63" and "unat now < 2 ^ 63"
  shows "until_root l (heap_of w l) now us \<le> us"
    "a \<in> armed (heap_type w) l \<Longrightarrow> until_root l (heap_of w l) now us \<le> int (unat (tkey l a)) - int (unat now)"
    "until_root l (heap_of w l) now us < us \<Longrightarrow> \<exists>a \<in> armed (heap_type w) l. until_root l (heap_of w l) now us = int (unat (tkey l a)) - int (unat now)"
proof -
  note v = is_heap_of [OF assms(1), of w]
  show "until_root l (heap_of w l) now us \<le> us" by (simp add: until_root_def split: option.split)
  { fix b assume r: "root (heap_of w l) = Some b"
    then have "b \<in> armed (heap_type w) l" "\<forall>c \<in> armed (heap_type w) l. tkey l b \<le> tkey l c" using th.top_member [OF v r] by auto
    moreover from this have "until_root l (heap_of w l) now us = min us (int (unat (tkey l b)) - int (unat now))"
      using r sint_diff [OF assms(2) assms(3)] by (simp add: until_root_def)
    ultimately have "b \<in> armed (heap_type w) l \<and> (\<forall>c \<in> armed (heap_type w) l. unat (tkey l b) \<le> unat (tkey l c)) \<and>
        until_root l (heap_of w l) now us = min us (int (unat (tkey l b)) - int (unat now))" by (auto simp: word_le_nat_alt) }
  note R = this
  show "until_root l (heap_of w l) now us \<le> int (unat (tkey l a)) - int (unat now)" if "a \<in> armed (heap_type w) l"
  proof (cases "root (heap_of w l)")
    case None
    then show ?thesis using th.top_none [OF v] that by simp
  next
    case (Some b)
    then have "unat (tkey l b) \<le> unat (tkey l a)" using R [OF Some] that by blast
    then show ?thesis using R [OF Some] by linarith
  qed
  show "\<exists>a \<in> armed (heap_type w) l. until_root l (heap_of w l) now us = int (unat (tkey l a)) - int (unat now)" if "until_root l (heap_of w l) now us < us"
  proof (cases "root (heap_of w l)")
    case None
    then show ?thesis using that by (simp add: until_root_def)
  next
    case (Some b)
    then show ?thesis using R [OF Some] that by (intro bexI [of _ b]) auto
  qed
qed

lemma calc_blocktime_cases:
  assumes "ntimers l \<noteq> 0" and "- (2 ^ 31) \<le> timeout_ms * 1000" and "timeout_ms * 1000 < 2 ^ 31"
  defines "us \<equiv> until_root l (heap_of Realtimers l) (hloop_now_us l) (until_root l (heap_of Timers l) (cur_hrtime l) (timeout_ms * 1000))"
  shows "calc_blocktime timeout_ms l = (if us < 0 then Overdue else Block (min (us div 1000 + 1) timeout_ms))"
  using assms by (simp add: calc_blocktime_def heap_of_def Let_def)

section \<open>Properties\<close>

text \<open>C16. In every state a loop can get into, by calls of its clients and steps of its own in any order, the
  heap of timers holds exactly the timeouts that are armed, ordered by their next timeout, the other heap
  the periodic timers, and \<open>ntimers\<close> is their number; and deleting or resetting a timer returns: no
  assertion of the heap fails, no null pointer is followed and no loop of it goes on for ever.\<close>

theorem timers_invariant:
  assumes "reachable l"
  shows "timers_ok l \<and> (\<forall>a e. mem l a = Some e \<and> (event_type e = HEVENT_TYPE_TIMEOUT \<or> event_type e = HEVENT_TYPE_PERIOD) \<longrightarrow>
    (\<exists>l'. htimer_del a l = Some l') \<and> (\<forall>t. \<exists>l'. htimer_reset a t l = Some l'))"
proof -
  note ok = reachable_ok [OF assms]
  have "\<exists>l'. htimer_reset a t l = Some l'" if "mem l a = Some e" for a e t
    using htimer_reset_ok [OF ok that, of t] that by (cases "event_type e = HEVENT_TYPE_TIMEOUT") (auto simp: htimer_reset_def)
  then show ?thesis using ok htimer_del_ok [OF ok] by blast
qed

definition demo_clock :: clock where
  "demo_clock = \<lparr>clk_hrtime = 5000, clk_time = 7, clk_ms = 7000\<rparr>"

theorem timers_invariant_witness:
  "\<exists>l. htimer_add demo_clock 1 True 10 INFINITE (hloop_new demo_clock) = Some (Some 1, l) \<and> timers_ok l \<and>
     (\<exists>l'. htimer_del 1 l = Some l') \<and> (\<forall>t. \<exists>l'. htimer_reset 1 t l = Some l')"
proof -
  obtain l e where l: "htimer_add demo_clock 1 True 10 INFINITE (hloop_new demo_clock) = Some (Some 1, l)" "mem l = (mem (hloop_new demo_clock))(1 \<mapsto> e)"
      "event_type e = HEVENT_TYPE_TIMEOUT"
    using htimer_add_ok [OF timers_ok_new [of demo_clock], of 1 10 demo_clock True INFINITE] by (auto simp: hloop_new_def)
  have "reachable l" by (rule reachable.step [OF reachable.start [of demo_clock] loop_step.add [OF _ l(1)]]) (simp add: hloop_new_def)
  from timers_invariant [OF this] show ?thesis using l by auto
qed


text \<open>A loop with one timer of 10 ms, due since 4 ms.\<close>

definition demo_timer :: hevent where
  "demo_timer = \<lparr>event_type = HEVENT_TYPE_TIMEOUT, priority = 5, repeat = INFINITE, next_timeout = 1000, timeout = 10, cron = (0, 0, 0, 0, 0),
     has_cb = True, destroy = False, active = True, pending = False, pending_next = None\<rparr>"

definition demo_loop :: hloop where
  "demo_loop = (hloop_new demo_clock)\<lparr>mem := [1 \<mapsto> demo_timer], nactives := 1, ntimers := 1, timers := zero_heap\<lparr>root := Some 1, nelts := 1\<rparr>\<rparr>"

lemma demo_armed: "armed ty demo_loop = (if ty = HEVENT_TYPE_TIMEOUT then {1} else {})"
  by (auto simp: armed_def demo_loop_def demo_timer_def)

lemma demo_timers_ok: "timers_ok demo_loop"
proof -
  have "is_heap (tkey demo_loop) {1} (timers demo_loop)"
    unfolding is_heap_def by (rule exI [of _ "[1]"]) (simp add: shape_def linked_def demo_loop_def zero_heap_def node_at_def parent_at_def heap_ordered_def)
  moreover have "is_heap (tkey demo_loop) {} (realtimers demo_loop)" by (simp add: demo_loop_def hloop_new_def is_heap_init)
  ultimately show ?thesis unfolding timers_ok_def demo_armed by (auto simp: demo_loop_def demo_timer_def)
qed

lemma demo_fields: "cur_hrtime demo_loop = 5000" "mem demo_loop = [1 \<mapsto> demo_timer]" "tkey demo_loop 1 = 1000" "timeout demo_timer = 10" "pendings demo_loop = (\<lambda>_. None)"
  "npendings demo_loop = 0" "ntimers demo_loop = 1" "nidles demo_loop = 0"
  by (simp_all add: demo_loop_def hloop_new_def demo_clock_def demo_timer_def tkey_def)




text \<open>The poller never blocks past the next timer: when the loop blocks for \<open>b\<close> milliseconds, \<open>b\<close> is at
  most the time the caller allows and at most one millisecond more than what is left until any armed timer is
  due; and it does not block at all exactly when a timer is overdue (or the caller allows a negative time).
  The clocks are below \<open>2\<^sup>63\<close> microseconds and the product with 1000 fits an \<open>int\<close>.\<close>

theorem blocktime_bounds:
  assumes "timers_ok l" and "ntimers l \<noteq> 0" and "- (2 ^ 31) \<le> timeout_ms * 1000" and "timeout_ms * 1000 < 2 ^ 31"
    and "\<forall>w. \<forall>a\<in>armed (heap_type w) l. unat (tkey l a) < 2 ^ 63" and "unat (cur_hrtime l) < 2 ^ 63" and "unat (hloop_now_us l) < 2 ^ 63"
    and "left w a = int (unat (tkey l a)) - int (unat (case w of Timers \<Rightarrow> cur_hrtime l | Realtimers \<Rightarrow> hloop_now_us l))"
    and "a \<in> armed (heap_type w) l"
  shows "(calc_blocktime timeout_ms l = Block b \<longrightarrow> b \<le> timeout_ms \<and> 1000 * (b - 1) \<le> left w a \<and> 0 \<le> left w a) \<and>
    (0 \<le> timeout_ms \<and> left w a < 0 \<longrightarrow> calc_blocktime timeout_ms l = Overdue)"
proof -
  define u1 where "u1 = until_root l (heap_of Timers l) (cur_hrtime l) (timeout_ms * 1000)"
  define us where "us = until_root l (heap_of Realtimers l) (hloop_now_us l) u1"
  have c: "calc_blocktime timeout_ms l = (if us < 0 then Overdue else Block (min (us div 1000 + 1) timeout_ms))"
    using calc_blocktime_cases [OF assms(2-4)] by (simp add: us_def u1_def)
  have "us \<le> u1" using until_root_le(1) [OF assms(1) _ assms(7), of Realtimers u1] assms(5) by (simp add: us_def)
  moreover have "u1 \<le> left Timers a" if "w = Timers"
    using until_root_le(2) [OF assms(1) _ assms(6), of Timers a "timeout_ms * 1000"] assms(5,8,9) that by (simp add: u1_def)
  moreover have "us \<le> left Realtimers a" if "w = Realtimers"
    using until_root_le(2) [OF assms(1) _ assms(7), of Realtimers a u1] assms(5,8,9) that by (simp add: us_def)
  ultimately have le: "us \<le> left w a" by (cases w) auto
  have "1000 * (min (us div 1000 + 1) timeout_ms - 1) \<le> 1000 * (us div 1000)" by (rule mult_left_mono) simp_all
  also have "\<dots> \<le> us" by simp
  finally have "1000 * (min (us div 1000 + 1) timeout_ms - 1) \<le> us" .
  then show ?thesis unfolding c using le by auto
qed

theorem blocktime_bounds_witness:
  "calc_blocktime 100 demo_loop = Overdue"
proof -
  have "\<forall>w. \<forall>a\<in>armed (heap_type w) demo_loop. unat (tkey demo_loop a) < 2 ^ 63"
    unfolding demo_armed using demo_fields(3) by auto
  moreover have "unat (hloop_now_us demo_loop) < 2 ^ 63" by (simp add: hloop_now_us_def demo_loop_def hloop_new_def demo_clock_def)
  moreover have "(1 :: addr) \<in> armed (heap_type Timers) demo_loop" by (simp add: demo_armed heap_type_def)
  ultimately show ?thesis
    using blocktime_bounds [OF demo_timers_ok, of 100 "\<lambda>w a. int (unat (tkey demo_loop a)) - int (unat (case w of Timers \<Rightarrow> cur_hrtime demo_loop | Realtimers \<Rightarrow> hloop_now_us demo_loop))" Timers 1]
    using demo_fields(1,3,7) by simp
qed

end
