(* ===== verification/Event_Pending.thy ===== *)
theory Event_Pending
  imports Event_Timers
begin

text \<open>
  The lists of pending events. An event is pushed on the list of its priority when it becomes
  pending; \<open>hloop_process_pendings\<close> walks the lists from the highest priority to the lowest, runs
  the callbacks and frees the events that are marked.
\<close>

section \<open>The lists\<close>

primrec chain :: "hloop \<Rightarrow> addr option \<Rightarrow> addr list \<Rightarrow> bool" where
  "chain l cur [] \<longleftrightarrow> cur = None"
| "chain l cur (a # xs) \<longleftrightarrow> cur = Some a \<and> (\<exists>e. mem l a = Some e \<and> chain l (pending_next e) xs)"

lemma chain_cong:
  "chain l cur xs \<Longrightarrow> (\<And>a. a \<in> set xs \<Longrightarrow> map_option pending_next (mem l' a) = map_option pending_next (mem l a)) \<Longrightarrow> chain l' cur xs"
proof (induction xs arbitrary: cur)
  case (Cons a xs)
  then obtain e where e: "cur = Some a" "mem l a = Some e" "chain l (pending_next e) xs" by auto
  have "map_option pending_next (mem l' a) = Some (pending_next e)" using Cons.prems(2) [of a] e(2) by simp
  then obtain e' where "mem l' a = Some e'" "pending_next e' = pending_next e" by auto
  then show ?case using Cons.IH [OF e(3)] Cons.prems(2) e(1) by auto
qed simp

text \<open>\<open>f i\<close> is the list of priority index \<open>i\<close>; the lists hold the pending events.\<close>

definition listed :: "(nat \<Rightarrow> addr list) \<Rightarrow> addr list" where
  "listed f = concat (map f [0..<11])"

lemma in_listed: "a \<in> set (listed f) \<longleftrightarrow> (\<exists>i<11. a \<in> set (f i))"
  by (auto simp: listed_def simp del: upt_Suc upt_rec_numeral)

definition pend_lists :: "hloop \<Rightarrow> (nat \<Rightarrow> addr list) \<Rightarrow> bool" where
  "pend_lists l f \<longleftrightarrow>
     (\<forall>i<11. chain l (pendings l (int i)) (f i)) \<and> distinct (listed f) \<and>
     (\<forall>a. a \<in> set (listed f) \<longleftrightarrow> (\<exists>e. mem l a = Some e \<and> pending e)) \<and>
     npendings l = of_nat (length (listed f))"


text \<open>What they read.\<close>

definition pview :: "hloop \<Rightarrow> (addr \<rightharpoonup> bool \<times> addr option \<times> int) \<times> (int \<Rightarrow> addr option) \<times> u32" where
  "pview l = (\<lambda>a. map_option (\<lambda>e. (pending e, pending_next e, priority e)) (mem l a), pendings l, npendings l)"





section \<open>Becoming pending\<close>




lemma pview_fields [simp]:
  "pview (l\<lparr>timers := h\<rparr>) = pview l" "pview (l\<lparr>realtimers := h\<rparr>) = pview l" "pview (l\<lparr>ntimers := n\<rparr>) = pview l" "pview (set_heap w h l) = pview l"
  "called (set_heap w h l) = called l"
  by (simp_all add: pview_def set_heap_def split: which_heap.split)





section \<open>Running the callbacks\<close>

definition is_pending :: "hloop \<Rightarrow> addr \<Rightarrow> bool" where
  "is_pending l a \<longleftrightarrow> (\<exists>e. mem l a = Some e \<and> pending e)"

text \<open>Callbacks that return, leave the other pending events and the lists alone, make no event pending, and
  do not free their own event.\<close>

definition quiet_callbacks :: "callbacks \<Rightarrow> bool" where
  "quiet_callbacks cbs \<longleftrightarrow> (\<forall>a l. mem l a \<noteq> None \<longrightarrow>
     (\<exists>l'. cbs a l = Some l' \<and> mem l' a \<noteq> None \<and> called l' = called l \<and> pendings l' = pendings l \<and>
        (\<forall>b e. b \<noteq> a \<and> mem l b = Some e \<and> pending e \<longrightarrow> mem l' b = Some e) \<and>
        (\<forall>b e. mem l' b = Some e \<and> pending e \<longrightarrow> is_pending l b)))"

definition runs :: "hloop \<Rightarrow> addr \<Rightarrow> bool" where
  "runs l a \<longleftrightarrow> (\<exists>e. mem l a = Some e \<and> active e \<and> has_cb e)"

lemma EVENT_DEL_frees:
  assumes "mem l a = Some e" and "\<not> pending e"
  shows "\<exists>l'. EVENT_DEL a l = Some l' \<and> mem l' = (mem l)(a := None) \<and> called l' = called l \<and> pendings l' = pendings l"
  using assms by (cases "active e") (auto simp: EVENT_DEL_def EVENT_INACTIVE_def put_event_def)

lemma handle_pending_ok:
  assumes q: "quiet_callbacks cbs" and a: "mem l a = Some e" "pending e"
  shows "\<exists>l'. handle_pending cbs a n l = Some (n + (if runs l a then 1 else 0), l') \<and> called l' = called l @ (if runs l a then [a] else []) \<and>
    pendings l' = pendings l \<and> (\<forall>b. is_pending l' b \<longrightarrow> b \<noteq> a \<and> is_pending l b) \<and> (\<forall>b x. b \<noteq> a \<and> mem l b = Some x \<and> pending x \<longrightarrow> mem l' b = Some x)"
proof -
  obtain l1 where l1: "(if active e \<and> has_cb e then do { l \<leftarrow> invoke cbs a l; Some (n + 1, l) } else Some (n, l)) = Some (n + (if runs l a then 1 else 0), l1)"
      "mem l1 a \<noteq> None" "called l1 = called l @ (if runs l a then [a] else [])" "pendings l1 = pendings l"
      "\<forall>b x. b \<noteq> a \<and> mem l b = Some x \<and> pending x \<longrightarrow> mem l1 b = Some x" "\<forall>b. is_pending l1 b \<longrightarrow> is_pending l b"
  proof (cases "active e \<and> has_cb e")
    case True
    then have r: "runs l a" using a by (simp add: runs_def)
    obtain l1 where "cbs a (l\<lparr>called := called l @ [a]\<rparr>) = Some l1" "mem l1 a \<noteq> None" "called l1 = called l @ [a]" "pendings l1 = pendings l"
        "\<forall>b x. b \<noteq> a \<and> mem l b = Some x \<and> pending x \<longrightarrow> mem l1 b = Some x" "\<forall>b. is_pending l1 b \<longrightarrow> is_pending l b"
      using q a unfolding quiet_callbacks_def is_pending_def by (elim allE [of _ a] allE [of _ "l\<lparr>called := called l @ [a]\<rparr>"]) auto
    then show ?thesis using that True r by (simp add: invoke_def)
  next
    case False
    then have "\<not> runs l a" using a by (simp add: runs_def)
    then show ?thesis using that [of l] False a by simp
  qed
  obtain e1 where e1: "mem l1 a = Some e1" using l1(2) by blast
  let ?l2 = "put_event a (e1\<lparr>pending := False\<rparr>) l1"
  obtain l3 where "(if destroy e1 then EVENT_DEL a ?l2 else Some ?l2) = Some l3" "called l3 = called l1" "pendings l3 = pendings l1"
      "\<forall>x. mem l3 a = Some x \<longrightarrow> \<not> pending x" "\<forall>b. b \<noteq> a \<longrightarrow> mem l3 b = mem l1 b"
  proof (cases "destroy e1")
    case True
    then show ?thesis using that EVENT_DEL_frees [of ?l2 a "e1\<lparr>pending := False\<rparr>"] by auto
  qed (use that in auto)
  moreover from this have "\<forall>b. is_pending l3 b \<longrightarrow> b \<noteq> a \<and> is_pending l b" using l1(6) unfolding is_pending_def by metis
  ultimately show ?thesis using a l1 e1 by (auto simp: handle_pending_def Let_def)
qed

lemma walk_pendings_ok:
  "quiet_callbacks cbs \<Longrightarrow> chain l cur xs \<Longrightarrow> distinct xs \<Longrightarrow> (\<And>a. a \<in> set xs \<Longrightarrow> is_pending l a) \<Longrightarrow>
   \<exists>l'. walk_pendings cbs cur n l = Some (n + length (filter (runs l) xs), l') \<and> called l' = called l @ filter (runs l) xs \<and> pendings l' = pendings l \<and>
     (\<forall>b. is_pending l' b \<longrightarrow> b \<notin> set xs \<and> is_pending l b) \<and> (\<forall>b x. b \<notin> set xs \<and> mem l b = Some x \<and> pending x \<longrightarrow> mem l' b = Some x)"
proof (induction xs arbitrary: cur n l)
  case Nil
  then show ?case by (subst walk_pendings.simps) simp
next
  case (Cons a xs)
  obtain e where e: "cur = Some a" "mem l a = Some e" "chain l (pending_next e) xs" "pending e"
    using Cons.prems(2) Cons.prems(4) [of a] by (auto simp: is_pending_def)
  obtain l1 where l1: "handle_pending cbs a n l = Some (n + (if runs l a then 1 else 0), l1)" "called l1 = called l @ (if runs l a then [a] else [])"
      "pendings l1 = pendings l" "\<forall>b. is_pending l1 b \<longrightarrow> b \<noteq> a \<and> is_pending l b" "\<And>b x. b \<noteq> a \<Longrightarrow> mem l b = Some x \<Longrightarrow> pending x \<Longrightarrow> mem l1 b = Some x"
    using handle_pending_ok [OF Cons.prems(1) e(2,4), of n] by blast
  have same: "mem l1 b = mem l b" if "b \<in> set xs" for b
    using that Cons.prems(3,4) l1(5) [of b] unfolding is_pending_def by fastforce
  have ch: "chain l1 (pending_next e) xs" by (rule chain_cong [OF e(3)]) (simp add: same)
  have pn: "is_pending l1 b" if "b \<in> set xs" for b using same [OF that] Cons.prems(4) [of b] that by (simp add: is_pending_def)
  have fl: "filter (runs l1) xs = filter (runs l) xs" by (rule filter_cong) (simp_all add: runs_def same)
  obtain l' where l': "walk_pendings cbs (pending_next e) (n + (if runs l a then 1 else 0)) l1 = Some (n + (if runs l a then 1 else 0) + length (filter (runs l) xs), l')"
      "called l' = called l1 @ filter (runs l) xs" "pendings l' = pendings l1" "\<forall>b. is_pending l' b \<longrightarrow> b \<notin> set xs \<and> is_pending l1 b"
      "\<And>b x. b \<notin> set xs \<Longrightarrow> mem l1 b = Some x \<Longrightarrow> pending x \<Longrightarrow> mem l' b = Some x"
    using Cons.IH [OF Cons.prems(1) ch _ pn, of "n + (if runs l a then 1 else 0)"] Cons.prems(3) fl by auto
  have "walk_pendings cbs cur n l = walk_pendings cbs (pending_next e) (n + (if runs l a then 1 else 0)) l1"
    using e l1(1) by (subst walk_pendings.simps) simp
  then show ?case using l' l1 by auto
qed

lemma walk_priorities_ok:
  assumes q: "quiet_callbacks cbs"
  shows "k \<le> 11 \<Longrightarrow> (\<And>i. i < k \<Longrightarrow> chain l (pendings l (int i)) (f i)) \<Longrightarrow> distinct (concat (map f [0..<k])) \<Longrightarrow> (\<And>i a. i < k \<Longrightarrow> a \<in> set (f i) \<Longrightarrow> is_pending l a) \<Longrightarrow>
    \<exists>l'. walk_priorities cbs k n l = Some (n + length (filter (runs l) (concat (map f (rev [0..<k])))), l') \<and>
      called l' = called l @ filter (runs l) (concat (map f (rev [0..<k]))) \<and> (\<forall>i<k. pendings l' (int i) = None) \<and> (\<forall>i\<ge>k. pendings l' (int i) = pendings l (int i)) \<and>
      (\<forall>b. is_pending l' b \<longrightarrow> b \<notin> set (concat (map f [0..<k])) \<and> is_pending l b)"
proof (induction k arbitrary: n l)
  case (Suc k)
  have ds: "distinct (f k)" "set (f k) \<inter> set (concat (map f [0..<k])) = {}" "distinct (concat (map f [0..<k]))" using Suc.prems(3) by auto
  obtain l1 where l1: "walk_pendings cbs (pendings l (int k)) n l = Some (n + length (filter (runs l) (f k)), l1)" "called l1 = called l @ filter (runs l) (f k)"
      "pendings l1 = pendings l" "\<forall>b. is_pending l1 b \<longrightarrow> b \<notin> set (f k) \<and> is_pending l b" "\<And>b x. b \<notin> set (f k) \<Longrightarrow> mem l b = Some x \<Longrightarrow> pending x \<Longrightarrow> mem l1 b = Some x"
    using walk_pendings_ok [OF q Suc.prems(2) [OF lessI] ds(1) Suc.prems(4) [OF lessI], of n] by blast
  let ?l2 = "l1\<lparr>pendings := (pendings l1)(int k := None)\<rparr>"
  have same: "mem l1 b = mem l b" if "i < k" "b \<in> set (f i)" for i b
  proof -
    have "b \<in> set (concat (map f [0..<k]))" using that by auto
    then have "b \<notin> set (f k)" using ds(2) by blast
    then show ?thesis using Suc.prems(4) [of i b] that l1(5) [of b] by (auto simp: is_pending_def)
  qed
  have c2: "chain ?l2 (pendings ?l2 (int i)) (f i)" if "i < k" for i
  proof (rule chain_cong)
    show "chain l (pendings ?l2 (int i)) (f i)" using Suc.prems(2) [of i] that l1(3) by simp
  qed (use same [OF that] in simp)
  have p2: "is_pending ?l2 a" if "i < k" "a \<in> set (f i)" for i a using same [OF that] Suc.prems(4) [of i a] that by (simp add: is_pending_def)
  have fl: "filter (runs ?l2) (concat (map f (rev [0..<k]))) = filter (runs l) (concat (map f (rev [0..<k])))"
    by (rule filter_cong) (auto simp: runs_def same)
  have k: "k \<le> 11" using Suc.prems(1) by simp
  have "\<exists>l'. walk_priorities cbs k (n + length (filter (runs l) (f k))) ?l2 = Some (n + length (filter (runs l) (f k)) + length (filter (runs ?l2) (concat (map f (rev [0..<k])))), l') \<and>
      called l' = called ?l2 @ filter (runs ?l2) (concat (map f (rev [0..<k]))) \<and> (\<forall>i<k. pendings l' (int i) = None) \<and>
      (\<forall>i\<ge>k. pendings l' (int i) = pendings ?l2 (int i)) \<and> (\<forall>b. is_pending l' b \<longrightarrow> b \<notin> set (concat (map f [0..<k])) \<and> is_pending ?l2 b)"
    by (rule Suc.IH [OF k c2 ds(3) p2])
  moreover have "is_pending ?l2 b = is_pending l1 b" for b by (simp add: is_pending_def)
  ultimately show ?case using l1 unfolding fl by (auto simp: less_Suc_eq)
qed simp

lemma process_pendings_ok:
  assumes "quiet_callbacks cbs" and "pend_lists l f" and "npendings l \<noteq> 0"
  shows "\<exists>l'. hloop_process_pendings cbs l = Some (length (filter (runs l) (concat (map f (rev [0..<11])))), l') \<and>
    called l' = called l @ filter (runs l) (concat (map f (rev [0..<11]))) \<and> npendings l' = 0 \<and> (\<forall>i<11. pendings l' (int i) = None) \<and> (\<forall>a. \<not> is_pending l' a)"
proof -
  have p: "\<And>i. i < 11 \<Longrightarrow> chain l (pendings l (int i)) (f i)" "distinct (concat (map f [0..<11]))" "\<And>a. a \<in> set (listed f) \<longleftrightarrow> is_pending l a"
    using assms(2) unfolding pend_lists_def is_pending_def listed_def by blast+
  have q: "is_pending l a" if "i < 11" "a \<in> set (f i)" for i a using that p(3) in_listed by blast
  have "\<exists>l'. walk_priorities cbs 11 0 l = Some (0 + length (filter (runs l) (concat (map f (rev [0..<11])))), l') \<and>
      called l' = called l @ filter (runs l) (concat (map f (rev [0..<11]))) \<and> (\<forall>i<11. pendings l' (int i) = None) \<and> (\<forall>i\<ge>11. pendings l' (int i) = pendings l (int i)) \<and>
      (\<forall>b. is_pending l' b \<longrightarrow> b \<notin> set (concat (map f [0..<11])) \<and> is_pending l b)"
    by (rule walk_priorities_ok [OF assms(1) order_refl p(1,2)]) (assumption, rule q)
  then obtain l' where l': "walk_priorities cbs 11 0 l = Some (0 + length (filter (runs l) (concat (map f (rev [0..<11])))), l')"
      "called l' = called l @ filter (runs l) (concat (map f (rev [0..<11])))" "\<forall>i<11. pendings l' (int i) = None"
      "\<forall>b. is_pending l' b \<longrightarrow> b \<notin> set (concat (map f [0..<11])) \<and> is_pending l b"
    by blast
  have "\<not> is_pending l' a" for a using l'(4) p(3) [of a] unfolding listed_def by blast
  then show ?thesis using l' assms(3) unfolding hloop_process_pendings_def
    by (intro exI [of _ "l'\<lparr>npendings := 0\<rparr>"]) (simp add: is_pending_def del: upt_Suc upt_rec_numeral)
qed

section \<open>Properties\<close>

text \<open>Processing the pending events calls the callbacks of those that are active, from the highest priority to
  the lowest and within a priority the one that became pending last first, each once, and returns their
  number; afterwards the lists are empty and no event is pending. This holds for callbacks that leave the
  other pending events alone and do not free their own event.\<close>

theorem pendings_run_in_order:
  assumes "quiet_callbacks cbs" and "pend_lists l f" and "npendings l \<noteq> 0" and "order = filter (runs l) (concat (map f (rev [0..<11])))"
  shows "\<exists>l'. hloop_process_pendings cbs l = Some (length order, l') \<and> called l' = called l @ order \<and>
    npendings l' = 0 \<and> (\<forall>i<11. pendings l' (int i) = None) \<and> (\<forall>a. \<not> is_pending l' a)"
  unfolding assms(4) by (rule process_pendings_ok [OF assms(1-3)])

text \<open>Two timers and an idle event that became pending in the order 1, 2, 3.\<close>

definition demo_pending :: hloop where
  "demo_pending = (hloop_new demo_clock)\<lparr>mem := [1 \<mapsto> demo_timer\<lparr>pending := True\<rparr>, 2 \<mapsto> demo_timer\<lparr>pending := True, pending_next := Some 1\<rparr>,
       3 \<mapsto> demo_timer\<lparr>event_type := HEVENT_TYPE_IDLE, priority := - 5, pending := True\<rparr>],
     npendings := 3, pendings := (\<lambda>_. None)(10 := Some 2, 0 := Some 3)\<rparr>"

lemma eleven: "[0..<11] = [0, 1, 2, 3, 4, 5, 6, 7, 8, 9, 10 :: nat]"
  by (simp add: upt_rec)

lemma demo_pend_lists: "pend_lists demo_pending ((\<lambda>_. [])(10 := [2, 1], 0 := [3]))"
  unfolding pend_lists_def listed_def eleven
  by (auto simp: demo_pending_def demo_timer_def hloop_new_def less_Suc_eq numeral_nat)

definition no_callbacks :: callbacks where
  "no_callbacks a l = Some l"

lemma no_callbacks_quiet: "quiet_callbacks no_callbacks"
  by (auto simp: quiet_callbacks_def no_callbacks_def is_pending_def)

theorem pendings_run_in_order_witness:
  "\<exists>l'. hloop_process_pendings no_callbacks demo_pending = Some (3, l') \<and> called l' = [2, 1, 3] \<and> npendings l' = 0 \<and>
     (\<forall>i<11. pendings l' (int i) = None) \<and> (\<forall>a. \<not> is_pending l' a)"
proof -
  have o: "filter (runs demo_pending) (concat (map ((\<lambda>_. [])(10 := [2, 1], 0 := [3])) (rev [0..<11]))) = [2, 1, 3]"
    unfolding eleven by (simp add: runs_def demo_pending_def demo_timer_def)
  have "npendings demo_pending \<noteq> 0" "called demo_pending = []" by (simp_all add: demo_pending_def hloop_new_def)
  with pendings_run_in_order [OF no_callbacks_quiet demo_pend_lists _ o [symmetric]] show ?thesis by (simp add: numeral_3_eq_3)
qed



text \<open>C38. A callback that resets its own timer and then deletes it makes the loop use freed memory: the reset
  clears the mark that the event is in the list of pending events, so that the deletion frees it at once,
  and \<open>hloop_process_pendings\<close> goes on with the freed event. Both calls return normally.\<close>

theorem reset_then_delete_uses_freed:
  assumes "timers_ok l" and "mem l a = Some e" and "event_type e = HEVENT_TYPE_TIMEOUT" and "pending e" and "active e" and "has_cb e"
    and "cbs a = (\<lambda>l. do { l \<leftarrow> htimer_reset a t l; htimer_del a l })"
  shows "\<exists>l1 l2. htimer_reset a t (l\<lparr>called := called l @ [a]\<rparr>) = Some l1 \<and> htimer_del a l1 = Some l2 \<and> mem l2 a = None \<and>
    handle_pending cbs a n l = None"
proof -
  let ?l = "l\<lparr>called := called l @ [a]\<rparr>"
  have "timers_ok ?l" using assms(1) timers_ok_view [of ?l l] by (simp add: tview_def)
  then obtain l1 where l1: "htimer_reset a t ?l = Some l1" "timers_ok l1" "mem l1 = (mem l)(a \<mapsto> reset_event (cur_hrtime l) t e)"
    using htimer_reset_ok [of ?l a e t] assms(2,3) by auto
  have m: "mem l1 a = Some (reset_event (cur_hrtime l) t e)" by (simp add: l1(3))
  obtain l2 where l2: "htimer_del a l1 = Some l2" "mem l2 a = None"
    using htimer_del_ok [OF l1(2) m] assms(3) by (auto simp: reset_event_def Let_def)
  have "handle_pending cbs a n l = None"
    using assms(2,4-7) l1(1) l2 by (simp add: handle_pending_def invoke_def)
  then show ?thesis using l1(1) l2 by blast
qed

theorem reset_then_delete_uses_freed_witness:
  "\<exists>l1. EVENT_PENDING 1 demo_loop = Some l1 \<and> handle_pending (\<lambda>a l. do { l \<leftarrow> htimer_reset a 20 l; htimer_del a l }) 1 0 l1 = None"
proof -
  have "mem demo_loop 1 = Some demo_timer" by (simp add: demo_fields)
  from EVENT_PENDING_mem [OF this] obtain l1 q where l1: "EVENT_PENDING 1 demo_loop = Some l1" "tview l1 = tview demo_loop"
      "mem l1 = (mem demo_loop)(1 \<mapsto> demo_timer\<lparr>pending := True, pending_next := q\<rparr>)" by blast
  have q: "mem l1 1 = Some (demo_timer\<lparr>pending := True, pending_next := q\<rparr>)" by (simp add: l1(3))
  have "timers_ok l1" using demo_timers_ok timers_ok_view [OF l1(2)] by simp
  from reset_then_delete_uses_freed [OF this q, of "\<lambda>a l. do { l \<leftarrow> htimer_reset a 20 l; htimer_del a l }" 20 0] l1(1) show ?thesis
    by (auto simp: demo_timer_def)
qed

end
