(* ===== verification/Block_Hash.thy ===== *)
theory Block_Hash
  imports Prelude "HOL-Library.Monad_Syntax"
begin

text \<open>
  What the two digests of \<open>src/libs/libhv/util\<close> (\<open>sha1.c\<close>, \<open>md5.c\<close>) share: the bit counter kept in two
  32-bit halves, the loop over full blocks, and the hashing of a message that is fed in pieces
  through a buffer of 64 bytes. The locale \<open>block_loop\<close> is the loop of an update function,
  \<open>streaming_hash\<close> and \<open>finished_hash\<close> state what a digest context promises; each digest
  interprets them on its own code.
\<close>

unbundle bit_operations_syntax

section \<open>The bit counter\<close>

text \<open>The halves of the number of bits of \<open>n\<close> bytes.\<close>

definition bits_lo :: "nat \<Rightarrow> u32" where
  "bits_lo n = of_nat (8 * n)"

definition bits_hi :: "nat \<Rightarrow> u32" where
  "bits_hi n = of_nat (8 * n div 2 ^ 32)"

lemma unat_bits_lo: "unat (bits_lo n) = 8 * n mod 2 ^ 32"
  by (simp add: bits_lo_def unat_of_nat take_bit_nat_def del: of_nat_mult)

lemma push3: "push_bit 3 (of_nat n) = bits_lo n"
  by (simp add: bits_lo_def push_bit_eq_mult)

lemma drop29:
  assumes "n < 2 ^ 32"
  shows "drop_bit 29 (of_nat n :: u32) = of_nat (8 * n div 2 ^ 32)"
proof -
  have e: "8 * n div 2 ^ 32 = n div 2 ^ 29" by simp
  have "unat (drop_bit 29 (of_nat n :: u32)) = n div 2 ^ 29"
    using assms by (simp add: unat_drop_bit_eq drop_bit_eq_div [of 29 "n :: nat"])
  then have "of_nat (unat (drop_bit 29 (of_nat n :: u32))) = (of_nat (n div 2 ^ 29) :: u32)" by (rule arg_cong)
  then show ?thesis unfolding e by simp
qed

lemma carry_mod:
  fixes a b M :: nat
  assumes "0 < M"
  shows "(a + b) mod M < a mod M \<longleftrightarrow> M \<le> a mod M + b mod M"
    and "(a + b) div M = a div M + (if M \<le> a mod M + b mod M then 1 else 0) + b div M"
proof -
  define x where "x = a mod M"
  define y where "y = b mod M"
  have xy: "x < M" "y < M" using assms by (simp_all add: x_def y_def)
  have q: "(x + y) div M = (if M \<le> x + y then 1 else 0)"
    using xy by (auto intro: div_nat_eqI)
  have "(a + b) mod M = (x + y) mod M" by (simp add: x_def y_def mod_add_eq)
  also have "\<dots> = (if M \<le> x + y then x + y - M else x + y)"
    using xy by (simp add: mod_if [of "x + y"])
  finally have m: "(a + b) mod M = (if M \<le> x + y then x + y - M else x + y)" .
  show "(a + b) mod M < a mod M \<longleftrightarrow> M \<le> a mod M + b mod M"
    unfolding m x_def [symmetric] y_def [symmetric] using xy by auto
  show "(a + b) div M = a div M + (if M \<le> a mod M + b mod M then 1 else 0) + b div M"
    unfolding div_add1_eq [of a b M] x_def [symmetric] y_def [symmetric] q by simp
qed

lemma bits_lo_add: "bits_lo m + bits_lo n = bits_lo (m + n)"
  by (simp add: bits_lo_def algebra_simps)

lemma bits_carry:
  "bits_lo (m + n) < bits_lo m \<longleftrightarrow> 2 ^ 32 \<le> 8 * m mod 2 ^ 32 + 8 * n mod 2 ^ 32"
  "bits_lo (m + n) < bits_lo n \<longleftrightarrow> 2 ^ 32 \<le> 8 * m mod 2 ^ 32 + 8 * n mod 2 ^ 32"
  using carry_mod(1) [of "2 ^ 32" "8 * m" "8 * n"] carry_mod(1) [of "2 ^ 32" "8 * n" "8 * m"]
  by (simp_all only: word_less_nat_alt unat_bits_lo distrib_left add.commute [of "8 * n"]
      add.commute [of "8 * n mod 2 ^ 32"] zero_less_power zero_less_numeral simp_thms)

lemma bits_hi_add:
  assumes "n < 2 ^ 32"
  shows "bits_hi m + (if 2 ^ 32 \<le> 8 * m mod 2 ^ 32 + 8 * n mod 2 ^ 32 then 1 else 0)
           + drop_bit 29 (of_nat n) = bits_hi (m + n)"
  unfolding bits_hi_def drop29 [OF assms] distrib_left
  using carry_mod(2) [of "2 ^ 32" "8 * m" "8 * n"]
  by (simp only: of_nat_add zero_less_power zero_less_numeral if_distrib [of of_nat] of_nat_1
      semiring_1_class.of_nat_0)

lemma bits_lo_index: "drop_bit 3 (bits_lo n) AND 0x3F = of_nat (n mod 64)"
proof (rule bit_word_eqI)
  fix i assume i: "i < LENGTH(32)"
  have p: "bits_lo n = push_bit 3 (of_nat n)" by (simp add: push3)
  have t: "(of_nat (n mod 64) :: u32) = take_bit 6 (of_nat n)"
    using take_bit_of_nat [of 6 n, where ?'a = u32] by (simp add: take_bit_nat_def)
  show "bit (drop_bit 3 (bits_lo n) AND 0x3F) i = bit (of_nat (n mod 64) :: u32) i"
    unfolding p t bit_and_iff bit_consts bit_take_bit_iff bit_drop_bit_eq bit_push_bit_iff
    using i by (auto simp: bit_simps)
qed

section \<open>Hashing block by block\<close>

function absorb :: "('s \<Rightarrow> byte list \<Rightarrow> 's) \<Rightarrow> 's \<Rightarrow> byte list \<Rightarrow> 's" where
  "absorb f s m = (if length m < 64 then s else absorb f (f s (take 64 m)) (drop 64 m))"
  by pat_completeness auto
termination by (relation "measure (\<lambda>(f, s, m). length m)") auto

declare absorb.simps [simp del]

definition leftover :: "byte list \<Rightarrow> byte list" where
  "leftover m = drop (64 * (length m div 64)) m"

lemma leftover_length: "length (leftover m) = length m mod 64"
  by (simp add: leftover_def minus_mult_div_eq_mod)

lemma absorb_short [simp]: "length m < 64 \<Longrightarrow> absorb f s m = s"
  by (simp add: absorb.simps [of f s m])

lemma leftover_short: "length m < 64 \<Longrightarrow> leftover m = m"
  by (simp add: leftover_def)

lemma absorb_block:
  "length b = 64 \<Longrightarrow> absorb f s (b @ m) = absorb f (f s b) m"
  by (simp add: absorb.simps [of f s "b @ m"])

lemma leftover_block: "length b = 64 \<Longrightarrow> leftover (b @ m) = leftover m"
  by (simp add: leftover_def div_add_self1)

lemma absorb_append:
  "absorb f s (m @ d) = absorb f (absorb f s m) (leftover m @ d)"
proof (induction "length m" arbitrary: m s rule: less_induct)
  case less
  show ?case
  proof (cases "length m < 64")
    case True
    then show ?thesis by (simp add: leftover_short)
  next
    case False
    define b where "b = take 64 m"
    define r where "r = drop 64 m"
    have m: "m = b @ r" and b: "length b = 64" and r: "length r < length m"
      using False by (auto simp: b_def r_def)
    show ?thesis
      using less.hyps [OF r] b by (simp add: m absorb_block leftover_block)
  qed
qed

lemma leftover_append: "leftover (m @ d) = leftover (leftover m @ d)"
proof (induction "length m" arbitrary: m rule: less_induct)
  case less
  show ?case
  proof (cases "length m < 64")
    case True
    then show ?thesis by (simp add: leftover_short)
  next
    case False
    define b where "b = take 64 m"
    define r where "r = drop 64 m"
    have m: "m = b @ r" and b: "length b = 64" and r: "length r < length m"
      using False by (auto simp: b_def r_def)
    show ?thesis
      using less.hyps [OF r] b by (simp add: m leftover_block)
  qed
qed

lemma leftover_full: "length m mod 64 = 0 \<Longrightarrow> leftover m = []"
  by (metis leftover_length length_0_conv)

section \<open>The loop over full blocks\<close>

text \<open>\<open>more i len\<close> is the test of the loop, \<open>f\<close> the compression function.\<close>

locale block_loop =
  fixes f :: "'s \<Rightarrow> byte list \<Rightarrow> 's"
    and more :: "u32 \<Rightarrow> u32 \<Rightarrow> bool"
    and loop :: "'s \<Rightarrow> byte list \<Rightarrow> u32 \<Rightarrow> u32 \<Rightarrow> ('s \<times> u32) option"
  assumes loop_unfold: "loop st d i len =
      (if more i len then Option.bind (bytes_at d (unat i) 64) (\<lambda>b. loop (f st b) d (i + 64) len)
       else Some (st, i))"
    and more_iff: "\<lbrakk>k \<le> n; n + 64 < 2 ^ 32\<rbrakk> \<Longrightarrow> more (of_nat k) (of_nat n) \<longleftrightarrow> k + 64 \<le> n"
begin

lemma loop_absorb:
  assumes "k \<le> n" and "n \<le> length d" and "n + 64 < 2 ^ 32"
  shows "loop st d (of_nat k) (of_nat n) =
    Some (absorb f st (take (n - k) (drop k d)), of_nat (k + 64 * ((n - k) div 64)))"
  using assms
proof (induction "n - k" arbitrary: k st rule: less_induct)
  case less
  note test = more_iff [OF less.prems(1,3)]
  show ?case
  proof (cases "k + 64 \<le> n")
    case False
    then show ?thesis using test less.prems by (subst loop_unfold) simp
  next
    case True
    have b: "bytes_at d (unat (of_nat k :: u32)) 64 = Some (take 64 (drop k d))"
      using True less.prems by (simp add: bytes_at_def)
    have t: "take (n - k) (drop k d) = take 64 (drop k d) @ take (n - (k + 64)) (drop (k + 64) d)"
      using True take_add [of 64 "n - (k + 64)" "drop k d"] by (simp add: add.commute)
    have q: "(n - k) div 64 = Suc ((n - (k + 64)) div 64)"
      using True div_add_self2 [of 64 "n - (k + 64)"] by simp
    have IH: "loop st' d (of_nat (k + 64)) (of_nat n) =
      Some (absorb f st' (take (n - (k + 64)) (drop (k + 64) d)),
            of_nat (k + 64 + 64 * ((n - (k + 64)) div 64)))" for st'
      using less.hyps [of "k + 64" st'] True less.prems by simp
    have "loop st d (of_nat k) (of_nat n) = loop (f st (take 64 (drop k d))) d (of_nat (k + 64)) (of_nat n)"
      by (subst loop_unfold)
        (simp only: test True b if_True Option.bind.simps of_nat_add of_nat_numeral)
    also have "\<dots> = Some (absorb f st (take (n - k) (drop k d)), of_nat (k + 64 * ((n - k) div 64)))"
      unfolding IH t q using True less.prems by (simp add: absorb_block algebra_simps)
    finally show ?thesis .
  qed
qed

end

section \<open>The buffer\<close>

text \<open>The state, the counter and the buffer of a context that has taken in the message \<open>m\<close>.\<close>

definition holding ::
  "('s \<Rightarrow> byte list \<Rightarrow> 's) \<Rightarrow> 's \<Rightarrow> 's \<Rightarrow> u32 list \<Rightarrow> byte list \<Rightarrow> byte list \<Rightarrow> bool" where
  "holding f iv st cnt buf m \<longleftrightarrow> st = absorb f iv m \<and> cnt = [bits_lo (length m), bits_hi (length m)]
     \<and> length buf = 64 \<and> take (length m mod 64) buf = leftover m"

lemma of_nat_diff_u32: "i \<le> n \<Longrightarrow> (of_nat n :: u32) - of_nat i = of_nat (n - i)"
  by (simp add: of_nat_diff)

lemma bytes_at_rest:
  assumes "i \<le> n" and "n \<le> length d" and "n < 2 ^ 32"
  shows "bytes_at d (unat (of_nat i :: u32)) (unat ((of_nat n :: u32) - of_nat i)) = Some (take (n - i) (drop i d))"
  unfolding of_nat_diff_u32 [OF assms(1)] using assms
  by (subst (1 2) unat_of_nat_small) (simp_all add: bytes_at_def)

lemma length_mod_split: "(length m + n) mod 64 = (length m mod 64 + n) mod (64 :: nat)"
  by (rule mod_add_left_eq [symmetric])

text \<open>The piece fits into the buffer.\<close>

lemma holding_short:
  assumes "holding f iv st cnt buf m" and "n \<le> length d" and "length m mod 64 + n < 64"
  shows "\<exists>buf'. store buf (length m mod 64) (take n d) = Some buf' \<and>
    holding f iv st [bits_lo (length m + n), bits_hi (length m + n)] buf' (m @ take n d)"
proof -
  have short: "length (leftover m @ take n d) < 64" using assms by (simp add: leftover_length)
  have j: "(length m + n) mod 64 = length m mod 64 + n" using assms(3) by (simp add: length_mod_split)
  have "store buf (length m mod 64) (take n d) =
      Some (leftover m @ take n d @ drop (length m mod 64 + n) buf)"
    using assms by (simp add: store_def holding_def)
  then show ?thesis
    using assms short j by (simp add: holding_def absorb_append [of _ _ m] leftover_append [of m]
        leftover_short leftover_length)
qed

text \<open>The piece fills the buffer: \<open>k\<close> bytes complete the block, full blocks follow, and the bytes
  from \<open>i\<close> on are kept.\<close>

lemma holding_long:
  assumes "holding f iv st cnt buf m" and "n \<le> length d" and "64 \<le> length m mod 64 + n"
    and k: "k = 64 - length m mod 64" and i: "i = k + 64 * ((n - k) div 64)"
  shows "k \<le> n" and "i \<le> n"
    and "\<exists>b buf'. store buf (length m mod 64) (take k d) = Some b \<and>
      store b 0 (take (n - i) (drop i d)) = Some buf' \<and>
      holding f iv (absorb f (f st b) (take (n - k) (drop k d)))
        [bits_lo (length m + n), bits_hi (length m + n)] buf' (m @ take n d)"
proof -
  let ?j = "length m mod 64"
  define b where "b = leftover m @ take k d"
  define y where "y = take (n - k) (drop k d)"
  show kn: "k \<le> n" and i_n: "i \<le> n"
    using assms(3) div_times_less_eq_dividend [of "n - k" 64] by (simp_all add: k i)
  have jk: "?j + k = 64" by (simp add: k)
  have b: "length b = 64" using kn jk assms(2) by (simp add: b_def leftover_length)
  have ly: "length y = n - k" using assms(2) by (simp add: y_def)
  then have lly: "length (leftover y) < 64" by (simp add: leftover_length)
  have rest: "take (n - i) (drop i d) = leftover y"
    unfolding leftover_def ly by (simp add: y_def drop_take i add.commute)
  have e: "leftover m @ take n d = b @ y"
    using kn take_add [of k "n - k" d] by (simp add: b_def y_def)
  have "?j + n = 64 + (n - k)" using jk kn by linarith
  then have "(length m + n) mod 64 = length (leftover y)"
    by (simp only: length_mod_split mod_add_self1 leftover_length ly)
  then have "holding f iv (absorb f (f st b) y) [bits_lo (length m + n), bits_hi (length m + n)]
      (leftover y @ drop (length (leftover y)) b) (m @ take n d)"
    using assms(1,2) b e lly by (simp add: holding_def absorb_append [of _ _ m] leftover_append [of m]
        leftover_block absorb_block)
  moreover have "store buf ?j (take k d) = Some b"
    using assms(1,2) kn jk by (simp add: store_def b_def holding_def)
  moreover have "store b 0 (leftover y) = Some (leftover y @ drop (length (leftover y)) b)"
    using b lly by (simp add: store_def)
  ultimately show "\<exists>b buf'. store buf ?j (take k d) = Some b \<and>
      store b 0 (take (n - i) (drop i d)) = Some buf' \<and>
      holding f iv (absorb f (f st b) (take (n - k) (drop k d)))
        [bits_lo (length m + n), bits_hi (length m + n)] buf' (m @ take n d)"
    unfolding rest y_def by blast
qed

section \<open>Digest contexts\<close>

text \<open>Feeding pieces one after the other.\<close>

fun feed :: "('c \<Rightarrow> byte list \<Rightarrow> u32 \<Rightarrow> 'c option) \<Rightarrow> 'c \<Rightarrow> byte list list \<Rightarrow> 'c option" where
  "feed update c [] = Some c"
| "feed update c (d # ds) = Option.bind (update c d (of_nat (length d))) (\<lambda>c'. feed update c' ds)"

text \<open>\<open>represents c m\<close>: the context \<open>c\<close> has taken in the message \<open>m\<close>. A context that is \<open>fresh\<close> has
  a buffer but arbitrary contents. The indices of the code do not wrap for pieces of up to
  2^32 - 65 bytes.\<close>

locale streaming_hash =
  fixes fresh :: "'c \<Rightarrow> bool"
    and init :: "'c \<Rightarrow> 'c"
    and update :: "'c \<Rightarrow> byte list \<Rightarrow> u32 \<Rightarrow> 'c option"
    and represents :: "'c \<Rightarrow> byte list \<Rightarrow> bool"
  assumes init_empty: "fresh c \<Longrightarrow> represents (init c) []"
    and update_appends:
      "\<lbrakk>represents c m; n \<le> length d; n + 64 < 2 ^ 32\<rbrakk>
         \<Longrightarrow> \<exists>c'. update c d (of_nat n) = Some c' \<and> represents c' (m @ take n d)"
begin

lemma feed_represents:
  assumes "represents c m" and "\<forall>d \<in> set ds. length d + 64 < 2 ^ 32"
  shows "\<exists>c'. feed update c ds = Some c' \<and> represents c' (m @ concat ds)"
  using assms
proof (induction ds arbitrary: c m)
  case Nil
  then show ?case by simp
next
  case (Cons d ds)
  from Cons.prems update_appends [of c m "length d" d]
  obtain c1 where c1: "update c d (of_nat (length d)) = Some c1" "represents c1 (m @ d)" by auto
  with Cons.IH [of c1 "m @ d"] Cons.prems show ?case by auto
qed

end

locale finished_hash = streaming_hash +
  fixes final :: "'c \<Rightarrow> byte list option"
    and digest :: "byte list \<Rightarrow> byte list"
  assumes final_digest: "represents c m \<Longrightarrow> final c = Some (digest m)"
begin

lemma pieces_digest:
  assumes "fresh c" and "\<forall>d \<in> set ds. length d + 64 < 2 ^ 32"
  shows "Option.bind (feed update (init c) ds) final = Some (digest (concat ds))"
proof -
  from feed_represents [OF init_empty [OF assms(1)] assms(2)]
  obtain c' where "feed update (init c) ds = Some c'" "represents c' (concat ds)" by auto
  then show ?thesis by (simp add: final_digest)
qed

lemma whole_digest:
  assumes "fresh c" and "length d + 64 < 2 ^ 32"
  shows "Option.bind (update (init c) d (of_nat (length d))) final = Some (digest d)"
  using pieces_digest [OF assms(1), of "[d]"] assms(2) by (simp split: bind_splits)

end

end
