(* ===== verification/Sha1.thy ===== *)
theory Sha1
  imports Block_Hash
begin

text \<open>
  \<open>src/libs/libhv/util/sha1.c\<close>: SHA-1, on the little-endian targets and with \<open>SHA1HANDSOFF\<close> as the
  file defines it. The five working variables are registers named as in the code, the macros
  \<open>R0\<close> to \<open>R4\<close> assign to them, and the block is an array of 16 words that is overwritten during
  the expansion. Arithmetic on \<open>uint32_t\<close> is arithmetic of 32-bit words; an access outside the
  data or outside the buffer of the context is \<open>None\<close>.
\<close>

unbundle bit_operations_syntax

section \<open>The compression function\<close>

definition rol :: "u32 \<Rightarrow> nat \<Rightarrow> u32" where
  "rol value bits = push_bit bits value OR drop_bit (32 - bits) value"

datatype reg = Va | Vb | Vc | Vd | Ve

text \<open>The working variables and the words of the block.\<close>

type_synonym round_state = "(reg \<Rightarrow> u32) \<times> u32 list"

definition blk0 :: "u32 list \<Rightarrow> nat \<Rightarrow> u32 list" where
  "blk0 l i = l[i := (rol (l ! i) 24 AND 0xFF00FF00) OR (rol (l ! i) 8 AND 0x00FF00FF)]"

definition blk :: "u32 list \<Rightarrow> nat \<Rightarrow> u32 list" where
  "blk l i = l[i mod 16 := rol (l ! ((i + 13) mod 16) XOR l ! ((i + 8) mod 16) XOR
                                 l ! ((i + 2) mod 16) XOR l ! (i mod 16)) 1]"

definition R0 :: "reg \<Rightarrow> reg \<Rightarrow> reg \<Rightarrow> reg \<Rightarrow> reg \<Rightarrow> nat \<Rightarrow> round_state \<Rightarrow> round_state" where
  "R0 v w x y z i = (\<lambda>(r, l).
     let l = blk0 l i;
         r = r(z := r z + (((r w AND (r x XOR r y)) XOR r y) + l ! i + 0x5A827999 + rol (r v) 5))
     in (r(w := rol (r w) 30), l))"

definition R1 :: "reg \<Rightarrow> reg \<Rightarrow> reg \<Rightarrow> reg \<Rightarrow> reg \<Rightarrow> nat \<Rightarrow> round_state \<Rightarrow> round_state" where
  "R1 v w x y z i = (\<lambda>(r, l).
     let l = blk l i;
         r = r(z := r z + (((r w AND (r x XOR r y)) XOR r y) + l ! (i mod 16) + 0x5A827999 + rol (r v) 5))
     in (r(w := rol (r w) 30), l))"

definition R2 :: "reg \<Rightarrow> reg \<Rightarrow> reg \<Rightarrow> reg \<Rightarrow> reg \<Rightarrow> nat \<Rightarrow> round_state \<Rightarrow> round_state" where
  "R2 v w x y z i = (\<lambda>(r, l).
     let l = blk l i;
         r = r(z := r z + ((r w XOR r x XOR r y) + l ! (i mod 16) + 0x6ED9EBA1 + rol (r v) 5))
     in (r(w := rol (r w) 30), l))"

definition R3 :: "reg \<Rightarrow> reg \<Rightarrow> reg \<Rightarrow> reg \<Rightarrow> reg \<Rightarrow> nat \<Rightarrow> round_state \<Rightarrow> round_state" where
  "R3 v w x y z i = (\<lambda>(r, l).
     let l = blk l i;
         r = r(z := r z + ((((r w OR r x) AND r y) OR (r w AND r x)) + l ! (i mod 16) + 0x8F1BBCDC
                           + rol (r v) 5))
     in (r(w := rol (r w) 30), l))"

definition R4 :: "reg \<Rightarrow> reg \<Rightarrow> reg \<Rightarrow> reg \<Rightarrow> reg \<Rightarrow> nat \<Rightarrow> round_state \<Rightarrow> round_state" where
  "R4 v w x y z i = (\<lambda>(r, l).
     let l = blk l i;
         r = r(z := r z + ((r w XOR r x XOR r y) + l ! (i mod 16) + 0xCA62C1D6 + rol (r v) 5))
     in (r(w := rol (r w) 30), l))"

text \<open>The word at \<open>l[i]\<close> of the union, as a little-endian machine reads it.\<close>

definition load_le :: "byte list \<Rightarrow> nat \<Rightarrow> u32" where
  "load_le b i = ucast (b ! (4 * i)) OR push_bit 8 (ucast (b ! (4 * i + 1))) OR
     push_bit 16 (ucast (b ! (4 * i + 2))) OR push_bit 24 (ucast (b ! (4 * i + 3)))"

text \<open>The unrolled loop.\<close>

definition sha1_rounds :: "(round_state \<Rightarrow> round_state) list" where
  "sha1_rounds =
     [R0 Va Vb Vc Vd Ve 0, R0 Ve Va Vb Vc Vd 1, R0 Vd Ve Va Vb Vc 2, R0 Vc Vd Ve Va Vb 3,
      R0 Vb Vc Vd Ve Va 4, R0 Va Vb Vc Vd Ve 5, R0 Ve Va Vb Vc Vd 6, R0 Vd Ve Va Vb Vc 7,
      R0 Vc Vd Ve Va Vb 8, R0 Vb Vc Vd Ve Va 9, R0 Va Vb Vc Vd Ve 10, R0 Ve Va Vb Vc Vd 11,
      R0 Vd Ve Va Vb Vc 12, R0 Vc Vd Ve Va Vb 13, R0 Vb Vc Vd Ve Va 14, R0 Va Vb Vc Vd Ve 15,
      R1 Ve Va Vb Vc Vd 16, R1 Vd Ve Va Vb Vc 17, R1 Vc Vd Ve Va Vb 18, R1 Vb Vc Vd Ve Va 19,
      R2 Va Vb Vc Vd Ve 20, R2 Ve Va Vb Vc Vd 21, R2 Vd Ve Va Vb Vc 22, R2 Vc Vd Ve Va Vb 23,
      R2 Vb Vc Vd Ve Va 24, R2 Va Vb Vc Vd Ve 25, R2 Ve Va Vb Vc Vd 26, R2 Vd Ve Va Vb Vc 27,
      R2 Vc Vd Ve Va Vb 28, R2 Vb Vc Vd Ve Va 29, R2 Va Vb Vc Vd Ve 30, R2 Ve Va Vb Vc Vd 31,
      R2 Vd Ve Va Vb Vc 32, R2 Vc Vd Ve Va Vb 33, R2 Vb Vc Vd Ve Va 34, R2 Va Vb Vc Vd Ve 35,
      R2 Ve Va Vb Vc Vd 36, R2 Vd Ve Va Vb Vc 37, R2 Vc Vd Ve Va Vb 38, R2 Vb Vc Vd Ve Va 39,
      R3 Va Vb Vc Vd Ve 40, R3 Ve Va Vb Vc Vd 41, R3 Vd Ve Va Vb Vc 42, R3 Vc Vd Ve Va Vb 43,
      R3 Vb Vc Vd Ve Va 44, R3 Va Vb Vc Vd Ve 45, R3 Ve Va Vb Vc Vd 46, R3 Vd Ve Va Vb Vc 47,
      R3 Vc Vd Ve Va Vb 48, R3 Vb Vc Vd Ve Va 49, R3 Va Vb Vc Vd Ve 50, R3 Ve Va Vb Vc Vd 51,
      R3 Vd Ve Va Vb Vc 52, R3 Vc Vd Ve Va Vb 53, R3 Vb Vc Vd Ve Va 54, R3 Va Vb Vc Vd Ve 55,
      R3 Ve Va Vb Vc Vd 56, R3 Vd Ve Va Vb Vc 57, R3 Vc Vd Ve Va Vb 58, R3 Vb Vc Vd Ve Va 59,
      R4 Va Vb Vc Vd Ve 60, R4 Ve Va Vb Vc Vd 61, R4 Vd Ve Va Vb Vc 62, R4 Vc Vd Ve Va Vb 63,
      R4 Vb Vc Vd Ve Va 64, R4 Va Vb Vc Vd Ve 65, R4 Ve Va Vb Vc Vd 66, R4 Vd Ve Va Vb Vc 67,
      R4 Vc Vd Ve Va Vb 68, R4 Vb Vc Vd Ve Va 69, R4 Va Vb Vc Vd Ve 70, R4 Ve Va Vb Vc Vd 71,
      R4 Vd Ve Va Vb Vc 72, R4 Vc Vd Ve Va Vb 73, R4 Vb Vc Vd Ve Va 74, R4 Va Vb Vc Vd Ve 75,
      R4 Ve Va Vb Vc Vd 76, R4 Vd Ve Va Vb Vc 77, R4 Vc Vd Ve Va Vb 78, R4 Vb Vc Vd Ve Va 79]"

definition HV_SHA1Transform :: "u32 list \<Rightarrow> byte list \<Rightarrow> u32 list" where
  "HV_SHA1Transform state buffer =
     (let l = map (load_le buffer) [0..<16];
          r = (\<lambda>v. case v of Va \<Rightarrow> state ! 0 | Vb \<Rightarrow> state ! 1 | Vc \<Rightarrow> state ! 2 | Vd \<Rightarrow> state ! 3 | Ve \<Rightarrow> state ! 4);
          (r, l) = fold (\<lambda>f. f) sha1_rounds (r, l)
      in [state ! 0 + r Va, state ! 1 + r Vb, state ! 2 + r Vc, state ! 3 + r Vd, state ! 4 + r Ve])"

section \<open>The context\<close>

record sha1_ctx =
  sha_state :: "u32 list"
  sha_count :: "u32 list"
  sha_buffer :: "byte list"

definition HV_SHA1Init :: "sha1_ctx \<Rightarrow> sha1_ctx" where
  "HV_SHA1Init context = context
     \<lparr>sha_state := [0x67452301, 0xEFCDAB89, 0x98BADCFE, 0x10325476, 0xC3D2E1F0],
      sha_count := [0, 0]\<rparr>"

text \<open>The loop over the full blocks of the data: the state and \<open>i\<close> afterwards.\<close>

partial_function (option) sha1_blocks ::
  "u32 list \<Rightarrow> byte list \<Rightarrow> u32 \<Rightarrow> u32 \<Rightarrow> (u32 list \<times> u32) option" where
  "sha1_blocks state data i len =
     (if i + 63 < len
      then Option.bind (bytes_at data (unat i) 64) (\<lambda>b.
             sha1_blocks (HV_SHA1Transform state b) data (i + 64) len)
      else Some (state, i))"

declare sha1_blocks.simps [code]

text \<open>The counter: low word, then high word.\<close>

definition sha1_count_add :: "u32 list \<Rightarrow> u32 \<Rightarrow> u32 list" where
  "sha1_count_add count len =
     (let j = count ! 0;
          lo = j + push_bit 3 len;
          hi = (if lo < j then count ! 1 + 1 else count ! 1)
      in [lo, hi + drop_bit 29 len])"

definition HV_SHA1Update :: "sha1_ctx \<Rightarrow> byte list \<Rightarrow> u32 \<Rightarrow> sha1_ctx option" where
  "HV_SHA1Update context data len =
     (let j = drop_bit 3 (sha_count context ! 0) AND 63;
          context = context\<lparr>sha_count := sha1_count_add (sha_count context) len\<rparr>
      in do {
        (context, i, j) \<leftarrow>
          (if j + len > 63 then do {
             let i = 64 - j;
             piece \<leftarrow> bytes_at data 0 (unat i);
             buffer \<leftarrow> store (sha_buffer context) (unat j) piece;
             (state, i) \<leftarrow> sha1_blocks (HV_SHA1Transform (sha_state context) buffer) data i len;
             Some (context\<lparr>sha_state := state, sha_buffer := buffer\<rparr>, i, 0)
           }
           else Some (context, 0, j));
        piece \<leftarrow> bytes_at data (unat i) (unat (len - i));
        buffer \<leftarrow> store (sha_buffer context) (unat j) piece;
        Some (context\<lparr>sha_buffer := buffer\<rparr>)
      })"

partial_function (option) sha1_pad_loop :: "sha1_ctx \<Rightarrow> sha1_ctx option" where
  "sha1_pad_loop context =
     (if sha_count context ! 0 AND 504 \<noteq> 448
      then Option.bind (HV_SHA1Update context [0] 1) sha1_pad_loop
      else Some context)"

declare sha1_pad_loop.simps [code]

text \<open>The byte of a word array that \<open>(a[i >> 2] >> ((3 - (i & 3)) * 8)) & 255\<close> reads.\<close>

definition be_byte :: "u32 list \<Rightarrow> nat \<Rightarrow> byte" where
  "be_byte ws i = ucast (drop_bit ((3 - i mod 4) * 8) (ws ! (i div 4)) AND 255)"

definition sha1_wiped :: sha1_ctx where
  "sha1_wiped = \<lparr>sha_state = replicate 5 0, sha_count = replicate 2 0, sha_buffer = replicate 64 0\<rparr>"

text \<open>The digest and the wiped context.\<close>

definition HV_SHA1Final :: "sha1_ctx \<Rightarrow> (byte list \<times> sha1_ctx) option" where
  "HV_SHA1Final context = do {
     let finalcount = map (be_byte [sha_count context ! 1, sha_count context ! 0]) [0..<8];
     context \<leftarrow> HV_SHA1Update context [0x80] 1;
     context \<leftarrow> sha1_pad_loop context;
     context \<leftarrow> HV_SHA1Update context finalcount 8;
     Some (map (be_byte (sha_state context)) [0..<20], sha1_wiped)
   }"

text \<open>\<open>HV_SHA1\<close> feeds one byte at a time, \<open>hv_sha1\<close> the whole input. The context on the stack is
  uninitialised: its contents are an argument.\<close>

fun sha1_bytes :: "sha1_ctx \<Rightarrow> byte list \<Rightarrow> sha1_ctx option" where
  "sha1_bytes context [] = Some context"
| "sha1_bytes context (b # str) = Option.bind (HV_SHA1Update context [b] 1) (\<lambda>c. sha1_bytes c str)"

definition HV_SHA1 :: "sha1_ctx \<Rightarrow> byte list \<Rightarrow> byte list option" where
  "HV_SHA1 ctx str =
     map_option (\<lambda>(d, _). d @ [0]) (Option.bind (sha1_bytes (HV_SHA1Init ctx) str) HV_SHA1Final)"

definition hv_sha1 :: "sha1_ctx \<Rightarrow> byte list \<Rightarrow> u32 \<Rightarrow> byte list option" where
  "hv_sha1 ctx inp inputlen =
     map_option fst (Option.bind (HV_SHA1Update (HV_SHA1Init ctx) inp inputlen) HV_SHA1Final)"

definition i2hex :: "byte \<Rightarrow> byte" where
  "i2hex i = (if i < 10 then i + of_char CHR ''0'' else i - 10 + of_char CHR ''a'')"

definition hex_digits :: "byte list \<Rightarrow> byte list" where
  "hex_digits ds = concat (map (\<lambda>d. [i2hex (drop_bit 4 d), i2hex (d AND 0x0F)]) ds)"

text \<open>What is written to the output of size \<open>outputlen\<close>; \<open>None\<close> is an access outside the data.\<close>

definition hv_sha1_hex :: "sha1_ctx \<Rightarrow> byte list \<Rightarrow> u32 \<Rightarrow> u32 \<Rightarrow> byte list option" where
  "hv_sha1_hex ctx inp inputlen outputlen =
     (if outputlen < 40 then Some []
      else map_option (\<lambda>digest. hex_digits digest @ (if outputlen > 40 then [0] else []))
             (hv_sha1 ctx inp inputlen))"

section \<open>Reference: FIPS 180\<close>

definition load_be :: "byte list \<Rightarrow> nat \<Rightarrow> u32" where
  "load_be b i = push_bit 24 (ucast (b ! (4 * i))) OR push_bit 16 (ucast (b ! (4 * i + 1))) OR
     push_bit 8 (ucast (b ! (4 * i + 2))) OR ucast (b ! (4 * i + 3))"

fun fips_W :: "byte list \<Rightarrow> nat \<Rightarrow> u32" where
  "fips_W m t =
     (if t < 16 then load_be m t
      else word_rotl 1 (fips_W m (t - 3) XOR fips_W m (t - 8) XOR fips_W m (t - 14) XOR fips_W m (t - 16)))"

declare fips_W.simps [simp del]

definition fips_f :: "nat \<Rightarrow> u32 \<Rightarrow> u32 \<Rightarrow> u32 \<Rightarrow> u32" where
  "fips_f t x y z =
     (if t < 20 then (x AND y) XOR (NOT x AND z)
      else if t < 40 then x XOR y XOR z
      else if t < 60 then (x AND y) XOR (x AND z) XOR (y AND z)
      else x XOR y XOR z)"

definition fips_K :: "nat \<Rightarrow> u32" where
  "fips_K t = (if t < 20 then 0x5A827999 else if t < 40 then 0x6ED9EBA1
               else if t < 60 then 0x8F1BBCDC else 0xCA62C1D6)"

type_synonym five = "u32 \<times> u32 \<times> u32 \<times> u32 \<times> u32"

definition fips_round :: "byte list \<Rightarrow> nat \<Rightarrow> five \<Rightarrow> five" where
  "fips_round m t = (\<lambda>(a, b, c, d, e).
     (word_rotl 5 a + fips_f t b c d + e + fips_K t + fips_W m t, a, word_rotl 30 b, c, d))"

definition fips_compress :: "u32 list \<Rightarrow> byte list \<Rightarrow> u32 list" where
  "fips_compress H m =
     (let (a, b, c, d, e) = fold (fips_round m) [0..<80] (H ! 0, H ! 1, H ! 2, H ! 3, H ! 4)
      in [H ! 0 + a, H ! 1 + b, H ! 2 + c, H ! 3 + d, H ! 4 + e])"

text \<open>The padded message: a one bit, zeros up to 56 bytes modulo 64, the length in bits as a
  big-endian number of 64 bits.\<close>

definition fips_pad :: "byte list \<Rightarrow> byte list" where
  "fips_pad m = m @ 0x80 # replicate ((119 - length m mod 64) mod 64) 0
     @ map (\<lambda>i. of_nat (8 * length m div 256 ^ (7 - i))) [0..<8]"

definition fips_sha1 :: "byte list \<Rightarrow> byte list" where
  "fips_sha1 m = map (be_byte (absorb fips_compress
     [0x67452301, 0xEFCDAB89, 0x98BADCFE, 0x10325476, 0xC3D2E1F0] (fips_pad m))) [0..<20]"

section \<open>The compression function meets the reference\<close>

lemma rol_rotl: "0 < n \<Longrightarrow> n < 32 \<Longrightarrow> rol x n = word_rotl n x"
proof (rule bit_word_eqI)
  fix i assume n: "0 < n" "n < 32" and i: "i < LENGTH(32)"
  have "(i + (32 - n mod 32)) mod 32 = (if i < n then 32 + i - n else i - n)"
    using n i by (auto simp: mod_if)
  with n i show "bit (rol x n) i = bit (word_rotl n x) i"
    by (auto simp: rol_def bit_word_rotl_iff bit_or_iff bit_push_bit_iff bit_drop_bit_eq
        dest: bit_imp_le_length)
qed

lemma choose_alt: "(x AND (y XOR z)) XOR z = (x AND y) XOR (NOT x AND z)" for x y z :: u32
  by (rule bit_word_eqI) (auto simp: bit_simps)

lemma majority_alt: "((x OR y) AND z) OR (x AND y) = (x AND y) XOR (x AND z) XOR (y AND z)" for x y z :: u32
  by (rule bit_word_eqI) (auto simp: bit_simps)

text \<open>\<open>blk0\<close> turns the little-endian word into the big-endian one.\<close>

lemma swap_masks:
  "bit (0xFF00FF00 :: u32) n \<longleftrightarrow> (8 \<le> n \<and> n < 16) \<or> (24 \<le> n \<and> n < 32)"
  "bit (0x00FF00FF :: u32) n \<longleftrightarrow> n < 8 \<or> (16 \<le> n \<and> n < 24)"
proof -
  have c: "(0xFF00FF00 :: u32) = push_bit 8 (Bit_Operations.mask 8) OR push_bit 24 (Bit_Operations.mask 8)"
    "(0x00FF00FF :: u32) = Bit_Operations.mask 8 OR push_bit 16 (Bit_Operations.mask 8)"
    by (simp_all add: mask_eq_exp_minus_1)
  show "bit (0xFF00FF00 :: u32) n \<longleftrightarrow> (8 \<le> n \<and> n < 16) \<or> (24 \<le> n \<and> n < 32)"
    "bit (0x00FF00FF :: u32) n \<longleftrightarrow> n < 8 \<or> (16 \<le> n \<and> n < 24)"
    unfolding c bit_or_iff bit_push_bit_iff bit_mask_iff by auto
qed

lemma blk0_swaps:
  "(rol (load_le b i) 24 AND 0xFF00FF00) OR (rol (load_le b i) 8 AND 0x00FF00FF) = load_be b i"
proof (rule bit_word_eqI)
  fix n assume n: "n < LENGTH(32)"
  have bb: "\<not> bit (x :: byte) k" if "8 \<le> k" for x k using that by (auto dest: bit_imp_le_length)
  define q k where "q = n div 8" and "k = n mod 8"
  have n: "n = 8 * q + k" "k < 8" and "q < 4" using n by (simp_all add: q_def k_def less_mult_imp_div_less)
  then consider "q = 0" | "q = 1" | "q = 2" | "q = 3" by linarith
  then show "bit ((rol (load_le b i) 24 AND 0xFF00FF00) OR (rol (load_le b i) 8 AND 0x00FF00FF)) n
      = bit (load_be b i) n"
    unfolding bit_or_iff bit_and_iff swap_masks rol_def load_le_def load_be_def
      bit_push_bit_iff bit_drop_bit_eq bit_ucast_iff comp_def n
    using n(2) by cases (simp_all add: bb)
qed

text \<open>The variable that plays role \<open>k\<close> in round \<open>t\<close>, and the macro of the round.\<close>

definition role :: "nat \<Rightarrow> nat \<Rightarrow> reg" where
  "role t k = [Va, Vb, Vc, Vd, Ve] ! ((k + 4 * t) mod 5)"

definition round_step :: "nat \<Rightarrow> round_state \<Rightarrow> round_state" where
  "round_step t =
     (if t < 16 then R0 else if t < 20 then R1 else if t < 40 then R2 else if t < 60 then R3 else R4)
       (role t 0) (role t 1) (role t 2) (role t 3) (role t 4) t"

lemma sha1_rounds_steps: "sha1_rounds = map round_step [0..<80]"
  by (simp add: sha1_rounds_def round_step_def role_def upt_conv_Cons numeral_2_eq_2 [symmetric])

text \<open>The block before round \<open>t\<close>: the last sixteen words of the schedule, and the words of the
  message that were not read yet.\<close>

definition block_ok :: "byte list \<Rightarrow> nat \<Rightarrow> u32 list \<Rightarrow> bool" where
  "block_ok m t l \<longleftrightarrow> length l = 16
     \<and> (\<forall>s < t. t \<le> s + 16 \<longrightarrow> l ! (s mod 16) = fips_W m s)
     \<and> (\<forall>s. t \<le> s \<and> s < 16 \<longrightarrow> l ! s = load_le m s)"

definition view :: "nat \<Rightarrow> (reg \<Rightarrow> u32) \<Rightarrow> five" where
  "view t r = (r (role t 0), r (role t 1), r (role t 2), r (role t 3), r (role t 4))"

lemma block_step0:
  assumes "block_ok m t l" and "t < 16"
  shows "blk0 l t ! t = fips_W m t" and "block_ok m (Suc t) (blk0 l t)"
proof -
  show w: "blk0 l t ! t = fips_W m t"
    using assms by (simp add: block_ok_def blk0_def blk0_swaps fips_W.simps [of m t])
  show "block_ok m (Suc t) (blk0 l t)"
    using assms w unfolding block_ok_def by (auto simp: blk0_def less_Suc_eq nth_list_update)
qed

lemma block_step1:
  assumes "block_ok m t l" and "16 \<le> t"
  shows "blk l t ! (t mod 16) = fips_W m t" and "block_ok m (Suc t) (blk l t)"
proof -
  have W: "l ! ((t + 13) mod 16) = fips_W m (t - 3)" "l ! ((t + 8) mod 16) = fips_W m (t - 8)"
    "l ! ((t + 2) mod 16) = fips_W m (t - 14)" "l ! (t mod 16) = fips_W m (t - 16)"
  proof -
    from assms(2) obtain u where u: "t = u + 16" by (metis add.commute le_Suc_ex)
    have e: "(t + 13) mod 16 = (t - 3) mod 16" "(t + 8) mod 16 = (t - 8) mod 16"
      "(t + 2) mod 16 = (t - 14) mod 16" "t mod 16 = (t - 16) mod 16"
      unfolding u using mod_add_self2 [of "u + 13" 16] mod_add_self2 [of "u + 8" 16]
        mod_add_self2 [of "u + 2" 16] by (simp_all add: add.commute)
    have p: "l ! (s mod 16) = fips_W m s" if "s < t" "t \<le> s + 16" for s
      using assms(1) that by (simp add: block_ok_def)
    show "l ! ((t + 13) mod 16) = fips_W m (t - 3)" "l ! ((t + 8) mod 16) = fips_W m (t - 8)"
      "l ! ((t + 2) mod 16) = fips_W m (t - 14)" "l ! (t mod 16) = fips_W m (t - 16)"
      unfolding e using assms(2) by (simp_all add: p)
  qed
  have len: "length l = 16" using assms(1) by (simp add: block_ok_def)
  show w: "blk l t ! (t mod 16) = fips_W m t"
    unfolding blk_def W using assms(2) len by (simp add: rol_rotl fips_W.simps [of m t])
  have ne: "s mod 16 \<noteq> t mod 16" if "s < t" "t < s + 16" for s
  proof
    assume "s mod 16 = t mod 16"
    then have "16 dvd t - s" using that by (metis less_imp_le mod_eq_dvd_iff_nat)
    with that show False by (auto dest: dvd_imp_le)
  qed
  have "blk l t ! (s mod 16) = fips_W m s" if "s < Suc t" "Suc t \<le> s + 16" for s
  proof (cases "s = t")
    case True
    with w show ?thesis by simp
  next
    case False
    with that ne [of s] assms(1) show ?thesis by (simp add: block_ok_def blk_def)
  qed
  moreover have "length (blk l t) = 16" by (simp add: blk_def len)
  ultimately show "block_ok m (Suc t) (blk l t)" using assms(2) by (auto simp: block_ok_def)
qed

lemma role_mod: "role (5 * q + t) k = role t k"
proof -
  have "(k + 4 * (5 * q + t)) mod 5 = (k + 4 * t + 5 * (4 * q)) mod 5" by (simp add: algebra_simps)
  then show ?thesis by (simp only: role_def mod_mult_self2)
qed

lemma roles:
  "role (Suc t) 0 = role t 4" "role (Suc t) 1 = role t 0" "role (Suc t) 2 = role t 1"
  "role (Suc t) 3 = role t 2" "role (Suc t) 4 = role t 3"
  "distinct [role t 0, role t 1, role t 2, role t 3, role t 4]"
proof -
  have t: "role t k = role (t mod 5) k" "role (Suc t) k = role (Suc (t mod 5)) k" for k
    using role_mod [of "t div 5" "t mod 5" k] role_mod [of "t div 5" "Suc (t mod 5)" k] by simp_all
  have "t mod 5 < 5" by simp
  then consider "t mod 5 = 0" | "t mod 5 = 1" | "t mod 5 = 2" | "t mod 5 = 3" | "t mod 5 = 4" by linarith
  note c = this
  show "role (Suc t) 0 = role t 4" unfolding t using c by cases (simp_all only:, simp_all add: role_def)
  show "role (Suc t) 1 = role t 0" unfolding t using c by cases (simp_all only:, simp_all add: role_def)
  show "role (Suc t) 2 = role t 1" unfolding t using c by cases (simp_all only:, simp_all add: role_def)
  show "role (Suc t) 3 = role t 2" unfolding t using c by cases (simp_all only:, simp_all add: role_def)
  show "role (Suc t) 4 = role t 3" unfolding t using c by cases (simp_all only:, simp_all add: role_def)
  show "distinct [role t 0, role t 1, role t 2, role t 3, role t 4]"
    unfolding t using c by cases (simp_all only:, simp_all add: role_def)
qed

lemma round_step_view:
  assumes "block_ok m t l" and "t < 80" and "round_step t (r, l) = (r', l')"
  shows "view (Suc t) r' = fips_round m t (view t r)" and "block_ok m (Suc t) l'"
proof -
  define l1 where "l1 = (if t < 16 then blk0 l t else blk l t)"
  have w: "l1 ! (t mod 16) = fips_W m t" and l1: "block_ok m (Suc t) l1"
    using block_step0 [OF assms(1)] block_step1 [OF assms(1)] by (auto simp: l1_def)
  have step: "round_step t (r, l) =
     (let r = r(role t 4 := r (role t 4) + (fips_f t (r (role t 1)) (r (role t 2)) (r (role t 3)) + fips_W m t
                              + fips_K t + word_rotl 5 (r (role t 0))))
      in (r(role t 1 := word_rotl 30 (r (role t 1))), l1))"
    using w by (auto simp: round_step_def R0_def R1_def R2_def R3_def R4_def Let_def l1_def fips_f_def
        fips_K_def rol_rotl choose_alt majority_alt)
  have d: "distinct [role t 0, role t 1, role t 2, role t 3, role t 4]" by (rule roles)
  show "view (Suc t) r' = fips_round m t (view t r)" "block_ok m (Suc t) l'"
    using assms(3) l1 d unfolding step by (auto simp: view_def roles [unfolded One_nat_def] fips_round_def Let_def algebra_simps)
qed

lemma rounds_view:
  assumes "block_ok m 0 l" and "n \<le> 80" and "fold (\<lambda>f. f) (map round_step [0..<n]) (r, l) = (r', l')"
  shows "view n r' = fold (fips_round m) [0..<n] (view 0 r) \<and> block_ok m n l'"
  using assms(2,3)
proof (induction n arbitrary: r' l')
  case 0
  with assms(1) show ?case by simp
next
  case (Suc n)
  obtain r1 l1 where s1: "fold (\<lambda>f. f) (map round_step [0..<n]) (r, l) = (r1, l1)" by fastforce
  have IH: "view n r1 = fold (fips_round m) [0..<n] (view 0 r)" "block_ok m n l1"
    using Suc.IH [OF _ s1] Suc.prems(1) by simp_all
  have s2: "round_step n (r1, l1) = (r', l')" using Suc.prems(2) s1 by simp
  have "n < 80" using Suc.prems(1) by simp
  from round_step_view [OF IH(2) this s2] IH(1) show ?case by simp
qed

lemma transform_fips: "HV_SHA1Transform state b = fips_compress state b"
proof -
  let ?l = "map (load_le b) [0..<16]"
  let ?r = "\<lambda>v. case v of Va \<Rightarrow> state ! 0 | Vb \<Rightarrow> state ! 1 | Vc \<Rightarrow> state ! 2 | Vd \<Rightarrow> state ! 3 | Ve \<Rightarrow> state ! 4"
  obtain r' l' where f: "fold (\<lambda>f. f) (map round_step [0..<80]) (?r, ?l) = (r', l')" by fastforce
  have "block_ok b 0 ?l" by (simp add: block_ok_def)
  from rounds_view [OF this le_refl f]
  have "view 80 r' = fold (fips_round b) [0..<80] (view 0 ?r)" by (rule conjunct1)
  then have "fold (fips_round b) [0..<80] (state ! 0, state ! 1, state ! 2, state ! 3, state ! 4)
      = (r' Va, r' Vb, r' Vc, r' Vd, r' Ve)"
    by (simp only: view_def) (simp add: role_def)
  then show ?thesis
    unfolding HV_SHA1Transform_def sha1_rounds_steps Let_def fips_compress_def f by simp
qed

section \<open>Feeding a context\<close>

abbreviation sha1_iv :: "u32 list" where
  "sha1_iv \<equiv> [0x67452301, 0xEFCDAB89, 0x98BADCFE, 0x10325476, 0xC3D2E1F0]"

text \<open>The context has taken in the message \<open>m\<close>.\<close>

definition sha1_holds :: "sha1_ctx \<Rightarrow> byte list \<Rightarrow> bool" where
  "sha1_holds c m \<longleftrightarrow> holding fips_compress sha1_iv (sha_state c) (sha_count c) (sha_buffer c) m"

definition sha1_fresh :: "sha1_ctx \<Rightarrow> bool" where
  "sha1_fresh c \<longleftrightarrow> length (sha_buffer c) = 64"

lemma sha1_init_holds: "sha1_fresh c \<Longrightarrow> sha1_holds (HV_SHA1Init c) []"
  by (simp add: sha1_holds_def holding_def sha1_fresh_def HV_SHA1Init_def bits_lo_def bits_hi_def
      leftover_def)

lemma sha1_count_holds:
  assumes "n < 2 ^ 32"
  shows "sha1_count_add [bits_lo m, bits_hi m] (of_nat n) = [bits_lo (m + n), bits_hi (m + n)]"
  using bits_hi_add [OF assms, of m] bits_carry(1) [of m n]
  by (auto simp: sha1_count_add_def Let_def push3 bits_lo_add split: if_splits)

interpretation sha1_loop: block_loop fips_compress "\<lambda>i len. i + 63 < len" sha1_blocks
proof
  show "sha1_blocks st d i len = (if i + 63 < len
      then Option.bind (bytes_at d (unat i) 64) (\<lambda>b. sha1_blocks (fips_compress st b) d (i + 64) len)
      else Some (st, i))" for st d i len
    by (subst sha1_blocks.simps) (simp only: transform_fips)
next
  fix k n :: nat assume "k \<le> n" and "n + 64 < 2 ^ 32"
  then show "(of_nat k + 63 :: u32) < of_nat n \<longleftrightarrow> k + 64 \<le> n"
    using of_nat_word_less_iff [of "k + 63" n, where 'a = 32] by auto
qed

lemma sha1_update_short:
  assumes "sha1_holds c m" and "n \<le> length d" and "length m mod 64 + n < 64"
  shows "\<exists>c'. HV_SHA1Update c d (of_nat n) = Some c' \<and> sha1_holds c' (m @ take n d)"
proof -
  let ?j = "length m mod 64"
  have c: "sha_count c = [bits_lo (length m), bits_hi (length m)]"
    using assms(1) by (simp add: sha1_holds_def holding_def)
  have test: "\<not> (63 :: u32) < of_nat ?j + of_nat n"
    using of_nat_word_less_iff [of 63 "?j + n", where 'a = 32] assms(3) by simp
  have piece: "bytes_at d (unat (0 :: u32)) (unat ((of_nat n :: u32) - 0)) = Some (take n d)"
    using assms(2,3) by (simp add: bytes_at_def)
  obtain buf where buf: "store (sha_buffer c) ?j (take n d) = Some buf"
    "holding fips_compress sha1_iv (sha_state c) [bits_lo (length m + n), bits_hi (length m + n)] buf (m @ take n d)"
    using holding_short [OF assms(1) [unfolded sha1_holds_def] assms(2,3)] by (elim exE conjE) (rule that)
  have "HV_SHA1Update c d (of_nat n) =
      Some (c\<lparr>sha_count := [bits_lo (length m + n), bits_hi (length m + n)], sha_buffer := buf\<rparr>)"
    using test piece buf(1) assms(3) c
    by (simp add: HV_SHA1Update_def Let_def bits_lo_index sha1_count_holds)
  with buf(2) show ?thesis by (simp add: sha1_holds_def)
qed

lemma sha1_update_long:
  assumes "sha1_holds c m" and "n \<le> length d" and "64 \<le> length m mod 64 + n" and "n + 64 < 2 ^ 32"
  shows "\<exists>c'. HV_SHA1Update c d (of_nat n) = Some c' \<and> sha1_holds c' (m @ take n d)"
proof -
  let ?j = "length m mod 64"
  define k where "k = 64 - ?j"
  define i where "i = k + 64 * ((n - k) div 64)"
  note long = holding_long [OF assms(1) [unfolded sha1_holds_def] assms(2,3) k_def i_def]
  have c: "sha_count c = [bits_lo (length m), bits_hi (length m)]"
    using assms(1) by (simp add: sha1_holds_def holding_def)
  define y where "y = take (n - k) (drop k d)"
  define z where "z = take (n - i) (drop i d)"
  obtain b buf where st: "store (sha_buffer c) ?j (take k d) = Some b" "store b 0 z = Some buf"
    "holding fips_compress sha1_iv (absorb fips_compress (fips_compress (sha_state c) b) y)
       [bits_lo (length m + n), bits_hi (length m + n)] buf (m @ take n d)"
    using long(3) [folded y_def z_def] by (elim exE conjE) (rule that)
  have test: "(63 :: u32) < of_nat ?j + of_nat n"
    using of_nat_word_less_iff [of 63 "?j + n", where 'a = 32] assms(3,4) by simp
  have kw: "(64 :: u32) - of_nat ?j = of_nat k"
    using of_nat_diff_u32 [of ?j 64] by (simp add: k_def)
  have p1: "bytes_at d 0 (unat (of_nat k :: u32)) = Some (take k d)"
    using long(1) assms(2,4) by (simp add: bytes_at_def)
  have p2: "bytes_at d (unat (of_nat i :: u32)) (unat ((of_nat n :: u32) - of_nat i)) = Some z"
    unfolding z_def using assms(4) by (intro bytes_at_rest [OF long(2) assms(2)]) simp
  note bl = sha1_loop.loop_absorb [OF long(1) assms(2,4), folded i_def y_def]
  let ?c = "c\<lparr>sha_count := [bits_lo (length m + n), bits_hi (length m + n)],
    sha_state := absorb fips_compress (fips_compress (sha_state c) b) y, sha_buffer := buf\<rparr>"
  have "HV_SHA1Update c d (of_nat n) = Some ?c"
    using test p1 st(1,2) bl p2 kw assms(4) c
    by (simp add: HV_SHA1Update_def Let_def bits_lo_index sha1_count_holds transform_fips)
  with st(3) show ?thesis by (simp add: sha1_holds_def)
qed

lemma sha1_update_holds:
  assumes "sha1_holds c m" and "n \<le> length d" and "n + 64 < 2 ^ 32"
  shows "\<exists>c'. HV_SHA1Update c d (of_nat n) = Some c' \<and> sha1_holds c' (m @ take n d)"
  using sha1_update_short [OF assms(1,2)] sha1_update_long [OF assms(1,2) _ assms(3)]
  by (cases "length m mod 64 + n < 64") simp_all

interpretation sha1_stream: streaming_hash sha1_fresh HV_SHA1Init HV_SHA1Update sha1_holds
  using sha1_init_holds sha1_update_holds by unfold_locales

section \<open>The padding and the digest\<close>

lemma pad_test: "bits_lo n AND 504 = (448 :: u32) \<longleftrightarrow> n mod 64 = 56"
proof -
  have "bits_lo n AND 504 = push_bit 3 (drop_bit 3 (bits_lo n) AND 0x3F)"
  proof (rule bit_word_eqI)
    fix i assume "i < LENGTH(32)"
    have m: "(504 :: u32) = push_bit 3 0x3F" by simp
    show "bit (bits_lo n AND 504) i = bit (push_bit 3 (drop_bit 3 (bits_lo n) AND 0x3F)) i"
      unfolding m bit_and_iff bit_push_bit_iff bit_drop_bit_eq comp_def by auto
  qed
  also have "\<dots> = of_nat (8 * (n mod 64))" by (simp add: bits_lo_index push_bit_eq_mult)
  finally have "unat (bits_lo n AND 504) = unat (of_nat (8 * (n mod 64)) :: u32)" by (rule arg_cong)
  also have "\<dots> = 8 * (n mod 64)"
    using mod_less_divisor [of 64 n] by (intro unat_of_nat_small) simp
  finally have "unat (bits_lo n AND 504) = 8 * (n mod 64)" .
  moreover have "bits_lo n AND 504 = (448 :: u32) \<longleftrightarrow> unat (bits_lo n AND 504) = unat (448 :: u32)"
    by (rule word_unat_eq_iff)
  ultimately show ?thesis by simp
qed

lemma pad_loop_holds:
  assumes "sha1_holds c m"
  shows "\<exists>c'. sha1_pad_loop c = Some c' \<and> sha1_holds c' (m @ replicate ((120 - length m mod 64) mod 64) 0)"
  using assms
proof (induction "(120 - length m mod 64) mod 64" arbitrary: c m rule: less_induct)
  case less
  have cnt: "sha_count c ! 0 = bits_lo (length m)" using less.prems by (simp add: sha1_holds_def holding_def)
  show ?case
  proof (cases "length m mod 64 = 56")
    case True
    then show ?thesis using less.prems cnt by (subst sha1_pad_loop.simps) (simp add: pad_test)
  next
    case False
    obtain c1 where c1: "HV_SHA1Update c [0] 1 = Some c1" "sha1_holds c1 (m @ [0])"
      using sha1_update_holds [OF less.prems, of 1 "[0]"] by auto
    have next_: "(120 - length m mod 64) mod 64 = Suc ((120 - length (m @ [0]) mod 64) mod 64)"
    proof -
      define j where "j = length m mod 64"
      have j: "j < 64" "j \<noteq> 56" using False by (simp_all add: j_def)
      have e: "(120 - i) mod 64 = (if i \<le> 56 then 56 - i else 120 - i)" if "i < 64" for i :: nat
        using that by (auto simp: mod_if [of "120 - i"])
      have "length (m @ [0]) mod 64 = (if j = 63 then 0 else Suc j)" by (simp add: j_def mod_Suc)
      with j show ?thesis
        unfolding j_def [symmetric] using e [of j] e [of "Suc j"] by (cases "j = 63") auto
    qed
    obtain c2 where "sha1_pad_loop c1 = Some c2"
      "sha1_holds c2 ((m @ [0]) @ replicate ((120 - length (m @ [0]) mod 64) mod 64) 0)"
      using less.hyps [OF _ c1(2)] next_ by auto
    with c1(1) False cnt next_ show ?thesis
      by (subst sha1_pad_loop.simps) (simp add: pad_test)
  qed
qed

lemma word_byte:
  assumes "k < 4"
  shows "(ucast (drop_bit (k * 8) (of_nat N :: u32) AND 255) :: byte) = of_nat (N div 256 ^ k)"
proof (rule bit_word_eqI)
  fix i assume i: "i < LENGTH(8)"
  have "N div 256 ^ k = drop_bit (k * 8) N"
    by (simp add: drop_bit_eq_div power_mult mult.commute [of k])
  moreover have "k * 8 + i < 32" using assms i by simp
  ultimately show "bit (ucast (drop_bit (k * 8) (of_nat N :: u32) AND 255) :: byte) i
      = bit (of_nat (N div 256 ^ k) :: byte) i"
    unfolding bit_ucast_iff bit_and_iff bit_consts bit_drop_bit_eq comp_def using i
    by (simp add: bit_of_nat_iff bit_drop_bit_eq)
qed

lemma finalcount_bytes:
  "map (be_byte [bits_hi n, bits_lo n]) [0..<8] = map (\<lambda>i. of_nat (8 * n div 256 ^ (7 - i))) [0..<8]"
proof (rule map_cong [OF refl])
  fix i assume "i \<in> set [0..<8]"
  then have i: "i < 8" by simp
  show "be_byte [bits_hi n, bits_lo n] i = of_nat (8 * n div 256 ^ (7 - i))"
  proof (cases "i < 4")
    case True
    have "2 ^ 32 * 256 ^ (3 - i) = (256 :: nat) ^ (7 - i)"
    proof -
      have "(256 :: nat) ^ (4 + (3 - i)) = 256 ^ 4 * 256 ^ (3 - i)" by (rule power_add)
      moreover have "4 + (3 - i) = 7 - i" using True by simp
      ultimately show ?thesis by simp
    qed
    with True word_byte [of "3 - i" "8 * n div 2 ^ 32"] show ?thesis
      by (simp only: be_byte_def bits_hi_def div_mult2_eq [symmetric]) simp
  next
    case False
    have e: "i div 4 = 1" "3 - i mod 4 = 7 - i" using False i by (simp_all add: mod_if div_if)
    show ?thesis
      using word_byte [of "7 - i" "8 * n"] False i by (simp only: be_byte_def e bits_lo_def) simp
  qed
qed

lemma pad_zeros: "(120 - Suc n mod 64) mod 64 = (119 - n mod 64) mod (64 :: nat)"
proof (cases "n mod 64 = 63")
  case False
  then have "Suc n mod 64 = Suc (n mod 64)" by (simp add: mod_Suc)
  then show ?thesis by simp
qed (simp add: mod_Suc)

lemma sha1_final_digest:
  assumes "sha1_holds c m"
  shows "HV_SHA1Final c = Some (fips_sha1 m, sha1_wiped)"
proof -
  let ?fin = "map (\<lambda>i. of_nat (8 * length m div 256 ^ (7 - i))) [0..<8] :: byte list"
  let ?z = "replicate ((119 - length m mod 64) mod 64) 0 :: byte list"
  have fc: "map (be_byte [sha_count c ! 1, sha_count c ! 0]) [0..<8] = ?fin"
    using assms by (simp only: sha1_holds_def holding_def) (simp only: finalcount_bytes nth_Cons_0 nth_Cons_Suc One_nat_def)
  obtain c1 where c1: "HV_SHA1Update c [0x80] 1 = Some c1" "sha1_holds c1 (m @ [0x80])"
    using sha1_update_holds [OF assms, of 1 "[0x80]"] by auto
  obtain c2 where c2: "sha1_pad_loop c1 = Some c2" "sha1_holds c2 (m @ 0x80 # ?z)"
    using pad_loop_holds [OF c1(2)] by (auto simp: pad_zeros)
  obtain c3 where c3: "HV_SHA1Update c2 ?fin 8 = Some c3" "sha1_holds c3 (fips_pad m)"
    using sha1_update_holds [OF c2(2), of 8 ?fin] by (auto simp: fips_pad_def simp del: upt_rec_numeral)
  have st: "sha_state c3 = absorb fips_compress sha1_iv (fips_pad m)"
    using c3(2) by (simp add: sha1_holds_def holding_def)
  show ?thesis
    unfolding HV_SHA1Final_def fc Let_def c1(1) bind.simps c2(1) c3(1) st fips_sha1_def ..
qed

interpretation sha1: finished_hash sha1_fresh HV_SHA1Init HV_SHA1Update sha1_holds
  "\<lambda>c. map_option fst (HV_SHA1Final c)" fips_sha1
  by unfold_locales (simp add: sha1_final_digest)

section \<open>Results\<close>

text \<open>C20. A message fed to the context in any pieces, each of at most 2^32 - 65 bytes, through
  \<open>HV_SHA1Update\<close> gives after \<open>HV_SHA1Final\<close> exactly the SHA-1 digest that FIPS 180 defines for the
  whole message; no access leaves the data or the buffer, the padding loop ends, and the context
  is wiped.\<close>

theorem sha1_pieces_fips:
  assumes "length (sha_buffer ctx) = 64" and "\<forall>d \<in> set ds. length d + 64 < 2 ^ 32"
  shows "Option.bind (feed HV_SHA1Update (HV_SHA1Init ctx) ds) HV_SHA1Final
    = Some (fips_sha1 (concat ds), sha1_wiped)"
proof -
  have "sha1_fresh ctx" using assms(1) by (simp add: sha1_fresh_def)
  from sha1_stream.feed_represents [OF sha1_init_holds [OF this] assms(2)]
  obtain c where "feed HV_SHA1Update (HV_SHA1Init ctx) ds = Some c" "sha1_holds c (concat ds)" by auto
  then show ?thesis by (simp add: sha1_final_digest)
qed

abbreviation sha1_ctx0 :: sha1_ctx where
  "sha1_ctx0 \<equiv> \<lparr>sha_state = [], sha_count = [], sha_buffer = replicate 64 0xAA\<rparr>"

theorem sha1_pieces_fips_witness:
  "Option.bind (feed HV_SHA1Update (HV_SHA1Init sha1_ctx0) [[0x61], [], [0x62, 0x63]]) HV_SHA1Final
    = Some (fips_sha1 [0x61, 0x62, 0x63], sha1_wiped)"
  using sha1_pieces_fips [of sha1_ctx0 "[[0x61], [], [0x62, 0x63]]"] by simp

lemma sha1_bytes_feed: "sha1_bytes c str = feed HV_SHA1Update c (map (\<lambda>b. [b]) str)"
  by (induction str arbitrary: c) (simp_all split: bind_splits)

text \<open>The two ways the file offers to hash a buffer agree and give the SHA-1 digest: \<open>hv_sha1\<close>,
  which feeds it at once, and \<open>HV_SHA1\<close>, which feeds single bytes and terminates the result with a
  zero byte. \<open>hv_sha1_hex\<close> writes the digest as 40 hexadecimal digits.\<close>

theorem sha1_oneshot_fips:
  assumes "length (sha_buffer ctx) = 64" and "length inp + 64 < 2 ^ 32"
  shows "hv_sha1 ctx inp (of_nat (length inp)) = Some (fips_sha1 inp)
    \<and> HV_SHA1 ctx inp = Some (fips_sha1 inp @ [0])
    \<and> hv_sha1_hex ctx inp (of_nat (length inp)) 40 = Some (hex_digits (fips_sha1 inp))"
proof -
  have f: "sha1_fresh ctx" using assms(1) by (simp add: sha1_fresh_def)
  have one: "hv_sha1 ctx inp (of_nat (length inp)) = Some (fips_sha1 inp)"
    using sha1.whole_digest [OF f assms(2)] by (simp add: hv_sha1_def split: bind_splits)
  have "HV_SHA1 ctx inp = Some (fips_sha1 inp @ [0])"
    using sha1_stream.feed_represents [OF sha1_init_holds [OF f], of "map (\<lambda>b. [b]) inp"]
    by (auto simp: HV_SHA1_def sha1_bytes_feed sha1_final_digest)
  with one show ?thesis by (simp add: hv_sha1_hex_def)
qed

theorem sha1_oneshot_fips_witness:
  "hv_sha1 sha1_ctx0 [0x61, 0x62, 0x63] 3 = Some (fips_sha1 [0x61, 0x62, 0x63])
    \<and> HV_SHA1 sha1_ctx0 [0x61, 0x62, 0x63] = Some (fips_sha1 [0x61, 0x62, 0x63] @ [0])
    \<and> hv_sha1_hex sha1_ctx0 [0x61, 0x62, 0x63] 3 40 = Some (hex_digits (fips_sha1 [0x61, 0x62, 0x63]))"
  using sha1_oneshot_fips [of sha1_ctx0 "[0x61, 0x62, 0x63]"] by simp

text \<open>The bound on the size of a piece matters: when the fill level of the buffer and the size
  together exceed 32 bits, the test for a full block is false and the whole piece is copied
  into the buffer of 64 bytes.\<close>

theorem sha1_update_wraps:
  assumes "sha1_holds c m" and "n \<le> length d" and "n < 2 ^ 32" and "2 ^ 32 \<le> length m mod 64 + n"
  shows "HV_SHA1Update c d (of_nat n) = None"
proof -
  let ?j = "length m mod 64"
  have c: "sha_count c ! 0 = bits_lo (length m)" "length (sha_buffer c) = 64"
    using assms(1) by (simp_all add: sha1_holds_def holding_def)
  have "?j + n - 2 ^ 32 < 64" using assms(3) mod_less_divisor [of 64 "length m"] by linarith
  moreover have "unat (of_nat ?j + of_nat n :: u32) = ?j + n - 2 ^ 32"
    using assms(3,4) mod_less_divisor [of 64 "length m"]
    by (simp add: unat_word_ariths mod_if [of "?j + n"])
  ultimately have test: "\<not> (63 :: u32) < of_nat ?j + of_nat n"
    by (simp add: word_less_nat_alt)
  have "store (sha_buffer c) (unat (of_nat ?j :: u32)) (take n d) = None"
    using assms(2,4) c(2) by (simp add: store_def)
  then show ?thesis
    using test c(1) assms(2,3) by (simp add: HV_SHA1Update_def Let_def bits_lo_index bytes_at_def)
qed

end
