(* ===== verification/Md5.thy ===== *)
theory Md5
  imports Sha1
begin

text \<open>
  \<open>src/libs/libhv/util/md5.c\<close>: MD5, with the working variables as registers and the macros \<open>FF\<close>,
  \<open>GG\<close>, \<open>HH\<close>, \<open>II\<close> as assignments to them. The context is fed as that of SHA-1 (\<open>Block_Hash\<close>), with
  other tests, another padding and little-endian words. \<open>i2hex\<close> is the same function in both files
  and is taken from \<open>Sha1\<close>.
\<close>

unbundle bit_operations_syntax

section \<open>The compression function\<close>

datatype mreg = Ma | Mb | Mc | Md

definition md5_F :: "u32 \<Rightarrow> u32 \<Rightarrow> u32 \<Rightarrow> u32" where
  "md5_F x y z = (x AND y) OR (NOT x AND z)"

definition md5_G :: "u32 \<Rightarrow> u32 \<Rightarrow> u32 \<Rightarrow> u32" where
  "md5_G x y z = (x AND z) OR (y AND NOT z)"

definition md5_H :: "u32 \<Rightarrow> u32 \<Rightarrow> u32 \<Rightarrow> u32" where
  "md5_H x y z = x XOR y XOR z"

definition md5_I :: "u32 \<Rightarrow> u32 \<Rightarrow> u32 \<Rightarrow> u32" where
  "md5_I x y z = y XOR (x OR NOT z)"

definition ROTATE_LEFT :: "u32 \<Rightarrow> nat \<Rightarrow> u32" where
  "ROTATE_LEFT x n = push_bit n x OR drop_bit (32 - n) x"

type_synonym md5_step = "u32 list \<Rightarrow> (mreg \<Rightarrow> u32) \<Rightarrow> (mreg \<Rightarrow> u32)"

text \<open>The macros; \<open>k\<close> is the index of the argument \<open>x[k]\<close>.\<close>

definition FF :: "mreg \<Rightarrow> mreg \<Rightarrow> mreg \<Rightarrow> mreg \<Rightarrow> nat \<Rightarrow> nat \<Rightarrow> u32 \<Rightarrow> md5_step" where
  "FF a b c d k s ac x r =
     (let r = r(a := r a + (md5_F (r b) (r c) (r d) + x ! k + ac));
          r = r(a := ROTATE_LEFT (r a) s)
      in r(a := r a + r b))"

definition GG :: "mreg \<Rightarrow> mreg \<Rightarrow> mreg \<Rightarrow> mreg \<Rightarrow> nat \<Rightarrow> nat \<Rightarrow> u32 \<Rightarrow> md5_step" where
  "GG a b c d k s ac x r =
     (let r = r(a := r a + (md5_G (r b) (r c) (r d) + x ! k + ac));
          r = r(a := ROTATE_LEFT (r a) s)
      in r(a := r a + r b))"

definition HH :: "mreg \<Rightarrow> mreg \<Rightarrow> mreg \<Rightarrow> mreg \<Rightarrow> nat \<Rightarrow> nat \<Rightarrow> u32 \<Rightarrow> md5_step" where
  "HH a b c d k s ac x r =
     (let r = r(a := r a + (md5_H (r b) (r c) (r d) + x ! k + ac));
          r = r(a := ROTATE_LEFT (r a) s)
      in r(a := r a + r b))"

definition II :: "mreg \<Rightarrow> mreg \<Rightarrow> mreg \<Rightarrow> mreg \<Rightarrow> nat \<Rightarrow> nat \<Rightarrow> u32 \<Rightarrow> md5_step" where
  "II a b c d k s ac x r =
     (let r = r(a := r a + (md5_I (r b) (r c) (r d) + x ! k + ac));
          r = r(a := ROTATE_LEFT (r a) s)
      in r(a := r a + r b))"

text \<open>Words to bytes and back, least significant byte first; \<open>len\<close> is a number of bytes.\<close>

definition HV_MD5Encode :: "u32 list \<Rightarrow> nat \<Rightarrow> byte list" where
  "HV_MD5Encode inp len =
     concat (map (\<lambda>i. [ucast (inp ! i AND 0xFF), ucast (drop_bit 8 (inp ! i) AND 0xFF),
                       ucast (drop_bit 16 (inp ! i) AND 0xFF), ucast (drop_bit 24 (inp ! i) AND 0xFF)])
               [0..<(len + 3) div 4])"

definition HV_MD5Decode :: "byte list \<Rightarrow> nat \<Rightarrow> u32 list" where
  "HV_MD5Decode inp len =
     map (\<lambda>i. ucast (inp ! (4 * i)) OR push_bit 8 (ucast (inp ! (4 * i + 1))) OR
              push_bit 16 (ucast (inp ! (4 * i + 2))) OR push_bit 24 (ucast (inp ! (4 * i + 3))))
       [0..<(len + 3) div 4]"

definition md5_rounds :: "md5_step list" where
  "md5_rounds =
     [FF Ma Mb Mc Md 0 7 0xd76aa478, FF Md Ma Mb Mc 1 12 0xe8c7b756,
      FF Mc Md Ma Mb 2 17 0x242070db, FF Mb Mc Md Ma 3 22 0xc1bdceee,
      FF Ma Mb Mc Md 4 7 0xf57c0faf, FF Md Ma Mb Mc 5 12 0x4787c62a,
      FF Mc Md Ma Mb 6 17 0xa8304613, FF Mb Mc Md Ma 7 22 0xfd469501,
      FF Ma Mb Mc Md 8 7 0x698098d8, FF Md Ma Mb Mc 9 12 0x8b44f7af,
      FF Mc Md Ma Mb 10 17 0xffff5bb1, FF Mb Mc Md Ma 11 22 0x895cd7be,
      FF Ma Mb Mc Md 12 7 0x6b901122, FF Md Ma Mb Mc 13 12 0xfd987193,
      FF Mc Md Ma Mb 14 17 0xa679438e, FF Mb Mc Md Ma 15 22 0x49b40821,
      GG Ma Mb Mc Md 1 5 0xf61e2562, GG Md Ma Mb Mc 6 9 0xc040b340,
      GG Mc Md Ma Mb 11 14 0x265e5a51, GG Mb Mc Md Ma 0 20 0xe9b6c7aa,
      GG Ma Mb Mc Md 5 5 0xd62f105d, GG Md Ma Mb Mc 10 9 0x2441453,
      GG Mc Md Ma Mb 15 14 0xd8a1e681, GG Mb Mc Md Ma 4 20 0xe7d3fbc8,
      GG Ma Mb Mc Md 9 5 0x21e1cde6, GG Md Ma Mb Mc 14 9 0xc33707d6,
      GG Mc Md Ma Mb 3 14 0xf4d50d87, GG Mb Mc Md Ma 8 20 0x455a14ed,
      GG Ma Mb Mc Md 13 5 0xa9e3e905, GG Md Ma Mb Mc 2 9 0xfcefa3f8,
      GG Mc Md Ma Mb 7 14 0x676f02d9, GG Mb Mc Md Ma 12 20 0x8d2a4c8a,
      HH Ma Mb Mc Md 5 4 0xfffa3942, HH Md Ma Mb Mc 8 11 0x8771f681,
      HH Mc Md Ma Mb 11 16 0x6d9d6122, HH Mb Mc Md Ma 14 23 0xfde5380c,
      HH Ma Mb Mc Md 1 4 0xa4beea44, HH Md Ma Mb Mc 4 11 0x4bdecfa9,
      HH Mc Md Ma Mb 7 16 0xf6bb4b60, HH Mb Mc Md Ma 10 23 0xbebfbc70,
      HH Ma Mb Mc Md 13 4 0x289b7ec6, HH Md Ma Mb Mc 0 11 0xeaa127fa,
      HH Mc Md Ma Mb 3 16 0xd4ef3085, HH Mb Mc Md Ma 6 23 0x4881d05,
      HH Ma Mb Mc Md 9 4 0xd9d4d039, HH Md Ma Mb Mc 12 11 0xe6db99e5,
      HH Mc Md Ma Mb 15 16 0x1fa27cf8, HH Mb Mc Md Ma 2 23 0xc4ac5665,
      II Ma Mb Mc Md 0 6 0xf4292244, II Md Ma Mb Mc 7 10 0x432aff97,
      II Mc Md Ma Mb 14 15 0xab9423a7, II Mb Mc Md Ma 5 21 0xfc93a039,
      II Ma Mb Mc Md 12 6 0x655b59c3, II Md Ma Mb Mc 3 10 0x8f0ccc92,
      II Mc Md Ma Mb 10 15 0xffeff47d, II Mb Mc Md Ma 1 21 0x85845dd1,
      II Ma Mb Mc Md 8 6 0x6fa87e4f, II Md Ma Mb Mc 15 10 0xfe2ce6e0,
      II Mc Md Ma Mb 6 15 0xa3014314, II Mb Mc Md Ma 13 21 0x4e0811a1,
      II Ma Mb Mc Md 4 6 0xf7537e82, II Md Ma Mb Mc 11 10 0xbd3af235,
      II Mc Md Ma Mb 2 15 0x2ad7d2bb, II Mb Mc Md Ma 9 21 0xeb86d391]"

definition HV_MD5Transform :: "u32 list \<Rightarrow> byte list \<Rightarrow> u32 list" where
  "HV_MD5Transform state block =
     (let r = (\<lambda>v. case v of Ma \<Rightarrow> state ! 0 | Mb \<Rightarrow> state ! 1 | Mc \<Rightarrow> state ! 2 | Md \<Rightarrow> state ! 3);
          x = HV_MD5Decode block 64;
          r = fold (\<lambda>f. f x) md5_rounds r
      in [state ! 0 + r Ma, state ! 1 + r Mb, state ! 2 + r Mc, state ! 3 + r Md])"

section \<open>The context\<close>

definition PADDING :: "byte list" where
  "PADDING = 0x80 # replicate 63 0"

record md5_ctx =
  md_count :: "u32 list"
  md_state :: "u32 list"
  md_buffer :: "byte list"

definition HV_MD5Init :: "md5_ctx \<Rightarrow> md5_ctx" where
  "HV_MD5Init ctx = ctx\<lparr>md_count := [0, 0],
     md_state := [0x67452301, 0xEFCDAB89, 0x98BADCFE, 0x10325476]\<rparr>"

partial_function (option) md5_blocks ::
  "u32 list \<Rightarrow> byte list \<Rightarrow> u32 \<Rightarrow> u32 \<Rightarrow> (u32 list \<times> u32) option" where
  "md5_blocks state inp i inputlen =
     (if i + 64 \<le> inputlen
      then Option.bind (bytes_at inp (unat i) 64) (\<lambda>b.
             md5_blocks (HV_MD5Transform state b) inp (i + 64) inputlen)
      else Some (state, i))"

declare md5_blocks.simps [code]

definition md5_count_add :: "u32 list \<Rightarrow> u32 \<Rightarrow> u32 list" where
  "md5_count_add count inputlen =
     (let lo = count ! 0 + push_bit 3 inputlen;
          hi = (if lo < push_bit 3 inputlen then count ! 1 + 1 else count ! 1)
      in [lo, hi + drop_bit 29 inputlen])"

definition HV_MD5Update :: "md5_ctx \<Rightarrow> byte list \<Rightarrow> u32 \<Rightarrow> md5_ctx option" where
  "HV_MD5Update ctx inp inputlen =
     (let index = drop_bit 3 (md_count ctx ! 0) AND 0x3F;
          partlen = 64 - index;
          ctx = ctx\<lparr>md_count := md5_count_add (md_count ctx) inputlen\<rparr>
      in do {
        (ctx, i, index) \<leftarrow>
          (if inputlen \<ge> partlen then do {
             piece \<leftarrow> bytes_at inp 0 (unat partlen);
             buffer \<leftarrow> store (md_buffer ctx) (unat index) piece;
             (state, i) \<leftarrow> md5_blocks (HV_MD5Transform (md_state ctx) buffer) inp partlen inputlen;
             Some (ctx\<lparr>md_state := state, md_buffer := buffer\<rparr>, i, 0)
           }
           else Some (ctx, 0, index));
        piece \<leftarrow> bytes_at inp (unat i) (unat (inputlen - i));
        buffer \<leftarrow> store (md_buffer ctx) (unat index) piece;
        Some (ctx\<lparr>md_buffer := buffer\<rparr>)
      })"

text \<open>The digest and the context, which is not wiped.\<close>

definition HV_MD5Final :: "md5_ctx \<Rightarrow> (byte list \<times> md5_ctx) option" where
  "HV_MD5Final ctx =
     (let index = drop_bit 3 (md_count ctx ! 0) AND 0x3F;
          padlen = (if index < 56 then 56 - index else 120 - index);
          bits = HV_MD5Encode (md_count ctx) 8
      in do {
        ctx \<leftarrow> HV_MD5Update ctx PADDING padlen;
        ctx \<leftarrow> HV_MD5Update ctx bits 8;
        Some (HV_MD5Encode (md_state ctx) 16, ctx)
      })"

definition hv_md5 :: "md5_ctx \<Rightarrow> byte list \<Rightarrow> u32 \<Rightarrow> byte list option" where
  "hv_md5 ctx inp inputlen =
     map_option fst (Option.bind (HV_MD5Update (HV_MD5Init ctx) inp inputlen) HV_MD5Final)"

definition hv_md5_hex :: "md5_ctx \<Rightarrow> byte list \<Rightarrow> u32 \<Rightarrow> u32 \<Rightarrow> byte list option" where
  "hv_md5_hex ctx inp inputlen outputlen =
     (if outputlen < 32 then Some []
      else map_option (\<lambda>digest. hex_digits digest @ (if outputlen > 32 then [0] else []))
             (hv_md5 ctx inp inputlen))"

section \<open>Reference: RFC 1321\<close>

text \<open>The rounds with computed indices and rotations; the table of constants is that of the RFC.\<close>

definition rfc_T :: "u32 list" where
  "rfc_T =
     [0xd76aa478, 0xe8c7b756, 0x242070db, 0xc1bdceee, 0xf57c0faf, 0x4787c62a, 0xa8304613, 0xfd469501,
      0x698098d8, 0x8b44f7af, 0xffff5bb1, 0x895cd7be, 0x6b901122, 0xfd987193, 0xa679438e, 0x49b40821,
      0xf61e2562, 0xc040b340, 0x265e5a51, 0xe9b6c7aa, 0xd62f105d, 0x2441453, 0xd8a1e681, 0xe7d3fbc8,
      0x21e1cde6, 0xc33707d6, 0xf4d50d87, 0x455a14ed, 0xa9e3e905, 0xfcefa3f8, 0x676f02d9, 0x8d2a4c8a,
      0xfffa3942, 0x8771f681, 0x6d9d6122, 0xfde5380c, 0xa4beea44, 0x4bdecfa9, 0xf6bb4b60, 0xbebfbc70,
      0x289b7ec6, 0xeaa127fa, 0xd4ef3085, 0x4881d05, 0xd9d4d039, 0xe6db99e5, 0x1fa27cf8, 0xc4ac5665,
      0xf4292244, 0x432aff97, 0xab9423a7, 0xfc93a039, 0x655b59c3, 0x8f0ccc92, 0xffeff47d, 0x85845dd1,
      0x6fa87e4f, 0xfe2ce6e0, 0xa3014314, 0x4e0811a1, 0xf7537e82, 0xbd3af235, 0x2ad7d2bb, 0xeb86d391]"

definition rfc_f :: "nat \<Rightarrow> u32 \<Rightarrow> u32 \<Rightarrow> u32 \<Rightarrow> u32" where
  "rfc_f t x y z =
     (if t < 16 then (x AND y) OR (NOT x AND z)
      else if t < 32 then (x AND z) OR (y AND NOT z)
      else if t < 48 then x XOR y XOR z
      else y XOR (x OR NOT z))"

definition rfc_k :: "nat \<Rightarrow> nat" where
  "rfc_k t = (if t < 16 then t else if t < 32 then (5 * t + 1) mod 16
              else if t < 48 then (3 * t + 5) mod 16 else 7 * t mod 16)"

definition rfc_s :: "nat \<Rightarrow> nat" where
  "rfc_s t = [[7, 12, 17, 22], [5, 9, 14, 20], [4, 11, 16, 23], [6, 10, 15, 21]] ! (t div 16) ! (t mod 4)"

type_synonym four = "u32 \<times> u32 \<times> u32 \<times> u32"

definition rfc_round :: "byte list \<Rightarrow> nat \<Rightarrow> four \<Rightarrow> four" where
  "rfc_round m t = (\<lambda>(a, b, c, d).
     (d, b + word_rotl (rfc_s t) (a + rfc_f t b c d + load_le m (rfc_k t) + rfc_T ! t), b, c))"

definition rfc_compress :: "u32 list \<Rightarrow> byte list \<Rightarrow> u32 list" where
  "rfc_compress S m =
     (let (a, b, c, d) = fold (rfc_round m) [0..<64] (S ! 0, S ! 1, S ! 2, S ! 3)
      in [S ! 0 + a, S ! 1 + b, S ! 2 + c, S ! 3 + d])"

definition rfc_pad :: "byte list \<Rightarrow> byte list" where
  "rfc_pad m = m @ 0x80 # replicate ((119 - length m mod 64) mod 64) 0
     @ map (\<lambda>i. of_nat (8 * length m div 256 ^ i)) [0..<8]"

definition le_byte :: "u32 list \<Rightarrow> nat \<Rightarrow> byte" where
  "le_byte ws i = ucast (drop_bit (i mod 4 * 8) (ws ! (i div 4)) AND 255)"

definition rfc_md5 :: "byte list \<Rightarrow> byte list" where
  "rfc_md5 m = map (le_byte (absorb rfc_compress
     [0x67452301, 0xEFCDAB89, 0x98BADCFE, 0x10325476] (rfc_pad m))) [0..<16]"

section \<open>The compression function meets the reference\<close>

lemma ROTATE_LEFT_rotl: "0 < n \<Longrightarrow> n < 32 \<Longrightarrow> ROTATE_LEFT x n = word_rotl n x"
  using rol_rotl by (simp add: ROTATE_LEFT_def rol_def)

definition md5_role :: "nat \<Rightarrow> nat \<Rightarrow> mreg" where
  "md5_role t k = [Ma, Mb, Mc, Md] ! ((k + 3 * t) mod 4)"

definition md5_round_step :: "nat \<Rightarrow> md5_step" where
  "md5_round_step t =
     (if t < 16 then FF else if t < 32 then GG else if t < 48 then HH else II)
       (md5_role t 0) (md5_role t 1) (md5_role t 2) (md5_role t 3) (rfc_k t) (rfc_s t) (rfc_T ! t)"

lemma md5_rounds_steps: "md5_rounds = map md5_round_step [0..<64]"
  by (simp add: md5_rounds_def md5_round_step_def md5_role_def rfc_k_def rfc_s_def rfc_T_def upt_conv_Cons
      numeral_2_eq_2 [symmetric])

definition md5_view :: "nat \<Rightarrow> (mreg \<Rightarrow> u32) \<Rightarrow> four" where
  "md5_view t r = (r (md5_role t 0), r (md5_role t 1), r (md5_role t 2), r (md5_role t 3))"

lemma md5_role_mod: "md5_role (4 * q + t) k = md5_role t k"
proof -
  have "(k + 3 * (4 * q + t)) mod 4 = (k + 3 * t + 4 * (3 * q)) mod 4" by (simp add: algebra_simps)
  then show ?thesis by (simp only: md5_role_def mod_mult_self2)
qed

lemma md5_roles:
  "md5_role (Suc t) 0 = md5_role t 3" "md5_role (Suc t) 1 = md5_role t 0"
  "md5_role (Suc t) 2 = md5_role t 1" "md5_role (Suc t) 3 = md5_role t 2"
  "distinct [md5_role t 0, md5_role t 1, md5_role t 2, md5_role t 3]"
proof -
  have t: "md5_role t k = md5_role (t mod 4) k" "md5_role (Suc t) k = md5_role (Suc (t mod 4)) k" for k
    using md5_role_mod [of "t div 4" "t mod 4" k] md5_role_mod [of "t div 4" "Suc (t mod 4)" k] by simp_all
  have "t mod 4 < 4" by simp
  then consider "t mod 4 = 0" | "t mod 4 = 1" | "t mod 4 = 2" | "t mod 4 = 3" by linarith
  note c = this
  show "md5_role (Suc t) 0 = md5_role t 3" unfolding t using c by cases (simp_all only:, simp_all add: md5_role_def)
  show "md5_role (Suc t) 1 = md5_role t 0" unfolding t using c by cases (simp_all only:, simp_all add: md5_role_def)
  show "md5_role (Suc t) 2 = md5_role t 1" unfolding t using c by cases (simp_all only:, simp_all add: md5_role_def)
  show "md5_role (Suc t) 3 = md5_role t 2" unfolding t using c by cases (simp_all only:, simp_all add: md5_role_def)
  show "distinct [md5_role t 0, md5_role t 1, md5_role t 2, md5_role t 3]"
    unfolding t using c by cases (simp_all only:, simp_all add: md5_role_def)
qed

lemma rfc_index:
  assumes "t < 64"
  shows "0 < rfc_s t" "rfc_s t < 32" "rfc_k t < 16"
proof -
  have "\<forall>t \<in> set [0..<64]. 0 < rfc_s t \<and> rfc_s t < 32 \<and> rfc_k t < 16" by code_simp
  with assms show "0 < rfc_s t" "rfc_s t < 32" "rfc_k t < 16" by auto
qed

lemma md5_decode_word: "i < 16 \<Longrightarrow> HV_MD5Decode b 64 ! i = load_le b i"
  by (simp add: HV_MD5Decode_def load_le_def)

lemma md5_round_step_view:
  assumes "t < 64"
  shows "md5_view (Suc t) (md5_round_step t (HV_MD5Decode b 64) r) = rfc_round b t (md5_view t r)"
proof -
  have step: "md5_round_step t (HV_MD5Decode b 64) r =
      r(md5_role t 0 := r (md5_role t 1) + word_rotl (rfc_s t) (r (md5_role t 0)
          + rfc_f t (r (md5_role t 1)) (r (md5_role t 2)) (r (md5_role t 3)) + load_le b (rfc_k t) + rfc_T ! t))"
    using md5_roles(5) [of t] rfc_index [OF assms]
    by (auto simp: md5_round_step_def FF_def GG_def HH_def II_def Let_def rfc_f_def md5_F_def md5_G_def
        md5_H_def md5_I_def ROTATE_LEFT_rotl md5_decode_word algebra_simps)
  show ?thesis
    using md5_roles(5) [of t] unfolding step
    by (auto simp: md5_view_def md5_roles [unfolded One_nat_def] rfc_round_def)
qed

lemma md5_rounds_view:
  "n \<le> 64 \<Longrightarrow> md5_view n (fold (\<lambda>f. f (HV_MD5Decode b 64)) (map md5_round_step [0..<n]) r)
     = fold (rfc_round b) [0..<n] (md5_view 0 r)"
  by (induction n) (simp_all add: md5_round_step_view)

lemma md5_transform_rfc: "HV_MD5Transform state b = rfc_compress state b"
proof -
  define r where "r = (\<lambda>v. case v of Ma \<Rightarrow> state ! 0 | Mb \<Rightarrow> state ! 1 | Mc \<Rightarrow> state ! 2 | Md \<Rightarrow> state ! 3)"
  define r' where "r' = fold (\<lambda>f. f (HV_MD5Decode b 64)) (map md5_round_step [0..<64]) r"
  have "md5_view 64 r' = fold (rfc_round b) [0..<64] (md5_view 0 r)"
    unfolding r'_def by (rule md5_rounds_view) (rule order_refl)
  then have "fold (rfc_round b) [0..<64] (state ! 0, state ! 1, state ! 2, state ! 3)
      = (r' Ma, r' Mb, r' Mc, r' Md)"
    by (simp only: md5_view_def) (simp add: md5_role_def r_def)
  then show ?thesis
    unfolding HV_MD5Transform_def md5_rounds_steps Let_def rfc_compress_def r_def [symmetric]
      r'_def [symmetric] by simp
qed

section \<open>Feeding a context\<close>

abbreviation md5_iv :: "u32 list" where
  "md5_iv \<equiv> [0x67452301, 0xEFCDAB89, 0x98BADCFE, 0x10325476]"

definition md5_holds :: "md5_ctx \<Rightarrow> byte list \<Rightarrow> bool" where
  "md5_holds c m \<longleftrightarrow> holding rfc_compress md5_iv (md_state c) (md_count c) (md_buffer c) m"

definition md5_fresh :: "md5_ctx \<Rightarrow> bool" where
  "md5_fresh c \<longleftrightarrow> length (md_buffer c) = 64"

lemma md5_init_holds: "md5_fresh c \<Longrightarrow> md5_holds (HV_MD5Init c) []"
  by (simp add: md5_holds_def holding_def md5_fresh_def HV_MD5Init_def bits_lo_def bits_hi_def
      leftover_def)

lemma md5_count_holds:
  assumes "n < 2 ^ 32"
  shows "md5_count_add [bits_lo m, bits_hi m] (of_nat n) = [bits_lo (m + n), bits_hi (m + n)]"
  using bits_hi_add [OF assms, of m] bits_carry(2) [of m n]
  by (auto simp: md5_count_add_def Let_def push3 bits_lo_add split: if_splits)

interpretation md5_loop: block_loop rfc_compress "\<lambda>i len. i + 64 \<le> len" md5_blocks
proof
  show "md5_blocks st d i len = (if i + 64 \<le> len
      then Option.bind (bytes_at d (unat i) 64) (\<lambda>b. md5_blocks (rfc_compress st b) d (i + 64) len)
      else Some (st, i))" for st d i len
    by (subst md5_blocks.simps) (simp only: md5_transform_rfc)
next
  fix k n :: nat assume "k \<le> n" and "n + 64 < 2 ^ 32"
  then show "(of_nat k + 64 :: u32) \<le> of_nat n \<longleftrightarrow> k + 64 \<le> n"
    using of_nat_word_le_iff [of "k + 64" n, where 'a = 32] by auto
qed

lemma md5_partlen: "(64 :: u32) - of_nat (length m mod 64) = of_nat (64 - length m mod 64)"
  using of_nat_diff_u32 [of "length m mod 64" 64] by simp

lemma md5_update_short:
  assumes "md5_holds c m" and "n \<le> length d" and "length m mod 64 + n < 64"
  shows "\<exists>c'. HV_MD5Update c d (of_nat n) = Some c' \<and> md5_holds c' (m @ take n d)"
proof -
  let ?j = "length m mod 64"
  have c: "md_count c = [bits_lo (length m), bits_hi (length m)]"
    using assms(1) by (simp add: md5_holds_def holding_def)
  define k where "k = 64 - ?j"
  have "k \<le> 64" "n < k" using assms(3) by (simp_all add: k_def)
  then have test: "\<not> (of_nat k :: u32) \<le> of_nat n"
    using of_nat_word_le_iff [of k n, where 'a = 32] by simp
  have piece: "bytes_at d (unat (0 :: u32)) (unat ((of_nat n :: u32) - 0)) = Some (take n d)"
    using assms(2,3) by (simp add: bytes_at_def)
  obtain buf where buf: "store (md_buffer c) ?j (take n d) = Some buf"
    "holding rfc_compress md5_iv (md_state c) [bits_lo (length m + n), bits_hi (length m + n)] buf (m @ take n d)"
    using holding_short [OF assms(1) [unfolded md5_holds_def] assms(2,3)] by (elim exE conjE) (rule that)
  have "HV_MD5Update c d (of_nat n) =
      Some (c\<lparr>md_count := [bits_lo (length m + n), bits_hi (length m + n)], md_buffer := buf\<rparr>)"
    using test piece buf(1) assms(3) c md5_partlen [of m, folded k_def]
    by (simp add: HV_MD5Update_def Let_def bits_lo_index md5_count_holds)
  with buf(2) show ?thesis by (simp add: md5_holds_def)
qed

lemma md5_update_long:
  assumes "md5_holds c m" and "n \<le> length d" and "64 \<le> length m mod 64 + n" and "n + 64 < 2 ^ 32"
  shows "\<exists>c'. HV_MD5Update c d (of_nat n) = Some c' \<and> md5_holds c' (m @ take n d)"
proof -
  let ?j = "length m mod 64"
  define k where "k = 64 - ?j"
  define i where "i = k + 64 * ((n - k) div 64)"
  note long = holding_long [OF assms(1) [unfolded md5_holds_def] assms(2,3) k_def i_def]
  have c: "md_count c = [bits_lo (length m), bits_hi (length m)]"
    using assms(1) by (simp add: md5_holds_def holding_def)
  define y where "y = take (n - k) (drop k d)"
  define z where "z = take (n - i) (drop i d)"
  obtain b buf where st: "store (md_buffer c) ?j (take k d) = Some b" "store b 0 z = Some buf"
    "holding rfc_compress md5_iv (absorb rfc_compress (rfc_compress (md_state c) b) y)
       [bits_lo (length m + n), bits_hi (length m + n)] buf (m @ take n d)"
    using long(3) [folded y_def z_def] by (elim exE conjE) (rule that)
  have test: "(of_nat k :: u32) \<le> of_nat n"
    using of_nat_word_le_iff [of k n, where 'a = 32] long(1) assms(4) by simp
  have p1: "bytes_at d 0 (unat (of_nat k :: u32)) = Some (take k d)"
    using long(1) assms(2,4) by (simp add: bytes_at_def)
  have p2: "bytes_at d (unat (of_nat i :: u32)) (unat ((of_nat n :: u32) - of_nat i)) = Some z"
    unfolding z_def using assms(4) by (intro bytes_at_rest [OF long(2) assms(2)]) simp
  note bl = md5_loop.loop_absorb [OF long(1) assms(2,4), folded i_def y_def]
  let ?c = "c\<lparr>md_count := [bits_lo (length m + n), bits_hi (length m + n)],
    md_state := absorb rfc_compress (rfc_compress (md_state c) b) y, md_buffer := buf\<rparr>"
  have "HV_MD5Update c d (of_nat n) = Some ?c"
    using test p1 st(1,2) bl p2 assms(4) c md5_partlen [of m, folded k_def]
    by (simp add: HV_MD5Update_def Let_def bits_lo_index md5_count_holds md5_transform_rfc)
  with st(3) show ?thesis by (simp add: md5_holds_def)
qed

lemma md5_update_holds:
  assumes "md5_holds c m" and "n \<le> length d" and "n + 64 < 2 ^ 32"
  shows "\<exists>c'. HV_MD5Update c d (of_nat n) = Some c' \<and> md5_holds c' (m @ take n d)"
  using md5_update_short [OF assms(1,2)] md5_update_long [OF assms(1,2) _ assms(3)]
  by (cases "length m mod 64 + n < 64") simp_all

interpretation md5_stream: streaming_hash md5_fresh HV_MD5Init HV_MD5Update md5_holds
  using md5_init_holds md5_update_holds by unfold_locales

section \<open>The padding and the digest\<close>

lemma four_bytes:
  "map (le_byte ws) [4 * n, 4 * n + 1, 4 * n + 2, 4 * n + 3] =
    [ucast (ws ! n AND 0xFF), ucast (drop_bit 8 (ws ! n) AND 0xFF),
     ucast (drop_bit 16 (ws ! n) AND 0xFF), ucast (drop_bit 24 (ws ! n) AND 0xFF)]"
proof -
  have m: "(4 * n) mod 4 = 0" "(4 * n + 1) mod 4 = 1" "(4 * n + 2) mod 4 = 2" "(4 * n + 3) mod 4 = 3"
    "(4 * n) div 4 = n" "(4 * n + 1) div 4 = n" "(4 * n + 2) div 4 = n" "(4 * n + 3) div 4 = n"
    by (simp_all only: mod_mult_self4 mod_mult_self1_is_0 div_mult_self4 nonzero_mult_div_cancel_left) simp_all
  show ?thesis unfolding le_byte_def list.map m by simp
qed

lemma md5_encode_bytes: "HV_MD5Encode ws (4 * n) = map (le_byte ws) [0..<4 * n]"
proof (induction n)
  case (Suc n)
  have u: "[0..<4 * Suc n] = [0..<4 * n] @ [4 * n, 4 * n + 1, 4 * n + 2, 4 * n + 3]"
  proof -
    have "4 * Suc n = Suc (Suc (Suc (Suc (4 * n))))" by simp
    then show ?thesis by (simp only: upt_Suc_append le0 append.assoc append.simps) simp
  qed
  have d: "(4 * Suc n + 3) div 4 = Suc n" "(4 * n + 3) div 4 = n" by simp_all
  show ?case
    using Suc.IH unfolding u map_append four_bytes
    by (simp only: HV_MD5Encode_def d upt_Suc_append le0 map_append concat_append list.map concat.simps append_Nil2)
qed (simp add: HV_MD5Encode_def)

lemma md5_bits:
  "map (le_byte [bits_lo n, bits_hi n]) [0..<8] = map (\<lambda>i. of_nat (8 * n div 256 ^ i)) [0..<8]"
proof (rule map_cong [OF refl])
  fix i assume "i \<in> set [0..<8]"
  then have i: "i < 8" by simp
  show "le_byte [bits_lo n, bits_hi n] i = of_nat (8 * n div 256 ^ i)"
  proof (cases "i < 4")
    case True
    with word_byte [of i "8 * n"] show ?thesis
      by (simp only: le_byte_def bits_lo_def) simp
  next
    case False
    have e: "i div 4 = 1" "i mod 4 = i - 4" using False i by (simp_all add: mod_if div_if)
    have "2 ^ 32 * 256 ^ (i - 4) = (256 :: nat) ^ i"
    proof -
      have "(256 :: nat) ^ (4 + (i - 4)) = 256 ^ 4 * 256 ^ (i - 4)" by (rule power_add)
      with False show ?thesis by simp
    qed
    with word_byte [of "i - 4" "8 * n div 2 ^ 32"] i show ?thesis
      by (simp only: le_byte_def e bits_hi_def div_mult2_eq [symmetric]) simp
  qed
qed

lemma md5_padlen:
  fixes j :: nat
  assumes "j < 64"
  defines "p \<equiv> (if j < 56 then 56 - j else 120 - j)"
  shows "(if (of_nat j :: u32) < 56 then 56 - of_nat j else 120 - of_nat j) = (of_nat p :: u32)"
    and "p \<le> 64" and "take p PADDING = 0x80 # replicate ((119 - j) mod 64) 0"
proof -
  show "p \<le> 64" using assms by (auto simp: p_def)
  show "(if (of_nat j :: u32) < 56 then 56 - of_nat j else 120 - of_nat j) = (of_nat p :: u32)"
    using of_nat_word_less_iff [of j 56, where 'a = 32] of_nat_diff_u32 [of j 56] of_nat_diff_u32 [of j 120] assms
    by simp
  have "p = Suc ((119 - j) mod 64)"
    using assms by (auto simp: mod_if [of "119 - j"])
  then show "take p PADDING = 0x80 # replicate ((119 - j) mod 64) 0"
    using mod_less_divisor [of 64 "119 - j"] by (simp add: PADDING_def min_def)
qed

lemma md5_final_digest:
  assumes "md5_holds c m"
  shows "map_option fst (HV_MD5Final c) = Some (rfc_md5 m)"
proof -
  let ?j = "length m mod 64"
  let ?p = "if ?j < 56 then 56 - ?j else 120 - ?j"
  let ?fin = "map (\<lambda>i. of_nat (8 * length m div 256 ^ i)) [0..<8] :: byte list"
  have c: "md_count c = [bits_lo (length m), bits_hi (length m)]"
    using assms by (simp add: md5_holds_def holding_def)
  have bits: "HV_MD5Encode (md_count c) 8 = ?fin"
    using md5_encode_bytes [of "md_count c" 2] md5_bits [of "length m"] by (simp add: c)
  note p = md5_padlen [of ?j]
  obtain c1 where c1: "HV_MD5Update c PADDING (of_nat ?p) = Some c1" "md5_holds c1 (m @ take ?p PADDING)"
    using md5_update_holds [OF assms, of ?p PADDING] p(2) by (auto simp: PADDING_def)
  obtain c2 where c2: "HV_MD5Update c1 ?fin 8 = Some c2" "md5_holds c2 (rfc_pad m)"
    using md5_update_holds [OF c1(2), of 8 ?fin] p(3) by (auto simp: rfc_pad_def simp del: upt_rec_numeral)
  have st: "md_state c2 = absorb rfc_compress md5_iv (rfc_pad m)"
    using c2(2) by (simp add: md5_holds_def holding_def)
  have idx: "drop_bit 3 (md_count c ! 0) AND 0x3F = (of_nat ?j :: u32)" by (simp add: c bits_lo_index)
  have "HV_MD5Final c = Some (HV_MD5Encode (md_state c2) 16, c2)"
    using p(1) unfolding HV_MD5Final_def Let_def idx bits by (simp add: c1(1) c2(1))
  then show ?thesis
    using md5_encode_bytes [of "md_state c2" 4] by (simp add: st rfc_md5_def)
qed

interpretation md5: finished_hash md5_fresh HV_MD5Init HV_MD5Update md5_holds
  "\<lambda>c. map_option fst (HV_MD5Final c)" rfc_md5
  by unfold_locales (simp add: md5_final_digest)

section \<open>Results\<close>

text \<open>C21. A message fed to \<open>HV_MD5Update\<close> in any pieces, each of at most 2^32 - 65 bytes, gives the MD5
  digest of the whole message as the tables and rounds of RFC 1321 define it; \<open>hv_md5\<close> and
  \<open>hv_md5_hex\<close> are that digest of their input.\<close>

theorem md5_pieces_rfc:
  assumes "length (md_buffer ctx) = 64" and "\<forall>d \<in> set ds. length d + 64 < 2 ^ 32"
  shows "map_option fst (Option.bind (feed HV_MD5Update (HV_MD5Init ctx) ds) HV_MD5Final)
      = Some (rfc_md5 (concat ds))
    \<and> (\<forall>d \<in> set ds. hv_md5 ctx d (of_nat (length d)) = Some (rfc_md5 d)
        \<and> hv_md5_hex ctx d (of_nat (length d)) 33 = Some (hex_digits (rfc_md5 d) @ [0]))"
proof -
  have f: "md5_fresh ctx" using assms(1) by (simp add: md5_fresh_def)
  have "map_option fst (Option.bind (feed HV_MD5Update (HV_MD5Init ctx) ds) HV_MD5Final)
      = Some (rfc_md5 (concat ds))"
    using md5.pieces_digest [OF f assms(2)] by (simp split: bind_splits)
  moreover have one: "hv_md5 ctx d (of_nat (length d)) = Some (rfc_md5 d)" if "d \<in> set ds" for d
    using md5.whole_digest [OF f, of d] assms(2) that by (simp add: hv_md5_def split: bind_splits)
  ultimately show ?thesis by (simp add: hv_md5_hex_def)
qed

abbreviation md5_ctx0 :: md5_ctx where
  "md5_ctx0 \<equiv> \<lparr>md_count = [], md_state = [], md_buffer = replicate 64 0xAA\<rparr>"

theorem md5_pieces_rfc_witness:
  "map_option fst (Option.bind (feed HV_MD5Update (HV_MD5Init md5_ctx0) [[0x61], [0x62, 0x63]]) HV_MD5Final)
      = Some (rfc_md5 [0x61, 0x62, 0x63])
    \<and> hv_md5 md5_ctx0 [0x62, 0x63] 2 = Some (rfc_md5 [0x62, 0x63])
    \<and> hv_md5_hex md5_ctx0 [0x61] 1 33 = Some (hex_digits (rfc_md5 [0x61]) @ [0])"
  using md5_pieces_rfc [of md5_ctx0 "[[0x61], [0x62, 0x63]]"] by simp

text \<open>With \<open>i + 64 \<le> inputlen\<close> in 32 bits, an input that ends within 64 bytes of the largest size
  makes the loop run on: a piece of 2^32 - 64 bytes for an empty context is read past its end.\<close>

lemma md5_loop_passes:
  assumes "k \<le> n" and "n = 2 ^ 32 - 64" and "n = length d" and "64 dvd n - k"
  shows "md5_blocks st d (of_nat k) (of_nat n) = None"
  using assms(1,4)
proof (induction "n - k" arbitrary: k st rule: less_induct)
  case less
  show ?case
  proof (cases "k = n")
    case True
    have "(of_nat n + 64 :: u32) = of_nat (n + 64)" by simp
    also have "\<dots> = of_nat (2 ^ 32)" using assms(2) by simp
    also have "\<dots> = (0 :: u32)" by simp
    finally have more: "(of_nat k + 64 :: u32) \<le> of_nat n" using True by simp
    have u: "unat (of_nat k :: u32) = n" using True assms(2) by simp
    show ?thesis
      using more assms(3) by (subst md5_blocks.simps) (simp add: u bytes_at_def)
  next
    case False
    with less.prems have "64 \<le> n - k" by (intro dvd_imp_le) auto
    with less.prems(1) have k: "k + 64 \<le> n" by linarith
    have more: "(of_nat k + 64 :: u32) \<le> of_nat n"
      using of_nat_word_le_iff [of "k + 64" n, where 'a = 32] k assms(2) by simp
    have b: "bytes_at d (unat (of_nat k :: u32)) 64 = Some (take 64 (drop k d))"
      using k assms(2,3) by (simp add: bytes_at_def)
    have "64 dvd n - (k + 64)" using less.prems(2) by (metis diff_diff_left dvd_diff_nat dvd_refl)
    then have "md5_blocks st' d (of_nat (k + 64)) (of_nat n) = None" for st'
      using less.hyps [of "k + 64" st'] k by simp
    then show ?thesis
      using more b by (subst md5_blocks.simps) simp
  qed
qed

theorem md5_update_overreads:
  assumes "length (md_buffer ctx) = 64" and "length d = 2 ^ 32 - 64"
  shows "HV_MD5Update (HV_MD5Init ctx) d (of_nat (length d)) = None"
proof -
  let ?n = "length d"
  have "64 dvd ?n - 64" using assms(2) by simp
  then have l: "md5_blocks st d 64 (of_nat ?n) = None" for st
    using md5_loop_passes [of 64 ?n d st] assms(2) by simp
  have t: "(64 :: u32) \<le> of_nat ?n" using of_nat_word_le_iff [of 64 ?n, where 'a = 32] assms(2) by simp
  have b: "bytes_at d 0 64 = Some (take 64 d)" using assms(2) by (simp add: bytes_at_def)
  have s: "store (md_buffer ctx) 0 (take 64 d) = Some (take 64 d)"
    using assms by (simp add: store_def)
  show ?thesis
    using l t b s by (simp add: HV_MD5Update_def HV_MD5Init_def Let_def)
qed

end
