(* ===== verification/Ws_Def.thy ===== *)
theory Ws_Def
  imports Sha1 Base64 Websocket
begin

text \<open>
  \<open>src/libs/libhv/http/wsdef.c\<close> and \<open>wsdef.h\<close>: the answer to a web socket handshake, the size of a
  frame, and the frames that client and server send. The functions compose the digest
  (\<open>Sha1\<close>), the encoding (\<open>Base64\<close>) and the frame builder (\<open>Websocket\<close>). A result of \<open>int\<close> arithmetic
  that does not fit into 32 bits is \<open>None\<close>.
\<close>

unbundle bit_operations_syntax

section \<open>The handshake\<close>

definition ws_magic :: "byte list" where
  "ws_magic = map of_char ''258EAFA5-E914-47DA-95CA-C5AB0DC85B11''"

text \<open>\<open>key\<close> are the characters before the terminating zero; \<open>ctx\<close> the uninitialised context on the
  stack. The result is what is written to \<open>accept\<close>.\<close>

definition ws_encode_key :: "sha1_ctx \<Rightarrow> byte list \<Rightarrow> byte list option" where
  "ws_encode_key ctx key = do {
     ctx \<leftarrow> HV_SHA1Update (HV_SHA1Init ctx) key (of_nat (length key));
     ctx \<leftarrow> HV_SHA1Update ctx ws_magic (of_nat (length ws_magic));
     (digest, _) \<leftarrow> HV_SHA1Final ctx;
     hv_base64_encode digest
   }"

section \<open>Frames\<close>

definition fits_int :: "int \<Rightarrow> int option" where
  "fits_int n = (if - (2 ^ 31) \<le> n \<and> n < 2 ^ 31 then Some n else None)"

definition ws_calc_frame_size :: "int \<Rightarrow> bool \<Rightarrow> int option" where
  "ws_calc_frame_size data_len masked = do {
     sz \<leftarrow> fits_int (data_len + 2);
     sz \<leftarrow> (if data_len \<ge> 126 then
             if data_len > 0xFFFF then fits_int (sz + 8) else fits_int (sz + 2)
           else Some sz);
     (if masked then fits_int (sz + 4) else Some sz)
   }"

datatype ws_opcode = WS_OPCODE_CONTINUE | WS_OPCODE_TEXT | WS_OPCODE_BINARY
  | WS_OPCODE_CLOSE | WS_OPCODE_PING | WS_OPCODE_PONG

fun opcode_value :: "ws_opcode \<Rightarrow> u32" where
  "opcode_value WS_OPCODE_CONTINUE = 0x0"
| "opcode_value WS_OPCODE_TEXT = 0x1"
| "opcode_value WS_OPCODE_BINARY = 0x2"
| "opcode_value WS_OPCODE_CLOSE = 0x8"
| "opcode_value WS_OPCODE_PING = 0x9"
| "opcode_value WS_OPCODE_PONG = 0xA"

definition ws_flags_of :: "ws_opcode \<Rightarrow> bool \<Rightarrow> bool \<Rightarrow> u32" where
  "ws_flags_of opcode fin masked =
     (let flags = opcode_value opcode;
          flags = (if fin then flags OR WS_FIN else flags)
      in if masked then flags OR WS_HAS_MASK else flags)"

definition ws_build_frame ::
  "byte list \<Rightarrow> byte list \<Rightarrow> byte list \<Rightarrow> bool \<Rightarrow> ws_opcode \<Rightarrow> bool \<Rightarrow> (byte list \<times> size_t) option" where
  "ws_build_frame out dat msk masked opcode fin =
     websocket_build_frame out (ws_flags_of opcode fin masked) (Some msk) dat"

text \<open>\<open>imask\<close> is the answer of \<open>rand\<close>.\<close>

definition ws_client_build_frame ::
  "int \<Rightarrow> byte list \<Rightarrow> byte list \<Rightarrow> ws_opcode \<Rightarrow> bool \<Rightarrow> (byte list \<times> size_t) option" where
  "ws_client_build_frame imask out dat opcode fin =
     ws_build_frame out dat (map (\<lambda>i. of_int (drop_bit (8 * i) imask AND 0xff)) [0..<4]) True opcode fin"

definition ws_server_build_frame ::
  "byte list \<Rightarrow> byte list \<Rightarrow> ws_opcode \<Rightarrow> bool \<Rightarrow> (byte list \<times> size_t) option" where
  "ws_server_build_frame out dat opcode fin = ws_build_frame out dat [0, 0, 0, 0] False opcode fin"

section \<open>Lemmas\<close>

lemma fips_sha1_length: "length (fips_sha1 m) = 20"
  by (simp add: fips_sha1_def)

lemma ws_magic_length: "length ws_magic = 36"
  by (simp add: ws_magic_def)

lemma ws_flags_bits:
  "ws_flags_of opcode fin masked AND 0x3F = ws_flags_of opcode fin masked"
  by (cases opcode; cases fin; cases masked) (simp_all add: ws_flags_of_def ws_bits)

lemma ws_flags_mask: "ws_flags_of opcode fin masked AND WS_HAS_MASK \<noteq> 0 \<longleftrightarrow> masked"
  by (cases opcode; cases fin; cases masked) (simp_all add: ws_flags_of_def ws_bits)

text \<open>The size in \<open>int\<close> is the size in \<open>size_t\<close>.\<close>

lemma ws_calc_frame_size_eq:
  assumes "int n + 14 < 2 ^ 31"
  shows "ws_calc_frame_size (int n) masked =
    Some (uint (websocket_calc_frame_size (ws_flags_of opcode fin masked) (of_nat n)))"
proof -
  define k :: nat where "k = (if 126 \<le> n then (if 65535 < n then 8 else 2) else 0) + (if masked then 4 else 0)"
  have k: "k \<le> 12" by (simp add: k_def)
  have n: "n < 2147483634" using assms by simp
  have t: "(126 :: size_t) \<le> of_nat n \<longleftrightarrow> 126 \<le> n" "(0xFFFF :: size_t) < of_nat n \<longleftrightarrow> 65535 < n"
    using of_nat_word_le_iff [of 126 n, where 'a = 64] of_nat_word_less_iff [of 65535 n, where 'a = 64] n
    by simp_all
  have "websocket_calc_frame_size (ws_flags_of opcode fin masked) (of_nat n) = of_nat (n + 2 + k)"
    unfolding websocket_calc_frame_size_def ws_flags_mask Let_def t k_def by simp
  moreover have "unat (of_nat (n + 2 + k) :: size_t) = n + 2 + k"
    using n k by (intro unat_of_nat_small) simp
  then have "uint (of_nat (n + 2 + k) :: size_t) = int (n + 2 + k)" by (simp only: uint_nat)
  moreover have "ws_calc_frame_size (int n) masked = Some (int (n + 2 + k))"
  proof -
    have "fits_int (int n + j) = Some (int n + j)" if "0 \<le> j" "j \<le> 14" for j
      using that n by (simp add: fits_int_def)
    then show ?thesis by (simp add: ws_calc_frame_size_def k_def add.assoc)
  qed
  ultimately show ?thesis by simp
qed

lemma ws_build_frame_bytes:
  assumes "length msk = 4" and "int (length dat) + 14 < 2 ^ 31"
    and "ws_calc_frame_size (int (length dat)) masked = Some (int (length out))"
  shows "ws_build_frame out dat msk masked opcode fin =
    Some (frame_bytes (ws_flags_of opcode fin masked) msk dat, of_nat (length out))"
proof -
  let ?f = "ws_flags_of opcode fin masked"
  have d: "length dat < 2 ^ 63" using assms(2) by simp
  have "length out = length (frame_bytes ?f msk dat)"
    using calc_frame_size_bytes [OF assms(1) d, of ?f] ws_calc_frame_size_eq [OF assms(2), of masked opcode fin]
      assms(3) by (simp add: uint_nat)
  then show ?thesis
    using build_frame_bytes [OF assms(1), of ?f dat out] by (simp add: ws_build_frame_def)
qed

section \<open>Results\<close>

text \<open>C22. The answer to a handshake key is the one RFC 6455 prescribes: the base64 text of the SHA-1
  digest of the key followed by the fixed identifier, 28 characters.\<close>

theorem ws_accept_rfc6455:
  assumes "length (sha_buffer ctx) = 64" and "length key + 64 < 2 ^ 32"
  shows "ws_encode_key ctx key = Some (rfc4648 (fips_sha1 (key @ ws_magic)))
    \<and> length (rfc4648 (fips_sha1 (key @ ws_magic))) = 28"
proof -
  have "sha1_holds (HV_SHA1Init ctx) []"
    using assms(1) by (simp add: sha1_init_holds sha1_fresh_def)
  then obtain c1 where c1: "HV_SHA1Update (HV_SHA1Init ctx) key (of_nat (length key)) = Some c1" "sha1_holds c1 key"
    using sha1_update_holds [of _ "[]" "length key" key] assms(2) by fastforce
  obtain c2 where c2: "HV_SHA1Update c1 ws_magic (of_nat (length ws_magic)) = Some c2" "sha1_holds c2 (key @ ws_magic)"
    using sha1_update_holds [OF c1(2), of "length ws_magic" ws_magic] by (auto simp: ws_magic_length)
  let ?d = "fips_sha1 (key @ ws_magic)"
  have "?d \<noteq> []" using fips_sha1_length [of "key @ ws_magic"] by force
  then have "hv_base64_encode ?d = Some (rfc4648 ?d)"
    using encode_rfc [of ?d] by (simp add: fips_sha1_length)
  then show ?thesis
    using c1(1) c2 sha1_final_digest [OF c2(2)] by (simp add: ws_encode_key_def rfc4648_length fips_sha1_length)
qed

theorem ws_accept_rfc6455_witness:
  "ws_encode_key sha1_ctx0 (map of_char ''dGhlIHNhbXBsZSBub25jZQ=='')
     = Some (rfc4648 (fips_sha1 (map of_char ''dGhlIHNhbXBsZSBub25jZQ=='' @ ws_magic)))"
  using ws_accept_rfc6455 [of sha1_ctx0 "map of_char ''dGhlIHNhbXBsZSBub25jZQ==''"] by simp

text \<open>What one side sends the other side receives: frames built by \<open>ws_build_frame\<close> into buffers of
  \<open>ws_calc_frame_size\<close> bytes, masked or not, and received in any chunks are reported with their
  opcode, their final bit and their payload.\<close>

theorem ws_frames_received:
  assumes "\<forall>(out, dat, msk, hm, opc, fin) \<in> set fs. length msk = 4 \<and> int (length dat) + 14 < 2 ^ 31
      \<and> ws_calc_frame_size (int (length dat)) hm = Some (int (length out))"
    and "concat (map snd cs) =
      concat (map (\<lambda>(out, dat, msk, hm, opc, fin). fst (the (ws_build_frame out dat msk hm opc fin))) fs)"
    and "\<forall>(a, c) \<in> set cs. unat a + length c \<le> 2 ^ 63"
  shows "\<exists>P. ws_feed cs websocket_parser_init [] =
      Some (P, concat (map (\<lambda>(out, dat, msk, hm, opc, fin).
        EHeader (ws_flags_of opc fin hm) (of_nat (length dat)) # map EByte dat @ [EEnd]) fs))
    \<and> ws_state P = s_start"
proof -
  let ?g = "\<lambda>(out, dat, msk, hm, opc, fin). (ws_flags_of opc fin hm, msk, dat)"
  have "\<forall>(fl, m, dat) \<in> set (map ?g fs). length m = 4 \<and> length dat < 2 ^ 63" using assms(1) by fastforce
  moreover have "concat (map snd cs) = concat (map (\<lambda>(fl, m, dat). frame_bytes fl m dat) (map ?g fs))"
    unfolding assms(2) map_map
    using assms(1) by (intro arg_cong [of _ _ concat] map_cong) (auto simp: ws_build_frame_bytes)
  ultimately obtain P where "ws_feed cs websocket_parser_init []
      = Some (P, concat (map (\<lambda>(fl, m, dat). frame_events fl dat) (map ?g fs)))" "ws_state P = s_start"
    using ws_feed_frames [OF _ _ assms(3)] by blast
  then show ?thesis
    by (simp add: frame_events_def ws_flags_bits comp_def split_def)
qed

text \<open>A masked frame into a buffer of seven bytes.\<close>

definition hello_frame :: "byte list \<times> byte list \<times> byte list \<times> bool \<times> ws_opcode \<times> bool" where
  "hello_frame = (replicate 7 0, [72], [1, 2, 3, 4], True, WS_OPCODE_TEXT, True)"

lemma hello_frame_built:
  "ws_build_frame (replicate 7 0) [72] [1, 2, 3, 4] True WS_OPCODE_TEXT True = Some ([0x81, 0x81, 1, 2, 3, 4, 73], 7)"
  by code_simp

theorem ws_frames_received_witness:
  "\<exists>P. ws_feed [(4096, [0x81]), (8192, [0x81, 1, 2, 3, 4, 73])] websocket_parser_init []
      = Some (P, [EHeader 0x31 1, EByte 72, EEnd]) \<and> ws_state P = s_start"
  using ws_frames_received [of "[hello_frame]" "[(4096, [0x81]), (8192, [0x81, 1, 2, 3, 4, 73])]"]
  by (simp add: hello_frame_def hello_frame_built ws_calc_frame_size_def fits_int_def ws_flags_of_def ws_bits)

text \<open>The frames of client and server are such frames; a client masks with four bytes of \<open>rand\<close>.\<close>

lemma ws_client_server_frames:
  assumes "int (length dat) + 14 < 2 ^ 31"
    and "ws_calc_frame_size (int (length dat)) True = Some (int (length cout))"
    and "ws_calc_frame_size (int (length dat)) False = Some (int (length sout))"
  shows "map_option snd (ws_client_build_frame imask cout dat opc fin) = Some (of_nat (length cout))
    \<and> map_option snd (ws_server_build_frame sout dat opc fin) = Some (of_nat (length sout))"
  using assms by (simp add: ws_client_build_frame_def ws_server_build_frame_def ws_build_frame_bytes)

text \<open>The size of a frame overflows \<open>int\<close> for data that almost fills it.\<close>

lemma ws_calc_frame_size_overflows:
  "2 ^ 31 - 14 \<le> n \<Longrightarrow> ws_calc_frame_size n True = None"
  by (auto simp: ws_calc_frame_size_def fits_int_def)

end
