(* ===== verification/Dns.thy ===== *)
theory Dns
  imports Prelude "HOL-Library.Monad_Syntax"
begin

text \<open>
  \<open>src/libs/libhv/protocol/dns.c\<close> and \<open>dns.h\<close>: names, resource records, messages, a query over a
  datagram socket and the lookup of addresses. Buffers are byte lists of the size they have;
  a read or write outside one, and a read through a pointer into a buffer that is gone, is
  \<open>None\<close>. A C string is the list of its characters before the terminating zero.
\<close>

unbundle bit_operations_syntax

section \<open>Names\<close>

definition DNS_NAME_MAXLEN :: nat where
  "DNS_NAME_MAXLEN = 256"

abbreviation dot :: byte where
  "dot \<equiv> 46"

text \<open>The loop of \<open>dns_name_encode\<close>: \<open>plen\<close> and \<open>pos\<close> are indices into \<open>mem\<close> for \<open>plen\<close> and \<open>buf\<close>.\<close>

fun name_encode_loop ::
  "byte list \<Rightarrow> byte list \<Rightarrow> nat \<Rightarrow> nat \<Rightarrow> nat \<Rightarrow> nat \<Rightarrow> (byte list \<times> nat \<times> nat \<times> nat \<times> nat) option" where
  "name_encode_loop [] mem plen pos len buflen = Some (mem, plen, pos, len, buflen)"
| "name_encode_loop (ch # p) mem plen pos len buflen =
     (if ch \<noteq> dot
      then Option.bind (store mem pos [ch]) (\<lambda>mem.
             name_encode_loop p mem plen (pos + 1) (len + 1) (buflen + 1))
      else Option.bind (store mem plen [of_nat len]) (\<lambda>mem.
             name_encode_loop p mem pos (pos + 1) 0 (buflen + 1)))"

definition dns_name_encode :: "byte list \<Rightarrow> byte list \<Rightarrow> (nat \<times> byte list) option" where
  "dns_name_encode domain mem = do {
     (mem, plen, pos, len, buflen) \<leftarrow> name_encode_loop domain mem 0 1 0 1;
     mem \<leftarrow> store mem plen [of_nat len];
     mem \<leftarrow> store mem pos [0];
     Some (if len \<noteq> 0 then buflen + 1 else buflen, mem)
   }"

text \<open>The loop of \<open>dns_name_decode\<close> over the bytes from \<open>p\<close> on; \<open>char\<close> is signed, and \<open>cap\<close> is the size of
  the array \<open>domain\<close> points to.\<close>

fun name_decode_loop :: "nat \<Rightarrow> byte list \<Rightarrow> int \<Rightarrow> byte list \<Rightarrow> nat \<Rightarrow> (nat \<times> byte list) option" where
  "name_decode_loop cap [] len domain buflen = None"
| "name_decode_loop cap (b # p) len domain buflen =
     (if length domain \<ge> cap then None
      else if b = 0 then Some (buflen + 1, domain)
      else if len = 0 then name_decode_loop cap p (sint b) (domain @ [dot]) (buflen + 1)
      else name_decode_loop cap p (len - 1) (domain @ [b]) (buflen + 1))"

definition dns_name_decode :: "nat \<Rightarrow> byte list \<Rightarrow> (nat \<times> byte list) option" where
  "dns_name_decode cap buf =
     (case buf of [] \<Rightarrow> None | b # p \<Rightarrow> name_decode_loop cap p (sint b) [] 1)"

section \<open>Resource records\<close>

record dns_rr =
  rr_name :: "byte list"
  rtype :: u16
  rclass :: u16
  ttl :: u32
  datalen :: u16
  rr_data :: "byte list option"

text \<open>\<open>htons\<close>, \<open>htonl\<close> and the way back, as the bytes in memory.\<close>

definition htons_bytes :: "u16 \<Rightarrow> byte list" where
  "htons_bytes x = [ucast (drop_bit 8 x), ucast x]"

definition htonl_bytes :: "u32 \<Rightarrow> byte list" where
  "htonl_bytes x = [ucast (drop_bit 24 x), ucast (drop_bit 16 x), ucast (drop_bit 8 x), ucast x]"

definition ntohs_bytes :: "byte list \<Rightarrow> u16" where
  "ntohs_bytes b = push_bit 8 (ucast (b ! 0)) OR ucast (b ! 1)"

definition ntohl_bytes :: "byte list \<Rightarrow> u32" where
  "ntohl_bytes b = push_bit 24 (ucast (b ! 0)) OR push_bit 16 (ucast (b ! 1))
     OR push_bit 8 (ucast (b ! 2)) OR ucast (b ! 3)"

text \<open>\<open>scratch\<close> are the contents of the uninitialised array \<open>encoded_name\<close>, \<open>off\<close> the offset of \<open>buf\<close> in
  the message \<open>mem\<close>.\<close>

definition dns_rr_pack :: "byte list \<Rightarrow> dns_rr \<Rightarrow> byte list \<Rightarrow> nat \<Rightarrow> int \<Rightarrow> (int \<times> byte list) option" where
  "dns_rr_pack scratch rr mem off len = do {
     (n, enc) \<leftarrow> dns_name_encode (rr_name rr) scratch;
     let packetlen = int n + 2 + 2 + (if rr_data rr \<noteq> None then 4 + 2 + uint (datalen rr) else 0);
     (if len < packetlen then Some (-1, mem)
      else do {
        name \<leftarrow> bytes_at enc 0 n;
        mem \<leftarrow> store mem off name;
        mem \<leftarrow> store mem (off + n) (htons_bytes (rtype rr));
        mem \<leftarrow> store mem (off + n + 2) (htons_bytes (rclass rr));
        (case rr_data rr of
           None \<Rightarrow> Some (packetlen, mem)
         | Some d \<Rightarrow>
             if datalen rr = 0 then Some (packetlen, mem)
             else do {
               mem \<leftarrow> store mem (off + n + 4) (htonl_bytes (ttl rr));
               mem \<leftarrow> store mem (off + n + 8) (htons_bytes (datalen rr));
               d \<leftarrow> bytes_at d 0 (unat (datalen rr));
               mem \<leftarrow> store mem (off + n + 10) d;
               Some (packetlen, mem)
             })
      })
   }"

text \<open>The record is passed in and comes back changed, also when \<open>-1\<close> is returned.\<close>

definition dns_rr_unpack :: "byte list \<Rightarrow> nat \<Rightarrow> int \<Rightarrow> dns_rr \<Rightarrow> bool \<Rightarrow> (int \<times> dns_rr) option" where
  "dns_rr_unpack buf off len rr is_question = do {
     first \<leftarrow> bytes_at buf off 1;
     (n, rr) \<leftarrow> (if hd first \<ge> 192 then Some (2, rr)
                else do {
                  (n, name) \<leftarrow> dns_name_decode DNS_NAME_MAXLEN (drop off buf);
                  Some (n, rr\<lparr>rr_name := name\<rparr>)
                });
     (if len < int n + 4 then Some (-1, rr)
      else do {
        t \<leftarrow> bytes_at buf (off + n) 2;
        c \<leftarrow> bytes_at buf (off + n + 2) 2;
        let rr = rr\<lparr>rtype := ntohs_bytes t, rclass := ntohs_bytes c\<rparr>;
        (if is_question then Some (int n + 4, rr)
         else if len < int n + 10 then Some (-1, rr)
         else do {
           l \<leftarrow> bytes_at buf (off + n + 4) 4;
           dl \<leftarrow> bytes_at buf (off + n + 8) 2;
           let rr = rr\<lparr>ttl := ntohl_bytes l, datalen := ntohs_bytes dl\<rparr>;
           (if len < int n + 10 + uint (datalen rr) then Some (-1, rr)
            else do {
              d \<leftarrow> bytes_at buf (off + n + 10) (unat (datalen rr));
              Some (int n + 10 + uint (datalen rr), rr\<lparr>rr_data := Some d\<rparr>)
            })
         })
      })
   }"

section \<open>Messages\<close>

record dnshdr =
  transaction_id :: u16
  rd :: bool
  tc :: bool
  aa :: bool
  opcode :: "4 word"
  qr :: bool
  rcode :: "4 word"
  cd :: bool
  ad :: bool
  res :: bool
  ra :: bool
  nquestion :: u16
  nanswer :: u16
  nauthority :: u16
  naddtional :: u16

record dns =
  hdr :: dnshdr
  questions :: "dns_rr list"
  answers :: "dns_rr list"
  authorities :: "dns_rr list"
  addtionals :: "dns_rr list"

text \<open>The bytes of the header with the bit fields as little-endian compilers lay them out.\<close>

definition flag_bit :: "bool \<Rightarrow> nat \<Rightarrow> byte" where
  "flag_bit b n = (if b then push_bit n 1 else 0)"

definition hdr_bytes :: "dnshdr \<Rightarrow> byte list" where
  "hdr_bytes h =
     htons_bytes (transaction_id h) @
     [flag_bit (rd h) 0 OR flag_bit (tc h) 1 OR flag_bit (aa h) 2 OR push_bit 3 (ucast (opcode h)) OR flag_bit (qr h) 7,
      ucast (rcode h) OR flag_bit (cd h) 4 OR flag_bit (ad h) 5 OR flag_bit (res h) 6 OR flag_bit (ra h) 7] @
     htons_bytes (nquestion h) @ htons_bytes (nanswer h) @ htons_bytes (nauthority h) @ htons_bytes (naddtional h)"

definition bytes_hdr :: "byte list \<Rightarrow> dnshdr" where
  "bytes_hdr b =
     \<lparr>transaction_id = ntohs_bytes b,
      rd = bit (b ! 2) 0, tc = bit (b ! 2) 1, aa = bit (b ! 2) 2, opcode = ucast (drop_bit 3 (b ! 2)), qr = bit (b ! 2) 7,
      rcode = ucast (b ! 3), cd = bit (b ! 3) 4, ad = bit (b ! 3) 5, res = bit (b ! 3) 6, ra = bit (b ! 3) 7,
      nquestion = ntohs_bytes (drop 4 b), nanswer = ntohs_bytes (drop 6 b),
      nauthority = ntohs_bytes (drop 8 b), naddtional = ntohs_bytes (drop 10 b)\<rparr>"

text \<open>One of the four loops: \<open>n\<close> records of an array from \<open>off\<close> on; the result is the new offset or \<open>-1\<close>.\<close>

fun pack_rrs :: "byte list \<Rightarrow> nat \<Rightarrow> dns_rr list \<Rightarrow> byte list \<Rightarrow> nat \<Rightarrow> int \<Rightarrow> (int \<times> byte list) option" where
  "pack_rrs scratch 0 rrs mem off len = Some (int off, mem)"
| "pack_rrs scratch (Suc n) [] mem off len = None"
| "pack_rrs scratch (Suc n) (rr # rrs) mem off len =
     Option.bind (dns_rr_pack scratch rr mem off (len - int off)) (\<lambda>(packetlen, mem).
       if packetlen < 0 then Some (-1, mem)
       else pack_rrs scratch n rrs mem (off + nat packetlen) len)"

definition pack_section ::
  "byte list \<Rightarrow> u16 \<Rightarrow> dns_rr list \<Rightarrow> int \<Rightarrow> int \<times> byte list \<Rightarrow> (int \<times> byte list) option" where
  "pack_section scratch n rrs len = (\<lambda>(off, mem).
     if off < 0 then Some (off, mem) else pack_rrs scratch (unat n) rrs mem (nat off) len)"

definition dns_pack :: "byte list \<Rightarrow> dns \<Rightarrow> byte list \<Rightarrow> int \<Rightarrow> (int \<times> byte list) option" where
  "dns_pack scratch d mem len =
     (if len < 12 then Some (-1, mem)
      else do {
        mem \<leftarrow> store mem 0 (hdr_bytes (hdr d));
        r \<leftarrow> pack_section scratch (nquestion (hdr d)) (questions d) len (12, mem);
        r \<leftarrow> pack_section scratch (nanswer (hdr d)) (answers d) len r;
        r \<leftarrow> pack_section scratch (nauthority (hdr d)) (authorities d) len r;
        pack_section scratch (naddtional (hdr d)) (addtionals d) len r
      })"

definition rr_zero :: dns_rr where
  "rr_zero = \<lparr>rr_name = [], rtype = 0, rclass = 0, ttl = 0, datalen = 0, rr_data = None\<rparr>"

text \<open>The array is allocated and cleared; records that were not reached stay clear.\<close>

fun unpack_rrs :: "nat \<Rightarrow> byte list \<Rightarrow> nat \<Rightarrow> int \<Rightarrow> bool \<Rightarrow> (int \<times> dns_rr list) option" where
  "unpack_rrs 0 buf off len is_question = Some (int off, [])"
| "unpack_rrs (Suc n) buf off len is_question =
     Option.bind (dns_rr_unpack buf off (len - int off) rr_zero is_question) (\<lambda>(packetlen, rr).
       if packetlen < 0 then Some (-1, rr # replicate n rr_zero)
       else map_option (\<lambda>(r, rrs). (r, rr # rrs)) (unpack_rrs n buf (off + nat packetlen) len is_question))"

definition unpack_section :: "u16 \<Rightarrow> byte list \<Rightarrow> int \<Rightarrow> bool \<Rightarrow> int \<Rightarrow> (int \<times> dns_rr list) option" where
  "unpack_section n buf len is_question off =
     (if off < 0 then Some (off, []) else unpack_rrs (unat n) buf (nat off) len is_question)"

definition dns_zero :: dns where
  "dns_zero = \<lparr>hdr = bytes_hdr (replicate 12 0), questions = [], answers = [], authorities = [], addtionals = []\<rparr>"

definition dns_unpack :: "byte list \<Rightarrow> int \<Rightarrow> (int \<times> dns) option" where
  "dns_unpack buf len =
     (if len < 12 then Some (-1, dns_zero)
      else do {
        h \<leftarrow> bytes_at buf 0 12;
        let h = bytes_hdr h;
        (r, qs) \<leftarrow> unpack_section (nquestion h) buf len True 12;
        (r, as) \<leftarrow> unpack_section (nanswer h) buf len False r;
        (r, us) \<leftarrow> unpack_section (nauthority h) buf len False r;
        (r, ds) \<leftarrow> unpack_section (naddtional h) buf len False r;
        Some (r, \<lparr>hdr = h, questions = qs, answers = as, authorities = us, addtionals = ds\<rparr>)
      })"

section \<open>Query and lookup\<close>

definition ERR_SOCKET :: int where "ERR_SOCKET = -1011"
definition ERR_RECVFROM :: int where "ERR_RECVFROM = -1018"
definition ERR_SENDTO :: int where "ERR_SENDTO = -1019"
definition ERR_INVALID_PACKAGE :: int where "ERR_INVALID_PACKAGE = 1019"
definition ERR_MISMATCH :: int where "ERR_MISMATCH = 1023"

text \<open>The answers of the system: the socket, the number of bytes sent, the datagram received
  (\<open>None\<close> for a failure or a timeout), and what it is asked to do.\<close>

record net =
  net_socket :: int
  net_sent :: "byte list \<Rightarrow> int"
  net_received :: "byte list option"

datatype net_action = SendTo "byte list" | CloseSocket

text \<open>\<open>buf0\<close> are the contents of the uninitialised buffer of 1024 bytes. The response is \<open>None\<close> when
  it was not written; otherwise its arrays are for the caller to free.\<close>

definition dns_query ::
  "net \<Rightarrow> byte list \<Rightarrow> byte list \<Rightarrow> dns \<Rightarrow> (int \<times> dns option \<times> net_action list) option" where
  "dns_query N scratch buf0 query = do {
     (buflen, buf) \<leftarrow> dns_pack scratch query buf0 1024;
     (if buflen < 0 then Some (buflen, None, [])
      else if net_socket N < 0 then Some (ERR_SOCKET, None, [])
      else do {
        out \<leftarrow> bytes_at buf 0 (nat buflen);
        (if net_sent N out \<noteq> buflen then Some (ERR_SENDTO, None, [SendTo out, CloseSocket])
         else case net_received N of
           None \<Rightarrow> Some (ERR_RECVFROM, None, [SendTo out, CloseSocket])
         | Some r \<Rightarrow>
           if r = [] then Some (ERR_RECVFROM, None, [SendTo out, CloseSocket])
           else do {
             buf \<leftarrow> store buf 0 (take 1024 r);
             let nrecv = int (length (take 1024 r));
             (nparse, resp) \<leftarrow> dns_unpack buf nrecv;
             Some (if nparse \<noteq> nrecv then - ERR_INVALID_PACKAGE else 0, Some resp, [SendTo out, CloseSocket])
           })
      })
   }"

text \<open>\<open>data\<close> of the records of a response points into the buffer of \<open>dns_query\<close>, which is gone when the
  lookup reads it: copying an address is \<open>None\<close>.\<close>

fun collect_addrs :: "dns_rr list \<Rightarrow> int \<Rightarrow> int \<Rightarrow> int option" where
  "collect_addrs [] naddr cnt = Some cnt"
| "collect_addrs (rr # rrs) naddr cnt =
     (if rtype rr = 1
      then if cnt < naddr \<and> datalen rr = 4 then None
           else collect_addrs rrs naddr (cnt + 1)
      else collect_addrs rrs naddr cnt)"

text \<open>\<open>strncpy\<close> into the name of the question: without room for the terminating zero the name runs on
  into the fields behind it, so a domain of 256 characters or more is \<open>None\<close>.\<close>

definition lookup_query :: "u16 \<Rightarrow> byte list \<Rightarrow> dns option" where
  "lookup_query pid domain =
     (if length domain \<ge> DNS_NAME_MAXLEN then None
      else Some (dns_zero
        \<lparr>hdr := (hdr dns_zero)\<lparr>transaction_id := pid, qr := False, rd := True, nquestion := 1\<rparr>,
         questions := [rr_zero\<lparr>rr_name := domain, rtype := 1, rclass := 1\<rparr>]\<rparr>))"

definition dns_free :: "dns \<Rightarrow> dns" where
  "dns_free d = d\<lparr>questions := [], answers := [], authorities := [], addtionals := []\<rparr>"

text \<open>The returned number, the response as it is left on the stack (its arrays are lost unless they
  were freed), and the actions of the query.\<close>

definition nslookup ::
  "net \<Rightarrow> byte list \<Rightarrow> byte list \<Rightarrow> u16 \<Rightarrow> byte list \<Rightarrow> int \<Rightarrow> (int \<times> dns option \<times> net_action list) option" where
  "nslookup N scratch buf0 pid domain naddr = do {
     query \<leftarrow> lookup_query pid domain;
     (ret, resp, acts) \<leftarrow> dns_query N scratch buf0 query;
     (if ret \<noteq> 0 then Some (ret, resp, acts)
      else do {
        resp \<leftarrow> resp;
        (if transaction_id (hdr resp) \<noteq> transaction_id (hdr query) \<or> \<not> qr (hdr resp) \<or> rcode (hdr resp) \<noteq> 0
         then Some (- ERR_MISMATCH, Some (dns_free resp), acts)
         else if nanswer (hdr resp) = 0 then Some (0, Some (dns_free resp), acts)
         else do {
           cnt \<leftarrow> collect_addrs (answers resp) naddr 0;
           Some (cnt, Some (dns_free resp), acts)
         })
      })
   }"

section \<open>The wire format\<close>

text \<open>The name with a length in front of every label, \<open>part\<close> being the part of the current label
  that was read.\<close>

fun name_wire :: "byte list \<Rightarrow> byte list \<Rightarrow> byte list" where
  "name_wire part [] = of_nat (length part) # part"
| "name_wire part (ch # p) =
     (if ch \<noteq> dot then name_wire (part @ [ch]) p else of_nat (length part) # part @ name_wire [] p)"

fun last_part :: "nat \<Rightarrow> byte list \<Rightarrow> nat" where
  "last_part n [] = n"
| "last_part n (ch # p) = (if ch \<noteq> dot then last_part (n + 1) p else last_part 0 p)"

fun dotted :: "byte list list \<Rightarrow> byte list" where
  "dotted [] = []"
| "dotted [l] = l"
| "dotted (l # ls) = l @ dot # dotted ls"

definition valid_label :: "byte list \<Rightarrow> bool" where
  "valid_label l \<longleftrightarrow> l \<noteq> [] \<and> length l \<le> 63 \<and> dot \<notin> set l \<and> 0 \<notin> set l"

definition labels_wire :: "byte list list \<Rightarrow> byte list" where
  "labels_wire ls = concat (map (\<lambda>l. of_nat (length l) # l) ls)"

lemma name_wire_length: "length (name_wire part p) = length part + length p + 1"
  by (induction part p rule: name_wire.induct) auto

lemma name_wire_label: "dot \<notin> set l \<Longrightarrow> name_wire part (l @ p) = name_wire (part @ l) p"
  by (induction l arbitrary: part) auto

lemma last_part_label: "dot \<notin> set l \<Longrightarrow> last_part n (l @ p) = last_part (n + length l) p"
  by (induction l arbitrary: n) auto

lemma name_wire_labels:
  "ls \<noteq> [] \<Longrightarrow> \<forall>l \<in> set ls. valid_label l \<Longrightarrow> name_wire [] (dotted ls) = labels_wire ls"
proof (induction ls rule: dotted.induct)
  case (2 l)
  then show ?case using name_wire_label [of l "[]" "[]"] by (simp add: labels_wire_def valid_label_def)
next
  case (3 l l' ls)
  then show ?case
    using name_wire_label [of l "[]" "dot # dotted (l' # ls)"] by (simp add: labels_wire_def valid_label_def)
qed simp

lemma last_part_labels:
  "ls \<noteq> [] \<Longrightarrow> \<forall>l \<in> set ls. valid_label l \<Longrightarrow> last_part 0 (dotted ls) \<noteq> 0"
proof (induction ls rule: dotted.induct)
  case (2 l)
  then show ?case using last_part_label [of l 0 "[]"] by (simp add: valid_label_def)
next
  case (3 l l' ls)
  then show ?case
    using last_part_label [of l 0 "dot # dotted (l' # ls)"] by (simp add: valid_label_def)
qed simp

section \<open>Names\<close>

lemma store_at: "store (xs @ x # ys) (length xs) [v] = Some (xs @ v # ys)"
  by (simp add: store_def)

lemma store_at': "length xs = n \<Longrightarrow> store (xs @ x # ys) n [v] = Some (xs @ v # ys)"
  using store_at by blast

text \<open>The loop together with the statements behind it.\<close>

lemma name_encode_from:
  "length p < length rest \<Longrightarrow>
   Option.bind (name_encode_loop p (pre @ x # part @ rest) (length pre) (length pre + 1 + length part) (length part) bl)
     (\<lambda>(mem, plen, pos, len, buflen).
        Option.bind (store mem plen [of_nat len]) (\<lambda>mem.
        Option.bind (store mem pos [0]) (\<lambda>mem. Some (if len \<noteq> 0 then buflen + 1 else buflen, mem))))
   = Some (bl + length p + (if last_part (length part) p \<noteq> 0 then 1 else 0),
           pre @ name_wire part p @ 0 # drop (length p + 1) rest)"
proof (induction p arbitrary: pre x part rest bl)
  case Nil
  then obtain y rest' where rest: "rest = y # rest'" by (cases rest) auto
  have s: "store ((pre @ of_nat (length part) # part) @ y # rest') (length pre + 1 + length part) [0]
      = Some ((pre @ of_nat (length part) # part) @ 0 # rest')"
    by (rule store_at') simp
  from s show ?case by (simp add: rest store_at)
next
  case (Cons ch p)
  then obtain y rest' where rest: "rest = y # rest'" and l: "length p < length rest'" by (cases rest) auto
  show ?case
  proof (cases "ch = dot")
    case True
    have "pre @ of_nat (length part) # part @ y # rest'
        = (pre @ of_nat (length part) # part) @ y # [] @ rest'" by simp
    then show ?thesis
      using True Cons.IH [OF l, of "pre @ of_nat (length part) # part" y "[]" "bl + 1"]
      by (simp add: rest store_at)
  next
    case False
    have s: "store ((pre @ x # part) @ y # rest') (length pre + 1 + length part) [ch]
        = Some ((pre @ x # part) @ ch # rest')"
      by (rule store_at') simp
    from s show ?thesis
      using False Cons.IH [OF l, of pre x "part @ [ch]" "bl + 1"] by (simp add: rest)
  qed
qed

lemma name_encode_wire:
  assumes "length nm + 2 \<le> length mem"
  shows "dns_name_encode nm mem = Some (length nm + 1 + (if last_part 0 nm \<noteq> 0 then 1 else 0),
    name_wire [] nm @ 0 # drop (length nm + 2) mem)"
proof -
  obtain x rest where mem: "mem = x # rest" using assms by (cases mem) auto
  have "length nm < length rest" using assms by (simp add: mem)
  from name_encode_from [OF this, of "[]" x "[]" 1] show ?thesis
    by (simp add: dns_name_encode_def mem)
qed

lemma name_decode_label:
  assumes "0 \<notin> set l" and "length dm + length l < cap" and "0 \<le> k"
  shows "name_decode_loop cap (l @ q) (int (length l) + k) dm bl
    = name_decode_loop cap q k (dm @ l) (bl + length l)"
  using assms
proof (induction l arbitrary: dm bl)
  case (Cons b l)
  then show ?case using Cons.IH [of "dm @ [b]" "bl + 1"] by (auto simp: add.commute add.left_commute)
qed simp

lemma sint_small: "n \<le> 63 \<Longrightarrow> sint (of_nat n :: byte) = int n"
  by (simp add: signed_of_nat signed_take_bit_int_eq_self)

lemma of_nat_byte_0: "0 < n \<Longrightarrow> n \<le> 63 \<Longrightarrow> (of_nat n :: byte) \<noteq> 0"
  using of_nat_word_eq_0_iff [of n, where 'a = 8] by simp

lemma name_decode_from:
  "ls \<noteq> [] \<Longrightarrow> \<forall>l \<in> set ls. valid_label l \<Longrightarrow> length dm + length (dotted ls) < cap \<Longrightarrow>
   name_decode_loop cap (tl (labels_wire ls) @ 0 # post) (int (length (hd ls))) dm bl
     = Some (bl + length (dotted ls) + 1, dm @ dotted ls)"
proof (induction ls arbitrary: dm bl rule: dotted.induct)
  case (2 l)
  then show ?case
    using name_decode_label [of l dm cap 0 "0 # post" bl] by (simp add: labels_wire_def valid_label_def)
next
  case (3 l l' ls)
  have l: "valid_label l" "valid_label l'" using 3 by simp_all
  have tl: "tl (labels_wire (l # l' # ls)) = l @ of_nat (length l') # tl (labels_wire (l' # ls))"
    by (simp add: labels_wire_def)
  have n: "sint (of_nat (length l') :: byte) = int (length l')" "(of_nat (length l') :: byte) \<noteq> 0"
    using l(2) by (simp_all add: valid_label_def sint_small of_nat_byte_0)
  have room: "length dm + length l < cap" "length (dm @ l) < cap"
    "length (dm @ l @ [dot]) + length (dotted (l' # ls)) < cap" using 3 by simp_all
  have "name_decode_loop cap (tl (labels_wire (l # l' # ls)) @ 0 # post) (int (length l)) dm bl
      = name_decode_loop cap (of_nat (length l') # tl (labels_wire (l' # ls)) @ 0 # post) 0 (dm @ l) (bl + length l)"
    using name_decode_label [of l dm cap 0 "of_nat (length l') # tl (labels_wire (l' # ls)) @ 0 # post" bl] l(1) room
    by (simp add: tl valid_label_def)
  also have "\<dots> = name_decode_loop cap (tl (labels_wire (l' # ls)) @ 0 # post) (int (length l'))
      (dm @ l @ [dot]) (bl + length l + 1)"
    using n room(2) by simp
  finally show ?case
    using 3(1) [of "dm @ l @ [dot]" "bl + length l + 1"] 3(3) room by simp
qed simp

lemma name_decode_wire:
  assumes "ls \<noteq> []" and "\<forall>l \<in> set ls. valid_label l" and "length (dotted ls) < cap"
  shows "dns_name_decode cap (name_wire [] (dotted ls) @ 0 # post) = Some (length (dotted ls) + 2, dotted ls)"
proof -
  obtain l ls' where ls: "ls = l # ls'" using assms(1) by (cases ls) auto
  have w: "labels_wire ls = of_nat (length l) # tl (labels_wire ls)" by (simp add: ls labels_wire_def)
  have "sint (of_nat (length l) :: byte) = int (length l)"
    using assms(2) by (simp add: ls valid_label_def sint_small)
  then show ?thesis
    using name_decode_from [OF assms(1,2), of "[]" cap post 1] assms(3)
    unfolding name_wire_labels [OF assms(1,2)] by (subst w) (simp add: dns_name_decode_def ls)
qed

section \<open>Numbers and the header\<close>

lemma ntohs_htons: "ntohs_bytes (htons_bytes x @ ys) = x"
proof (rule bit_word_eqI)
  fix n assume n: "n < LENGTH(16)"
  have b: "\<not> bit (y :: byte) k" if "8 \<le> k" for y k using that by (auto dest: bit_imp_le_length)
  show "bit (ntohs_bytes (htons_bytes x @ ys)) n = bit x n"
    using n unfolding ntohs_bytes_def htons_bytes_def
    by (auto simp: bit_or_iff bit_push_bit_iff bit_ucast_iff bit_drop_bit_eq)
qed

lemma ntohl_htonl: "ntohl_bytes (htonl_bytes x) = x"
proof (rule bit_word_eqI)
  fix n assume n: "n < LENGTH(32)"
  define q k where "q = n div 8" and "k = n mod 8"
  have n: "n = 8 * q + k" "k < 8" and "q < 4" using n by (simp_all add: q_def k_def less_mult_imp_div_less)
  then consider "q = 0" | "q = 1" | "q = 2" | "q = 3" by linarith
  then show "bit (ntohl_bytes (htonl_bytes x)) n = bit x n"
    unfolding ntohl_bytes_def htonl_bytes_def n(1) using n(2)
    by cases (auto simp: bit_or_iff bit_push_bit_iff bit_ucast_iff bit_drop_bit_eq)
qed

lemma htons_length [simp]: "length (htons_bytes x) = 2"
  by (simp add: htons_bytes_def)

lemma htonl_length [simp]: "length (htonl_bytes x) = 4"
  by (simp add: htonl_bytes_def)

lemma hdr_length [simp]: "length (hdr_bytes h) = 12"
  by (simp add: hdr_bytes_def)

lemma bit_flag_bit: "bit (flag_bit b n) k \<longleftrightarrow> b \<and> k = n \<and> n < 8"
  by (auto simp: flag_bit_def bit_exp_iff possible_bit_word)

lemma nibble_bits: "4 \<le> k \<Longrightarrow> \<not> bit (x :: 4 word) k"
  by (auto dest: bit_imp_le_length)

lemma hdr_roundtrip: "bytes_hdr (hdr_bytes h) = h"
proof -
  have d: "drop 4 (hdr_bytes h) = htons_bytes (nquestion h) @ htons_bytes (nanswer h) @ htons_bytes (nauthority h) @ htons_bytes (naddtional h)"
    "drop 6 (hdr_bytes h) = htons_bytes (nanswer h) @ htons_bytes (nauthority h) @ htons_bytes (naddtional h)"
    "drop 8 (hdr_bytes h) = htons_bytes (nauthority h) @ htons_bytes (naddtional h)"
    "drop 10 (hdr_bytes h) = htons_bytes (naddtional h) @ []"
    by (simp_all add: hdr_bytes_def)
  have i: "ntohs_bytes (hdr_bytes h) = transaction_id h" unfolding hdr_bytes_def by (rule ntohs_htons)
  let ?a = "flag_bit (rd h) 0 OR flag_bit (tc h) 1 OR flag_bit (aa h) 2 OR push_bit 3 (ucast (opcode h)) OR flag_bit (qr h) 7"
  let ?b = "ucast (rcode h) OR flag_bit (cd h) 4 OR flag_bit (ad h) 5 OR flag_bit (res h) 6 OR flag_bit (ra h) 7"
  have f: "hdr_bytes h ! 2 = ?a" "hdr_bytes h ! 3 = ?b" by (simp_all add: hdr_bytes_def htons_bytes_def)
  have a: "bit ?a 0 = rd h" "bit ?a 1 = tc h" "bit ?a 2 = aa h" "bit ?a 7 = qr h"
    and b: "bit ?b 4 = cd h" "bit ?b 5 = ad h" "bit ?b 6 = res h" "bit ?b 7 = ra h"
    by (simp_all add: bit_or_iff bit_flag_bit bit_push_bit_iff bit_ucast_iff nibble_bits)
  have o1: "(ucast (drop_bit 3 ?a) :: 4 word) = opcode h"
    by (rule bit_word_eqI) (auto simp: bit_ucast_iff bit_drop_bit_eq bit_or_iff bit_flag_bit bit_push_bit_iff)
  have r: "(ucast ?b :: 4 word) = rcode h"
    by (rule bit_word_eqI) (auto simp: bit_ucast_iff bit_or_iff bit_flag_bit)
  show ?thesis
    unfolding bytes_hdr_def d f i a b o1 r ntohs_htons by simp
qed

section \<open>Resource records\<close>

definition valid_name :: "byte list \<Rightarrow> bool" where
  "valid_name nm \<longleftrightarrow> length nm \<le> 254 \<and> (\<exists>ls. ls \<noteq> [] \<and> (\<forall>l \<in> set ls. valid_label l) \<and> nm = dotted ls)"

text \<open>A question has no data; the data of any other record have the length the record says.\<close>

definition valid_rr :: "bool \<Rightarrow> dns_rr \<Rightarrow> bool" where
  "valid_rr is_question rr \<longleftrightarrow> valid_name (rr_name rr) \<and>
     (case rr_data rr of
        None \<Rightarrow> is_question \<and> ttl rr = 0 \<and> datalen rr = 0
      | Some d \<Rightarrow> \<not> is_question \<and> length d = unat (datalen rr) \<and> d \<noteq> [])"

definition rr_bytes :: "dns_rr \<Rightarrow> byte list" where
  "rr_bytes rr = name_wire [] (rr_name rr) @ [0] @ htons_bytes (rtype rr) @ htons_bytes (rclass rr) @
     (case rr_data rr of None \<Rightarrow> [] | Some d \<Rightarrow> htonl_bytes (ttl rr) @ htons_bytes (datalen rr) @ d)"

fun stores :: "byte list \<Rightarrow> nat \<Rightarrow> byte list list \<Rightarrow> byte list option" where
  "stores mem i [] = Some mem"
| "stores mem i (xs # xss) = Option.bind (store mem i xs) (\<lambda>m. stores m (i + length xs) xss)"

lemma store_then:
  assumes "i + length xs + length ys \<le> length mem"
  shows "Option.bind (store mem i xs) (\<lambda>m. store m (i + length xs) ys) = store mem i (xs @ ys)"
  using assms by (simp add: store_def add.assoc add.commute [of "length ys"])

lemma stores_concat:
  "i + length (concat xss) \<le> length mem \<Longrightarrow> stores mem i xss = store mem i (concat xss)"
proof (induction xss arbitrary: mem i)
  case Nil
  then show ?case by (simp add: store_def)
next
  case (Cons xs xss)
  have "length m = length mem" if "store mem i xs = Some m" for m
    using that by (auto simp: store_def split: if_splits)
  then have "stores mem i (xs # xss) = Option.bind (store mem i xs) (\<lambda>m. store m (i + length xs) (concat xss))"
    using Cons.IH [of "i + length xs"] Cons.prems by (cases "store mem i xs") simp_all
  then show ?case using store_then [of i xs "concat xss" mem] Cons.prems by simp
qed

lemma rr_bytes_length:
  assumes "valid_rr q rr"
  shows "length (rr_bytes rr) = length (rr_name rr) + 6 + (if q then 0 else 6 + unat (datalen rr))"
  using assms by (auto simp: rr_bytes_def name_wire_length valid_rr_def split: option.splits)

lemma rr_pack_bytes:
  assumes "valid_rr q rr" and "length scratch = DNS_NAME_MAXLEN" and "int off + len \<le> int (length mem)"
  shows "dns_rr_pack scratch rr mem off len =
    (if len < int (length (rr_bytes rr)) then Some (-1, mem)
     else map_option (Pair (int (length (rr_bytes rr)))) (store mem off (rr_bytes rr)))"
proof -
  let ?nm = "rr_name rr"
  let ?n = "length ?nm + 2"
  let ?w = "name_wire [] ?nm @ [0]"
  have v: "length ?nm \<le> 254" "last_part 0 ?nm \<noteq> 0"
    using assms(1) last_part_labels by (auto simp: valid_rr_def valid_name_def)
  have enc: "dns_name_encode ?nm scratch = Some (?n, ?w @ drop ?n scratch)"
    using name_encode_wire [of ?nm scratch] v assms(2) by (simp add: DNS_NAME_MAXLEN_def)
  have w: "length ?w = ?n" by (simp add: name_wire_length)
  then have name: "bytes_at (?w @ drop ?n scratch) 0 ?n = Some ?w" by (simp add: bytes_at_def)
  have len: "int ?n + 2 + 2 + (if rr_data rr \<noteq> None then 4 + 2 + uint (datalen rr) else 0)
      = int (length (rr_bytes rr))"
    using rr_bytes_length [OF assms(1)] assms(1) by (auto simp: valid_rr_def split: option.splits)
  show ?thesis
  proof (cases "len < int (length (rr_bytes rr))")
    case True
    then show ?thesis using len by (simp add: dns_rr_pack_def enc Let_def)
  next
    case False
    then have fit: "off + length (rr_bytes rr) \<le> length mem" using assms(3) by linarith
    let ?ok = "\<lambda>m. Some (int (length (rr_bytes rr)), m)"
    have ok: "map_option (Pair (int (length (rr_bytes rr)))) r = Option.bind r ?ok" for r :: "byte list option"
      by (cases r) simp_all
    show ?thesis
    proof (cases "rr_data rr")
      case None
      let ?xss = "[?w, htons_bytes (rtype rr), htons_bytes (rclass rr)]"
      have "dns_rr_pack scratch rr mem off len = Option.bind (stores mem off ?xss) ?ok"
        using False len None name w by (simp add: dns_rr_pack_def enc Let_def)
      also have "stores mem off ?xss = store mem off (rr_bytes rr)"
        using stores_concat [of off ?xss mem] fit None by (simp add: rr_bytes_def)
      finally show ?thesis using False by (simp add: ok)
    next
      case (Some d)
      then have d: "bytes_at d 0 (unat (datalen rr)) = Some d" "datalen rr \<noteq> 0"
        using assms(1) by (auto simp: valid_rr_def bytes_at_def)
      let ?xss = "[?w, htons_bytes (rtype rr), htons_bytes (rclass rr), htonl_bytes (ttl rr), htons_bytes (datalen rr), d]"
      have "dns_rr_pack scratch rr mem off len = Option.bind (stores mem off ?xss) ?ok"
        using False len Some name w d by (simp add: dns_rr_pack_def enc Let_def) (simp add: eval_nat_numeral)
      also have "stores mem off ?xss = store mem off (rr_bytes rr)"
        using stores_concat [of off ?xss mem] fit Some by (simp add: rr_bytes_def)
      finally show ?thesis using False by (simp add: ok)
    qed
  qed
qed

lemma bytes_at_mid: "length xs = i \<Longrightarrow> length ys = n \<Longrightarrow> bytes_at (xs @ ys @ zs) i n = Some ys"
  by (simp add: bytes_at_def)

text \<open>The evaluation of \<open>dns_rr_unpack\<close> from what it reads.\<close>

lemma rr_unpack_reads:
  assumes "bytes_at buf off 1 = Some [b]" and "\<not> 192 \<le> b"
    and "dns_name_decode DNS_NAME_MAXLEN (drop off buf) = Some (n, nm)"
    and "bytes_at buf (off + n) 2 = Some t" and "bytes_at buf (off + n + 2) 2 = Some c"
  shows "int n + 4 \<le> len \<Longrightarrow> dns_rr_unpack buf off len rr True
      = Some (int n + 4, rr\<lparr>rr_name := nm, rtype := ntohs_bytes t, rclass := ntohs_bytes c\<rparr>)"
    and "\<lbrakk>bytes_at buf (off + n + 4) 4 = Some l; bytes_at buf (off + n + 8) 2 = Some dl;
      bytes_at buf (off + n + 10) (unat (ntohs_bytes dl)) = Some d; int n + 10 + uint (ntohs_bytes dl) \<le> len\<rbrakk>
      \<Longrightarrow> dns_rr_unpack buf off len rr False = Some (int n + 10 + uint (ntohs_bytes dl),
        rr\<lparr>rr_name := nm, rtype := ntohs_bytes t, rclass := ntohs_bytes c, ttl := ntohl_bytes l,
          datalen := ntohs_bytes dl, rr_data := Some d\<rparr>)"
proof -
  show "int n + 4 \<le> len \<Longrightarrow> dns_rr_unpack buf off len rr True
      = Some (int n + 4, rr\<lparr>rr_name := nm, rtype := ntohs_bytes t, rclass := ntohs_bytes c\<rparr>)"
    using assms by (simp add: dns_rr_unpack_def Let_def)
  assume r: "bytes_at buf (off + n + 4) 4 = Some l" "bytes_at buf (off + n + 8) 2 = Some dl"
    "bytes_at buf (off + n + 10) (unat (ntohs_bytes dl)) = Some d"
    and len: "int n + 10 + uint (ntohs_bytes dl) \<le> len"
  have "\<not> len < int n + 4" "\<not> len < int n + 10" "\<not> len < int n + 10 + uint (ntohs_bytes dl)"
    using len uint_ge_0 [of "ntohs_bytes dl"] by linarith+
  with assms r show "dns_rr_unpack buf off len rr False = Some (int n + 10 + uint (ntohs_bytes dl),
      rr\<lparr>rr_name := nm, rtype := ntohs_bytes t, rclass := ntohs_bytes c, ttl := ntohl_bytes l,
        datalen := ntohs_bytes dl, rr_data := Some d\<rparr>)"
    by (simp add: dns_rr_unpack_def Let_def)
qed

lemma rr_unpack_bytes:
  assumes "valid_rr q rr" and "int (length (rr_bytes rr)) \<le> len"
  shows "dns_rr_unpack (pre @ rr_bytes rr @ post) (length pre) len rr_zero q = Some (int (length (rr_bytes rr)), rr)"
proof -
  let ?nm = "rr_name rr"
  let ?n = "length ?nm + 2"
  let ?w = "name_wire [] ?nm @ [0]"
  define tail where "tail = (case rr_data rr of None \<Rightarrow> [] | Some d \<Rightarrow> htonl_bytes (ttl rr) @ htons_bytes (datalen rr) @ d)"
  let ?buf = "pre @ rr_bytes rr @ post"
  have bytes: "rr_bytes rr = ?w @ htons_bytes (rtype rr) @ htons_bytes (rclass rr) @ tail"
    by (simp add: rr_bytes_def tail_def)
  obtain ls where ls: "ls \<noteq> []" "\<forall>l \<in> set ls. valid_label l" "?nm = dotted ls" and short: "length ?nm \<le> 254"
    using assms(1) by (auto simp: valid_rr_def valid_name_def)
  have w: "length ?w = ?n" by (simp add: name_wire_length)
  obtain l ls' where l: "ls = l # ls'" using ls(1) by (cases ls) auto
  have fst: "hd (rr_bytes rr) = of_nat (length l)" "rr_bytes rr \<noteq> []"
    using name_wire_labels [OF ls(1,2)] by (simp_all add: bytes ls(3) l labels_wire_def)
  have "length l \<le> 63" using ls(2) by (simp add: l valid_label_def)
  then have small: "\<not> (192 :: byte) \<le> of_nat (length l)"
    using of_nat_word_le_iff [of 192 "length l", where 'a = 8] by simp
  have first: "bytes_at ?buf (length pre) 1 = Some [hd (rr_bytes rr)]"
    using fst(2) by (cases "rr_bytes rr") (simp_all add: bytes_at_def)
  have dec: "dns_name_decode DNS_NAME_MAXLEN (drop (length pre) ?buf) = Some (?n, ?nm)"
    using name_decode_wire [OF ls(1,2), of DNS_NAME_MAXLEN "htons_bytes (rtype rr) @ htons_bytes (rclass rr) @ tail @ post"]
      short by (simp add: bytes ls(3) DNS_NAME_MAXLEN_def)
  have t: "bytes_at ?buf (length pre + ?n) 2 = Some (htons_bytes (rtype rr))"
    using bytes_at_mid [of "pre @ ?w" "length pre + ?n" "htons_bytes (rtype rr)" 2] w by (simp add: bytes)
  have c: "bytes_at ?buf (length pre + ?n + 2) 2 = Some (htons_bytes (rclass rr))"
    using bytes_at_mid [of "pre @ ?w @ htons_bytes (rtype rr)" "length pre + ?n + 2" "htons_bytes (rclass rr)" 2] w
    by (simp add: bytes)
  have n16: "ntohs_bytes (htons_bytes x) = x" for x using ntohs_htons [of x "[]"] by simp
  note reads = rr_unpack_reads [OF first [unfolded fst(1)] small dec t c, where rr = rr_zero and len = len]
  show ?thesis
  proof (cases q)
    case True
    then have "rr_data rr = None" "ttl rr = 0" "datalen rr = 0"
      using assms(1) by (auto simp: valid_rr_def split: option.splits)
    then have "rr_zero\<lparr>rr_name := ?nm, rtype := rtype rr, rclass := rclass rr\<rparr> = rr"
      by (cases rr) (simp add: rr_zero_def)
    moreover have "int (length (rr_bytes rr)) = int ?n + 4" using rr_bytes_length [OF assms(1)] True by simp
    ultimately show ?thesis using reads(1) assms(2) True by (simp only: n16 simp_thms)
  next
    case False
    then obtain d where d: "rr_data rr = Some d" "length d = unat (datalen rr)"
      using assms(1) by (auto simp: valid_rr_def split: option.splits)
    let ?h = "pre @ ?w @ htons_bytes (rtype rr) @ htons_bytes (rclass rr)"
    have h: "?buf = ?h @ htonl_bytes (ttl rr) @ htons_bytes (datalen rr) @ d @ post"
      by (simp add: bytes tail_def d)
    have u: "bytes_at ?buf (length pre + ?n + 4) 4 = Some (htonl_bytes (ttl rr))"
      unfolding h using w by (intro bytes_at_mid) simp_all
    have v: "bytes_at ?buf (length pre + ?n + 8) 2 = Some (htons_bytes (datalen rr))"
      using bytes_at_mid [of "?h @ htonl_bytes (ttl rr)" "length pre + ?n + 8" "htons_bytes (datalen rr)" 2 "d @ post"] w
      unfolding h by simp
    have x: "bytes_at ?buf (length pre + ?n + 10) (unat (datalen rr)) = Some d"
      using bytes_at_mid [of "?h @ htonl_bytes (ttl rr) @ htons_bytes (datalen rr)" "length pre + ?n + 10" d
          "unat (datalen rr)" post] w d unfolding h by simp
    have len: "int (length (rr_bytes rr)) = int ?n + 10 + uint (datalen rr)"
      using rr_bytes_length [OF assms(1)] False by simp
    have "rr_zero\<lparr>rr_name := ?nm, rtype := rtype rr, rclass := rclass rr, ttl := ttl rr,
        datalen := datalen rr, rr_data := Some d\<rparr> = rr"
      using d(1) by (cases rr) (simp add: rr_zero_def)
    then show ?thesis
      using reads(2) [OF u v, unfolded n16 ntohl_htonl, OF x] assms(2) False unfolding len by simp
  qed
qed

section \<open>Messages\<close>

abbreviation rrs_bytes :: "dns_rr list \<Rightarrow> byte list" where
  "rrs_bytes rrs \<equiv> concat (map rr_bytes rrs)"

lemma store_length: "store mem i xs = Some m \<Longrightarrow> length m = length mem"
  by (auto simp: store_def split: if_splits)

lemma pack_rrs_bytes:
  assumes "\<forall>rr \<in> set rrs. valid_rr q rr" and "length scratch = DNS_NAME_MAXLEN" and "len \<le> int (length mem)"
    and "int (off + length (rrs_bytes rrs)) \<le> len"
  shows "pack_rrs scratch (length rrs) rrs mem off len =
    map_option (Pair (int (off + length (rrs_bytes rrs)))) (store mem off (rrs_bytes rrs))"
  using assms
proof (induction rrs arbitrary: mem off)
  case Nil
  then show ?case by (simp add: store_def)
next
  case (Cons rr rrs)
  let ?b = "rr_bytes rr" and ?bs = "rrs_bytes rrs"
  have fit: "off + length ?b + length ?bs \<le> length mem" using Cons.prems(3,4) by simp
  obtain m where m: "store mem off ?b = Some m" using fit by (simp add: store_def)
  then have lm: "length m = length mem" by (rule store_length)
  have "\<not> len - int off < int (length ?b)" using Cons.prems(4) by simp
  then have "dns_rr_pack scratch rr mem off (len - int off) = Some (int (length ?b), m)"
    using rr_pack_bytes [of q rr scratch off "len - int off" mem] Cons.prems m by simp
  then have "pack_rrs scratch (length (rr # rrs)) (rr # rrs) mem off len
      = map_option (Pair (int (off + length ?b + length ?bs))) (store m (off + length ?b) ?bs)"
    using Cons.IH [of m "off + length ?b"] Cons.prems lm by simp
  also have "store m (off + length ?b) ?bs = store mem off (?b @ ?bs)"
    using store_then [OF fit] m by simp
  finally show ?case by (simp add: add.assoc)
qed

lemma pack_rrs_full:
  assumes "\<forall>rr \<in> set rrs. valid_rr q rr" and "length scratch = DNS_NAME_MAXLEN" and "len \<le> int (length mem)"
    and "int off \<le> len" and "len < int (off + length (rrs_bytes rrs))"
  shows "\<exists>m. pack_rrs scratch (length rrs) rrs mem off len = Some (-1, m)"
  using assms
proof (induction rrs arbitrary: mem off)
  case (Cons rr rrs)
  let ?b = "rr_bytes rr"
  have pack: "dns_rr_pack scratch rr mem off (len - int off) =
      (if len - int off < int (length ?b) then Some (-1, mem)
       else map_option (Pair (int (length ?b))) (store mem off ?b))"
    using Cons.prems by (intro rr_pack_bytes [of q]) simp_all
  show ?case
  proof (cases "len - int off < int (length ?b)")
    case True
    then show ?thesis using pack by simp
  next
    case False
    then obtain m where m: "store mem off ?b = Some m" using Cons.prems(3) by (simp add: store_def)
    with False Cons.IH [of m "off + length ?b"] Cons.prems store_length [OF m] pack show ?thesis by simp
  qed
qed simp

lemma unpack_rrs_bytes:
  assumes "\<forall>rr \<in> set rrs. valid_rr q rr" and "int (length pre + length (rrs_bytes rrs)) \<le> len"
  shows "unpack_rrs (length rrs) (pre @ rrs_bytes rrs @ post) (length pre) len q
    = Some (int (length pre + length (rrs_bytes rrs)), rrs)"
  using assms
proof (induction rrs arbitrary: pre)
  case (Cons rr rrs)
  have "dns_rr_unpack (pre @ rr_bytes rr @ (rrs_bytes rrs @ post)) (length pre) (len - int (length pre)) rr_zero q
      = Some (int (length (rr_bytes rr)), rr)"
    using Cons.prems by (intro rr_unpack_bytes) simp_all
  with Cons.IH [of "pre @ rr_bytes rr"] Cons.prems show ?case by (simp add: add.assoc)
qed simp

definition valid_dns :: "dns \<Rightarrow> bool" where
  "valid_dns d \<longleftrightarrow>
     unat (nquestion (hdr d)) = length (questions d) \<and> unat (nanswer (hdr d)) = length (answers d) \<and>
     unat (nauthority (hdr d)) = length (authorities d) \<and> unat (naddtional (hdr d)) = length (addtionals d) \<and>
     (\<forall>rr \<in> set (questions d). valid_rr True rr) \<and> (\<forall>rr \<in> set (answers d). valid_rr False rr) \<and>
     (\<forall>rr \<in> set (authorities d). valid_rr False rr) \<and> (\<forall>rr \<in> set (addtionals d). valid_rr False rr)"

definition dns_bytes :: "dns \<Rightarrow> byte list" where
  "dns_bytes d = hdr_bytes (hdr d) @ rrs_bytes (questions d) @ rrs_bytes (answers d) @
     rrs_bytes (authorities d) @ rrs_bytes (addtionals d)"

text \<open>What was packed so far: the bytes \<open>pre\<close> in front of the old contents, or a failure.\<close>

definition packed :: "byte list \<Rightarrow> int \<Rightarrow> byte list \<Rightarrow> byte list \<Rightarrow> int \<times> byte list" where
  "packed mem len pre m =
     (if int (length pre) \<le> len then (int (length pre), pre @ drop (length pre) mem) else (-1, m))"

lemma pack_section_bytes:
  assumes "\<forall>rr \<in> set rrs. valid_rr q rr" and "unat n = length rrs" and "length scratch = DNS_NAME_MAXLEN"
    and "len \<le> int (length mem)"
  shows "\<exists>m'. pack_section scratch n rrs len (packed mem len pre m) = Some (packed mem len (pre @ rrs_bytes rrs) m')"
proof (cases "int (length pre) \<le> len")
  case pre: True
  then have l: "length (pre @ drop (length pre) mem) = length mem" using assms(4) by simp
  show ?thesis
  proof (cases "int (length pre + length (rrs_bytes rrs)) \<le> len")
    case True
    have "store (pre @ drop (length pre) mem) (length pre) (rrs_bytes rrs)
        = Some ((pre @ rrs_bytes rrs) @ drop (length pre + length (rrs_bytes rrs)) mem)"
      using True assms(4) by (simp add: store_def add.commute)
    with True pre l show ?thesis
      using pack_rrs_bytes [OF assms(1,3), of len "pre @ drop (length pre) mem" "length pre"] assms(2,4)
      by (simp add: pack_section_def packed_def)
  next
    case False
    with pre l show ?thesis
      using pack_rrs_full [OF assms(1,3), of len "pre @ drop (length pre) mem" "length pre"] assms(2,4)
      by (simp add: pack_section_def packed_def)
  qed
qed (auto simp: pack_section_def packed_def)

lemma dns_pack_bytes:
  assumes "valid_dns d" and "length scratch = DNS_NAME_MAXLEN" and "len \<le> int (length mem)" and "12 \<le> len"
  shows "\<exists>m. dns_pack scratch d mem len = Some (packed mem len (dns_bytes d) m)"
proof -
  note v = assms(1) [unfolded valid_dns_def]
  let ?h = "hdr_bytes (hdr d)"
  have h: "store mem 0 ?h = Some (?h @ drop 12 mem)" using assms(3,4) by (simp add: store_def)
  have p: "packed mem len ?h m = (12, ?h @ drop 12 mem)" for m using assms(4) by (simp add: packed_def)
  note s = pack_section_bytes [OF _ _ assms(2,3)]
  obtain m1 where m1: "pack_section scratch (nquestion (hdr d)) (questions d) len (12, ?h @ drop 12 mem)
      = Some (packed mem len (?h @ rrs_bytes (questions d)) m1)"
    using s [of "questions d" True "nquestion (hdr d)" ?h] v unfolding p by blast
  obtain m2 where m2: "pack_section scratch (nanswer (hdr d)) (answers d) len (packed mem len (?h @ rrs_bytes (questions d)) m1)
      = Some (packed mem len ((?h @ rrs_bytes (questions d)) @ rrs_bytes (answers d)) m2)"
    using s [of "answers d" False "nanswer (hdr d)"] v by blast
  obtain m3 where m3: "pack_section scratch (nauthority (hdr d)) (authorities d) len
      (packed mem len ((?h @ rrs_bytes (questions d)) @ rrs_bytes (answers d)) m2)
      = Some (packed mem len (((?h @ rrs_bytes (questions d)) @ rrs_bytes (answers d)) @ rrs_bytes (authorities d)) m3)"
    using s [of "authorities d" False "nauthority (hdr d)"] v by blast
  obtain m4 where m4: "pack_section scratch (naddtional (hdr d)) (addtionals d) len
      (packed mem len (((?h @ rrs_bytes (questions d)) @ rrs_bytes (answers d)) @ rrs_bytes (authorities d)) m3)
      = Some (packed mem len ((((?h @ rrs_bytes (questions d)) @ rrs_bytes (answers d)) @ rrs_bytes (authorities d))
          @ rrs_bytes (addtionals d)) m4)"
    using s [of "addtionals d" False "naddtional (hdr d)"] v by blast
  have "dns_pack scratch d mem len = Some (packed mem len (dns_bytes d) m4)"
    using assms(4) by (simp add: dns_pack_def h m1 m2 m3 m4 dns_bytes_def append_assoc [symmetric] del: append_assoc)
  then show ?thesis ..
qed

lemma unpack_section_bytes:
  assumes "\<forall>rr \<in> set rrs. valid_rr q rr" and "unat n = length rrs" and "int (length pre + length (rrs_bytes rrs)) \<le> len"
    and "buf = pre @ rrs_bytes rrs @ post"
  shows "unpack_section n buf len q (int (length pre)) = Some (int (length (pre @ rrs_bytes rrs)), rrs)"
  using unpack_rrs_bytes [OF assms(1,3), of post] assms(2) by (simp add: unpack_section_def assms(4))

lemma dns_unpack_bytes:
  assumes "valid_dns d" and "int (length (dns_bytes d)) \<le> len"
  shows "dns_unpack (dns_bytes d @ post) len = Some (int (length (dns_bytes d)), d)"
proof -
  note v = assms(1) [unfolded valid_dns_def]
  let ?buf = "dns_bytes d @ post"
  let ?h = "hdr_bytes (hdr d)"
  let ?q = "?h @ rrs_bytes (questions d)"
  let ?a = "?q @ rrs_bytes (answers d)"
  let ?u = "?a @ rrs_bytes (authorities d)"
  let ?n = "?u @ rrs_bytes (addtionals d)"
  have n: "dns_bytes d = ?n" by (simp add: dns_bytes_def)
  have b: "bytes_at ?buf 0 12 = Some ?h" by (simp add: bytes_at_def dns_bytes_def)
  have l: "int (length ?n) \<le> len" using assms(2) unfolding n .
  have "unpack_section (nquestion (hdr d)) ?buf len True (int (length ?h)) = Some (int (length ?q), questions d)"
    by (rule unpack_section_bytes [where post = "rrs_bytes (answers d) @ rrs_bytes (authorities d) @ rrs_bytes (addtionals d) @ post"])
      (use v l in \<open>simp_all add: dns_bytes_def\<close>)
  moreover have "unpack_section (nanswer (hdr d)) ?buf len False (int (length ?q)) = Some (int (length ?a), answers d)"
    by (rule unpack_section_bytes [where post = "rrs_bytes (authorities d) @ rrs_bytes (addtionals d) @ post"])
      (use v l in \<open>simp_all add: dns_bytes_def\<close>)
  moreover have "unpack_section (nauthority (hdr d)) ?buf len False (int (length ?a)) = Some (int (length ?u), authorities d)"
    by (rule unpack_section_bytes [where post = "rrs_bytes (addtionals d) @ post"])
      (use v l in \<open>simp_all add: dns_bytes_def\<close>)
  moreover have "unpack_section (naddtional (hdr d)) ?buf len False (int (length ?u)) = Some (int (length ?n), addtionals d)"
    by (rule unpack_section_bytes [where post = post]) (use v l in \<open>simp_all add: dns_bytes_def\<close>)
  moreover have "\<not> len < 12" using l by simp
  ultimately show ?thesis
    using b unfolding dns_unpack_def n by (cases d) (simp add: hdr_roundtrip Let_def)
qed

section \<open>Results\<close>

text \<open>C23. A message whose counts match its sections and whose names consist of labels of 1 to 63
  characters is packed into the wire format exactly when it fits, otherwise the packer returns
  -1; unpacking what was packed gives the message back and consumes all of it.\<close>

theorem dns_pack_unpack:
  assumes "valid_dns d" and "length scratch = DNS_NAME_MAXLEN" and "len \<le> int (length mem)" and "12 \<le> len"
  shows "\<exists>r mem'. dns_pack scratch d mem len = Some (r, mem') \<and>
    (if int (length (dns_bytes d)) \<le> len
     then r = int (length (dns_bytes d)) \<and> take (length (dns_bytes d)) mem' = dns_bytes d \<and> dns_unpack mem' r = Some (r, d)
     else r = -1)"
proof -
  obtain m where "dns_pack scratch d mem len = Some (packed mem len (dns_bytes d) m)"
    using dns_pack_bytes [OF assms] by blast
  with dns_unpack_bytes [OF assms(1) order_refl] show ?thesis
    by (auto simp: packed_def)
qed

definition example_answer :: dns_rr where
  "example_answer = \<lparr>rr_name = [97, 46, 98], rtype = 1, rclass = 1, ttl = 60, datalen = 4, rr_data = Some [10, 0, 0, 1]\<rparr>"

definition example_response :: dns where
  "example_response =
     \<lparr>hdr = (hdr dns_zero)\<lparr>transaction_id := 7, qr := True, nanswer := 1\<rparr>,
      questions = [], answers = [example_answer], authorities = [], addtionals = []\<rparr>"

lemma example_answer_valid: "valid_rr False example_answer"
proof -
  have "rr_name example_answer = dotted [[97], [98]]" by (simp add: example_answer_def)
  moreover have "valid_label [97]" "valid_label [98]" by (simp_all add: valid_label_def)
  ultimately have "valid_name (rr_name example_answer)"
    unfolding valid_name_def by (intro conjI exI [of _ "[[97], [98]]"]) simp_all
  then show ?thesis by (simp add: valid_rr_def example_answer_def)
qed

lemma example_response_valid: "valid_dns example_response"
  using example_answer_valid
  by (simp add: valid_dns_def example_response_def dns_zero_def bytes_hdr_def ntohs_bytes_def)

lemma example_response_length: "length (dns_bytes example_response) = 31"
  using rr_bytes_length [OF example_answer_valid]
  by (simp add: dns_bytes_def example_response_def example_answer_def)

theorem dns_pack_unpack_witness:
  "\<exists>mem'. dns_pack (replicate 256 0) example_response (replicate 512 0) 512 = Some (31, mem')
     \<and> dns_unpack mem' 31 = Some (31, example_response)"
  using dns_pack_unpack [OF example_response_valid, of "replicate 256 0" 512 "replicate 512 0"]
  by (auto simp: example_response_length DNS_NAME_MAXLEN_def)

text \<open>Names on their own: encoding and decoding are inverse for every domain of valid labels.\<close>

theorem dns_name_roundtrip:
  assumes "ls \<noteq> []" and "\<forall>l \<in> set ls. valid_label l" and "length (dotted ls) < cap" and "length (dotted ls) + 2 \<le> length mem"
  shows "\<exists>n enc. dns_name_encode (dotted ls) mem = Some (n, enc) \<and> dns_name_decode cap enc = Some (n, dotted ls)"
proof -
  have "dns_name_encode (dotted ls) mem =
      Some (length (dotted ls) + 2, name_wire [] (dotted ls) @ 0 # drop (length (dotted ls) + 2) mem)"
    using name_encode_wire [OF assms(4)] last_part_labels [OF assms(1,2)] by simp
  with name_decode_wire [OF assms(1-3)] show ?thesis by auto
qed

text \<open>The root name, one zero byte, is not read back: the decoder takes the byte behind it for the
  terminator and counts two bytes.\<close>

theorem dns_root_name:
  "dns_name_encode [] [x, y] = Some (1, [0, 0]) \<and> dns_name_decode 256 (0 # 0 # post) = Some (2, [])"
  by (simp add: dns_name_encode_def dns_name_decode_def store_def)

text \<open>A domain of 255 characters fits into \<open>name\<close> but its encoding does not fit into
  \<open>encoded_name\<close>.\<close>

lemma name_encode_loop_pos:
  "name_encode_loop p mem plen pos len bl = Some (mem', plen', pos', len', bl')
    \<Longrightarrow> pos' = pos + length p \<and> length mem' = length mem"
proof (induction p arbitrary: mem plen pos len bl)
  case (Cons ch p)
  show ?case
  proof (cases "ch = dot")
    case True
    with Cons.prems obtain m where m: "store mem plen [of_nat len] = Some m"
      "name_encode_loop p m pos (pos + 1) 0 (bl + 1) = Some (mem', plen', pos', len', bl')"
      by (auto simp: bind_eq_Some_conv)
    from Cons.IH [OF m(2)] store_length [OF m(1)] show ?thesis by simp
  next
    case False
    with Cons.prems obtain m where m: "store mem pos [ch] = Some m"
      "name_encode_loop p m plen (pos + 1) (len + 1) (bl + 1) = Some (mem', plen', pos', len', bl')"
      by (auto simp: bind_eq_Some_conv)
    from Cons.IH [OF m(2)] store_length [OF m(1)] show ?thesis by simp
  qed
qed simp

theorem dns_long_name_overflows:
  assumes "length mem < length nm + 2"
  shows "dns_name_encode nm mem = None"
proof (cases "name_encode_loop nm mem 0 1 0 1")
  case (Some r)
  obtain m plen pos len bl where r: "r = (m, plen, pos, len, bl)" by (cases r)
  from name_encode_loop_pos [OF Some [unfolded r]] have p: "pos = 1 + length nm" "length m = length mem" by auto
  have "store m' pos [0] = None" if "store m plen [of_nat len] = Some m'" for m'
    using p assms store_length [OF that] by (simp add: store_def)
  then show ?thesis
    using Some [unfolded r One_nat_def]
    by (cases "store m plen [of_nat len]") (simp_all add: dns_name_encode_def)
qed (simp add: dns_name_encode_def)

lemma zero_counts: "nquestion (hdr dns_zero) = 0" "nanswer (hdr dns_zero) = 0" "nauthority (hdr dns_zero) = 0"
  "naddtional (hdr dns_zero) = 0"
  by (simp_all add: dns_zero_def bytes_hdr_def ntohs_bytes_def)

lemma lookup_query_valid:
  assumes "valid_name domain"
  obtains q where "lookup_query pid domain = Some q" "valid_dns q" "transaction_id (hdr q) = pid"
    "length (dns_bytes q) = length domain + 18"
proof -
  let ?rr = "rr_zero\<lparr>rr_name := domain, rtype := 1, rclass := 1\<rparr>"
  let ?q = "dns_zero\<lparr>hdr := (hdr dns_zero)\<lparr>transaction_id := pid, qr := False, rd := True, nquestion := 1\<rparr>,
    questions := [?rr]\<rparr>"
  have rr: "valid_rr True ?rr" using assms by (simp add: valid_rr_def rr_zero_def)
  have z: "questions dns_zero = []" "answers dns_zero = []" "authorities dns_zero = []" "addtionals dns_zero = []"
    by (simp_all add: dns_zero_def)
  have "lookup_query pid domain = Some ?q"
    using assms by (simp add: lookup_query_def valid_name_def DNS_NAME_MAXLEN_def)
  moreover have "valid_dns ?q" using rr by (simp add: valid_dns_def zero_counts z)
  moreover have "transaction_id (hdr ?q) = pid" by simp
  moreover have "length (dns_bytes ?q) = length domain + 18"
    using rr_bytes_length [OF rr] by (simp add: dns_bytes_def z)
  ultimately show thesis by (rule that)
qed

text \<open>A query whose packet is sent and answered by a valid message returns that message.\<close>

lemma dns_query_answered:
  assumes "valid_dns q" and "length (dns_bytes q) \<le> 1024" and "length scratch = DNS_NAME_MAXLEN" and "length buf0 = 1024"
    and "0 \<le> net_socket N" and "net_sent N (dns_bytes q) = int (length (dns_bytes q))"
    and "net_received N = Some (dns_bytes resp)" and "valid_dns resp" and "length (dns_bytes resp) \<le> 1024"
  shows "dns_query N scratch buf0 q = Some (0, Some resp, [SendTo (dns_bytes q), CloseSocket])"
proof -
  let ?b = "dns_bytes q" and ?r = "dns_bytes resp"
  obtain m where "dns_pack scratch q buf0 1024 = Some (packed buf0 1024 ?b m)"
    using dns_pack_bytes [OF assms(1,3), of 1024 buf0] assms(4) by auto
  then have p: "dns_pack scratch q buf0 1024 = Some (int (length ?b), ?b @ drop (length ?b) buf0)"
    using assms(2) by (simp add: packed_def)
  have r: "?r \<noteq> []" by (simp add: dns_bytes_def hdr_bytes_def htons_bytes_def)
  have s: "store (?b @ drop (length ?b) buf0) 0 ?r = Some (?r @ drop (length ?r) (?b @ drop (length ?b) buf0))"
    using assms(2,4,9) by (simp add: store_def)
  have u: "dns_unpack (?r @ drop (length ?r) (?b @ drop (length ?b) buf0)) (int (length ?r)) = Some (int (length ?r), resp)"
    by (rule dns_unpack_bytes [OF assms(8) order_refl])
  have t: "take 1024 ?r = ?r" using assms(9) by simp
  show ?thesis
    using p s u t r assms(5,6,7) unfolding dns_query_def by (simp add: bytes_at_def Let_def)
qed




text \<open>Nothing is read when no answer is an address, and the response is freed.\<close>

theorem nslookup_no_address:
  assumes "valid_name domain" and "length scratch = DNS_NAME_MAXLEN" and "length buf0 = 1024"
    and "0 \<le> net_socket N" and "\<forall>out. net_sent N out = int (length out)"
    and "net_received N = Some (dns_bytes resp)" and "valid_dns resp" and "length (dns_bytes resp) \<le> 1024"
    and "transaction_id (hdr resp) = pid" and "qr (hdr resp)" and "rcode (hdr resp) = 0"
    and "\<forall>rr \<in> set (answers resp). rtype rr \<noteq> 1"
  shows "\<exists>acts. nslookup N scratch buf0 pid domain naddr = Some (0, Some (dns_free resp), acts)"
proof -
  obtain q where q: "lookup_query pid domain = Some q" "valid_dns q" "transaction_id (hdr q) = pid"
    "length (dns_bytes q) = length domain + 18" by (rule lookup_query_valid [OF assms(1)])
  have "length domain \<le> 254" using assms(1) by (simp add: valid_name_def)
  then have "dns_query N scratch buf0 q = Some (0, Some resp, [SendTo (dns_bytes q), CloseSocket])"
    using q assms by (intro dns_query_answered) simp_all
  moreover have "collect_addrs rrs naddr 0 = Some 0" if "\<forall>rr \<in> set rrs. rtype rr \<noteq> 1" for rrs
    using that by (induction rrs) auto
  ultimately show ?thesis
    using q(1,3) assms(9-12) by (cases "nanswer (hdr resp) = 0") (simp_all add: nslookup_def)
qed

end
