(* ===== verification/Hqueue.thy ===== *)
theory Hqueue
  imports Prelude
begin

text \<open>
  \<open>src/libs/libhv/base/queue.h\<close>: the queue that the macro \<open>QUEUE_DECL\<close> generates, an array of which
  the elements from \<open>_offset\<close> on are in use. \<open>zero\<close> is an element of zero bytes, as fresh memory
  holds it. A failed assertion and an access outside the array are \<open>None\<close>.
\<close>

section \<open>The queue\<close>

record 'a hqueue =
  q_ptr :: "'a list"
  q_size :: nat
  q_maxsize :: nat
  q_offset :: nat

definition QUEUE_INIT_SIZE :: nat where
  "QUEUE_INIT_SIZE = 16"

definition queue_none :: "'a hqueue" where
  "queue_none = \<lparr>q_ptr = [], q_size = 0, q_maxsize = 0, q_offset = 0\<rparr>"

definition queue_empty :: "'a hqueue \<Rightarrow> bool" where
  "queue_empty p \<longleftrightarrow> q_size p = 0"

definition queue_front :: "'a hqueue \<Rightarrow> 'a option" where
  "queue_front p =
     (if q_size p = 0 \<or> length (q_ptr p) \<le> q_offset p then None else Some (q_ptr p ! q_offset p))"

definition queue_back :: "'a hqueue \<Rightarrow> 'a option" where
  "queue_back p =
     (if q_size p = 0 \<or> length (q_ptr p) \<le> q_offset p + q_size p - 1 then None
      else Some (q_ptr p ! (q_offset p + q_size p - 1)))"

text \<open>A store through the pointer that \<open>front\<close> returns.\<close>

definition queue_set_front :: "'a hqueue \<Rightarrow> 'a \<Rightarrow> 'a hqueue" where
  "queue_set_front p x = p\<lparr>q_ptr := (q_ptr p)[q_offset p := x]\<rparr>"

definition queue_init :: "'a \<Rightarrow> nat \<Rightarrow> 'a hqueue" where
  "queue_init zero maxsize =
     \<lparr>q_ptr = replicate maxsize zero, q_size = 0, q_maxsize = maxsize, q_offset = 0\<rparr>"

definition queue_clear :: "'a \<Rightarrow> 'a hqueue \<Rightarrow> 'a hqueue" where
  "queue_clear zero p = p\<lparr>q_offset := 0, q_size := 0, q_ptr := replicate (q_maxsize p) zero\<rparr>"

definition queue_cleanup :: "'a hqueue \<Rightarrow> 'a hqueue" where
  "queue_cleanup p = p\<lparr>q_ptr := [], q_offset := 0, q_size := 0, q_maxsize := 0\<rparr>"

definition queue_resize :: "'a \<Rightarrow> 'a hqueue \<Rightarrow> nat \<Rightarrow> 'a hqueue" where
  "queue_resize zero p maxsize =
     (let maxsize = (if maxsize = 0 then QUEUE_INIT_SIZE else maxsize)
      in p\<lparr>q_ptr := take maxsize (q_ptr p) @ replicate (maxsize - q_maxsize p) zero, q_maxsize := maxsize\<rparr>)"

definition queue_double_resize :: "'a \<Rightarrow> 'a hqueue \<Rightarrow> 'a hqueue" where
  "queue_double_resize zero p = queue_resize zero p (q_maxsize p * 2)"

definition queue_move :: "'a hqueue \<Rightarrow> 'a hqueue" where
  "queue_move p = p\<lparr>q_ptr := take (q_size p) (drop (q_offset p) (q_ptr p)) @ drop (q_size p) (q_ptr p), q_offset := 0\<rparr>"

definition queue_make_room :: "'a \<Rightarrow> 'a hqueue \<Rightarrow> 'a hqueue" where
  "queue_make_room zero p =
     (if q_size p = q_maxsize p then queue_double_resize zero p
      else if q_offset p + q_size p = q_maxsize p then queue_move p
      else p)"

definition queue_push_back :: "'a \<Rightarrow> 'a hqueue \<Rightarrow> 'a \<Rightarrow> 'a hqueue option" where
  "queue_push_back zero p elem =
     (let p = queue_make_room zero p
      in if q_offset p + q_size p < length (q_ptr p)
         then Some (p\<lparr>q_ptr := (q_ptr p)[q_offset p + q_size p := elem], q_size := q_size p + 1\<rparr>)
         else None)"

definition queue_pop_front :: "'a hqueue \<Rightarrow> 'a hqueue option" where
  "queue_pop_front p =
     (if q_size p = 0 then None
      else let off = q_offset p + 1
           in Some (p\<lparr>q_size := q_size p - 1, q_offset := (if off = q_maxsize p then 0 else off)\<rparr>))"

definition queue_pop_back :: "'a hqueue \<Rightarrow> 'a hqueue option" where
  "queue_pop_back p = (if q_size p = 0 then None else Some (p\<lparr>q_size := q_size p - 1\<rparr>))"

section \<open>A first-in first-out queue\<close>

text \<open>What a user of the queue relies on: \<open>items\<close> are its elements, oldest first.\<close>

locale fifo =
  fixes wf :: "'q \<Rightarrow> bool"
    and items :: "'q \<Rightarrow> 'a list"
    and isempty :: "'q \<Rightarrow> bool"
    and front :: "'q \<Rightarrow> 'a option"
    and set_front :: "'q \<Rightarrow> 'a \<Rightarrow> 'q"
    and push :: "'q \<Rightarrow> 'a \<Rightarrow> 'q option"
    and pop :: "'q \<Rightarrow> 'q option"
  assumes empty_iff: "wf q \<Longrightarrow> isempty q \<longleftrightarrow> items q = []"
    and front_items: "wf q \<Longrightarrow> front q = (case items q of [] \<Rightarrow> None | x # _ \<Rightarrow> Some x)"
    and set_front_items: "\<lbrakk>wf q; items q = x # xs\<rbrakk> \<Longrightarrow> wf (set_front q y) \<and> items (set_front q y) = y # xs"
    and push_items: "wf q \<Longrightarrow> \<exists>q'. push q y = Some q' \<and> wf q' \<and> items q' = items q @ [y]"
    and pop_items: "\<lbrakk>wf q; items q = x # xs\<rbrakk> \<Longrightarrow> \<exists>q'. pop q = Some q' \<and> wf q' \<and> items q' = xs"
    and pop_nothing: "\<lbrakk>wf q; items q = []\<rbrakk> \<Longrightarrow> pop q = None"
begin

lemma front_cons: "wf q \<Longrightarrow> front q = Some x \<longleftrightarrow> (\<exists>xs. items q = x # xs)"
  by (auto simp: front_items split: list.splits)

lemma pop_some: "\<lbrakk>wf q; pop q = Some q'\<rbrakk> \<Longrightarrow> \<exists>x. items q = x # items q' \<and> wf q'"
  using pop_items [of q] pop_nothing [of q] by (cases "items q") fastforce+

text \<open>A run of pushes (\<open>Some x\<close>) and pops (\<open>None\<close>): the state and the elements popped.\<close>

primrec run :: "'a option list \<Rightarrow> 'q \<Rightarrow> ('q \<times> 'a list) option" where
  "run [] q = Some (q, [])"
| "run (c # cs) q = (case c of
     Some x \<Rightarrow> Option.bind (push q x) (run cs)
   | None \<Rightarrow> Option.bind (front q) (\<lambda>y. Option.bind (pop q) (\<lambda>q'. map_option (apsnd ((#) y)) (run cs q'))))"

lemma run_fifo:
  assumes "wf q" and "run cs q = Some (q', out)"
  shows "wf q' \<and> out @ items q' = items q @ List.map_filter id cs"
  using assms
proof (induction cs arbitrary: q out)
  case Nil
  then show ?case by (simp add: List.map_filter_def)
next
  case (Cons c cs)
  show ?case
  proof (cases c)
    case (Some x)
    with Cons push_items [OF Cons.prems(1), of x] show ?thesis by (fastforce simp: List.map_filter_def)
  next
    case None
    from Cons.prems(2) obtain y q1 o1 where y: "front q = Some y" "pop q = Some q1" "run cs q1 = Some (q', o1)"
      "out = y # o1" by (auto simp: None bind_eq_Some_conv)
    from y(1) Cons.prems(1) obtain xs where "items q = y # xs" by (auto simp: front_cons)
    with pop_some [OF Cons.prems(1) y(2)] Cons.IH [of q1 o1] y show ?thesis by (auto simp: None List.map_filter_def)
  qed
qed

end

section \<open>The macros implement it\<close>

definition queue_wf :: "'a hqueue \<Rightarrow> bool" where
  "queue_wf p \<longleftrightarrow> length (q_ptr p) = q_maxsize p \<and> q_offset p + q_size p \<le> q_maxsize p"

definition queue_items :: "'a hqueue \<Rightarrow> 'a list" where
  "queue_items p = take (q_size p) (drop (q_offset p) (q_ptr p))"

lemma queue_items_length: "queue_wf p \<Longrightarrow> length (queue_items p) = q_size p"
  by (auto simp: queue_wf_def queue_items_def)

lemma queue_room:
  assumes "queue_wf p"
  shows "queue_wf (queue_make_room zero p) \<and>
    q_offset (queue_make_room zero p) + q_size (queue_make_room zero p) < q_maxsize (queue_make_room zero p) \<and>
    queue_items (queue_make_room zero p) = queue_items p"
proof -
  consider (full) "q_size p = q_maxsize p" | (right) "q_size p \<noteq> q_maxsize p" "q_offset p + q_size p = q_maxsize p"
    | (free) "q_size p \<noteq> q_maxsize p" "q_offset p + q_size p \<noteq> q_maxsize p" by blast
  then show ?thesis
  proof cases
    case full
    with assms have "q_offset p = 0" by (simp add: queue_wf_def)
    with full assms show ?thesis
      by (auto simp: queue_make_room_def queue_wf_def queue_items_def queue_double_resize_def queue_resize_def
          QUEUE_INIT_SIZE_def Let_def)
  next
    case right
    with assms show ?thesis
      by (auto simp: queue_make_room_def queue_wf_def queue_items_def queue_move_def)
  next
    case free
    with assms show ?thesis by (auto simp: queue_make_room_def queue_wf_def)
  qed
qed

lemma queue_push_items:
  assumes "queue_wf p"
  shows "\<exists>p'. queue_push_back zero p x = Some p' \<and> queue_wf p' \<and> queue_items p' = queue_items p @ [x]"
proof -
  let ?p = "queue_make_room zero p"
  have r: "queue_wf ?p" "q_offset ?p + q_size ?p < q_maxsize ?p" "queue_items ?p = queue_items p"
    using queue_room [OF assms] by blast+
  have l: "q_offset ?p + q_size ?p < length (q_ptr ?p)" using r(1,2) by (simp add: queue_wf_def)
  let ?q = "?p\<lparr>q_ptr := (q_ptr ?p)[q_offset ?p + q_size ?p := x], q_size := q_size ?p + 1\<rparr>"
  have "queue_push_back zero p x = Some ?q" using l by (simp add: queue_push_back_def Let_def)
  moreover have "queue_wf ?q" using r(1,2) by (simp add: queue_wf_def)
  moreover have "queue_items ?q = queue_items ?p @ [x]"
    using l unfolding queue_items_def
    by (simp add: take_Suc_conv_app_nth drop_update_swap)
  ultimately show ?thesis using r(3) by auto
qed

lemma queue_pop_items:
  assumes "queue_wf p" and "queue_items p = x # xs"
  shows "\<exists>p'. queue_pop_front p = Some p' \<and> queue_wf p' \<and> queue_items p' = xs"
proof -
  have n: "q_size p = Suc (length xs)" using queue_items_length [OF assms(1)] assms(2) by simp
  have d: "drop (q_offset p) (q_ptr p) = x # drop (Suc (q_offset p)) (q_ptr p)"
  proof -
    have o: "q_offset p < length (q_ptr p)" using assms(1) n by (simp add: queue_wf_def)
    note c = Cons_nth_drop_Suc [OF this]
    have "take (Suc (length xs)) (q_ptr p ! q_offset p # drop (Suc (q_offset p)) (q_ptr p)) = x # xs"
      unfolding c using assms(2) n by (simp add: queue_items_def)
    then have "q_ptr p ! q_offset p = x" by simp
    with c show ?thesis by (simp only:)
  qed
  then have xs: "xs = take (length xs) (drop (Suc (q_offset p)) (q_ptr p))"
    using assms(2) n by (simp add: queue_items_def)
  show ?thesis
    using assms(1) n xs by (auto simp: queue_pop_front_def queue_wf_def queue_items_def)
qed

interpretation hq: fifo queue_wf queue_items queue_empty queue_front queue_set_front
  "queue_push_back zero" queue_pop_front for zero
proof
  fix q :: "'a hqueue" and x y xs
  assume wf: "queue_wf q"
  note n = queue_items_length [OF wf]
  show "queue_empty q \<longleftrightarrow> queue_items q = []"
    using n by (auto simp: queue_empty_def)
  show "queue_front q = (case queue_items q of [] \<Rightarrow> None | x # _ \<Rightarrow> Some x)"
  proof (cases "q_size q")
    case (Suc k)
    then have "q_offset q < length (q_ptr q)" using wf by (simp add: queue_wf_def)
    with Suc show ?thesis
      by (simp add: queue_front_def queue_items_def Cons_nth_drop_Suc [symmetric])
  qed (simp add: queue_front_def queue_items_def)
  show "\<exists>q'. queue_push_back zero q y = Some q' \<and> queue_wf q' \<and> queue_items q' = queue_items q @ [y]"
    by (rule queue_push_items [OF wf])
  show "queue_pop_front q = None" if "queue_items q = []"
    using that n by (simp add: queue_pop_front_def)
  assume items: "queue_items q = x # xs"
  show "\<exists>q'. queue_pop_front q = Some q' \<and> queue_wf q' \<and> queue_items q' = xs"
    by (rule queue_pop_items [OF wf items])
  have "0 < q_size q" using n items by simp
  then have o: "q_offset q < length (q_ptr q)" using wf by (simp add: queue_wf_def)
  have "take (q_size q) (drop (q_offset q) ((q_ptr q)[q_offset q := y])) = y # xs"
    using items o \<open>0 < q_size q\<close>
    by (cases "q_size q") (auto simp: queue_items_def Cons_nth_drop_Suc [symmetric])
  then show "queue_wf (queue_set_front q y) \<and> queue_items (queue_set_front q y) = y # xs"
    using wf by (simp add: queue_set_front_def queue_wf_def queue_items_def)
qed

end
