(* ===== verification/Writebuf.thy ===== *)
theory Writebuf
  imports Hqueue "HOL-Library.Monad_Syntax" "HOL-Library.Sublist"
begin

text \<open>
  The sending side of a connection: \<open>hio_write\<close>, \<open>nio_write\<close>, \<open>hio_close\<close> and the write half of
  \<open>hio_handle_events\<close> in \<open>src/libs/libhv/event/nio.c\<close>, \<open>hio_done\<close> in \<open>event/hevent.c\<close>. The socket is a
  list of answers to \<open>send\<close>. What the code does to the outside, and what \<open>hio_write\<close> returned, is a
  log. The mutex makes each function one step, so threads are sequences of calls; a callback
  that calls back into the connection is a list of commands. KCP, which has its own queue, and
  the loop's count of active events are left out.
\<close>

section \<open>State\<close>

record offset_buf =
  ob_base :: "byte list"
  ob_len :: nat
  ob_offset :: nat

definition ob_zero :: offset_buf where
  "ob_zero = \<lparr>ob_base = [], ob_len = 0, ob_offset = 0\<rparr>"

datatype w_action =
    Sent "byte list"
  | WriteCb "byte list"
  | Returned "byte list" int
  | WatchWrite | UnwatchWrite
  | StartCloseTimer int | StopTimers
  | CloseCb | CloseSocket | PostClose

record wio =
  w_closed :: bool
  w_close :: bool
  w_error :: int
  w_stream :: bool
  w_socket :: bool
  w_watch :: bool
  w_queue :: "offset_buf hqueue"
  w_bufsize :: u32
  w_max :: u32
  w_close_timeout :: int
  w_log :: "w_action list"

definition EAGAIN :: int where "EAGAIN = 11"
definition EINTR :: int where "EINTR = 4"
definition ETIMEDOUT :: int where "ETIMEDOUT = 110"
definition ERR_OVER_LIMIT :: int where "ERR_OVER_LIMIT = 1022"
definition HIO_DEFAULT_CLOSE_TIMEOUT :: int where "HIO_DEFAULT_CLOSE_TIMEOUT = 60000"
definition MAX_WRITE_BUFSIZE :: u32 where "MAX_WRITE_BUFSIZE = 2 ^ 24"

text \<open>What \<open>hio_ready\<close> sets of this state; the queue is created by the first write that needs it.\<close>

definition wio_ready :: "bool \<Rightarrow> bool \<Rightarrow> wio" where
  "wio_ready stream socket =
     \<lparr>w_closed = False, w_close = False, w_error = 0, w_stream = stream, w_socket = socket, w_watch = False,
      w_queue = queue_none, w_bufsize = 0, w_max = MAX_WRITE_BUFSIZE, w_close_timeout = 0, w_log = []\<rparr>"

definition w_act :: "w_action \<Rightarrow> wio \<Rightarrow> wio" where
  "w_act a w = w\<lparr>w_log := w_log w @ [a]\<rparr>"

section \<open>Operations\<close>

text \<open>\<open>hio_add\<close> and \<open>hio_del\<close> for \<open>HV_WRITE\<close>.\<close>

definition hio_add_write :: "wio \<Rightarrow> wio" where
  "hio_add_write w = (if w_watch w then w else w_act WatchWrite (w\<lparr>w_watch := True\<rparr>))"

definition hio_del_write :: "wio \<Rightarrow> wio" where
  "hio_del_write w = (if w_watch w then w_act UnwatchWrite (w\<lparr>w_watch := False\<rparr>) else w)"

text \<open>The loop of \<open>hio_done\<close> that frees the buffers, and \<open>write_queue_cleanup\<close>. Here \<open>hio_done\<close> is called by
  \<open>hio_close\<close> only, when \<open>closed\<close> was just set, so the flag \<open>ready\<close> that keeps it from running twice is left out.\<close>

function drop_all :: "'a hqueue \<Rightarrow> 'a hqueue" where
  "drop_all q = (case queue_pop_front q of None \<Rightarrow> q | Some q' \<Rightarrow> drop_all q')"
  by pat_completeness auto
termination
  by (relation "measure q_size") (auto simp: queue_pop_front_def Let_def split: if_splits)

declare drop_all.simps [simp del]

definition hio_done :: "wio \<Rightarrow> wio" where
  "hio_done w = (let w = hio_del_write w in w\<lparr>w_queue := queue_cleanup (drop_all (w_queue w))\<rparr>)"

text \<open>\<open>in_loop\<close>: the caller is the thread of the loop.\<close>

definition hio_close :: "bool \<Rightarrow> wio \<Rightarrow> wio" where
  "hio_close in_loop w =
     (if w_closed w then w
      else if \<not> in_loop then w_act PostClose w
      else if \<not> queue_empty (w_queue w) \<and> w_error w = 0 \<and> \<not> w_close w
      then w_act (StartCloseTimer (if w_close_timeout w \<noteq> 0 then w_close_timeout w else HIO_DEFAULT_CLOSE_TIMEOUT))
             (w\<lparr>w_close := True\<rparr>)
      else let w = w_act CloseCb (w_act StopTimers (hio_done (w\<lparr>w_closed := True\<rparr>)))
           in if w_socket w then w_act CloseSocket w else w)"

text \<open>The answer of \<open>send\<close>: a number of bytes, which is at most the number offered, or \<open>errno\<close>.\<close>

datatype send_answer = SendN nat | SendFail int

definition try_again :: "int \<Rightarrow> bool" where
  "try_again err \<longleftrightarrow> err = EAGAIN \<or> err = EINTR"

text \<open>The ends of \<open>hio_write\<close>: \<open>write_done\<close>, and \<open>write_error\<close> with \<open>disconnect\<close>. Nothing of the connection is
  touched after the callback of \<open>write_done\<close>, so what that callback does are later steps.\<close>

definition write_done :: "byte list \<Rightarrow> nat \<Rightarrow> wio \<Rightarrow> int \<times> wio" where
  "write_done buf nwrite w =
     (let w = w_act (Returned buf (int nwrite)) w
      in (int nwrite, if nwrite > 0 then w_act (WriteCb (take nwrite buf)) w else w))"

definition write_failed :: "byte list \<Rightarrow> wio \<Rightarrow> int \<times> wio" where
  "write_failed buf w =
     (let w = (if w_stream w then w_act PostClose w else w) in (-1, w_act (Returned buf (-1)) w))"

definition write_enqueue :: "byte list \<Rightarrow> nat \<Rightarrow> wio \<Rightarrow> (int \<times> wio) option" where
  "write_enqueue buf nwrite w =
     (if nwrite < length buf then
        if unat (w_bufsize w) + length buf - nwrite > unat (w_max w)
        then Some (write_failed buf (w\<lparr>w_error := ERR_OVER_LIMIT\<rparr>))
        else let q = (if q_maxsize (w_queue w) = 0 then queue_init ob_zero 4 else w_queue w);
                 n = length buf - nwrite
             in do {
               q \<leftarrow> queue_push_back ob_zero q \<lparr>ob_base = drop nwrite buf, ob_len = n, ob_offset = 0\<rparr>;
               Some (write_done buf nwrite (w\<lparr>w_queue := q, w_bufsize := w_bufsize w + of_nat n\<rparr>))
             }
      else Some (write_done buf nwrite w))"

definition hio_write :: "byte list \<Rightarrow> send_answer \<Rightarrow> wio \<Rightarrow> (int \<times> wio) option" where
  "hio_write buf answer w =
     (if w_closed w then Some (-1, w_act (Returned buf (-1)) w)
      else if queue_empty (w_queue w) then
        (case answer of
           SendFail err \<Rightarrow>
             if try_again err then write_enqueue buf 0 (hio_add_write w)
             else Some (write_failed buf (w\<lparr>w_error := err\<rparr>))
         | SendN k \<Rightarrow>
             let nwrite = min k (length buf);
                 w = w_act (Sent (take nwrite buf)) w
             in if nwrite = 0 then Some (write_failed buf w)
                else if nwrite = length buf then Some (write_done buf nwrite w)
                else write_enqueue buf nwrite (hio_add_write w))
      else write_enqueue buf 0 w)"

text \<open>What the write callback does to the connection.\<close>

datatype w_cmd = CbWrite "byte list" send_answer | CbClose

fun run_cmds :: "w_cmd list \<Rightarrow> wio \<Rightarrow> wio option" where
  "run_cmds [] w = Some w"
| "run_cmds (CbWrite buf answer # cs) w = Option.bind (hio_write buf answer w) (\<lambda>(_, w). run_cmds cs w)"
| "run_cmds (CbClose # cs) w = run_cmds cs (hio_close True w)"

text \<open>\<open>nio_write\<close>, with the answers of the socket and what the callback does after each; when the list
  is used up the socket answers \<open>EAGAIN\<close>.\<close>

definition write_broken :: "wio \<Rightarrow> wio" where
  "write_broken w = (if w_stream w then hio_close True w else w)"

datatype w_next = Leave wio | Continue wio

definition nio_send :: "send_answer \<Rightarrow> w_cmd list \<Rightarrow> wio \<Rightarrow> w_next option" where
  "nio_send answer cmds w =
     (case answer of
        SendFail err \<Rightarrow> Some (Leave (if try_again err then w else write_broken (w\<lparr>w_error := err\<rparr>)))
      | SendN k \<Rightarrow> do {
          pbuf \<leftarrow> queue_front (w_queue w);
          let len = ob_len pbuf - ob_offset pbuf;
          let nwrite = min k len;
          let buf = take nwrite (drop (ob_offset pbuf) (ob_base pbuf));
          let w = w_act (Sent buf) w;
          (if nwrite = 0 then Some (Leave (write_broken w))
           else do {
             w \<leftarrow> run_cmds cmds (w_act (WriteCb buf)
               (w\<lparr>w_queue := queue_set_front (w_queue w) (pbuf\<lparr>ob_offset := ob_offset pbuf + nwrite\<rparr>),
                  w_bufsize := w_bufsize w - of_nat nwrite\<rparr>));
             (if nwrite = len then do {
                q \<leftarrow> queue_pop_front (w_queue w);
                let w = w\<lparr>w_queue := q\<rparr>;
                Some (if w_closed w then Leave w else Continue w)
              }
              else Some (Leave w))
           })
        })"

definition nio_flushed :: "wio \<Rightarrow> wio" where
  "nio_flushed w = (if w_close w then hio_close True (w\<lparr>w_close := False\<rparr>) else w)"

primrec nio_write :: "(send_answer \<times> w_cmd list) list \<Rightarrow> wio \<Rightarrow> wio option" where
  "nio_write [] w = Some (if queue_empty (w_queue w) then nio_flushed w else w)"
| "nio_write (t # ts) w =
     (if queue_empty (w_queue w) then Some (nio_flushed w)
      else Option.bind (nio_send (fst t) (snd t) w) (\<lambda>r. case r of
             Leave w \<Rightarrow> Some w
           | Continue w \<Rightarrow> nio_write ts w))"

text \<open>The write half of \<open>hio_handle_events\<close>, for a connection that is established.\<close>

definition hio_handle_writable :: "(send_answer \<times> w_cmd list) list \<Rightarrow> wio \<Rightarrow> wio option" where
  "hio_handle_writable ts w =
     (if w_watch w
      then nio_write ts (if queue_empty (w_queue w) then hio_del_write w else w)
      else Some w)"

definition close_timeout_cb :: "wio \<Rightarrow> wio" where
  "close_timeout_cb w = hio_close True (w\<lparr>w_error := ETIMEDOUT\<rparr>)"

section \<open>The invariant\<close>

text \<open>What was given to the socket, what was accepted from callers, and what waits in the queue.\<close>

definition sent_of :: "w_action list \<Rightarrow> byte list" where
  "sent_of l = concat (map (\<lambda>a. case a of Sent b \<Rightarrow> b | _ \<Rightarrow> []) l)"

definition accepted_of :: "w_action list \<Rightarrow> byte list" where
  "accepted_of l = concat (map (\<lambda>a. case a of Returned b r \<Rightarrow> if 0 \<le> r then b else [] | _ \<Rightarrow> []) l)"

definition rest_of :: "offset_buf \<Rightarrow> byte list" where
  "rest_of b = drop (ob_offset b) (ob_base b)"

definition queued :: "wio \<Rightarrow> byte list" where
  "queued w = concat (map rest_of (queue_items (w_queue w)))"

text \<open>\<open>mid\<close> is the state inside \<open>nio_write\<close> while the callback runs: the first buffer is still in the
  queue and may be used up.\<close>

definition bufs_ok :: "bool \<Rightarrow> offset_buf list \<Rightarrow> bool" where
  "bufs_ok mid bs \<longleftrightarrow> (\<forall>b \<in> set bs. ob_len b = length (ob_base b)) \<and>
     (case bs of [] \<Rightarrow> True
      | b # bs \<Rightarrow> (if mid then ob_offset b \<le> ob_len b else ob_offset b < ob_len b) \<and> (\<forall>b \<in> set bs. ob_offset b < ob_len b))"

definition w_inv :: "bool \<Rightarrow> wio \<Rightarrow> bool" where
  "w_inv mid w \<longleftrightarrow>
     queue_wf (w_queue w) \<and> bufs_ok mid (queue_items (w_queue w)) \<and>
     (w_error w = 0 \<longrightarrow> prefix (sent_of (w_log w)) (accepted_of (w_log w))) \<and>
     (if w_closed w then queue_items (w_queue w) = []
      else (w_error w = 0 \<longrightarrow> sent_of (w_log w) @ queued w = accepted_of (w_log w)) \<and>
           unat (w_bufsize w) = length (queued w) \<and> unat (w_bufsize w) \<le> unat (w_max w) \<and>
           (queue_items (w_queue w) \<noteq> [] \<longrightarrow> w_watch w) \<and>
           (mid \<longrightarrow> queue_items (w_queue w) \<noteq> []))"

lemma log_simps [simp]:
  "sent_of [] = []" "accepted_of [] = []"
  "sent_of (l @ l') = sent_of l @ sent_of l'" "accepted_of (l @ l') = accepted_of l @ accepted_of l'"
  "sent_of (a # l) = (case a of Sent b \<Rightarrow> b | _ \<Rightarrow> []) @ sent_of l"
  "accepted_of (a # l) = (case a of Returned b r \<Rightarrow> if 0 \<le> r then b else [] | _ \<Rightarrow> []) @ accepted_of l"
  by (simp_all add: sent_of_def accepted_of_def)

lemma act_fields [simp]:
  "w_closed (w_act a w) = w_closed w" "w_close (w_act a w) = w_close w" "w_error (w_act a w) = w_error w"
  "w_stream (w_act a w) = w_stream w" "w_socket (w_act a w) = w_socket w" "w_watch (w_act a w) = w_watch w"
  "w_queue (w_act a w) = w_queue w" "w_bufsize (w_act a w) = w_bufsize w" "w_max (w_act a w) = w_max w"
  "w_close_timeout (w_act a w) = w_close_timeout w" "w_log (w_act a w) = w_log w @ [a]"
  "queued (w_act a w) = queued w"
  by (simp_all add: w_act_def queued_def)

lemma add_write_fields [simp]:
  "w_closed (hio_add_write w) = w_closed w" "w_close (hio_add_write w) = w_close w" "w_error (hio_add_write w) = w_error w"
  "w_stream (hio_add_write w) = w_stream w" "w_watch (hio_add_write w)" "w_queue (hio_add_write w) = w_queue w"
  "w_bufsize (hio_add_write w) = w_bufsize w" "w_max (hio_add_write w) = w_max w"
  "sent_of (w_log (hio_add_write w)) = sent_of (w_log w)" "accepted_of (w_log (hio_add_write w)) = accepted_of (w_log w)"
  by (simp_all add: hio_add_write_def)

lemma del_write_fields [simp]:
  "w_closed (hio_del_write w) = w_closed w" "w_close (hio_del_write w) = w_close w" "w_error (hio_del_write w) = w_error w"
  "w_stream (hio_del_write w) = w_stream w" "w_socket (hio_del_write w) = w_socket w" "w_queue (hio_del_write w) = w_queue w"
  "w_bufsize (hio_del_write w) = w_bufsize w" "w_max (hio_del_write w) = w_max w"
  "sent_of (w_log (hio_del_write w)) = sent_of (w_log w)" "accepted_of (w_log (hio_del_write w)) = accepted_of (w_log w)"
  by (simp_all add: hio_del_write_def)

lemma queue_none_wf: "queue_wf queue_none" "queue_items queue_none = []" "queue_empty queue_none"
  by (simp_all add: queue_wf_def queue_none_def queue_items_def queue_empty_def)

lemma queue_init_wf: "queue_wf (queue_init z n)" "queue_items (queue_init z n) = []"
  by (simp_all add: queue_wf_def queue_init_def queue_items_def)

lemma queue_cleanup_wf: "queue_wf (queue_cleanup q)" "queue_items (queue_cleanup q) = []"
  by (simp_all add: queue_wf_def queue_cleanup_def queue_items_def)

lemma bufs_ok_Nil [simp]: "bufs_ok mid []"
  by (simp add: bufs_ok_def)

lemma bufs_ok_append:
  "\<lbrakk>bufs_ok mid bs; ob_len b = length (ob_base b); ob_offset b < ob_len b\<rbrakk> \<Longrightarrow> bufs_ok mid (bs @ [b])"
  by (cases bs) (auto simp: bufs_ok_def)

lemma bufs_ok_weaken: "bufs_ok False bs \<Longrightarrow> bufs_ok mid bs"
  by (cases bs) (auto simp: bufs_ok_def)

lemma wio_ready_inv: "w_inv False (wio_ready stream socket)"
  by (simp add: w_inv_def wio_ready_def queue_none_wf queued_def)

section \<open>The operations keep the invariant\<close>

lemma hio_close_inv:
  assumes "w_inv mid w"
  shows "w_inv mid (hio_close in_loop w)"
  using assms
  by (auto simp: w_inv_def hio_close_def hio_done_def Let_def queue_cleanup_wf queued_def)

lemma hio_close_queue:
  assumes "w_inv mid w"
  shows "w_closed (hio_close in_loop w) \<or> queue_items (w_queue (hio_close in_loop w)) = queue_items (w_queue w)"
  by (auto simp: hio_close_def hio_done_def Let_def)

lemma write_done_inv:
  assumes "queue_wf (w_queue w)" "bufs_ok mid (queue_items (w_queue w))" "\<not> w_closed w"
    "w_error w = 0 \<longrightarrow> sent_of (w_log w) @ queued w = accepted_of (w_log w) @ buf"
    "unat (w_bufsize w) = length (queued w)" "unat (w_bufsize w) \<le> unat (w_max w)"
    "queue_items (w_queue w) \<noteq> [] \<longrightarrow> w_watch w" "mid \<longrightarrow> queue_items (w_queue w) \<noteq> []"
  shows "w_inv mid (snd (write_done buf n w))"
proof -
  have "prefix (sent_of (w_log w)) (accepted_of (w_log w) @ buf)" if "w_error w = 0"
    using assms(4) that by (metis prefixI)
  then show ?thesis
    using assms by (auto simp: w_inv_def write_done_def Let_def queued_def)
qed

lemma write_failed_inv: "w_inv mid w \<Longrightarrow> w_inv mid (snd (write_failed buf w))"
  by (auto simp: w_inv_def write_failed_def Let_def queued_def)

lemma error_inv: "\<lbrakk>w_inv mid w; e \<noteq> 0\<rbrakk> \<Longrightarrow> w_inv mid (w\<lparr>w_error := e\<rparr>)"
  by (auto simp: w_inv_def queued_def)

lemma write_done_queue [simp]: "w_queue (snd (write_done buf n w)) = w_queue w"
  by (simp add: write_done_def Let_def)

lemma unat_add_small:
  "unat (x :: u32) + n \<le> unat (y :: u32) \<Longrightarrow> unat (x + of_nat n) = unat x + n"
proof -
  assume a: "unat x + n \<le> unat y"
  have b: "unat y < 2 ^ 32" using unsigned_less [of y] by simp
  with a have "n < 2 ^ 32" by linarith
  then have "unat (of_nat n :: u32) = n" by simp
  with a b show ?thesis by (simp add: unat_word_ariths)
qed

text \<open>Enqueueing the rest of \<open>buf\<close>, of which \<open>nwrite\<close> bytes were given to the socket.\<close>

lemma write_enqueue_inv:
  assumes "w_inv mid w'" and "\<not> w_closed w" and "nwrite \<le> length buf"
    and "w_queue w = w_queue w'" and "w_error w = w_error w'" and "w_bufsize w = w_bufsize w'" and "w_max w = w_max w'"
    and "accepted_of (w_log w) = accepted_of (w_log w')" and "sent_of (w_log w) = sent_of (w_log w') @ take nwrite buf"
    and "w_watch w" and "0 < nwrite \<longrightarrow> queue_items (w_queue w) = []" and "w_closed w = w_closed w'"
  shows "\<exists>r w''. write_enqueue buf nwrite w = Some (r, w'') \<and> w_inv mid w'' \<and>
    (queue_items (w_queue w) \<noteq> [] \<longrightarrow> w_closed w'' \<or> queue_items (w_queue w'') \<noteq> [])"
proof -
  have pend: "queued w = queued w'" by (simp add: queued_def assms(4))
  have old: "w_error w = 0 \<longrightarrow> sent_of (w_log w') @ queued w = accepted_of (w_log w)"
    "unat (w_bufsize w) = length (queued w)" "unat (w_bufsize w) \<le> unat (w_max w)"
    "queue_wf (w_queue w)" "bufs_ok mid (queue_items (w_queue w))" "mid \<longrightarrow> queue_items (w_queue w) \<noteq> []"
    using assms pend by (auto simp: w_inv_def)
  show ?thesis
  proof (cases "nwrite < length buf")
    case False
    then have n: "nwrite = length buf" using assms(3) by simp
    have "w_error w = 0 \<longrightarrow> sent_of (w_log w) @ queued w = accepted_of (w_log w) @ buf"
      using old(1) n assms(9,11) by (cases "0 < nwrite") (auto simp: queued_def)
    then have "w_inv mid (snd (write_done buf nwrite w))"
      using old assms(2,10) by (intro write_done_inv) auto
    then show ?thesis using False by (simp add: write_enqueue_def write_done_def Let_def)
  next
    case less: True
    show ?thesis
    proof (cases "unat (w_bufsize w) + length buf - nwrite > unat (w_max w)")
      case True
      have "w_inv mid (w\<lparr>w_error := ERR_OVER_LIMIT\<rparr>)"
        using old assms(2,10) by (auto simp: w_inv_def ERR_OVER_LIMIT_def queued_def)
      from write_failed_inv [OF this, of buf] show ?thesis using less True by (simp add: write_enqueue_def write_failed_def Let_def)
    next
      case False
      define q where "q = (if q_maxsize (w_queue w) = 0 then queue_init ob_zero 4 else w_queue w)"
      define x where "x = \<lparr>ob_base = drop nwrite buf, ob_len = length buf - nwrite, ob_offset = 0\<rparr>"
      have q: "queue_wf q" "queue_items q = queue_items (w_queue w)"
        using old(4) by (auto simp: q_def queue_wf_def queue_items_def queue_init_def)
      obtain q' where q': "queue_push_back ob_zero q x = Some q'" "queue_wf q'" "queue_items q' = queue_items (w_queue w) @ [x]"
        using hq.push_items [OF q(1), of ob_zero x] q(2) by auto
      let ?w = "w\<lparr>w_queue := q', w_bufsize := w_bufsize w + of_nat (length buf - nwrite)\<rparr>"
      have p: "queued ?w = queued w @ drop nwrite buf"
        by (simp add: queued_def q' rest_of_def x_def)
      have sz: "unat (w_bufsize w + of_nat (length buf - nwrite)) = unat (w_bufsize w) + (length buf - nwrite)"
        using False less by (intro unat_add_small [where y = "w_max w"]) simp
      have fifo: "w_error w = 0 \<longrightarrow> sent_of (w_log w) @ queued ?w = accepted_of (w_log w) @ buf"
        using old(1) assms(9,11) unfolding p by (cases "0 < nwrite") (auto simp: queued_def)
      have "bufs_ok mid (queue_items q')"
        unfolding q' using less by (intro bufs_ok_append [OF old(5)]) (simp_all add: x_def)
      then have "w_inv mid (snd (write_done buf nwrite ?w))"
        using old assms(2,10) q'(2,3) p sz fifo False less by (intro write_done_inv) auto
      moreover have "write_enqueue buf nwrite w = Some (write_done buf nwrite ?w)"
        using less False q'(1) by (simp add: write_enqueue_def Let_def q_def [symmetric] x_def [symmetric])
      moreover have "queue_items (w_queue (snd (write_done buf nwrite ?w))) \<noteq> []" by (simp add: q'(3))
      ultimately show ?thesis by (metis prod.collapse)
    qed
  qed
qed

text \<open>A call that failed has set \<open>errno\<close>.\<close>

fun answer_ok :: "send_answer \<Rightarrow> bool" where
  "answer_ok (SendN k) = True"
| "answer_ok (SendFail err) = (err \<noteq> 0)"

lemma hio_write_inv:
  assumes "w_inv mid w" and "answer_ok answer"
  shows "\<exists>r w'. hio_write buf answer w = Some (r, w') \<and> w_inv mid w' \<and>
    (queue_items (w_queue w) \<noteq> [] \<longrightarrow> w_closed w' \<or> queue_items (w_queue w') \<noteq> [])"
proof (cases "w_closed w")
  case True
  with assms show ?thesis by (auto simp: hio_write_def w_inv_def queued_def)
next
  case open_: False
  have wf: "queue_wf (w_queue w)" using assms by (simp add: w_inv_def)
  show ?thesis
  proof (cases "queue_empty (w_queue w)")
    case False
    then have ne: "queue_items (w_queue w) \<noteq> []" using hq.empty_iff [OF wf] by simp
    then have "w_watch w" using assms open_ by (simp add: w_inv_def)
    with write_enqueue_inv [OF assms(1), of w 0 buf] open_ False show ?thesis
      by (simp add: hio_write_def)
  next
    case True
    then have e: "queue_items (w_queue w) = []" using hq.empty_iff [OF wf] by simp
    show ?thesis
    proof (cases answer)
      case (SendFail err)
      have "w_inv mid (snd (write_failed buf (w\<lparr>w_error := err\<rparr>)))"
        using assms SendFail by (intro write_failed_inv error_inv) simp_all
      then show ?thesis
        using write_enqueue_inv [OF assms(1), of "hio_add_write w" 0 buf] open_ True e
        by (auto simp: hio_write_def SendFail write_failed_def Let_def)
    next
      case (SendN k)
      define n where "n = min k (length buf)"
      let ?w = "w_act (Sent (take n buf)) w"
      have enq: "\<exists>r w'. write_enqueue buf n (hio_add_write ?w) = Some (r, w') \<and> w_inv mid w'"
        using write_enqueue_inv [OF assms(1), of "hio_add_write ?w" n buf] open_ e by (auto simp: n_def)
      have m: "\<not> mid" using assms(1) open_ e by (auto simp: w_inv_def)
      consider "n = 0" | "0 < n" "n = length buf" | "0 < n" "n \<noteq> length buf" by blast
      then show ?thesis
      proof cases
        case 1
        then have "w_inv mid ?w" using assms(1) by (auto simp: w_inv_def)
        from write_failed_inv [OF this, of buf] show ?thesis
          using 1 open_ True e by (simp add: hio_write_def SendN n_def [symmetric] Let_def write_failed_def)
      next
        case 2
        have "w_inv mid (snd (write_done buf n ?w))"
          using assms(1) open_ e m 2 by (intro write_done_inv) (auto simp: w_inv_def queued_def)
        then show ?thesis
          using 2 open_ True e by (simp add: hio_write_def SendN n_def [symmetric] Let_def write_done_def)
      next
        case 3
        then show ?thesis using enq open_ True e by (auto simp: hio_write_def SendN n_def [symmetric] Let_def)
      qed
    qed
  qed
qed

lemma run_cmds_inv:
  assumes "w_inv mid w" and "\<forall>buf a. CbWrite buf a \<in> set cs \<longrightarrow> answer_ok a"
  shows "\<exists>w'. run_cmds cs w = Some w' \<and> w_inv mid w'"
  using assms
proof (induction cs arbitrary: w)
  case (Cons c cs)
  show ?case
  proof (cases c)
    case (CbWrite buf a)
    then obtain r w1 where "hio_write buf a w = Some (r, w1)" "w_inv mid w1"
      using hio_write_inv [OF Cons.prems(1), of a buf] Cons.prems(2) by auto
    with Cons CbWrite show ?thesis by auto
  next
    case CbClose
    with Cons hio_close_inv [OF Cons.prems(1)] show ?thesis by auto
  qed
qed simp

text \<open>The front buffer during the callback, and its removal.\<close>

lemma send_front_inv:
  assumes "w_inv False w" and "\<not> w_closed w" and "queue_items (w_queue w) = b # bs" and "0 < n" and "n \<le> ob_len b - ob_offset b"
  defines "buf \<equiv> take n (drop (ob_offset b) (ob_base b))"
  shows "w_inv True (w_act (WriteCb buf) ((w_act (Sent buf) w)
    \<lparr>w_queue := queue_set_front (w_queue w) (b\<lparr>ob_offset := ob_offset b + n\<rparr>),
     w_bufsize := w_bufsize w - of_nat n\<rparr>))"
proof -
  let ?b = "b\<lparr>ob_offset := ob_offset b + n\<rparr>"
  have wf: "queue_wf (w_queue w)" using assms(1) by (simp add: w_inv_def)
  note q = hq.set_front_items [OF wf assms(3), of ?b]
  have bufs: "bufs_ok False (b # bs)" using assms(1,3) by (simp add: w_inv_def)
  then have len: "ob_len b = length (ob_base b)" by (simp add: bufs_ok_def)
  have r: "rest_of b = buf @ rest_of ?b"
    by (simp add: rest_of_def buf_def drop_drop [symmetric] add.commute [of _ n] del: drop_drop)
  have lb: "length buf = n" using assms(5) len by (simp add: buf_def)
  have p: "queued w = buf @ rest_of ?b @ concat (map rest_of bs)" by (simp add: queued_def assms(3) r)
  have sz: "unat (w_bufsize w) = length (queued w)" "unat (w_bufsize w) \<le> unat (w_max w)"
    using assms(1,2) by (auto simp: w_inv_def)
  have "n \<le> unat (w_bufsize w)" using sz(1) p lb by simp
  moreover have "unat (w_bufsize w) < 2 ^ 32" using unsigned_less [of "w_bufsize w"] by simp
  ultimately have "unat (of_nat n :: u32) = n" and "(of_nat n :: u32) \<le> w_bufsize w"
    by (simp_all add: word_le_nat_alt)
  then have sub: "unat (w_bufsize w - of_nat n) = unat (w_bufsize w) - n"
    using unat_sub by metis
  have "bufs_ok True (?b # bs)" using bufs assms(5) by (auto simp: bufs_ok_def)
  moreover have "w_error w = 0 \<longrightarrow> (sent_of (w_log w) @ buf) @ rest_of ?b @ concat (map rest_of bs) = accepted_of (w_log w)"
    using assms(1,2) p by (simp add: w_inv_def)
  moreover from this have "w_error w = 0 \<longrightarrow> prefix (sent_of (w_log w) @ buf) (accepted_of (w_log w))"
    by (metis prefixI)
  ultimately show ?thesis
    using assms(1,2,3) q sz p lb sub by (auto simp: w_inv_def queued_def)
qed

lemma pop_front_inv:
  assumes "w_inv True w" and "queue_pop_front (w_queue w) = Some q" and "\<not> w_closed w"
    and "rest_of (hd (queue_items (w_queue w))) = []"
  shows "w_inv False (w\<lparr>w_queue := q\<rparr>)"
proof -
  have wf: "queue_wf (w_queue w)" using assms(1) by (simp add: w_inv_def)
  obtain b where b: "queue_items (w_queue w) = b # queue_items q" "queue_wf q"
    using hq.pop_some [OF wf assms(2)] by blast
  have "bufs_ok False (queue_items q)"
    using assms(1) b by (cases "queue_items q") (auto simp: w_inv_def bufs_ok_def)
  moreover have "queued (w\<lparr>w_queue := q\<rparr>) = queued w" using assms(4) by (simp add: queued_def b)
  ultimately show ?thesis using assms(1,3) b by (auto simp: w_inv_def)
qed

text \<open>A callback leaves the first buffer where it is unless it closes the connection.\<close>

lemma hio_write_front:
  assumes "w_inv True w" and "answer_ok a" and "hio_write buf a w = Some (r, w')"
  shows "w_closed w' = w_closed w \<and> (\<not> w_closed w \<longrightarrow> hd (queue_items (w_queue w')) = hd (queue_items (w_queue w)))"
proof (cases "w_closed w")
  case True
  with assms(3) show ?thesis by (auto simp: hio_write_def)
next
  case False
  have wf: "queue_wf (w_queue w)" and ne: "queue_items (w_queue w) \<noteq> []"
    using assms(1) False by (simp_all add: w_inv_def)
  have "\<not> queue_empty (w_queue w)" using hq.empty_iff [OF wf] ne by simp
  with False assms(3) have enq: "write_enqueue buf 0 w = Some (r, w')" by (simp add: hio_write_def)
  have m: "q_maxsize (w_queue w) \<noteq> 0" using ne wf by (auto simp: queue_wf_def queue_items_def)
  obtain q' where q': "queue_push_back ob_zero (w_queue w) \<lparr>ob_base = buf, ob_len = length buf, ob_offset = 0\<rparr> = Some q'"
    "queue_items q' = queue_items (w_queue w) @ [\<lparr>ob_base = buf, ob_len = length buf, ob_offset = 0\<rparr>]"
    using hq.push_items [OF wf, of ob_zero] by metis
  show ?thesis
    using enq False m q' ne
    by (auto simp: write_enqueue_def write_done_def write_failed_def Let_def hd_append split: if_splits)
qed

lemma run_cmds_front:
  assumes "w_inv True w" and "\<forall>buf a. CbWrite buf a \<in> set cs \<longrightarrow> answer_ok a" and "run_cmds cs w = Some w'"
  shows "w_closed w' \<or> hd (queue_items (w_queue w')) = hd (queue_items (w_queue w)) \<and> \<not> w_closed w"
  using assms
proof (induction cs arbitrary: w)
  case Nil
  then show ?case by auto
next
  case (Cons c cs)
  show ?case
  proof (cases c)
    case (CbWrite buf a)
    then have ok: "answer_ok a" using Cons.prems(2) by simp
    obtain r w1 where w1: "hio_write buf a w = Some (r, w1)" "w_inv True w1"
      using hio_write_inv [OF Cons.prems(1) ok, of buf] by auto
    from hio_write_front [OF Cons.prems(1) ok w1(1)] Cons.IH [OF w1(2)] Cons.prems w1(1) CbWrite
    show ?thesis by auto
  next
    case CbClose
    have i: "w_inv True (hio_close True w)" by (rule hio_close_inv [OF Cons.prems(1)])
    have cl: "w_closed (hio_close True w) \<or> queue_items (w_queue (hio_close True w)) = queue_items (w_queue w) \<and> \<not> w_closed w"
      using hio_close_queue [OF Cons.prems(1), of True] by (auto simp: hio_close_def)
    from Cons.IH [OF i] Cons.prems CbClose cl show ?thesis by auto
  qed
qed

definition cmds_ok :: "w_cmd list \<Rightarrow> bool" where
  "cmds_ok cs \<longleftrightarrow> (\<forall>buf a. CbWrite buf a \<in> set cs \<longrightarrow> answer_ok a)"

lemma run_cmds_open: "\<lbrakk>CbClose \<notin> set cs; run_cmds cs w = Some w'\<rbrakk> \<Longrightarrow> w_closed w' = w_closed w"
proof (induction cs arbitrary: w)
  case (Cons c cs)
  then obtain buf a where c: "c = CbWrite buf a" by (cases c) auto
  from Cons.prems c obtain r w1 where w1: "hio_write buf a w = Some (r, w1)" "run_cmds cs w1 = Some w'"
    by (auto simp: bind_eq_Some_conv)
  have "w_closed w1 = w_closed w"
    using w1(1) by (auto simp: hio_write_def write_enqueue_def write_done_def write_failed_def Let_def bind_eq_Some_conv
      split: if_splits send_answer.splits)
  with Cons.IH [OF _ w1(2)] Cons.prems show ?case by simp
qed simp

lemma write_broken_inv: "w_inv mid w \<Longrightarrow> w_inv mid (write_broken w)"
  by (simp add: write_broken_def hio_close_inv)

text \<open>The connection when \<open>n\<close> bytes of the first buffer \<open>b\<close> are out and the callback is called.\<close>

definition sent_front :: "offset_buf \<Rightarrow> nat \<Rightarrow> wio \<Rightarrow> wio" where
  "sent_front b n w =
     (let buf = take n (drop (ob_offset b) (ob_base b))
      in w_act (WriteCb buf) ((w_act (Sent buf) w)
           \<lparr>w_queue := queue_set_front (w_queue w) (b\<lparr>ob_offset := ob_offset b + n\<rparr>),
            w_bufsize := w_bufsize w - of_nat n\<rparr>))"

lemma nio_send_front:
  assumes "queue_wf (w_queue w)" and "queue_items (w_queue w) = b # bs"
  defines "len \<equiv> ob_len b - ob_offset b"
  shows "nio_send (SendN k) cs w =
    (if min k len = 0 then Some (Leave (write_broken (w_act (Sent []) w)))
     else Option.bind (run_cmds cs (sent_front b (min k len) w)) (\<lambda>w.
       if min k len = len then Option.bind (queue_pop_front (w_queue w)) (\<lambda>q.
         Some (if w_closed w then Leave (w\<lparr>w_queue := q\<rparr>) else Continue (w\<lparr>w_queue := q\<rparr>)))
       else Some (Leave w)))"
proof -
  have front: "queue_front (w_queue w) = Some b" using hq.front_cons [OF assms(1)] assms(2) by simp
  show ?thesis
    unfolding nio_send_def sent_front_def Let_def len_def
    by (simp add: front cong: if_cong)
qed

lemma callback_inv:
  assumes "w_inv False w" and "\<not> w_closed w" and "queue_items (w_queue w) = b # bs"
    and "0 < n" and "n \<le> ob_len b - ob_offset b" and "cmds_ok cs"
  obtains w' where "run_cmds cs (sent_front b n w) = Some w'" "w_inv True w'"
    "w_closed w' \<longrightarrow> CbClose \<in> set cs"
    "\<not> w_closed w' \<longrightarrow> hd (queue_items (w_queue w')) = b\<lparr>ob_offset := ob_offset b + n\<rparr>"
proof -
  have wf: "queue_wf (w_queue w)" using assms(1) by (simp add: w_inv_def)
  have i: "w_inv True (sent_front b n w)"
    unfolding sent_front_def Let_def by (rule send_front_inv [OF assms(1-5)])
  have h: "hd (queue_items (w_queue (sent_front b n w))) = b\<lparr>ob_offset := ob_offset b + n\<rparr>"
    "\<not> w_closed (sent_front b n w)"
    using hq.set_front_items [OF wf assms(3)] assms(2) by (simp_all add: sent_front_def Let_def)
  have ok: "\<forall>buf a. CbWrite buf a \<in> set cs \<longrightarrow> answer_ok a" using assms(6) by (simp add: cmds_ok_def)
  obtain w' where w': "run_cmds cs (sent_front b n w) = Some w'" "w_inv True w'"
    using run_cmds_inv [OF i ok] by auto
  moreover have "w_closed w' \<longrightarrow> CbClose \<in> set cs"
    using run_cmds_open [OF _ w'(1)] h(2) by auto
  moreover have "\<not> w_closed w' \<longrightarrow> hd (queue_items (w_queue w')) = b\<lparr>ob_offset := ob_offset b + n\<rparr>"
    using run_cmds_front [OF i ok w'(1)] h(1) by auto
  ultimately show ?thesis by (rule that)
qed

lemma callback_leaves_rest:
  assumes "w_inv True w" and "\<not> w_closed w \<longrightarrow> hd (queue_items (w_queue w)) = b" and "ob_offset b < ob_len b"
  shows "w_inv False w"
  using assms by (cases "queue_items (w_queue w)") (auto simp: w_inv_def bufs_ok_def)

lemma pop_after_callback:
  assumes "w_inv True w"
  shows "w_closed w \<Longrightarrow> queue_pop_front (w_queue w) = None"
    and "\<not> w_closed w \<Longrightarrow> \<exists>q. queue_pop_front (w_queue w) = Some q"
proof -
  have wf: "queue_wf (w_queue w)" using assms by (simp add: w_inv_def)
  show "queue_pop_front (w_queue w) = None" if "w_closed w"
    using hq.pop_nothing [OF wf] assms that by (simp add: w_inv_def)
  show "\<exists>q. queue_pop_front (w_queue w) = Some q" if open_: "\<not> w_closed w"
  proof -
    have "queue_items (w_queue w) \<noteq> []" using assms open_ by (simp add: w_inv_def)
    then obtain x xs where "queue_items (w_queue w) = x # xs" by (cases "queue_items (w_queue w)") auto
    from hq.pop_items [OF wf this] show ?thesis by blast
  qed
qed

text \<open>One round of \<open>nio_write\<close>: it fails only where the callback left the connection closed.\<close>

lemma nio_send_cases:
  assumes "w_inv False w" and "\<not> w_closed w" and "queue_items (w_queue w) \<noteq> []" and "answer_ok answer" and "cmds_ok cs"
  obtains (leave) w' where "nio_send answer cs w = Some (Leave w')" "w_inv False w'"
  | (continue) w' where "nio_send answer cs w = Some (Continue w')" "w_inv False w'" "\<not> w_closed w'"
  | (dead) "nio_send answer cs w = None" "CbClose \<in> set cs"
proof (cases answer)
  case (SendFail err)
  have "w_inv False (if try_again err then w else write_broken (w\<lparr>w_error := err\<rparr>))"
    using assms(1,4) SendFail by (auto intro!: write_broken_inv error_inv)
  then show ?thesis by (intro leave) (simp_all add: nio_send_def SendFail)
next
  case (SendN k)
  obtain b bs where b: "queue_items (w_queue w) = b # bs" using assms(3) by (cases "queue_items (w_queue w)") auto
  have wf: "queue_wf (w_queue w)" using assms(1) by (simp add: w_inv_def)
  have len_b: "ob_len b = length (ob_base b)" "ob_offset b < ob_len b"
    using assms(1) b by (auto simp: w_inv_def bufs_ok_def)
  define n where "n = min k (ob_len b - ob_offset b)"
  note eq = nio_send_front [OF wf b, of k cs, folded n_def]
  show ?thesis
  proof (cases "n = 0")
    case True
    have "w_inv False (w_act (Sent []) w)" using assms(1) by (auto simp: w_inv_def)
    from write_broken_inv [OF this] True show ?thesis by (intro leave) (simp_all add: SendN eq)
  next
    case False
    then have "0 < n" and le: "n \<le> ob_len b - ob_offset b" by (simp_all add: n_def)
    then obtain w2 where w2: "run_cmds cs (sent_front b n w) = Some w2" "w_inv True w2"
      "w_closed w2 \<longrightarrow> CbClose \<in> set cs"
      "\<not> w_closed w2 \<longrightarrow> hd (queue_items (w_queue w2)) = b\<lparr>ob_offset := ob_offset b + n\<rparr>"
      using callback_inv [OF assms(1,2) b _ _ assms(5)] by metis
    consider "n < ob_len b - ob_offset b" | "n = ob_len b - ob_offset b" "w_closed w2" | "n = ob_len b - ob_offset b" "\<not> w_closed w2"
      using le by linarith
    then show ?thesis
    proof cases
      case 1
      then have "w_inv False w2" using callback_leaves_rest [OF w2(2,4)] by simp
      then show ?thesis using 1 False w2(1) by (intro leave) (simp_all add: SendN eq)
    next
      case 2
      then show ?thesis using w2 False pop_after_callback(1) [OF w2(2)] by (intro dead) (simp_all add: SendN eq)
    next
      case 3
      then obtain q where q: "queue_pop_front (w_queue w2) = Some q" using pop_after_callback(2) [OF w2(2)] by blast
      have "rest_of (hd (queue_items (w_queue w2))) = []" using w2(4) 3 len_b by (simp add: rest_of_def)
      then have "w_inv False (w2\<lparr>w_queue := q\<rparr>)" by (rule pop_front_inv [OF w2(2) q 3(2)])
      then show ?thesis using False 3 w2(1) q by (intro continue [of "w2\<lparr>w_queue := q\<rparr>"]) (simp_all add: SendN eq)
    qed
  qed
qed

lemma nio_flushed_inv:
  assumes "w_inv mid w"
  shows "w_inv mid (nio_flushed w)"
proof -
  have "w_inv mid (w\<lparr>w_close := False\<rparr>)" using assms by (auto simp: w_inv_def queued_def)
  from hio_close_inv [OF this] assms show ?thesis by (simp add: nio_flushed_def)
qed

definition round_ok :: "send_answer \<times> w_cmd list \<Rightarrow> bool" where
  "round_ok t \<longleftrightarrow> answer_ok (fst t) \<and> cmds_ok (snd t)"

lemma nio_write_inv:
  assumes "w_inv False w" and "\<not> w_closed w" and "\<forall>t \<in> set ts. round_ok t \<and> CbClose \<notin> set (snd t)"
  shows "\<exists>w'. nio_write ts w = Some w' \<and> w_inv False w'"
  using assms
proof (induction ts arbitrary: w)
  case Nil
  then show ?case by (simp add: nio_flushed_inv)
next
  case (Cons t ts)
  have wf: "queue_wf (w_queue w)" using Cons.prems(1) by (simp add: w_inv_def)
  show ?case
  proof (cases "queue_empty (w_queue w)")
    case True
    then show ?thesis using nio_flushed_inv [OF Cons.prems(1)] by simp
  next
    case False
    then have "queue_items (w_queue w) \<noteq> []" using hq.empty_iff [OF wf] by simp
    moreover have "answer_ok (fst t)" "cmds_ok (snd t)" "CbClose \<notin> set (snd t)"
      using Cons.prems(3) by (auto simp: round_ok_def)
    ultimately show ?thesis
      using Cons.IH Cons.prems False
      by (cases rule: nio_send_cases [OF Cons.prems(1,2), of "fst t" "snd t"]) auto
  qed
qed

lemma del_write_inv: "\<lbrakk>w_inv False w; queue_items (w_queue w) = []\<rbrakk> \<Longrightarrow> w_inv False (hio_del_write w)"
  by (auto simp: w_inv_def queued_def)

lemma hio_handle_writable_inv:
  assumes "w_inv False w" and "\<not> w_closed w" and "\<forall>t \<in> set ts. round_ok t \<and> CbClose \<notin> set (snd t)"
  shows "\<exists>w'. hio_handle_writable ts w = Some w' \<and> w_inv False w'"
proof -
  have wf: "queue_wf (w_queue w)" using assms(1) by (simp add: w_inv_def)
  have "w_inv False (if queue_empty (w_queue w) then hio_del_write w else w)"
    using assms(1) hq.empty_iff [OF wf] del_write_inv by auto
  from nio_write_inv [OF this _ assms(3)] assms(1,2) show ?thesis by (auto simp: hio_handle_writable_def)
qed

section \<open>A connection over its life\<close>

text \<open>The calls a connection sees, in any order: \<open>hio_write\<close>, \<open>hio_close\<close> from the loop or another thread,
  a writable socket, the timer of a delayed close. A write callback may write but does not close.\<close>

inductive w_step :: "wio \<Rightarrow> wio \<Rightarrow> bool" where
  step_write: "\<lbrakk>answer_ok a; hio_write buf a w = Some (r, w')\<rbrakk> \<Longrightarrow> w_step w w'"
| step_close: "w_step w (hio_close in_loop w)"
| step_timeout: "w_step w (close_timeout_cb w)"
| step_writable: "\<lbrakk>\<not> w_closed w; \<forall>t \<in> set ts. round_ok t \<and> CbClose \<notin> set (snd t); hio_handle_writable ts w = Some w'\<rbrakk> \<Longrightarrow> w_step w w'"

inductive w_reach :: "u32 \<Rightarrow> wio \<Rightarrow> bool" for limit where
  reach_start: "w_reach limit ((wio_ready stream socket)\<lparr>w_max := limit, w_close_timeout := t\<rparr>)"
| reach_step: "\<lbrakk>w_reach limit w; w_step w w'\<rbrakk> \<Longrightarrow> w_reach limit w'"

inductive_cases w_step_cases: "w_step w w'"

lemma w_step_inv: "\<lbrakk>w_inv False w; w_step w w'\<rbrakk> \<Longrightarrow> w_inv False w'"
proof (erule w_step_cases)
  assume i: "w_inv False w"
  show "w_inv False w'" if "answer_ok a" "hio_write buf a w = Some (r, w')" for a buf r
    using hio_write_inv [OF i that(1), of buf] that(2) by auto
  show "w_inv False w'" if "w' = hio_close in_loop w" for in_loop
    using hio_close_inv [OF i] that by simp
  show "w_inv False w'" if "w' = close_timeout_cb w"
    using hio_close_inv [OF error_inv [OF i]] that by (simp add: close_timeout_cb_def ETIMEDOUT_def)
  show "w_inv False w'" if "\<not> w_closed w" "\<forall>t \<in> set ts. round_ok t \<and> CbClose \<notin> set (snd t)" "hio_handle_writable ts w = Some w'" for ts
    using hio_handle_writable_inv [OF i that(1,2)] that(3) by auto
qed

lemma w_reach_inv: "w_reach limit w \<Longrightarrow> w_inv False w"
proof (induction rule: w_reach.induct)
  case (reach_start stream socket t)
  then show ?case by (simp add: w_inv_def wio_ready_def queue_none_wf queued_def)
next
  case (reach_step w w')
  then show ?case by (blast intro: w_step_inv)
qed

text \<open>C18. In every state that any sequence of writes, closes, writable events and close timeouts
  leads to, with any answers of the socket: as long as the connection has no error, the bytes given
  to the socket are, in order and without gap or repetition, the beginning of the bytes of the writes
  that returned success, and while it is open the write queue holds exactly the bytes that are
  missing; \<open>write_bufsize\<close> counts the queued bytes and never exceeds the limit; and whenever bytes are
  queued the poller watches the socket for writing.\<close>

theorem writes_in_order:
  assumes "w_reach limit w"
  shows "(w_error w = 0 \<longrightarrow> prefix (sent_of (w_log w)) (accepted_of (w_log w)) \<and>
           (\<not> w_closed w \<longrightarrow> sent_of (w_log w) @ queued w = accepted_of (w_log w))) \<and>
         (\<not> w_closed w \<longrightarrow> unat (w_bufsize w) = length (queued w) \<and> length (queued w) \<le> unat (w_max w) \<and>
           (queued w \<noteq> [] \<longrightarrow> w_watch w)) \<and>
         (w_closed w \<longrightarrow> queued w = [])"
  using w_reach_inv [OF assms] by (auto simp: w_inv_def queued_def)

definition w_demo :: wio where
  "w_demo = (wio_ready True True)\<lparr>w_max := 10, w_close_timeout := 0\<rparr>"

lemma w_demo_reach: "w_reach 10 w_demo"
  unfolding w_demo_def by (rule reach_start)

definition w_demo1 :: wio where
  "w_demo1 = snd (the (hio_write [1, 2, 3] (SendN 1) w_demo))"

lemma w_demo1_write: "hio_write [1, 2, 3] (SendN 1) w_demo = Some (1, w_demo1)"
  unfolding w_demo1_def by code_simp

lemma w_demo1_reach: "w_reach 10 w_demo1"
  by (rule reach_step [OF w_demo_reach step_write [OF _ w_demo1_write]]) simp

lemma w_demo1_close_reach: "w_reach 10 (hio_close True w_demo1)"
  by (rule reach_step [OF w_demo1_reach step_close])

theorem writes_in_order_witness:
  "w_reach 10 w_demo1 \<and> sent_of (w_log w_demo1) @ queued w_demo1 = accepted_of (w_log w_demo1) \<and>
   sent_of (w_log w_demo1) = [1] \<and> queued w_demo1 = [2, 3] \<and> w_watch w_demo1"
proof -
  have "w_error w_demo1 = 0" "\<not> w_closed w_demo1" "sent_of (w_log w_demo1) = [1]" "queued w_demo1 = [2, 3]"
    by code_simp+
  with writes_in_order [OF w_demo1_reach] w_demo1_reach show ?thesis by simp
qed

text \<open>No call fails: in every reachable state \<open>hio_write\<close> returns, and the handler of a writable
  socket returns for an open connection whose callbacks do not close it; no assertion of the queue
  fails and no access is out of bounds.\<close>

lemma writes_return:
  assumes "w_reach limit w" and "answer_ok a"
  shows "\<exists>r w'. hio_write buf a w = Some (r, w') \<and> w_reach limit w'"
    and "\<lbrakk>\<not> w_closed w; \<forall>t \<in> set ts. round_ok t \<and> CbClose \<notin> set (snd t)\<rbrakk> \<Longrightarrow>
      \<exists>w'. hio_handle_writable ts w = Some w' \<and> w_reach limit w'"
proof -
  note i = w_reach_inv [OF assms(1)]
  show "\<exists>r w'. hio_write buf a w = Some (r, w') \<and> w_reach limit w'"
    using hio_write_inv [OF i assms(2), of buf] reach_step [OF assms(1)] step_write [OF assms(2)] by blast
  show "\<exists>w'. hio_handle_writable ts w = Some w' \<and> w_reach limit w'"
    if t: "\<not> w_closed w" "\<forall>t \<in> set ts. round_ok t \<and> CbClose \<notin> set (snd t)"
    using hio_handle_writable_inv [OF i t] reach_step [OF assms(1)] step_writable [OF t] by blast
qed

section \<open>Flushing and closing\<close>

lemma hio_close_flushed:
  assumes "\<not> w_closed w" and "queue_empty (w_queue w)"
  shows "w_closed (hio_close True w)" and "CloseCb \<in> set (w_log (hio_close True w))"
    and "sent_of (w_log (hio_close True w)) = sent_of (w_log w)"
    and "accepted_of (w_log (hio_close True w)) = accepted_of (w_log w)"
    and "w_error (hio_close True w) = w_error w"
    and "queue_items (w_queue (hio_close True w)) = []"
  using assms by (simp_all add: hio_close_def hio_done_def Let_def queue_cleanup_wf)

definition takes_all :: "wio \<Rightarrow> send_answer \<times> w_cmd list \<Rightarrow> bool" where
  "takes_all w t \<longleftrightarrow> (\<exists>k. t = (SendN k, []) \<and> length (queued w) \<le> k)"

lemma nio_send_all:
  assumes "w_inv False w" and "\<not> w_closed w" and "queue_items (w_queue w) = b # bs" and "takes_all w t"
  obtains w' where "nio_send (fst t) (snd t) w = Some (Continue w')" "w_inv False w'" "\<not> w_closed w'"
    "queue_items (w_queue w') = bs" "sent_of (w_log w') = sent_of (w_log w) @ rest_of b"
    "accepted_of (w_log w') = accepted_of (w_log w)" "w_error w' = w_error w" "w_close w' = w_close w"
proof -
  obtain k where k: "t = (SendN k, [])" "length (queued w) \<le> k" using assms(4) by (auto simp: takes_all_def)
  have wf: "queue_wf (w_queue w)" using assms(1) by (simp add: w_inv_def)
  have b: "ob_len b = length (ob_base b)" "ob_offset b < ob_len b"
    using assms(1,3) by (auto simp: w_inv_def bufs_ok_def)
  let ?n = "ob_len b - ob_offset b"
  let ?w = "sent_front b ?n w"
  have n: "min k ?n = ?n" using k(2) b by (simp add: queued_def assms(3) rest_of_def)
  have items: "queue_wf (w_queue ?w)" "queue_items (w_queue ?w) = b\<lparr>ob_offset := ob_offset b + ?n\<rparr> # bs"
    using hq.set_front_items [OF wf assms(3)] by (simp_all add: sent_front_def Let_def)
  obtain q where q: "queue_pop_front (w_queue ?w) = Some q" "queue_items q = bs"
    using hq.pop_items [OF items] by blast
  let ?w' = "?w\<lparr>w_queue := q\<rparr>"
  have s: "nio_send (fst t) (snd t) w = Some (Continue ?w')"
    using nio_send_front [OF wf assms(3), of k "[]", unfolded n] b(2) q(1) assms(2) k(1)
    by (simp add: sent_front_def Let_def)
  have ne: "queue_items (w_queue w) \<noteq> []" and ok: "answer_ok (fst t)" "cmds_ok (snd t)"
    by (simp_all add: assms(3) k(1) cmds_ok_def)
  have "w_inv False ?w'"
    by (cases rule: nio_send_cases [OF assms(1,2) ne ok]) (use s in auto)
  then show ?thesis
    using assms(2) q(2) b by (intro that [OF s]) (simp_all add: sent_front_def Let_def rest_of_def)
qed

lemma nio_write_all:
  assumes "w_inv False w" and "\<not> w_closed w" and "\<forall>t \<in> set ts. takes_all w t" and "length (queue_items (w_queue w)) \<le> length ts"
  shows "\<exists>w'. nio_write ts w = Some w' \<and> queue_items (w_queue w') = [] \<and>
    sent_of (w_log w') = sent_of (w_log w) @ queued w \<and> accepted_of (w_log w') = accepted_of (w_log w) \<and>
    w_error w' = w_error w \<and> w_closed w' = w_close w \<and> (w_close w \<longrightarrow> CloseCb \<in> set (w_log w'))"
  using assms
proof (induction ts arbitrary: w)
  case Nil
  then have "queue_items (w_queue w) = []" "queue_empty (w_queue w)"
    using hq.empty_iff [of "w_queue w"] by (simp_all add: w_inv_def)
  then show ?case
    using Nil.prems(2) hio_close_flushed [of "w\<lparr>w_close := False\<rparr>"] by (simp add: nio_flushed_def queued_def)
next
  case (Cons t ts)
  have wf: "queue_wf (w_queue w)" using Cons.prems(1) by (simp add: w_inv_def)
  show ?case
  proof (cases "queue_items (w_queue w)")
    case Nil
    then have "queue_empty (w_queue w)" using hq.empty_iff [OF wf] by simp
    then show ?thesis
      using Nil Cons.prems(2) hio_close_flushed [of "w\<lparr>w_close := False\<rparr>"] by (simp add: nio_flushed_def queued_def)
  next
    case items: (Cons b bs)
    obtain w1 where w1: "nio_send (fst t) (snd t) w = Some (Continue w1)" "w_inv False w1" "\<not> w_closed w1"
      "queue_items (w_queue w1) = bs" "sent_of (w_log w1) = sent_of (w_log w) @ rest_of b"
      "accepted_of (w_log w1) = accepted_of (w_log w)" "w_error w1 = w_error w" "w_close w1 = w_close w"
      using nio_send_all [OF Cons.prems(1,2) items] Cons.prems(3) by (metis list.set_intros(1))
    have "length (queued w1) \<le> length (queued w)" by (simp add: queued_def items w1(4))
    then have "\<forall>t \<in> set ts. takes_all w1 t" using Cons.prems(3) by (fastforce simp: takes_all_def)
    moreover have "length (queue_items (w_queue w1)) \<le> length ts" using Cons.prems(4) items w1(4) by simp
    ultimately obtain w' where "nio_write ts w1 = Some w'" "queue_items (w_queue w') = []"
      "sent_of (w_log w') = sent_of (w_log w1) @ queued w1" "accepted_of (w_log w') = accepted_of (w_log w1)"
      "w_error w' = w_error w1" "w_closed w' = w_close w1" "w_close w1 \<longrightarrow> CloseCb \<in> set (w_log w')"
      using Cons.IH [OF w1(2,3)] by auto
    then show ?thesis
      using w1 items hq.empty_iff [OF wf] by (simp add: queued_def)
  qed
qed

text \<open>C19. In a reachable state with queued bytes, a writable socket that takes what it is offered empties
  the queue: every accepted byte has then been given to the socket, and a close that \<open>hio_close\<close> put off
  until the queue is empty is carried out.\<close>

theorem writable_flushes:
  assumes "w_reach limit w" and "\<not> w_closed w" and "queued w \<noteq> []"
    and "\<forall>t \<in> set ts. takes_all w t" and "length (queue_items (w_queue w)) \<le> length ts"
  shows "\<exists>w'. hio_handle_writable ts w = Some w' \<and> queued w' = [] \<and>
    (w_error w = 0 \<longrightarrow> sent_of (w_log w') = accepted_of (w_log w)) \<and>
    w_closed w' = w_close w \<and> (w_close w \<longrightarrow> CloseCb \<in> set (w_log w'))"
proof -
  note i = w_reach_inv [OF assms(1)]
  have wf: "queue_wf (w_queue w)" using i by (simp add: w_inv_def)
  have "queue_items (w_queue w) \<noteq> []" using assms(3) by (auto simp: queued_def)
  then have "w_watch w" "\<not> queue_empty (w_queue w)" using i assms(2) hq.empty_iff [OF wf] by (simp_all add: w_inv_def)
  moreover have "w_error w = 0 \<longrightarrow> sent_of (w_log w) @ queued w = accepted_of (w_log w)"
    using i assms(2) by (simp add: w_inv_def)
  ultimately show ?thesis
    using nio_write_all [OF i assms(2,4,5)] by (auto simp: hio_handle_writable_def queued_def)
qed

theorem writable_flushes_witness:
  "\<exists>w'. hio_handle_writable [(SendN 5, [])] (hio_close True w_demo1) = Some w' \<and>
    sent_of (w_log w') = [1, 2, 3] \<and> w_closed w' \<and> CloseCb \<in> set (w_log w')"
proof -
  let ?w = "hio_close True w_demo1"
  have f: "\<not> w_closed ?w" "queued ?w = [2, 3]" "w_error ?w = 0" "w_close ?w" "accepted_of (w_log ?w) = [1, 2, 3]"
    "length (queue_items (w_queue ?w)) = 1"
    by code_simp+
  have "\<forall>t \<in> set [(SendN 5, [])]. takes_all ?w t" by (simp add: takes_all_def f(2))
  from writable_flushes [OF w_demo1_close_reach f(1) _ this] f show ?thesis by auto
qed

text \<open>C36. While a close is put off, a write callback that calls \<open>hio_close\<close> again really closes the
  connection, which frees the queue; if the socket took all of the first buffer, \<open>nio_write\<close> then frees
  that buffer a second time and removes an element from the empty queue.\<close>

theorem close_in_callback:
  assumes "w_reach limit w" and "\<not> w_closed w" and "w_close w"
    and "queue_items (w_queue w) = b # bs" and "length (rest_of b) \<le> k"
  shows "hio_handle_writable ((SendN k, [CbClose]) # ts) w = None"
proof -
  note i = w_reach_inv [OF assms(1)]
  have wf: "queue_wf (w_queue w)" using i by (simp add: w_inv_def)
  have b: "ob_len b = length (ob_base b)" "ob_offset b < ob_len b"
    using i assms(4) by (auto simp: w_inv_def bufs_ok_def)
  let ?n = "ob_len b - ob_offset b"
  have n: "min k ?n = ?n" using assms(5) b by (simp add: rest_of_def)
  let ?w = "hio_close True (sent_front b ?n w)"
  have "w_closed ?w" using assms(2,3) by (simp add: hio_close_def hio_done_def sent_front_def Let_def)
  moreover have "w_inv True ?w"
    unfolding sent_front_def Let_def
    by (intro hio_close_inv send_front_inv [OF i assms(2,4)]) (use b in simp_all)
  ultimately have "queue_pop_front (w_queue ?w) = None" by (simp add: pop_after_callback)
  then have "nio_send (SendN k) [CbClose] w = None"
    using nio_send_front [OF wf assms(4), of k "[CbClose]", unfolded n] b(2) by simp
  moreover have "w_watch w" "\<not> queue_empty (w_queue w)"
    using i assms(2,4) hq.empty_iff [OF wf] by (simp_all add: w_inv_def)
  ultimately show ?thesis by (simp add: hio_handle_writable_def)
qed

theorem close_in_callback_witness:
  "hio_handle_writable [(SendN 5, [CbClose])] (hio_close True w_demo1) = None"
proof -
  have f: "\<not> w_closed (hio_close True w_demo1)" "w_close (hio_close True w_demo1)"
    "queue_items (w_queue (hio_close True w_demo1)) = [\<lparr>ob_base = [2, 3], ob_len = 2, ob_offset = 0\<rparr>]"
    by code_simp+
  show ?thesis by (rule close_in_callback [OF w_demo1_close_reach f]) (simp add: rest_of_def)
qed

text \<open>Writing nothing on an idle stream: \<open>send\<close> of no bytes answers 0, which is taken for a disconnect.\<close>

lemma hio_write_nothing:
  assumes "\<not> w_closed w" and "queue_empty (w_queue w)" and "w_stream w"
  shows "\<exists>w'. hio_write [] (SendN 0) w = Some (-1, w') \<and> PostClose \<in> set (w_log w')"
  using assms by (simp add: hio_write_def write_failed_def Let_def)

text \<open>A second \<open>hio_close\<close> does not wait for the queue.\<close>

lemma hio_close_twice:
  assumes "\<not> w_closed w" and "w_error w = 0" and "\<not> w_close w" and "\<not> queue_empty (w_queue w)"
  shows "let w1 = hio_close True w; w2 = hio_close True w1
    in \<not> w_closed w1 \<and> queued w1 = queued w \<and> w_closed w2 \<and> queued w2 = [] \<and> sent_of (w_log w2) = sent_of (w_log w)"
  using assms by (simp add: hio_close_def hio_done_def Let_def queue_cleanup_wf queued_def)

end
