(* ===== verification/Spec2Isabelle.thy ===== *)
theory Spec2Isabelle
  imports Audio_Queue Ivr_Detect Ivr_Digits Ivr_Collect Ivr_Speech Ivr_Phrase Ivr_Tones
    Ivr_Record Ivr_Play Base64 Websocket Readbuf Multipart Event_Pending
    Md5 Ws_Def Dns Writebuf
begin

text \<open>
  A verification library for the C code of a FreeSWITCH call-centre distribution: the IVR
  functions of \<open>src/src/switch_ivr_play_say.c\<close>, the audio queue of
  \<open>src/src/include/audio_queue.h\<close> through which the speech modules exchange audio with the
  call thread, and the protocol code of the bundled network library \<open>src/libs/libhv\<close> that
  carries that audio over web sockets and HTTP.

  \<^bold>\<open>How the code is modelled.\<close> A C structure is a record, an enumeration a datatype, an integer
  whose width matters a word. FreeSWITCH is not part of the repository: what it answers to a
  call is an argument (an answers or tick record, one tick per pass of a loop, or a function
  of what happened so far), and what the code does to the outside is an ordered log of
  actions. A function that loops over incoming frames or events takes the list of ticks; when
  the list ends before the loop does, the result says that the function is still running, and
  the termination results say how long the list can be. A read or write outside a buffer, a
  division by zero and a loop that never ends are values of the result type, never left
  unspecified.

  \<^bold>\<open>Theories.\<close>
  \<^item> \<open>Prelude\<close>: machine types, word and bit lemmas, runs of booleans. \<open>Fs_Types\<close>: status
    codes, C strings, \<open>atoi\<close>.
  \<^item> \<open>Audio_Queue\<close> (\<open>audio_queue.h\<close>): every operation. The byte buffer is FreeSWITCH's and is
    an interface given as a locale. An interleaving of threads is a sequence of critical
    sections; the results are the FIFO property, the counters, that a blocking read is
    equivalent to its waits followed by one atomic take, that it returns, and a race in
    \<open>audio_queue_clear\<close>.
  \<^item> \<open>Ivr_Detect\<close>: \<open>switch_ivr_wait_for_silence\<close>, \<open>switch_ivr_detect_audio\<close>,
    \<open>switch_ivr_detect_silence\<close>. Return within the timeout, detection exactly on a long enough
    run of loud frames, released resources, and the over-read of the energy loop.
  \<^item> \<open>Ivr_Digits\<close>: \<open>switch_ivr_read\<close> and \<open>switch_play_and_get_digits\<close>. What success means,
    the bound on the tries, the stale terminator.
  \<^item> \<open>Ivr_Collect\<close>: \<open>switch_ivr_play_and_collect_input\<close> with its callback. Length bounds of the
    digits, release of a silent caller, bounds of the sleeps, leaked speech results.
  \<^item> \<open>Ivr_Speech\<close>: \<open>switch_ivr_speak_text_handle\<close>, the speech cache and
    \<open>switch_ivr_speak_text\<close>. Expansion of star and pound, flushing, released resources, the
    truncation by \<open>sizeof\<close> of a pointer and the use of a closed cached handle.
  \<^item> \<open>Ivr_Phrase\<close>: \<open>switch_ivr_phrase_macro_event\<close> with nested macros. Fuel bounds the nesting;
    one unit more than the depth at which the recursion check refuses is enough. The channel
    variables a macro changes are restored on every return.
  \<^item> \<open>Ivr_Tones\<close>: \<open>switch_ivr_gentones\<close>, the shared file handle, \<open>switch_ivr_soft_hold\<close>. The
    tones reach the channel in order; the codec is released except on one path.
  \<^item> \<open>Ivr_Record\<close>: the recording variables, \<open>switch_ivr_record_file_event\<close> and
    \<open>switch_ivr_record_file\<close>. The limit ends the recording, the file receives the frames that
    were read, silence ends it exactly on a long enough run of quiet frames, the file is closed
    except on one path, the recursion check is balanced except on one, and an indication file
    without a write codec leads to a null pointer.
  \<^item> \<open>Ivr_Play\<close>: \<open>switch_ivr_play_file\<close>, with \<open>Ivr_Path\<close> for the file names it shares with
    recording. Every byte of the audio has its place in the model of \<open>abuf\<close>. Undisturbed
    playback sends exactly what was read, the timeout bounds what is sent, files and codecs are
    released, the speed loop ends inside the buffer; two ways in which the end of a file is
    damaged and a stale backup file are shown too.
  \<^item> \<open>Base64\<close> (\<open>util/base64.c\<close>): equality with the RFC 4648 encoding, round trip, and the inputs
    on which the code leaves its buffers.
  \<^item> \<open>Websocket\<close> (\<open>http/websocket_parser.c\<close>): the frame parser refines a parser that reads one
    byte at a time; frames that were built are parsed back from any chunks; sizes; the
    wrap-around of the length test.
  \<^item> \<open>Readbuf\<close> (\<open>event/unpack.c\<close>, the receive path of \<open>event/hevent.c\<close> and \<open>event/nio.c\<close>, the
    varints of \<open>base/hmath.h\<close>): each unpacker is an interpretation of the locale \<open>framing\<close>, their
    dispatch one of \<open>unpacker\<close>, whose client lemmas give that the packages delivered do not
    depend on how the stream was cut into reads.
  \<^item> \<open>Multipart\<close> (\<open>http/multipart_parser.c\<close>): the chunked parser refines a reference parser
    that reads single characters, and bodies of well-formed parts are reported exactly.
  \<^item> \<open>Timer_Heap\<close> (\<open>base/heap.h\<close>): the intrusive binary heap, every store a function update. The
    links refine a list of nodes (\<open>shape\<close>), each exchange keeps the complete tree, the loops
    return, and the operations keep the order of a heap. The locale \<open>timer_queue\<close> is what the event
    loop relies on; it is interpreted on the heap.
  \<^item> \<open>Htime\<close> (\<open>base/htime.c\<close>): dates against day numbers, month and weekday names, the next time of a
    periodic timer. \<open>localtime\<close> and \<open>mktime\<close> are arguments.
  \<^item> \<open>Event_Loop\<close> (\<open>event/hloop.c\<close>, the macros of \<open>event/hevent.h\<close>): idle events, timers, pending
    events, the clock, one pass of the loop. Memory that was freed is outside the domain of \<open>mem\<close>, and
    using it gives \<open>None\<close>. \<open>Event_Timers\<close>: an inductive step relation for the life of a loop, the
    invariant that ties the heaps to the events, firing of the timers that are due, the time the
    poller blocks. \<open>Event_Pending\<close>: the lists of pending events, the order of the callbacks, that a
    due timer is called in the same pass, and a use after free.
  \<^item> \<open>Hqueue\<close> (\<open>base/queue.h\<close>): the growing array queue, an interpretation of the locale \<open>fifo\<close>.
    \<open>Writebuf\<close> (\<open>hio_write\<close>, \<open>nio_write\<close>, \<open>hio_close\<close> of \<open>event/nio.c\<close>, \<open>hio_done\<close> of \<open>event/hevent.c\<close>): the
    sending side of a connection as a step relation. Accepted bytes reach the socket in order, a
    writable socket empties the queue and completes a close that was put off; a close inside the
    write callback removes an element from the freed queue.
  \<^item> \<open>Block_Hash\<close>: what SHA-1 and MD5 share, as locales (feeding a block function through a 64-byte
    buffer, padding, the digest). \<open>Sha1\<close> (\<open>util/sha1.c\<close>) and \<open>Md5\<close> (\<open>util/md5.c\<close>) interpret them: a
    message in any pieces gives the digest of FIPS 180 and of RFC 1321.
  \<^item> \<open>Ws_Def\<close> (\<open>http/wsdef.c\<close>): the accept key of the handshake is the one of RFC 6455, and the frames
    made for sending are parsed back.
  \<^item> \<open>Dns\<close> (\<open>protocol/dns.c\<close>): names, records, messages, the query and the lookup. Packing and
    unpacking are inverse; names that overflow, records that are sent uninitialised, and the lookup
    that reads the buffer of a function that has returned.

  \<^bold>\<open>How the parts interact.\<close> A speech module feeds the audio queue from its network thread,
  where libhv reads the socket (\<open>Readbuf\<close>) and parses frames (\<open>Websocket\<close>; \<open>Ws_Def\<close> computes
  the handshake with \<open>Sha1\<close> and \<open>Base64\<close>); the call thread takes the audio out in \<open>switch_ivr_speak_text_handle\<close>
  (\<open>Ivr_Speech\<close>), which is called by phrase macros (\<open>Ivr_Phrase\<close>) and prompts
  (\<open>Ivr_Digits\<close>, \<open>Ivr_Collect\<close>). The event loop calls the read path of \<open>Readbuf\<close> and the write path of
  \<open>Writebuf\<close> from its poller, which stands between them as an argument.

  \<^bold>\<open>Not modelled.\<close> Logging and debug output everywhere. The structure
  declarations of \<open>switch_module_interfaces.h\<close>, which have no behaviour. The C++ modules under
  \<open>src/src/mod\<close> and the C++ part of libhv. The rest of libhv's C code: the event loop's pollers,
  accepting and connecting, posting events from other threads, sockets, logging and TLS back ends
  are system calls; printing dates is left out; the red-black tree of the reliable UDP code, the
  HTTP parser, KCP and MQTT are candidates for extension.
\<close>

end
